(* ===== verification/C4_Prelude.thy ===== *)
theory C4_Prelude
  imports Main "HOL-Library.Word" "HOL-Library.Monad_Syntax"
begin

text \<open>
  Shared vocabulary of the development: the fixed-width integer types of
  \<^verbatim>\<open>src/include/stdlib.h\<close>, the lemma collections that the component theories
  fill, facts about words that several components need, and the theory of circular
  doubly linked chains.  The kernel keeps two kinds of such chains, the
  \<^verbatim>\<open>List\<close>/\<^verbatim>\<open>ListItem\<close> rings of processes and threads and the ring of free
  physical blocks; their proofs share the lemmas below through the locale
  \<open>dlist_store\<close>.
\<close>

section \<open>Types, collections\<close>

type_synonym u8 = "8 word"
type_synonym u16 = "16 word"
type_synonym u32 = "32 word"
type_synonym u64 = "64 word"

named_theorems chain_intros \<open>facts that build a ring after an update of its links\<close>
named_theorems store_laws \<open>read-after-write laws of the stores the components use\<close>
named_theorems frame_laws \<open>what an operation leaves alone\<close>

unbundle bit_operations_syntax

section \<open>Words\<close>

lemma word_add_1_neq [simp]: "(x :: 'a::len word) + 1 \<noteq> x" "x \<noteq> x + 1"
  by simp_all

lemma u32_less: "unat (x :: u32) < 2 ^ 32"
proof -
  have "unat x < 2 ^ LENGTH(32)" by (rule unsigned_less)
  then show ?thesis by simp
qed

lemma u8_less: "unat (x :: u8) < 2 ^ 8"
proof -
  have "unat x < 2 ^ LENGTH(8)" by (rule unsigned_less)
  then show ?thesis by simp
qed

lemma u16_less: "unat (x :: u16) < 2 ^ 16"
proof -
  have "unat x < 2 ^ LENGTH(16)" by (rule unsigned_less)
  then show ?thesis by simp
qed

lemma unat_of_nat32: "n < 2 ^ 32 \<Longrightarrow> unat (of_nat n :: u32) = n"
  by (simp add: unsigned_of_nat take_bit_nat_eq_self)

lemma word_of_unat [simp]: "(of_nat (unat x) :: 'a::len word) = x"
  by simp

lemma unat_Suc_word:
  "unat x + 1 < 2 ^ LENGTH('a) \<Longrightarrow> unat ((x :: 'a::len word) + 1) = Suc (unat x)"
  by (simp add: unat_word_ariths)

lemma unat_add_le:
  "unat x + n < 2 ^ LENGTH('a) \<Longrightarrow> unat ((x :: 'a::len word) + of_nat n) = unat x + n"
  by (simp add: unat_word_ariths unsigned_of_nat take_bit_nat_eq_self)

lemma of_nat_inj_word:
  "i < 2 ^ LENGTH('a) \<Longrightarrow> j < 2 ^ LENGTH('a) \<Longrightarrow>
   ((of_nat i :: 'a::len word) = of_nat j) = (i = j)"
  by (simp add: word_of_nat_eq_iff take_bit_nat_eq_self)

lemma disjoint_neq: "a \<in> A \<Longrightarrow> b \<in> B \<Longrightarrow> B \<inter> A = {} \<Longrightarrow> a \<noteq> b"
  by auto

section \<open>Chains\<close>

text \<open>
  \<open>linked f xs y\<close>: following \<open>f\<close> from each element of \<open>xs\<close> gives the next
  element of \<open>xs\<close>, and \<open>y\<close> after the last.  A \<open>ring\<close> is linked forward along
  \<open>nxt\<close> back to its head and backward along \<open>prv\<close> back to its last element.
\<close>

fun linked :: "('a \<Rightarrow> 'a) \<Rightarrow> 'a list \<Rightarrow> 'a \<Rightarrow> bool" where
  "linked f [] y = True"
| "linked f [x] y = (f x = y)"
| "linked f (x # z # xs) y = (f x = z \<and> linked f (z # xs) y)"

definition ring :: "('a \<Rightarrow> 'a) \<Rightarrow> ('a \<Rightarrow> 'a) \<Rightarrow> 'a list \<Rightarrow> bool" where
  "ring nxt prv xs \<longleftrightarrow>
     distinct xs \<and> linked nxt xs (hd xs) \<and> linked prv (rev xs) (last xs)"

lemma linked_Cons:
  "linked f (x # xs) y = (f x = hd (xs @ [y]) \<and> linked f xs y)"
  by (cases xs) auto

lemma linked_append:
  "linked f (xs @ ys) z = (linked f xs (hd (ys @ [z])) \<and> linked f ys z)"
  by (induction xs) (auto simp: linked_Cons hd_append)

lemma linked_cong:
  "(\<And>x. x \<in> set xs \<Longrightarrow> f x = g x) \<Longrightarrow> linked f xs y = linked g xs y"
  by (induction xs) (auto simp: linked_Cons)

lemma linked_upd [simp]: "a \<notin> set xs \<Longrightarrow> linked (f(a := b)) xs y = linked f xs y"
  by (rule linked_cong) auto

lemma linked_nth:
  "linked f xs y \<Longrightarrow> i < length xs \<Longrightarrow> f (xs ! i) = (xs @ [y]) ! Suc i"
proof (induction xs arbitrary: i)
  case Nil
  then show ?case by simp
next
  case (Cons x xs)
  then show ?case
    by (cases i) (auto simp: linked_Cons hd_conv_nth nth_append)
qed

lemma ring_cong:
  assumes "\<And>x. x \<in> set xs \<Longrightarrow> n x = n' x" and "\<And>x. x \<in> set xs \<Longrightarrow> p x = p' x"
  shows "ring n p xs = ring n' p' xs"
proof -
  have "linked n xs (hd xs) = linked n' xs (hd xs)"
    using assms(1) by (rule linked_cong)
  moreover have "linked p (rev xs) (last xs) = linked p' (rev xs) (last xs)"
    using assms(2) by (intro linked_cong) simp
  ultimately show ?thesis by (simp add: ring_def)
qed

lemma ring_distinct: "ring n p xs \<Longrightarrow> distinct xs"
  by (simp add: ring_def)

lemma ring_rotate: "ring n p (xs @ ys) \<Longrightarrow> ring n p (ys @ xs)"
  by (cases "xs = [] \<or> ys = []")
    (auto simp: ring_def linked_append hd_append hd_rev last_append)

lemma ring_head_prev: "ring n p xs \<Longrightarrow> xs \<noteq> [] \<Longrightarrow> p (hd xs) = last xs"
  by (cases xs) (auto simp: ring_def linked_append)

lemma ring_last_next: "ring n p xs \<Longrightarrow> xs \<noteq> [] \<Longrightarrow> n (last xs) = hd xs"
  by (cases xs rule: rev_cases) (auto simp: ring_def linked_append)

lemma ring_nth_next:
  assumes "ring n p xs" and "i < length xs"
  shows "n (xs ! i) = xs ! (Suc i mod length xs)"
proof (cases "Suc i < length xs")
  case True
  with assms linked_nth [of n xs "hd xs" i] show ?thesis by (simp add: ring_def nth_append)
next
  case False
  with assms(2) have i: "Suc i = length xs" by simp
  with assms linked_nth [of n xs "hd xs" i] have "n (xs ! i) = hd xs"
    by (simp add: ring_def nth_append)
  moreover have "xs \<noteq> []" using assms(2) by auto
  ultimately show ?thesis using i by (simp add: hd_conv_nth)
qed

lemma ring_next_in: "ring n p xs \<Longrightarrow> x \<in> set xs \<Longrightarrow> n x \<in> set xs"
  by (metis in_set_conv_nth length_pos_if_in_set mod_less_divisor ring_nth_next)

lemma ring_rev: "ring n p xs \<Longrightarrow> ring p n (rev xs)"
  by (auto simp: ring_def hd_rev last_rev)

lemma ring_prev_in: "ring n p xs \<Longrightarrow> x \<in> set xs \<Longrightarrow> p x \<in> set xs"
  using ring_next_in ring_rev by fastforce

lemma ring_funpow:
  assumes "ring n p xs" and "xs \<noteq> []"
  shows "(n ^^ k) (hd xs) = xs ! (k mod length xs)"
proof (induction k)
  case 0
  with assms(2) show ?case by (simp add: hd_conv_nth)
next
  case (Suc k)
  with assms show ?case by (simp add: ring_nth_next mod_Suc_eq)
qed

lemma ring_single [simp]: "ring n p [x] = (n x = x \<and> p x = x)"
  by (auto simp: ring_def)

lemma ring_split_next: "ring n p (as @ x # bs) \<Longrightarrow> n x = hd (bs @ as @ [x])"
  using ring_rotate [of n p as "x # bs"] by (simp add: ring_def linked_Cons)

lemma ring_split_prev: "ring n p (as @ x # bs) \<Longrightarrow> p x = last (x # bs @ as)"
  using ring_rotate [of n p as "x # bs"] ring_head_prev [of n p "x # bs @ as"] by simp

text \<open>Inserting a fresh node between the last node and the head.\<close>

lemma ring_snoc [chain_intros]:
  assumes r: "ring n p xs" and ne: "xs \<noteq> []" and a: "a \<notin> set xs"
    and h: "h = hd xs" and l: "l = last xs"
  shows "ring (n(a := h, l := a)) (p(a := l, h := a)) (xs @ [a])"
proof -
  obtain ys where y: "xs = ys @ [l]" using ne l by (metis append_butlast_last_id)
  obtain zs where z: "xs = h # zs" using ne h by (cases xs) auto
  have d: "distinct xs" using r by (rule ring_distinct)
  have "linked n (ys @ [l]) h" using r unfolding ring_def h y by simp
  then have "linked n ys l" by (simp add: linked_append)
  moreover have "l \<notin> set ys" "a \<notin> set ys" "a \<noteq> l" using d a y by auto
  ultimately have 1: "linked (n(a := h, l := a)) ((ys @ [l]) @ [a]) h"
    by (simp add: linked_append)
  have "linked p (rev (h # zs)) l" using r unfolding ring_def l z by simp
  then have "linked p (rev zs) h" by (simp add: linked_append)
  moreover have "h \<notin> set zs" "a \<notin> set zs" "a \<noteq> h" using d a z by auto
  ultimately have "linked (p(a := l, h := a)) (rev zs @ [h]) a"
    by (simp add: linked_append)
  moreover have "rev xs = rev zs @ [h]" by (simp add: z)
  moreover have "hd (rev xs @ [a]) = l" by (simp add: y)
  ultimately have 2: "linked (p(a := l, h := a)) (a # rev xs) a"
    using \<open>a \<noteq> h\<close> by (simp add: linked_Cons)
  show ?thesis
    using 1 2 d a ne h by (simp add: ring_def y [symmetric])
qed

text \<open>Taking a node out.\<close>

lemma ring_unlink_head:
  assumes r: "ring n p (x # ys)" and ne: "ys \<noteq> []"
  shows "ring (n(p x := n x)) (p(n x := p x)) ys"
proof -
  obtain us l where u: "ys = us @ [l]" using ne by (metis append_butlast_last_id)
  obtain h vs where v: "ys = h # vs" using ne by (cases ys) auto
  have d: "distinct ys" using r by (auto simp: ring_def)
  have nx: "n x = h" using r v by (simp add: ring_def)
  have "linked p ((l # rev us) @ [x]) l" using r u by (simp add: ring_def)
  then have px: "p x = l" unfolding linked_append by simp
  have "linked n (us @ [l]) x" using r u by (simp add: ring_def linked_Cons)
  then have "linked n us l" by (simp add: linked_append)
  with d u have 1: "linked (n(l := h)) (us @ [l]) h" by (simp add: linked_append)
  have "linked p (rev ys @ [x]) l" using r u by (simp add: ring_def)
  then have "linked p (rev vs @ [h]) x" using v by (simp add: linked_append)
  then have "linked p (rev vs) h" by (simp add: linked_append)
  with d v have 2: "linked (p(h := l)) (rev vs @ [h]) l" by (simp add: linked_append)
  have "hd ys = h" "rev ys = rev vs @ [h]" by (simp_all add: v)
  moreover have "last ys = l" by (simp add: u)
  ultimately show ?thesis using 1 2 d nx px by (simp add: ring_def u [symmetric])
qed

lemma ring_unlink [chain_intros]:
  assumes "ring n p (as @ x # bs)" and "as @ bs \<noteq> []"
  shows "ring (n(p x := n x)) (p(n x := p x)) (as @ bs)"
proof -
  have "ring n p ((x # bs) @ as)" using assms(1) by (rule ring_rotate)
  then have "ring (n(p x := n x)) (p(n x := p x)) (bs @ as)"
    using assms(2) by (intro ring_unlink_head) auto
  then show ?thesis by (rule ring_rotate)
qed

end
