(* ===== verification/Listfs_Format.thy ===== *)
theory Listfs_Format
  imports C4_Prelude
begin

text \<open>
  The format of a ListFS disk, \<^verbatim>\<open>src/include/listfs.h\<close>, which the kernel reads and
  \<^verbatim>\<open>make_listfs/make_listfs.c\<close> writes: the packed structures and their bytes, little end
  first, the blocks of an image, and a reader that says what an image holds.  The kernel's and
  the builder's theories meet here.
\<close>

section \<open>Numbers\<close>

fun le_bytes :: "nat \<Rightarrow> 'a::len word \<Rightarrow> u8 list" where
  "le_bytes 0 w = []"
| "le_bytes (Suc n) w = ucast w # le_bytes n (drop_bit 8 w)"

fun le_word :: "u8 list \<Rightarrow> 'a::len word" where
  "le_word [] = 0"
| "le_word (b # bs) = ucast b OR push_bit 8 (le_word bs)"

lemma length_le_bytes [simp]: "length (le_bytes n w) = n"
  by (induction n arbitrary: w) simp_all

lemma le_word_take: "le_word (le_bytes n w) = (take_bit (8 * n) w :: 'a::len word)"
proof (induction n arbitrary: w)
  case 0
  then show ?case by simp
next
  case (Suc n)
  show ?case
  proof (rule bit_word_eqI)
    fix k
    assume "k < LENGTH('a)"
    then show "bit (le_word (le_bytes (Suc n) w) :: 'a word) k = bit (take_bit (8 * Suc n) w) k"
      by (auto simp: Suc.IH bit_or_iff bit_push_bit_iff bit_unsigned_iff bit_take_bit_iff bit_drop_bit_eq
        possible_bit_word not_less)
  qed
qed

lemma le_round_trip [simp]: "LENGTH('a) \<le> 8 * n \<Longrightarrow> le_word (le_bytes n (w :: 'a::len word)) = w"
  by (simp add: le_word_take take_bit_word_eq_self)

lemma ucast_drop_or: "ucast (ucast (b :: u8) OR push_bit 8 w :: 'a::len word) = b" if "8 \<le> LENGTH('a)"
  using that by (intro bit_word_eqI) (auto simp: bit_or_iff bit_push_bit_iff bit_unsigned_iff possible_bit_word)

lemma drop_or: "drop_bit 8 (ucast (b :: u8) OR push_bit 8 w :: 'a::len word) = take_bit (LENGTH('a) - 8) w"
  by (intro bit_word_eqI)
    (auto simp: bit_or_iff bit_push_bit_iff bit_unsigned_iff bit_drop_bit_eq bit_take_bit_iff possible_bit_word dest: bit_imp_le_length)

lemma le_bytes_take: "8 * n \<le> k \<Longrightarrow> k \<le> LENGTH('a) \<Longrightarrow> le_bytes n (take_bit k (w :: 'a::len word)) = le_bytes n w"
proof (induction n arbitrary: w k)
  case 0
  then show ?case by simp
next
  case (Suc n)
  have "ucast (take_bit k w) = (ucast w :: u8)"
    using Suc.prems by (intro bit_word_eqI) (auto simp: bit_unsigned_iff bit_take_bit_iff possible_bit_word)
  moreover have "drop_bit 8 (take_bit k w) = take_bit (k - 8) (drop_bit 8 w)"
    using Suc.prems by (intro bit_word_eqI) (auto simp: bit_take_bit_iff bit_drop_bit_eq)
  ultimately show ?case using Suc.IH [of "k - 8"] Suc.prems by simp
qed

lemma le_bytes_word: "8 * length bs \<le> LENGTH('a) \<Longrightarrow> le_bytes (length bs) (le_word bs :: 'a::len word) = bs"
proof (induction bs)
  case Nil
  then show ?case by simp
next
  case (Cons b bs)
  then show ?case using ucast_drop_or [of b "le_word bs :: 'a word"] drop_or [of b "le_word bs :: 'a word"]
      le_bytes_take [of "length bs" "LENGTH('a) - 8" "le_word bs :: 'a word"] by simp
qed

section \<open>Structures\<close>

record listfs_header =
  jump :: "u8 list"
  magic :: u32
  version :: u32
  h_flags :: u32
  base :: u64
  h_size :: u64
  map_base :: u64
  map_size :: u64
  first_file :: u64
  uid :: u64
  h_block_size :: u32

record listfs_file_header =
  fh_name :: "u8 list"
  fh_next :: u64
  fh_prev :: u64
  fh_parent :: u64
  fh_flags :: u64
  fh_data :: u64
  fh_size :: u64
  create_time :: u64
  modify_time :: u64
  access_time :: u64

definition header_bytes :: "listfs_header \<Rightarrow> u8 list" where
  "header_bytes h = jump h @ le_bytes 4 (magic h) @ le_bytes 4 (version h) @ le_bytes 4 (h_flags h) @
     le_bytes 8 (base h) @ le_bytes 8 (h_size h) @ le_bytes 8 (map_base h) @ le_bytes 8 (map_size h) @
     le_bytes 8 (first_file h) @ le_bytes 8 (uid h) @ le_bytes 4 (h_block_size h)"

definition file_header_bytes :: "listfs_file_header \<Rightarrow> u8 list" where
  "file_header_bytes h = fh_name h @ le_bytes 8 (fh_next h) @ le_bytes 8 (fh_prev h) @ le_bytes 8 (fh_parent h) @
     le_bytes 8 (fh_flags h) @ le_bytes 8 (fh_data h) @ le_bytes 8 (fh_size h) @ le_bytes 8 (create_time h) @
     le_bytes 8 (modify_time h) @ le_bytes 8 (access_time h)"

text \<open>The member of \<open>n\<close> bytes at an offset.\<close>

definition member :: "nat \<Rightarrow> nat \<Rightarrow> u8 list \<Rightarrow> 'a::len word" where
  "member off n bytes = le_word (take n (drop off bytes))"

definition header_of :: "u8 list \<Rightarrow> listfs_header" where
  "header_of b = \<lparr>jump = take 4 b, magic = member 4 4 b, version = member 8 4 b, h_flags = member 12 4 b,
     base = member 16 8 b, h_size = member 24 8 b, map_base = member 32 8 b, map_size = member 40 8 b,
     first_file = member 48 8 b, uid = member 56 8 b, h_block_size = member 64 4 b\<rparr>"

definition file_header_of :: "u8 list \<Rightarrow> listfs_file_header" where
  "file_header_of b = \<lparr>fh_name = take 256 b, fh_next = member 256 8 b, fh_prev = member 264 8 b,
     fh_parent = member 272 8 b, fh_flags = member 280 8 b, fh_data = member 288 8 b, fh_size = member 296 8 b,
     create_time = member 304 8 b, modify_time = member 312 8 b, access_time = member 320 8 b\<rparr>"

lemma drop_here: "length xs = n \<Longrightarrow> drop n (xs @ ys) = ys" "length xs = n \<Longrightarrow> take n (xs @ ys) = xs"
  by simp_all

lemma member_skip: "length xs \<le> off \<Longrightarrow> member off n (xs @ ys) = member (off - length xs) n ys"
  by (simp add: member_def)

lemma member_here: "LENGTH('a) \<le> 8 * n \<Longrightarrow> member 0 n (le_bytes n (w :: 'a::len word) @ ys) = w"
  by (simp add: member_def drop_here)

lemma header_length: "length (jump h) = 4 \<Longrightarrow> length (header_bytes h) = 68"
  by (simp add: header_bytes_def)

lemma file_header_length: "length (fh_name h) = 256 \<Longrightarrow> length (file_header_bytes h) = 328"
  by (simp add: file_header_bytes_def)

lemma header_round_trip:
  "length (jump h) = 4 \<Longrightarrow> header_of (header_bytes h @ rest) = h"
  by (simp add: header_of_def header_bytes_def member_skip member_here)

lemma file_header_round_trip:
  "length (fh_name h) = 256 \<Longrightarrow> file_header_of (file_header_bytes h @ rest) = h"
  by (simp add: file_header_of_def file_header_bytes_def member_skip member_here)

lemma member_bytes: "8 * n \<le> LENGTH('a) \<Longrightarrow> off + n \<le> length b \<Longrightarrow>
    le_bytes n (member off n b :: 'a::len word) = take n (drop off b)"
  using le_bytes_word [of "take n (drop off b)", where 'a = 'a] by (simp add: member_def)

lemma file_header_reads_back:
  assumes "length b = 328"
  shows "file_header_bytes (file_header_of b) = b"
proof -
  have e: "take m (drop k b) @ take n (drop (m + k) b) = take (m + n) (drop k b)" for m n k
    by (simp add: take_add add.commute)
  have "file_header_bytes (file_header_of b) = take 256 (drop 0 b) @ take 8 (drop 256 b) @ take 8 (drop 264 b) @
      take 8 (drop 272 b) @ take 8 (drop 280 b) @ take 8 (drop 288 b) @ take 8 (drop 296 b) @ take 8 (drop 304 b) @
      take 8 (drop 312 b) @ take 8 (drop 320 b)"
    using assms by (simp add: file_header_bytes_def file_header_of_def member_bytes)
  also have "\<dots> = b" using assms e [of 256 0 8] e [of 264 0 8] e [of 272 0 8] e [of 280 0 8] e [of 288 0 8]
      e [of 296 0 8] e [of 304 0 8] e [of 312 0 8] e [of 320 0 8] by (simp flip: append_assoc)
  finally show ?thesis .
qed

section \<open>Images\<close>

text \<open>A block of an image, and the numbers a block list holds.\<close>

definition block :: "nat \<Rightarrow> (nat \<Rightarrow> u8) \<Rightarrow> nat \<Rightarrow> u8 list" where
  "block bs img i = map img [bs * i..<bs * i + bs]"

lemma length_block [simp]: "length (block bs img i) = bs"
  by (simp add: block_def)

definition numbers :: "u8 list \<Rightarrow> u64 list" where
  "numbers b = map (\<lambda>k. member (8 * k) 8 b) [0..<length b div 8]"

definition number_bytes :: "u64 list \<Rightarrow> u8 list" where
  "number_bytes ws = concat (map (le_bytes 8) ws)"

lemma length_number_bytes [simp]: "length (number_bytes ws) = 8 * length ws"
  by (induction ws) (simp_all add: number_bytes_def)

lemma member_number: "k < length ws \<Longrightarrow> member (8 * k) 8 (number_bytes ws @ rest) = ws ! k"
proof (induction ws arbitrary: k)
  case Nil
  then show ?case by simp
next
  case (Cons w ws)
  have e: "number_bytes (w # ws) @ rest = le_bytes 8 w @ (number_bytes ws @ rest)"
    by (simp add: number_bytes_def)
  show ?case
  proof (cases k)
    case 0
    then show ?thesis unfolding e by (simp add: member_here)
  next
    case (Suc j)
    then show ?thesis unfolding e using Cons by (simp add: member_skip)
  qed
qed

lemma numbers_round_trip:
  assumes "length rest < 8"
  shows "numbers (number_bytes ws @ rest) = ws"
proof -
  have "length (number_bytes ws @ rest) div 8 = length ws" using assms by simp
  then show ?thesis unfolding numbers_def
    by (intro nth_equalityI) (simp_all add: member_number)
qed

text \<open>
  The data of a file: a block list ends with the number of the next list, \<open>-1\<close> for none, and
  its other numbers up to the first \<open>-1\<close> are the data blocks.  A reader of an image of \<open>lim\<close>
  blocks follows no other numbers, and expects that only a full list has a next one.
\<close>

fun read_file :: "nat \<Rightarrow> nat \<Rightarrow> nat \<Rightarrow> (nat \<Rightarrow> u8) \<Rightarrow> u64 \<Rightarrow> u8 list option" where
  "read_file lim 0 bs img i = None"
| "read_file lim (Suc n) bs img i =
     (if i = - 1 then Some []
      else if lim \<le> unat i then None
      else
        let ns = numbers (block bs img (unat i));
            ds = takeWhile (\<lambda>d. d \<noteq> - 1) (butlast ns)
        in if (\<exists>d \<in> set ds. lim \<le> unat d) \<or> (length ds + 1 < length ns \<and> last ns \<noteq> - 1) then None
           else map_option (\<lambda>rest. concat (map (\<lambda>d. block bs img (unat d)) ds) @ rest)
             (read_file lim n bs img (last ns)))"

definition file_header_at :: "nat \<Rightarrow> (nat \<Rightarrow> u8) \<Rightarrow> u64 \<Rightarrow> listfs_file_header" where
  "file_header_at bs img i = file_header_of (block bs img (unat i))"

text \<open>Images that agree on a set of blocks.\<close>

definition agree :: "nat \<Rightarrow> nat set \<Rightarrow> (nat \<Rightarrow> u8) \<Rightarrow> (nat \<Rightarrow> u8) \<Rightarrow> bool" where
  "agree bs A img img' \<longleftrightarrow> (\<forall>i \<in> A. block bs img' i = block bs img i)"

lemma agree_refl [simp]: "agree bs A img img"
  by (simp add: agree_def)

lemma agree_mono: "agree bs A img img' \<Longrightarrow> B \<subseteq> A \<Longrightarrow> agree bs B img img'"
  by (auto simp: agree_def)

lemma agree_trans: "agree bs A x y \<Longrightarrow> agree bs A y z \<Longrightarrow> agree bs A x z"
  by (simp add: agree_def)

lemma agreeD: "agree bs A img img' \<Longrightarrow> i \<in> A \<Longrightarrow> block bs img' i = block bs img i"
  by (simp add: agree_def)

end
