(* ===== verification/Make_Listfs.thy ===== *)
theory Make_Listfs
  imports Listfs_Format
begin

text \<open>
  The builder of disk images, \<^verbatim>\<open>make_listfs/make_listfs.c\<close>.  Its globals are a record; the
  output file is the bytes at its offsets, its length and the position in it.  The host is a
  parameter: the files and directories with their names, times and contents, the clock, the
  random number, and the bytes of memory fresh from \<^verbatim>\<open>malloc\<close>.  An operation ends the program
  with a code (\<open>Exit\<close>), or reads or writes outside its arrays (\<open>Fault\<close>).  \<^verbatim>\<open>long\<close> has 32 bits, as on
  the system that \<^verbatim>\<open>build.bat\<close> runs on.
\<close>

section \<open>Definitions\<close>

datatype failure = Exit int | Fault

definition and_then :: "'e + 'a \<Rightarrow> ('a \<Rightarrow> 'e + 'b) \<Rightarrow> 'e + 'b" where
  "and_then m f = (case m of Inl e \<Rightarrow> Inl e | Inr x \<Rightarrow> f x)"

lemma and_then_simps [simp]: "and_then (Inl e) f = Inl e" "and_then (Inr x) f = f x"
  by (simp_all add: and_then_def)

lemma and_then_cong [fundef_cong]:
  "m = n \<Longrightarrow> (\<And>x. n = Inr x \<Longrightarrow> f x = g x) \<Longrightarrow> and_then m f = and_then n g"
  by (cases n) simp_all

record builder =
  output_file_name :: "string option"
  boot_loader_file_name :: "string option"
  source_dir_name :: "string option"
  block_size :: int
  block_count :: int
  disk :: "nat \<Rightarrow> u8"
  disk_len :: nat
  disk_pos :: nat
  fs_header :: listfs_header
  boot_code :: "u8 list"
  disk_map :: "u8 list"
  boot_loader_extra_blocks :: int

text \<open>A file open for reading, and an entry of a directory; \<open>None\<close> where opening fails.\<close>

record infile =
  unread :: "u8 list"
  at_eof :: bool

record file_info =
  st_size :: u64
  st_ctime :: u64
  st_mtime :: u64
  st_atime :: u64

datatype node =
    File (node_name: "u8 list") (node_stat: file_info) "u8 list option"
  | Dir (node_name: "u8 list") (node_stat: file_info) "node list option"
  | Other (node_name: "u8 list") (node_stat: file_info)

record host =
  host_files :: "string \<Rightarrow> u8 list option"
  host_dirs :: "string \<Rightarrow> node list option"
  can_create :: "string \<Rightarrow> bool"
  can_write :: bool
  host_time :: u64
  host_rand :: u32
  fresh_byte :: "nat \<Rightarrow> u8"

subsection \<open>Options\<close>

fun atoi_digits_of :: "int \<Rightarrow> string \<Rightarrow> int" where
  "atoi_digits_of n [] = n"
| "atoi_digits_of n (c # cs) =
     (let d = of_char c - 48
      in if 0 \<le> d \<and> d \<le> 9 then atoi_digits_of (10 * n + d) cs else n)"

fun atoi_of :: "string \<Rightarrow> int" where
  "atoi_of [] = 0"
| "atoi_of (c # cs) =
     (if of_char c \<in> set [32 :: int, 9, 10, 11, 12, 13] then atoi_of cs
      else if c = CHR ''-'' then - atoi_digits_of 0 cs
      else if c = CHR ''+'' then atoi_digits_of 0 cs
      else atoi_digits_of 0 (c # cs))"

definition get_option :: "string \<Rightarrow> builder \<Rightarrow> builder" where
  "get_option arg st =
     (if take 3 arg = ''of='' then st\<lparr>output_file_name := Some (drop 3 arg)\<rparr>
      else if take 3 arg = ''bs='' then st\<lparr>block_size := atoi_of (drop 3 arg)\<rparr>
      else if take 5 arg = ''size='' then st\<lparr>block_count := atoi_of (drop 5 arg)\<rparr>
      else if take 5 arg = ''boot='' then st\<lparr>boot_loader_file_name := Some (drop 5 arg)\<rparr>
      else if take 4 arg = ''src='' then st\<lparr>source_dir_name := Some (drop 4 arg)\<rparr>
      else st)"

definition get_commandline_options :: "string list \<Rightarrow> builder \<Rightarrow> bool \<times> builder" where
  "get_commandline_options argv st =
     (let st = fold get_option (tl argv) st
      in (output_file_name st \<noteq> None \<and> block_count st \<noteq> 0, st))"

definition check_options :: "builder \<Rightarrow> bool" where
  "check_options st =
     (if block_size st < 512 \<and> block_size st mod 8 = 0 then False
      else if block_count st < 2 then False
      else True)"

subsection \<open>The output file\<close>

definition fseek :: "int \<Rightarrow> builder \<Rightarrow> builder" where
  "fseek off st = (if off < 0 then st else st\<lparr>disk_pos := nat off\<rparr>)"

definition fwrite :: "u8 list \<Rightarrow> builder \<Rightarrow> builder" where
  "fwrite data st =
     st\<lparr>disk := (\<lambda>p. if disk_pos st \<le> p \<and> p < disk_pos st + length data then data ! (p - disk_pos st)
                    else disk st p),
        disk_len := (if data = [] then disk_len st else max (disk_len st) (disk_pos st + length data)),
        disk_pos := disk_pos st + length data\<rparr>"

text \<open>An offset that is passed as a \<^verbatim>\<open>long\<close>.\<close>

definition long :: "u64 \<Rightarrow> int" where
  "long x = sint (ucast x :: u32)"

definition open_output_file :: "host \<Rightarrow> builder \<Rightarrow> bool \<times> builder" where
  "open_output_file hs st =
     (if \<not> can_create hs (the (output_file_name st)) then (False, st)
      else
        let st = st\<lparr>disk := (\<lambda>_. 0), disk_len := 0, disk_pos := 0\<rparr>;
            st = fseek (long (of_int (block_size st * (block_count st - 1)))) st
        in if \<not> can_write hs then (False, st)
           else (True, fwrite (replicate (nat (block_size st)) 0) st))"

definition write_block :: "u64 \<Rightarrow> u8 list \<Rightarrow> nat \<Rightarrow> builder \<Rightarrow> builder" where
  "write_block index data count st =
     fwrite (take (nat (block_size st) * count) data) (fseek (long (of_int (block_size st) * index)) st)"

definition fread :: "nat \<Rightarrow> infile \<Rightarrow> u8 list \<times> infile" where
  "fread n f = (take n (unread f), \<lparr>unread = drop n (unread f), at_eof = at_eof f \<or> length (unread f) < n\<rparr>)"

subsection \<open>Header and boot loader\<close>

text \<open>The blocks behind the first.  The size is positive where \<^verbatim>\<open>init_listfs_header\<close> calls this.\<close>

function copy_boot :: "u64 \<Rightarrow> u8 list \<Rightarrow> infile \<Rightarrow> builder \<Rightarrow> builder" where
  "copy_boot i buffer f st =
     (if at_eof f \<or> block_size st < 1 then st
      else
        let (bytes, f) = fread (nat (block_size st)) f;
            buffer = bytes @ drop (length bytes) buffer;
            st = write_block i buffer 1 st
        in copy_boot (i + 1) buffer f
             (st\<lparr>boot_loader_extra_blocks := boot_loader_extra_blocks st + 1\<rparr>))"
  by pat_completeness auto
termination
  by (relation "measure (\<lambda>(i, buffer, f, st). 2 * length (unread f) + (if at_eof f then 0 else 1))")
    (auto simp: fread_def)

declare copy_boot.simps [simp del]

definition init_listfs_header :: "host \<Rightarrow> builder \<Rightarrow> failure + builder" where
  "init_listfs_header hs st =
     (let bs = nat (block_size st); header = replicate bs 0;
          (header, st) =
            (case Option.bind (boot_loader_file_name st) (host_files hs) of
               None \<Rightarrow> (header, st)
             | Some bytes \<Rightarrow>
                 let (b, f) = fread bs \<lparr>unread = bytes, at_eof = False\<rparr>;
                     header = b @ drop (length b) header;
                     st = (if at_eof f then st else copy_boot 1 (replicate bs 0) f st)
                 in (header, st))
      in if bs < 68 then Inl Fault
         else Inr (st\<lparr>fs_header := (header_of header)\<lparr>magic := 0x84837376, version := 1, base := 0,
                       h_size := of_int (block_count st), first_file := - 1, h_flags := 0,
                       h_block_size := of_int (block_size st),
                       uid := push_bit 16 (host_time hs) OR ucast (host_rand hs AND 0xFFFF)\<rparr>,
                     boot_code := drop 68 header\<rparr>))"

definition store_listfs_header :: "builder \<Rightarrow> builder" where
  "store_listfs_header st = write_block 0 (header_bytes (fs_header st) @ boot_code st) 1 st"

subsection \<open>The map of blocks\<close>

definition map_bit :: "u8 list \<Rightarrow> u64 \<Rightarrow> bool option" where
  "map_bit m index =
     (let k = unat (drop_bit 3 index)
      in if k < length m then Some (m ! k AND push_bit (unat (index AND 7)) 1 \<noteq> 0) else None)"

definition set_map_bit :: "u8 list \<Rightarrow> u64 \<Rightarrow> u8 list" where
  "set_map_bit m index =
     (let k = unat (drop_bit 3 index) in m[k := m ! k OR push_bit (unat (index AND 7)) 1])"

function find_clear :: "u8 list \<Rightarrow> u64 \<Rightarrow> u64 \<Rightarrow> failure + u64" where
  "find_clear m blks index =
     (case map_bit m index of
        None \<Rightarrow> Inl Fault
      | Some False \<Rightarrow> Inr index
      | Some True \<Rightarrow>
          let index = index + 1
          in if blks \<le> index then Inl (Exit (- 3)) else find_clear m blks index)"
  by pat_completeness auto

termination
proof (relation "measure (\<lambda>(m, blks, index). unat (blks - 1 - index))")
  fix m :: "u8 list" and blks index x :: u64
  assume "x = index + 1" and "\<not> blks \<le> x"
  then have nz: "blks - 1 - index \<noteq> 0" by (auto simp: algebra_simps)
  then have "0 < unat (blks - 1 - index)" by (simp only: unat_gt_0 not_False_eq_True)
  then have "unat (blks - 1 - index - 1) < unat (blks - 1 - index)" by (simp only: unat_minus_one [OF nz])
  moreover have "blks - 1 - x = blks - 1 - index - 1" by (simp add: \<open>x = index + 1\<close>)
  ultimately show "((m, blks, x), m, blks, index) \<in> measure (\<lambda>(m, blks, index). unat (blks - 1 - index))"
    by (simp only: in_measure prod.case)
qed simp

declare find_clear.simps [simp del]

definition alloc_disk_block :: "builder \<Rightarrow> failure + u64 \<times> builder" where
  "alloc_disk_block st =
     and_then (find_clear (disk_map st) (h_size (fs_header st)) 0)
       (\<lambda>index. Inr (index, st\<lparr>disk_map := set_map_bit (disk_map st) index\<rparr>))"

definition get_disk_block :: "u64 \<Rightarrow> builder \<Rightarrow> failure + builder" where
  "get_disk_block index st =
     (if map_bit (disk_map st) index = None then Inl Fault
      else Inr (st\<lparr>disk_map := set_map_bit (disk_map st) index\<rparr>))"

fun get_disk_blocks :: "nat \<Rightarrow> u64 \<Rightarrow> builder \<Rightarrow> failure + builder" where
  "get_disk_blocks 0 i st = Inr st"
| "get_disk_blocks (Suc n) i st = and_then (get_disk_block i st) (get_disk_blocks n (i + 1))"

definition init_disk_map :: "builder \<Rightarrow> failure + builder" where
  "init_disk_map st =
     (let bs = of_int (block_size st);
          map_base = of_int (boot_loader_extra_blocks st);
          map_size = of_int (block_count st div 8) :: u64;
          map_size = (if map_size mod bs \<noteq> 0 then map_size + bs else map_size);
          map_size = map_size div bs;
          st = st\<lparr>fs_header := (fs_header st)\<lparr>map_base := map_base, map_size := map_size\<rparr>,
                  disk_map := replicate (nat (block_size st) * unat map_size) 0\<rparr>
      in get_disk_blocks (unat (map_base + map_size)) 0 st)"

definition store_disk_map :: "builder \<Rightarrow> builder" where
  "store_disk_map st =
     write_block (map_base (fs_header st)) (disk_map st) (unat (map_size (fs_header st))) st"

subsection \<open>Files\<close>

text \<open>The loop over the numbers of a block list; \<open>list\<close> holds those already set.\<close>

fun data_loop :: "nat \<Rightarrow> u64 list \<Rightarrow> infile \<Rightarrow> builder \<Rightarrow> failure + u64 list \<times> infile \<times> builder" where
  "data_loop 0 list f st = Inr (list, f, st)"
| "data_loop (Suc n) list f st =
     (if at_eof f then data_loop n (list @ [- 1]) f st
      else
        let bs = nat (block_size st);
            (bytes, f) = fread bs f
        in if bytes = [] then data_loop n (list @ [- 1]) f st
           else
             and_then (alloc_disk_block st)
               (\<lambda>(block_index, st).
                  data_loop n (list @ [block_index]) f
                    (write_block block_index (bytes @ replicate (bs - length bytes) 0) 1 st)))"

text \<open>
  The blocks a map marks as taken, and those it still has: the descent in the recursion over
  block lists.
\<close>

definition taken :: "u8 list \<Rightarrow> nat set" where
  "taken m = {i. i < 8 * length m \<and> bit (m ! (i div 8)) (i mod 8)}"

definition clear :: "u8 list \<Rightarrow> nat set" where
  "clear m = {..<8 * length m} - taken m"

lemma index_parts: "unat (drop_bit 3 (i :: u64)) = unat i div 8" "unat ((i :: u64) AND 7) = unat i mod 8"
proof -
  show "unat (drop_bit 3 i) = unat i div 8" by (simp add: drop_bit_eq_div unat_div)
  have "i AND 7 = take_bit 3 i" by (simp add: take_bit_eq_mask mask_eq_exp_minus_1)
  then show "unat (i AND 7) = unat i mod 8"
    by (simp only: unsigned_take_bit_eq) (simp add: take_bit_eq_mod)
qed

lemma map_bit_taken:
  "map_bit m i = (if unat i < 8 * length m then Some (unat i \<in> taken m) else None)"
proof -
  have "unat i div 8 < length m \<longleftrightarrow> unat i < 8 * length m" by (simp add: div_less_iff_less_mult mult.commute)
  then show ?thesis
    by (simp add: map_bit_def Let_def index_parts taken_def bit_iff_and_push_bit_not_eq_0)
qed

lemma length_set_map_bit [simp]: "length (set_map_bit m i) = length m"
  by (simp add: set_map_bit_def Let_def)

lemma taken_set:
  assumes "unat i < 8 * length m"
  shows "taken (set_map_bit m i) = insert (unat i) (taken m)"
proof -
  have k: "unat i div 8 < length m" using assms by (simp add: div_less_iff_less_mult mult.commute)
  have b: "bit (2 ^ (unat i mod 8) :: u8) c \<longleftrightarrow> c = unat i mod 8" for c
    by (auto simp: bit_exp_iff possible_bit_word)
  show ?thesis
    by (auto simp: taken_def set_map_bit_def Let_def index_parts nth_list_update k bit_or_iff b assms)
      (metis div_mult_mod_eq)
qed

lemma finite_clear [simp]: "finite (clear m)"
  by (simp add: clear_def)

lemma clear_set: "unat i < 8 * length m \<Longrightarrow> clear (set_map_bit m i) = clear m - {unat i}"
  by (auto simp: clear_def taken_set)

lemma find_clear_sound:
  "find_clear m blks index = Inr i \<Longrightarrow> unat i \<in> clear m"
proof (induction m blks index rule: find_clear.induct)
  case (1 m blks index)
  have "map_bit m index = Some True \<Longrightarrow> \<not> blks \<le> index + 1 \<Longrightarrow> find_clear m blks (index + 1) = Inr i \<Longrightarrow>
      unat i \<in> clear m"
    using "1.IH" by simp
  with "1.prems" show ?case
    by (subst (asm) (1) find_clear.simps)
      (auto simp: Let_def map_bit_taken clear_def split: option.splits bool.splits if_splits)
qed

lemma alloc_clear:
  assumes "alloc_disk_block st = Inr (i, st')"
  shows "unat i \<in> clear (disk_map st) \<and> st' = st\<lparr>disk_map := set_map_bit (disk_map st) i\<rparr> \<and>
    clear (disk_map st') = clear (disk_map st) - {unat i}"
proof -
  have "find_clear (disk_map st) (h_size (fs_header st)) 0 = Inr i" "st' = st\<lparr>disk_map := set_map_bit (disk_map st) i\<rparr>"
    using assms by (auto simp: alloc_disk_block_def and_then_def split: sum.splits)
  moreover have "unat i < 8 * length (disk_map st)" if "unat i \<in> clear (disk_map st)"
    using that by (simp add: clear_def)
  ultimately show ?thesis using find_clear_sound [of "disk_map st" _ 0 i] by (simp add: clear_set)
qed

lemma write_block_map [simp]: "disk_map (write_block i d n st) = disk_map st"
  by (simp add: write_block_def fwrite_def fseek_def)

lemma data_loop_clear:
  "data_loop n list f st = Inr (list', f', st') \<Longrightarrow> clear (disk_map st') \<subseteq> clear (disk_map st)"
proof (induction n arbitrary: list f st)
  case 0
  then show ?case by simp
next
  case (Suc n)
  show ?case
  proof (cases "at_eof f \<or> fst (fread (nat (block_size st)) f) = []")
    case True
    then show ?thesis using Suc.prems by (auto dest: Suc.IH simp: split_beta Let_def split: if_splits)
  next
    case False
    then obtain i t where a: "alloc_disk_block st = Inr (i, t)" "clear (disk_map st') \<subseteq> clear (disk_map t)"
      using Suc.prems Suc.IH by (auto simp: split_beta Let_def and_then_def split: sum.splits dest!: Suc.IH)
    then show ?thesis using alloc_clear [OF a(1)] by blast
  qed
qed

function store_file_data :: "(nat \<Rightarrow> u8) \<Rightarrow> infile \<Rightarrow> builder \<Rightarrow> failure + u64 \<times> builder" where
  "store_file_data fresh f st =
     (if at_eof f then Inr (- 1, st)
      else if block_size st < 8 then Inl Fault
      else
        and_then (alloc_disk_block st) (\<lambda>(block_list_index, st).
        and_then (data_loop (nat (block_size st div 8 - 1)) [] f st) (\<lambda>(list, f, st).
        and_then (store_file_data fresh f st) (\<lambda>(next, st).
          let block_list = number_bytes (list @ [next]);
              rest = map fresh [length block_list..<nat (block_size st)]
          in Inr (block_list_index, write_block block_list_index (block_list @ rest) 1 st)))))"
  by pat_completeness auto

termination
proof (relation "measure (\<lambda>(fresh, f, st). card (clear (disk_map st)))", goal_cases)
  case 1
  then show ?case by simp
next
  case (2 fresh f st x i t y xs z f' u)
  then have a: "alloc_disk_block st = Inr (i, t)" and "clear (disk_map u) \<subseteq> clear (disk_map t)"
    by (auto dest: data_loop_clear)
  then have "clear (disk_map u) \<subset> clear (disk_map st)" using alloc_clear [OF a] by blast
  then show ?case by (simp add: psubset_card_mono)
qed

declare store_file_data.simps [simp del]

subsection \<open>Directories\<close>

text \<open>
  The buffer of a file header: the structure and the rest of the block.  \<^verbatim>\<open>strncpy\<close> fills the
  name with zeros.
\<close>

type_synonym header_buffer = "listfs_file_header \<times> u8 list"

definition buffer_bytes :: "header_buffer \<Rightarrow> u8 list" where
  "buffer_bytes b = file_header_bytes (fst b) @ snd b"

definition name_field :: "u8 list \<Rightarrow> u8 list" where
  "name_field name = take 255 name @ replicate (256 - length (take 255 name)) 0"

definition dots :: "u8 list \<Rightarrow> bool" where
  "dots name \<longleftrightarrow> name = [46] \<or> name = [46, 46]"

definition new_header :: "u64 \<Rightarrow> u64 \<Rightarrow> u8 list \<Rightarrow> file_info \<Rightarrow> listfs_file_header" where
  "new_header prev parent name info =
     \<lparr>fh_name = name_field name, fh_next = - 1, fh_prev = prev, fh_parent = parent, fh_flags = 0, fh_data = 0,
      fh_size = 0, create_time = st_ctime info, modify_time = st_mtime info, access_time = st_atime info\<rparr>"

text \<open>
  \<open>process_entries\<close> is the loop over the entries, with the variables \<^verbatim>\<open>prev_file\<close>, \<^verbatim>\<open>file_header\<close> and
  \<^verbatim>\<open>first_file\<close>; \<open>process_node\<close> is the part that depends on the kind of the entry.  A header
  does not fit into a block of fewer than 328 bytes, nor a path of 260 characters into
  \<^verbatim>\<open>file_name\<close>.
\<close>

function process_dir ::
    "(nat \<Rightarrow> u8) \<Rightarrow> u64 \<Rightarrow> u8 list \<Rightarrow> node list option \<Rightarrow> builder \<Rightarrow> failure + u64 \<times> builder"
  and process_entries ::
    "(nat \<Rightarrow> u8) \<Rightarrow> u64 \<Rightarrow> u8 list \<Rightarrow> u64 \<times> header_buffer \<times> u64 \<Rightarrow> node list \<Rightarrow> builder \<Rightarrow>
     failure + (u64 \<times> header_buffer \<times> u64) \<times> builder"
  and process_node ::
    "(nat \<Rightarrow> u8) \<Rightarrow> u64 \<Rightarrow> u8 list \<Rightarrow> node \<Rightarrow> listfs_file_header \<Rightarrow> builder \<Rightarrow>
     failure + listfs_file_header \<times> builder" where
  "process_dir fresh parent dir_name None st = Inr (- 1, st)"
| "process_dir fresh parent dir_name (Some entries) st =
     (let header = (file_header_of (map fresh [0..<328]), map fresh [328..<nat (block_size st)])
      in and_then (process_entries fresh parent dir_name (- 1, header, - 1) entries st)
           (\<lambda>((prev_file, header, first), st).
              Inr (first, write_block prev_file (buffer_bytes header) 1 st)))"
| "process_entries fresh parent dir_name vars [] st = Inr (vars, st)"
| "process_entries fresh parent dir_name (prev_file, header, first) (e # entries) st =
     (if dots (node_name e) then
        process_entries fresh parent dir_name (prev_file, header, first) entries st
      else
        and_then (alloc_disk_block st) (\<lambda>(cur_file, st).
        let (st, first) =
              (if prev_file \<noteq> - 1 then
                 (write_block prev_file (buffer_bytes ((fst header)\<lparr>fh_next := cur_file\<rparr>, snd header)) 1 st,
                  first)
               else (st, cur_file));
            file_name = dir_name @ [47] @ node_name e
        in if block_size st < 328 \<or> 260 \<le> length file_name then Inl Fault
           else
             and_then (process_node fresh cur_file file_name e
                         (new_header prev_file parent (node_name e) (node_stat e)) st)
               (\<lambda>(header, st).
                  process_entries fresh parent dir_name
                    (cur_file, (header, replicate (nat (block_size st) - 328) 0), first) entries st)))"
| "process_node fresh cur_file file_name (Dir name info entries) header st =
     and_then (process_dir fresh cur_file file_name entries st)
       (\<lambda>(first, st). Inr (header\<lparr>fh_flags := 1, fh_data := first\<rparr>, st))"
| "process_node fresh cur_file file_name (File name info contents) header st =
     (case contents of
        None \<Rightarrow> Inr (header\<lparr>fh_data := - 1\<rparr>, st)
      | Some bytes \<Rightarrow>
          and_then (store_file_data fresh \<lparr>unread = bytes, at_eof = False\<rparr> st)
            (\<lambda>(data, st). Inr (header\<lparr>fh_size := st_size info, fh_data := data\<rparr>, st)))"
| "process_node fresh cur_file file_name (Other name info) header st = Inr (header, st)"
  by pat_completeness auto
termination
  by (relation "measure (\<lambda>x. case x of
      Inl (fresh, parent, dir_name, entries, st) \<Rightarrow> 2 * size_option (size_list size) entries
    | Inr (Inl (fresh, parent, dir_name, vars, entries, st)) \<Rightarrow> 2 * size_list size entries + 1
    | Inr (Inr (fresh, cur_file, file_name, e, header, st)) \<Rightarrow> 2 * size e + 1)") auto

text \<open>The globals at the start, and the program; its result \<open>Inr\<close> is the exit code 0.\<close>

definition initial_builder :: builder where
  "initial_builder = \<lparr>output_file_name = None, boot_loader_file_name = None, source_dir_name = None,
     block_size = 512, block_count = 0, disk = (\<lambda>_. 0), disk_len = 0, disk_pos = 0,
     fs_header = header_of [], boot_code = [], disk_map = [], boot_loader_extra_blocks = 0\<rparr>"

definition main :: "host \<Rightarrow> string list \<Rightarrow> failure + builder" where
  "main hs argv =
     (let (ok, st) = get_commandline_options argv initial_builder
      in if \<not> ok then Inl (Exit 0)
         else if \<not> check_options st then Inl (Exit (- 1))
         else
           let (ok, st) = open_output_file hs st
           in if \<not> ok then Inl (Exit (- 2))
              else
                and_then (init_listfs_header hs st) (\<lambda>st.
                and_then (init_disk_map st) (\<lambda>st.
                and_then
                  (case source_dir_name st of
                     None \<Rightarrow> Inr st
                   | Some dir_name \<Rightarrow>
                       and_then (process_dir (fresh_byte hs) (- 1) (map of_char dir_name) (host_dirs hs dir_name) st)
                         (\<lambda>(first, st). Inr (st\<lparr>fs_header := (fs_header st)\<lparr>first_file := first\<rparr>\<rparr>)))
                  (\<lambda>st. Inr (store_listfs_header (store_disk_map st))))))"

section \<open>Allocation\<close>

abbreviation "B st \<equiv> nat (block_size st)"
abbreviation "N st \<equiv> unat (h_size (fs_header st))"

definition free :: "builder \<Rightarrow> nat set" where
  "free st = clear (disk_map st) \<inter> {..<N st}"

text \<open>The disk has blocks, \<^verbatim>\<open>fseek\<close> reaches all of them, and the map has a bit for each.\<close>

definition builder_ok :: "builder \<Rightarrow> bool" where
  "builder_ok st \<longleftrightarrow> 0 < B st \<and> 0 < N st \<and> B st * N st \<le> 2 ^ 31 \<and> N st \<le> 8 * length (disk_map st)"

lemma find_clear_spec:
  assumes "unat index < unat blks" and "unat blks \<le> 8 * length m"
  shows "case find_clear m blks index of
      Inl e \<Rightarrow> e = Exit (- 3) \<and> (\<forall>j. unat index \<le> j \<and> j < unat blks \<longrightarrow> j \<in> taken m)
    | Inr i \<Rightarrow> unat index \<le> unat i \<and> unat i < unat blks \<and> unat i \<notin> taken m \<and>
        (\<forall>j. unat index \<le> j \<and> j < unat i \<longrightarrow> j \<in> taken m)"
  using assms
proof (induction m blks index rule: find_clear.induct)
  case (1 m blks index)
  show ?case
  proof (cases "unat index \<in> taken m")
    case False
    then show ?thesis using "1.prems" by (subst find_clear.simps) (auto simp: map_bit_taken)
  next
    case True
    then have mb: "map_bit m index = Some True" using "1.prems" by (simp add: map_bit_taken)
    have "unat blks < 2 ^ LENGTH(64)" by (rule unsigned_less)
    then have "unat index + 1 < 2 ^ LENGTH(64)" using "1.prems"(1) by linarith
    then have s: "unat (index + 1) = Suc (unat index)" by (simp add: unat_Suc_word)
    have le: "blks \<le> index + 1 \<longleftrightarrow> unat blks \<le> Suc (unat index)" by (simp add: word_le_nat_alt s)
    have e: "find_clear m blks index =
        (if blks \<le> index + 1 then Inl (Exit (- 3)) else find_clear m blks (index + 1))"
      using "1.prems" True by (subst find_clear.simps) (simp add: map_bit_taken)
    have j: "j \<in> taken m" if "unat index \<le> j" "\<not> Suc (unat index) \<le> j" for j
      using that True by (auto simp: not_less_eq_eq le_antisym)
    show ?thesis
    proof (cases "blks \<le> index + 1")
      case True
      then show ?thesis unfolding e using j le by fastforce
    next
      case False
      have "unat (index + 1) < unat blks" using False le s by simp
      from "1.IH" [OF mb refl refl False this "1.prems"(2)] have
        IH: "case find_clear m blks (index + 1) of
          Inl e \<Rightarrow> e = Exit (- 3) \<and> (\<forall>j. Suc (unat index) \<le> j \<and> j < unat blks \<longrightarrow> j \<in> taken m)
        | Inr i \<Rightarrow> Suc (unat index) \<le> unat i \<and> unat i < unat blks \<and> unat i \<notin> taken m \<and>
            (\<forall>j. Suc (unat index) \<le> j \<and> j < unat i \<longrightarrow> j \<in> taken m)"
        unfolding s .
      then show ?thesis using False j unfolding e by (auto split: sum.splits simp del: Suc_le_eq)
    qed
  qed
qed

lemma alloc_spec:
  assumes "builder_ok st"
  shows "case alloc_disk_block st of
      Inl e \<Rightarrow> e = Exit (- 3) \<and> free st = {}
    | Inr (i, st') \<Rightarrow> unat i \<in> free st \<and> (\<forall>j < unat i. j \<notin> free st) \<and>
        st' = st\<lparr>disk_map := set_map_bit (disk_map st) i\<rparr> \<and> free st' = free st - {unat i}"
proof -
  have "unat (0 :: u64) < N st" "N st \<le> 8 * length (disk_map st)" using assms by (auto simp: builder_ok_def)
  note spec = find_clear_spec [OF this]
  show ?thesis
  proof (cases "find_clear (disk_map st) (h_size (fs_header st)) 0")
    case (Inl e)
    then show ?thesis using spec by (auto simp: alloc_disk_block_def free_def clear_def)
  next
    case (Inr i)
    then have i: "unat i < N st" "unat i \<notin> taken (disk_map st)" "\<forall>j < unat i. j \<in> taken (disk_map st)"
      "unat i < 8 * length (disk_map st)"
      using spec assms by (auto simp: builder_ok_def)
    then show ?thesis using Inr by (auto simp: alloc_disk_block_def free_def clear_set) (auto simp: clear_def)
  qed
qed

text \<open>C32: While the map has a bit for each block of the disk, \<^verbatim>\<open>alloc_disk_block\<close> takes the first block
  that is not marked, marks it and changes nothing else; when no block is left, and only
  then, it ends the program with \<open>-3\<close>.  It never reads outside the map.\<close>

theorem alloc_disk_block_first_fit:
  assumes "builder_ok st"
  shows "(free st = {} \<longrightarrow> alloc_disk_block st = Inl (Exit (- 3))) \<and>
    (free st \<noteq> {} \<longrightarrow> (\<exists>i st'. alloc_disk_block st = Inr (i, st') \<and> unat i = Min (free st) \<and>
       taken (disk_map st') = insert (unat i) (taken (disk_map st)) \<and> st' = st\<lparr>disk_map := disk_map st'\<rparr>))"
proof -
  note spec = alloc_spec [OF assms]
  show ?thesis
  proof (cases "alloc_disk_block st")
    case (Inl e)
    then show ?thesis using spec by simp
  next
    case (Inr p)
    obtain i st' where p: "p = (i, st')" by (cases p)
    have i: "unat i \<in> free st" "\<forall>j < unat i. j \<notin> free st" "st' = st\<lparr>disk_map := set_map_bit (disk_map st) i\<rparr>"
      using spec Inr p by auto
    have "Min (free st) = unat i"
      using i(1,2) by (intro Min_eqI) (auto simp: free_def not_less [symmetric])
    moreover have "unat i < 8 * length (disk_map st)" using i(1) by (simp add: free_def clear_def)
    ultimately show ?thesis using i Inr p by (auto simp: taken_set)
  qed
qed

section \<open>What an operation may change\<close>

text \<open>
  From \<open>st\<close> to \<open>st'\<close> the blocks \<open>A\<close>, free before, are taken, and no block outside \<open>C\<close> is
  written.
\<close>

definition grows :: "nat set \<Rightarrow> nat set \<Rightarrow> builder \<Rightarrow> builder \<Rightarrow> bool" where
  "grows A C st st' \<longleftrightarrow>
     st' = st\<lparr>disk := disk st', disk_len := disk_len st', disk_pos := disk_pos st', disk_map := disk_map st'\<rparr> \<and>
     length (disk_map st') = length (disk_map st) \<and> A \<subseteq> free st \<and> free st' = free st - A \<and>
     agree (B st) (- C) (disk st) (disk st')"

lemma grows_refl [simp]: "grows {} {} st st"
  by (simp add: grows_def)

lemma grows_fields:
  assumes "grows A C st st'"
  shows "block_size st' = block_size st" "fs_header st' = fs_header st" "builder_ok st' = builder_ok st"
    "length (disk_map st') = length (disk_map st)" "free st' = free st - A" "A \<subseteq> free st"
    "agree (B st) (- C) (disk st) (disk st')"
proof -
  have e: "st' = st\<lparr>disk := disk st', disk_len := disk_len st', disk_pos := disk_pos st', disk_map := disk_map st'\<rparr>"
    using assms by (simp add: grows_def)
  show "block_size st' = block_size st" "fs_header st' = fs_header st" by (subst e, simp)+
  then show "builder_ok st' = builder_ok st" using assms by (simp add: grows_def builder_ok_def)
qed (use assms in \<open>simp_all add: grows_def\<close>)

lemma grows_trans:
  assumes "grows A C st t" and "grows A' C' t u"
  shows "grows (A \<union> A') (C \<union> C') st u"
proof -
  have "t = st\<lparr>disk := disk t, disk_len := disk_len t, disk_pos := disk_pos t, disk_map := disk_map t\<rparr>"
    "u = t\<lparr>disk := disk u, disk_len := disk_len u, disk_pos := disk_pos u, disk_map := disk_map u\<rparr>"
    using assms by (simp_all add: grows_def)
  then have "u = st\<lparr>disk := disk u, disk_len := disk_len u, disk_pos := disk_pos u, disk_map := disk_map u\<rparr>"
    by (cases st, cases t, cases u) simp
  moreover have "agree (B st) (- (C \<union> C')) (disk st) (disk u)"
    using grows_fields(1,7) [OF assms(1)] grows_fields(7) [OF assms(2)] by (auto simp: agree_def)
  ultimately show ?thesis
    using assms grows_fields(5,6) [OF assms(1)] grows_fields(5,6) [OF assms(2)] by (auto simp: grows_def)
qed

lemma grows_mono: "grows A C st st' \<Longrightarrow> C \<subseteq> C' \<Longrightarrow> grows A C' st st'"
  by (auto simp: grows_def agree_def)

lemma grows_alloc:
  assumes "builder_ok st" and "alloc_disk_block st = Inr (i, st')"
  shows "grows {unat i} {} st st'"
  using alloc_spec [OF assms(1)] assms(2) by (auto simp: grows_def)

lemma free_less: "i \<in> free st \<Longrightarrow> i < N st"
  by (simp add: free_def)

text \<open>A write to a block of the disk.\<close>

lemma long_of_nat: "k < 2 ^ 31 \<Longrightarrow> long (of_nat k) = int k"
proof -
  assume k: "k < 2 ^ 31"
  then have "ucast (of_nat k :: u64) = (of_nat k :: u32)" by (simp add: unsigned_of_nat take_bit_nat_eq_self)
  then have "long (of_nat k) = sint (of_nat k :: u32)" by (simp only: long_def)
  also have "\<dots> = int k" using k by (simp add: signed_of_nat signed_take_bit_int_eq_self)
  finally show ?thesis .
qed

lemma block_offset:
  assumes "builder_ok st" and "unat i < N st"
  shows "long (of_int (block_size st) * i) = int (B st * unat i)"
proof -
  have "B st * unat i < B st * N st" using assms by (simp add: builder_ok_def)
  also have "\<dots> \<le> 2 ^ 31" using assms(1) by (simp add: builder_ok_def)
  finally have l: "B st * unat i < 2 ^ 31" .
  have b: "(of_int (block_size st) :: u64) = of_nat (B st)"
    using assms(1) by (simp add: builder_ok_def)
  have "of_nat (B st) * i = of_nat (B st * unat i)" by (simp only: of_nat_mult word_of_unat)
  then show ?thesis unfolding b by (simp only: long_of_nat [OF l])
qed

lemma fseek_nat: "fseek (int k) st = st\<lparr>disk_pos := k\<rparr>"
  by (simp add: fseek_def)

lemma write_block_ok:
  assumes "builder_ok st" and "unat i < N st" and "length d = B st"
  shows "grows {} {unat i} st (write_block i d 1 st) \<and> block (B st) (disk (write_block i d 1 st)) (unat i) = d"
proof -
  let ?b = "B st" and ?s = "write_block i d 1 st"
  have w: "?s = fwrite d (st\<lparr>disk_pos := ?b * unat i\<rparr>)"
    using assms(3) unfolding write_block_def block_offset [OF assms(1,2)] fseek_nat by simp
  have d: "disk ?s = (\<lambda>p. if ?b * unat i \<le> p \<and> p < ?b * unat i + ?b then d ! (p - ?b * unat i) else disk st p)"
    and e: "?s = st\<lparr>disk := disk ?s, disk_len := disk_len ?s, disk_pos := disk_pos ?s, disk_map := disk_map ?s\<rparr>"
    unfolding w using assms(3) by (simp_all add: fwrite_def fun_eq_iff)
  have "block ?b (disk ?s) (unat i) = d"
    using assms(3) unfolding block_def d by (intro nth_equalityI) auto
  moreover have "block ?b (disk ?s) j = block ?b (disk st) j" if "j \<noteq> unat i" for j
  proof -
    have "?b * j + ?b \<le> ?b * unat i \<or> ?b * unat i + ?b \<le> ?b * j"
      using that mult_le_mono2 [of "Suc j" "unat i" ?b] mult_le_mono2 [of "Suc (unat i)" j ?b] by (cases "j < unat i") auto
    then show ?thesis unfolding block_def d by auto
  qed
  moreover have "disk_map ?s = disk_map st" "fs_header ?s = fs_header st" unfolding w by (simp_all add: fwrite_def)
  ultimately show ?thesis using e by (simp add: grows_def agree_def free_def)
qed

section \<open>A concrete builder\<close>

definition demo_builder :: builder where
  "demo_builder = \<lparr>output_file_name = Some ''disk.img'', boot_loader_file_name = None, source_dir_name = None,
     block_size = 512, block_count = 64, disk = (\<lambda>_. 0), disk_len = 0, disk_pos = 0,
     fs_header = (header_of [])\<lparr>h_size := 64\<rparr>, boot_code = [], disk_map = replicate 512 0,
     boot_loader_extra_blocks = 0\<rparr>"

lemma demo_builder_simps: "block_size demo_builder = 512" "h_size (fs_header demo_builder) = 64"
    "disk_map demo_builder = replicate 512 0" "disk demo_builder = (\<lambda>_. 0)"
  by (simp_all add: demo_builder_def)

lemma taken_zero [simp]: "taken (replicate n 0) = {}"
  by (auto simp: taken_def nth_replicate div_less_iff_less_mult mult.commute)

lemma demo_builder_free: "free demo_builder = {..<64}"
  by (auto simp: free_def clear_def demo_builder_simps)

lemma demo_builder_ok: "builder_ok demo_builder"
  by (simp add: builder_ok_def demo_builder_simps)

theorem alloc_disk_block_first_fit_witness:
  "\<exists>st'. alloc_disk_block demo_builder = Inr (0, st') \<and> taken (disk_map st') = {0}"
proof -
  have m: "Min {..<64 :: nat} = 0" by (intro Min_eqI) auto
  have "(0 :: nat) \<in> {..<64}" by simp
  then have "free demo_builder \<noteq> {}" unfolding demo_builder_free by blast
  then obtain i st' where "alloc_disk_block demo_builder = Inr (i, st')" "unat i = 0"
    "taken (disk_map st') = {unat i}"
    using alloc_disk_block_first_fit [OF demo_builder_ok] m by (auto simp: demo_builder_free demo_builder_simps)
  moreover from this(2) have "i = 0" by (simp only: unat_eq_zero)
  ultimately show ?thesis by simp
qed

end
