(* ===== verification/Image_Files.thy ===== *)
theory Image_Files
  imports Make_Listfs
begin

text \<open>
  What \<open>store_file_data\<close> of \<open>Make_Listfs\<close> leaves on the disk: its block lists and data blocks
  read back as the file, padded to whole blocks.
\<close>

section \<open>Padding\<close>

definition pad :: "nat \<Rightarrow> u8 list \<Rightarrow> u8 list" where
  "pad bs xs = xs @ replicate ((bs - length xs mod bs) mod bs) 0"

definition chunks :: "nat \<Rightarrow> nat \<Rightarrow> nat" where
  "chunks bs n = (n + bs - 1) div bs"

lemma pad_nil [simp]: "pad bs [] = []"
  by (simp add: pad_def)

lemma pad_drop: "n * bs \<le> length xs \<Longrightarrow> 0 < bs \<Longrightarrow> pad bs xs = take (n * bs) xs @ pad bs (drop (n * bs) xs)"
proof -
  assume n: "n * bs \<le> length xs" and "0 < bs"
  have "length xs = (length xs - n * bs) + n * bs" using n by simp
  then have "(length xs - n * bs) mod bs = length xs mod bs" by (metis mod_mult_self1)
  then show ?thesis by (simp add: pad_def)
qed

lemma pad_split: "0 < bs \<Longrightarrow> pad bs xs = pad bs (take (n * bs) xs) @ pad bs (drop (n * bs) xs)"
  by (cases "n * bs \<le> length xs") (simp_all add: pad_drop pad_def [of _ "take _ _"])

lemma pad_chunk: "0 < length xs \<Longrightarrow> length xs \<le> bs \<Longrightarrow> xs @ replicate (bs - length xs) 0 = pad bs xs"
  by (cases "length xs = bs") (simp_all add: pad_def)

lemma chunks_0 [simp]: "0 < bs \<Longrightarrow> chunks bs 0 = 0"
  by (simp add: chunks_def)

lemma chunks_drop:
  assumes "0 < bs" and "0 < n"
  shows "chunks bs n = Suc (chunks bs (n - bs))"
proof (cases "bs \<le> n")
  case True
  then obtain m where m: "n = bs + m" by (auto simp: le_iff_add)
  then have "n + bs - 1 = (m + bs - 1) + bs" using assms(1) by linarith
  moreover have "((m + bs - 1) + bs) div bs = (m + bs - 1) div bs + 1" using assms(1) by (intro div_add_self2) simp
  moreover have "n - bs = m" using m by simp
  ultimately show ?thesis unfolding chunks_def by (simp only: Suc_eq_plus1)
next
  case False
  then have n: "(n - 1) div bs = 0" "n - bs = 0" using assms by simp_all
  have "n + bs - 1 = (n - 1) + bs" using assms by linarith
  moreover have "((n - 1) + bs) div bs = (n - 1) div bs + 1" using assms(1) by (intro div_add_self2) simp
  ultimately have "chunks bs n = 1" unfolding chunks_def n by (simp only: add_0)
  then show ?thesis using n(2) assms(1) by simp
qed

section \<open>Data blocks\<close>

lemma block_number:
  fixes i :: u64
  assumes "builder_ok st" and "unat i < N st"
  shows "i \<noteq> - 1"
proof
  assume "i = - 1"
  then have "unat i = 2 ^ LENGTH(64) - 1" by (simp add: unsigned_minus_1_eq_mask mask_eq_exp_minus_1)
  moreover have "1 * N st \<le> B st * N st" using assms(1) by (intro mult_le_mono1) (simp add: builder_ok_def Suc_le_eq)
  then have "N st \<le> 2 ^ 31" using assms(1) unfolding builder_ok_def by linarith
  ultimately show False using assms(2) by simp
qed

text \<open>Taking a block and writing it.\<close>

lemma alloc_write:
  assumes ok: "builder_ok st" and card: "0 < card (free st)"
  shows "\<exists>i t. alloc_disk_block st = Inr (i, t) \<and> unat i \<in> free st \<and> i \<noteq> - 1 \<and> grows {unat i} {} st t \<and>
    (\<forall>d. length d = B st \<longrightarrow> grows {unat i} {unat i} st (write_block i d 1 t) \<and>
      block (B st) (disk (write_block i d 1 t)) (unat i) = d)"
proof -
  have "free st \<noteq> {}" using card by auto
  then obtain i t where a: "alloc_disk_block st = Inr (i, t)" "unat i \<in> free st"
    using alloc_spec [OF ok] by (cases "alloc_disk_block st") auto
  have g: "grows {unat i} {} st t" by (rule grows_alloc [OF ok a(1)])
  have t: "builder_ok t" "N t = N st" "B t = B st" using grows_fields [OF g] ok by simp_all
  have i: "unat i < N st" using a(2) by (rule free_less)
  have "grows {unat i} {unat i} st (write_block i d 1 t) \<and> block (B st) (disk (write_block i d 1 t)) (unat i) = d"
    if "length d = B st" for d
  proof -
    have "unat i < N t" "length d = B t" using i that t by simp_all
    from write_block_ok [OF t(1) this] show ?thesis using grows_trans [OF g] t(3) by fastforce
  qed
  then show ?thesis using a g block_number [OF ok i] by blast
qed

lemma card_free: "grows A C st st' \<Longrightarrow> card (free st') = card (free st) - card A"
  using grows_fields(5,6) [of A C st st'] by (simp add: card_Diff_subset finite_subset [of A "free st"] free_def)

lemma data_loop_run:
  assumes "builder_ok st" and "at_eof f \<longrightarrow> unread f = []"
    and "min n (chunks (B st) (length (unread f))) \<le> card (free st)"
  shows "\<exists>ds k st'. data_loop n acc f st = Inr (acc @ ds @ replicate k (- 1),
      \<lparr>unread = drop (n * B st) (unread f), at_eof = at_eof f \<or> length (unread f) < n * B st\<rparr>, st') \<and>
    length ds + k = n \<and> length ds = min n (chunks (B st) (length (unread f))) \<and> - 1 \<notin> set ds \<and>
    card (unat ` set ds) = length ds \<and> grows (unat ` set ds) (unat ` set ds) st st' \<and>
    concat (map (\<lambda>d. block (B st) (disk st') (unat d)) ds) = pad (B st) (take (n * B st) (unread f))"
  using assms
proof (induction n arbitrary: acc f st)
  case 0
  have "f = \<lparr>unread = unread f, at_eof = at_eof f\<rparr>" by simp
  then show ?case by (intro exI [of _ "[]"] exI [of _ 0] exI [of _ st]) simp
next
  case (Suc n)
  let ?b = "B st" and ?xs = "unread f"
  have b: "0 < ?b" using Suc.prems(1) by (simp add: builder_ok_def)
  show ?case
  proof (cases "?xs = []")
    case True
    define f' where "f' = \<lparr>unread = [], at_eof = True\<rparr>"
    have "data_loop (Suc n) acc f st = data_loop n (acc @ [- 1]) f' st"
      using True Suc.prems(2) b by (cases f) (auto simp: f'_def fread_def Let_def)
    moreover have "\<exists>st'. data_loop n (acc @ [- 1]) f' st = Inr (acc @ replicate (Suc n) (- 1), f', st') \<and>
        grows {} {} st st'"
      using Suc.IH [of st f' "acc @ [- 1]"] Suc.prems(1) b by (auto simp: f'_def)
    ultimately show ?thesis using True b
      by (elim exE conjE, intro exI [of _ "[]"] exI [of _ "Suc n"] exI) (simp add: f'_def)
  next
    case False
    define f' where "f' = \<lparr>unread = drop ?b ?xs, at_eof = length ?xs < ?b\<rparr>"
    let ?c = "take ?b ?xs" let ?d = "?c @ replicate (?b - length ?c) 0"
    have ne: "\<not> at_eof f" using Suc.prems(2) False by blast
    have c: "chunks ?b (length ?xs) = Suc (chunks ?b (length (unread f')))"
      using b False by (simp add: f'_def chunks_drop)
    then have "0 < card (free st)" using Suc.prems(3) by simp
    then obtain i t where a: "alloc_disk_block st = Inr (i, t)" "unat i \<in> free st" "i \<noteq> - 1" "grows {unat i} {} st t"
      and w: "grows {unat i} {unat i} st (write_block i ?d 1 t)"
        "block ?b (disk (write_block i ?d 1 t)) (unat i) = ?d"
      using alloc_write [OF Suc.prems(1)] by fastforce
    define u where "u = write_block i ?d 1 t"
    have u: "grows {unat i} {unat i} st u" "block ?b (disk u) (unat i) = ?d" using w by (simp_all add: u_def)
    have ub: "builder_ok u" "B u = ?b" "free u = free st - {unat i}" "B t = ?b"
      using grows_fields [OF u(1)] grows_fields [OF a(4)] Suc.prems(1) by simp_all
    have step: "data_loop (Suc n) acc f st = data_loop n (acc @ [i]) f' u"
      using ne False b a(1) ub(4) by (simp add: fread_def Let_def f'_def u_def)
    have m: "min n (chunks (B u) (length (unread f'))) \<le> card (free u)"
      using Suc.prems(3) c card_free [OF u(1)] by (simp add: ub)
    have e: "at_eof f' \<longrightarrow> unread f' = []" by (simp add: f'_def)
    from Suc.IH [OF ub(1) e m, of "acc @ [i]"] obtain ds k st' where
      IH: "data_loop n (acc @ [i]) f' u = Inr ((acc @ [i]) @ ds @ replicate k (- 1),
        \<lparr>unread = drop (n * ?b) (unread f'), at_eof = at_eof f' \<or> length (unread f') < n * ?b\<rparr>, st')"
      "length ds + k = n" "length ds = min n (chunks ?b (length (unread f')))" "- 1 \<notin> set ds"
      "card (unat ` set ds) = length ds" "grows (unat ` set ds) (unat ` set ds) u st'"
      "concat (map (\<lambda>d. block ?b (disk st') (unat d)) ds) = pad ?b (take (n * ?b) (unread f'))"
      unfolding ub(2) by blast
    have out: "unat i \<notin> unat ` set ds" using grows_fields(6) [OF IH(6)] ub(3) by blast
    have keep: "block ?b (disk st') (unat i) = ?d"
      using agreeD [OF grows_fields(7) [OF IH(6)], of "unat i"] out u(2) by (simp add: ub)
    have g: "grows (unat ` set (i # ds)) (unat ` set (i # ds)) st st'"
      using grows_trans [OF u(1) IH(6)] by simp
    have pd: "pad ?b (take (Suc n * ?b) ?xs) = ?d @ pad ?b (take (n * ?b) (unread f'))"
      using pad_split [OF b, of "take (Suc n * ?b) ?xs" 1] pad_chunk [of ?c ?b] False b
      by (simp add: f'_def drop_take min_def)
    have eof: "at_eof f' \<or> length (unread f') < n * ?b \<longleftrightarrow> length ?xs < Suc n * ?b"
      using b by (auto simp: f'_def)
    have card: "card (unat ` set (i # ds)) = length (i # ds)" using IH(5) out by simp
    have "data_loop (Suc n) acc f st = Inr (acc @ (i # ds) @ replicate k (- 1),
        \<lparr>unread = drop (Suc n * ?b) ?xs, at_eof = at_eof f \<or> length ?xs < Suc n * ?b\<rparr>, st')"
      unfolding step IH(1) eof using ne by (simp add: f'_def add.commute)
    moreover have "concat (map (\<lambda>d. block ?b (disk st') (unat d)) (i # ds)) = pad ?b (take (Suc n * ?b) ?xs)"
      unfolding pd using IH(7) keep by simp
    moreover have "length (i # ds) + k = Suc n" "length (i # ds) = min (Suc n) (chunks ?b (length ?xs))"
      "- 1 \<notin> set (i # ds)"
      using IH(2,3,4) c a(3) by auto
    ultimately show ?thesis using card g by blast
  qed
qed

section \<open>Block lists\<close>

text \<open>The blocks that a file of \<open>len\<close> bytes takes: its data and its block lists.\<close>

definition file_blocks :: "nat \<Rightarrow> nat \<Rightarrow> nat" where
  "file_blocks bs len = chunks bs len + len div ((bs div 8 - 1) * bs) + 1"

lemma chunks_add: "0 < bs \<Longrightarrow> chunks bs (n * bs + m) = n + chunks bs m"
proof -
  assume "0 < bs"
  then have "n * bs + m + bs - 1 = (m + bs - 1) + n * bs" by linarith
  then show ?thesis using \<open>0 < bs\<close> unfolding chunks_def by (metis add.commute div_mult_self1 less_numeral_extra(3))
qed

lemma chunks_le: "0 < bs \<Longrightarrow> len < n * bs \<Longrightarrow> chunks bs len \<le> n"
proof -
  assume "0 < bs" and "len < n * bs"
  then have "len + bs - 1 < Suc n * bs" by simp
  then have "chunks bs len < Suc n" unfolding chunks_def using \<open>0 < bs\<close> by (simp add: div_less_iff_less_mult)
  then show ?thesis by simp
qed

lemma level_room: "16 \<le> b \<Longrightarrow> 0 < (b div 8 - 1) * (b :: nat)"
proof -
  assume "16 \<le> b"
  then have "2 \<le> b div 8" "0 < b" by auto
  then show ?thesis by simp
qed

lemma file_blocks_rec:
  assumes "16 \<le> bs" and "n = bs div 8 - 1"
  shows "file_blocks bs len = Suc (min n (chunks bs len)) + (if len < n * bs then 0 else file_blocks bs (len - n * bs))"
proof -
  have n: "0 < n" and b: "0 < bs" using assms by auto
  have e: "file_blocks bs l = chunks bs l + l div (n * bs) + 1" for l
    by (simp only: file_blocks_def assms(2))
  show ?thesis
  proof (cases "len < n * bs")
    case True
    then show ?thesis using chunks_le [OF b True] by (simp add: e)
  next
    case False
    then obtain m where m: "len = n * bs + m" by (metis le_iff_add not_less)
    have "0 < n * bs" using n b by simp
    then have "(m + n * bs) div (n * bs) = m div (n * bs) + 1" by (intro div_add_self2) simp
    then have "(n * bs + m) div (n * bs) = Suc (m div (n * bs))" by (simp only: add.commute Suc_eq_plus1)
    then show ?thesis using chunks_add [OF b, of n m] by (simp add: e m)
  qed
qed

lemma read_list:
  assumes "numbers (block bs img (unat i)) = ds @ replicate k (- 1) @ [j]" and "- 1 \<notin> set ds" and "i \<noteq> - 1"
    and "unat i < lim" and "\<forall>d \<in> set ds. unat d < lim" and "0 < k \<longrightarrow> j = - 1"
  shows "read_file lim (Suc n) bs img i =
    map_option (\<lambda>rest. concat (map (\<lambda>d. block bs img (unat d)) ds) @ rest) (read_file lim n bs img j)"
proof -
  have "takeWhile (\<lambda>d. d \<noteq> - 1) (ds @ replicate k (- 1 :: u64)) = ds"
    using assms(2) by (subst takeWhile_append2) (auto simp: takeWhile_replicate)
  moreover have "butlast (ds @ replicate k (- 1) @ [j]) = ds @ replicate k (- 1)"
    by (simp add: butlast_append)
  ultimately show ?thesis using assms(1,3-6) by (auto simp: Let_def not_le)
qed

text \<open>What is left of a file that is stored: \<open>stored_file\<close> for a result and the blocks it took.\<close>

definition stored_file :: "infile \<Rightarrow> builder \<Rightarrow> u64 \<Rightarrow> builder \<Rightarrow> nat set \<Rightarrow> bool" where
  "stored_file f st i st' A \<longleftrightarrow> grows A A st st' \<and> (at_eof f \<longleftrightarrow> i = - 1) \<and>
     card A = (if at_eof f then 0 else file_blocks (B st) (length (unread f))) \<and>
     (\<forall>img n. agree (B st) A (disk st') img \<longrightarrow> (if at_eof f then 1 else length (unread f) + 2) \<le> n \<longrightarrow>
        read_file (N st) n (B st) img i = Some (pad (B st) (unread f)))"

lemma stored_eof: "at_eof f \<Longrightarrow> unread f = [] \<Longrightarrow> stored_file f st (- 1) st {}"
proof -
  assume f: "at_eof f" "unread f = []"
  have "read_file (N st) n (B st) img (- 1) = Some []" if "1 \<le> n" for n img
    using that by (cases n) simp_all
  then show ?thesis using f by (simp add: stored_file_def)
qed

text \<open>One level: a list of \<open>n\<close> data blocks, and what the recursion stored.\<close>

lemma stored_level:
  assumes ok: "builder_ok st" and b: "16 \<le> B st" and n: "n = B st div 8 - 1" and f: "\<not> at_eof f"
    and i: "unat i \<in> free st" "i \<noteq> - 1" "grows {unat i} {} st t"
    and ds: "length ds + k = n" "length ds = min n (chunks (B st) (length (unread f)))" "- 1 \<notin> set ds"
      "card (unat ` set ds) = length ds" "grows (unat ` set ds) (unat ` set ds) t u"
      "concat (map (\<lambda>d. block (B st) (disk u) (unat d)) ds) = pad (B st) (take (n * B st) (unread f))"
    and f': "f' = \<lparr>unread = drop (n * B st) (unread f), at_eof = length (unread f) < n * B st\<rparr>"
    and v: "stored_file f' u j v A"
    and w: "w = write_block i (number_bytes ((ds @ replicate k (- 1)) @ [j]) @ rest) 1 v"
      "length rest = B st - 8 * (n + 1)"
  shows "\<exists>A. stored_file f st i w A"
proof -
  let ?b = "B st" and ?D = "unat ` set ds" and ?bytes = "number_bytes ((ds @ replicate k (- 1)) @ [j]) @ rest"
  have gv: "grows A A u v" using v by (simp add: stored_file_def)
  have bs: "B t = ?b" "B u = ?b" "B v = ?b" "N v = N st" "builder_ok v" "N u = N st"
    using grows_fields [OF i(3)] grows_fields [OF ds(5)] grows_fields [OF gv] ok by simp_all
  have fr: "?D \<subseteq> free st - {unat i}" "A \<subseteq> free st - {unat i} - ?D"
    using grows_fields(5) [OF i(3)] grows_fields(5,6) [OF ds(5)] grows_fields(6) [OF gv] by simp_all
  have nb: "8 * (n + 1) \<le> ?b" "?b - 8 * (n + 1) < 8" using n b by auto
  then have len: "length ?bytes = B v" using ds(1) w(2) bs by simp
  have "unat i < N v" using i(1) bs(4) by (simp add: free_less)
  note wr = write_block_ok [OF bs(5) this len]
  have g: "grows ({unat i} \<union> ?D \<union> A) ({unat i} \<union> ?D \<union> A) st w"
    using grows_trans [OF grows_trans [OF grows_trans [OF i(3) ds(5)] gv]] wr
    unfolding w(1) by (fastforce simp: ac_simps)
  have fin: "finite (free st)" by (simp add: free_def)
  then have "finite A" "finite ?D" using fr finite_subset by blast+
  moreover have "unat i \<notin> ?D" "unat i \<notin> A" "?D \<inter> A = {}" using fr by auto
  ultimately have "card ({unat i} \<union> ?D \<union> A) = Suc (length ds + card A)"
    using ds(4) by (simp add: card_Un_disjoint)
  also have "\<dots> = file_blocks ?b (length (unread f))"
    using v file_blocks_rec [OF b n, of "length (unread f)"] ds(2) by (simp add: stored_file_def bs(2) f')
  finally have card: "card ({unat i} \<union> ?D \<union> A) = file_blocks ?b (length (unread f))" .
  have "read_file (N st) m ?b img i = Some (pad ?b (unread f))"
    if a: "agree ?b ({unat i} \<union> ?D \<union> A) (disk w) img" and m: "length (unread f) + 2 \<le> m" for img m
  proof -
    obtain m' where m': "m = Suc m'" using m by (cases m) auto
    have "numbers (block ?b img (unat i)) = ds @ replicate k (- 1) @ [j]"
      using agreeD [OF a, of "unat i"] wr nb(2) w(2) unfolding w(1) bs(3)
      by (simp add: numbers_round_trip)
    moreover have "unat i < N st" "\<forall>d \<in> set ds. unat d < N st" using i(1) fr by (auto intro: free_less)
    moreover have "0 < k \<longrightarrow> j = - 1"
    proof
      assume "0 < k"
      then have c: "chunks ?b (length (unread f)) < n" using ds(1,2) by simp
      have "length (unread f) < n * ?b"
      proof (rule ccontr)
        assume "\<not> length (unread f) < n * ?b"
        then obtain r where "length (unread f) = n * ?b + r" by (metis le_iff_add not_less)
        then show False using c chunks_add [of ?b n r] b by simp
      qed
      then show "j = - 1" using v by (simp add: stored_file_def f')
    qed
    ultimately have level: "read_file (N st) (Suc m') ?b img i = map_option (\<lambda>rest. concat (map (\<lambda>d. block ?b img (unat d)) ds) @ rest)
        (read_file (N st) m' ?b img j)"
      by (intro read_list ds(3) i(2))
    have "block ?b img d = block ?b (disk u) d" if "d \<in> ?D" for d
    proof -
      have "d \<in> - A" "d \<in> - {unat i}" "d \<in> {unat i} \<union> ?D \<union> A" using that fr by auto
      then show ?thesis
        using agreeD [OF a, of d] agreeD [OF grows_fields(7) [OF gv], of d]
          agreeD [OF grows_fields(7) [OF conjunct1 [OF wr]], of d] by (simp only: w(1) bs)
    qed
    then have mp: "map (\<lambda>d. block ?b img (unat d)) ds = map (\<lambda>d. block ?b (disk u) (unat d)) ds" by simp
    have "agree ?b A (disk v) img"
      using a grows_fields(7) [OF conjunct1 [OF wr]] fr by (auto simp: agree_def w(1) bs)
    moreover have "(if at_eof f' then 1 else length (unread f') + 2) \<le> m'"
    proof (cases "length (unread f) < n * ?b")
      case True
      then show ?thesis using m m' by (simp add: f')
    next
      case False
      have "0 < n * ?b" unfolding n by (rule level_room [OF b])
      moreover have "length (unread f') = length (unread f) - n * ?b" "\<not> at_eof f'" using False by (simp_all add: f')
      ultimately have "length (unread f') + 2 \<le> m'" using False m m' by linarith
      then show ?thesis by simp
    qed
    ultimately have "read_file (N st) m' ?b img j = Some (pad ?b (unread f'))"
      using v unfolding stored_file_def bs(2,6) by blast
    then show ?thesis
      using level pad_split [of ?b "unread f" n] b unfolding m' mp ds(6) by (simp add: f')
  qed
  then show ?thesis using g card f i(2) unfolding stored_file_def by auto
qed

lemma store_run:
  assumes "builder_ok st" and "16 \<le> B st" and "at_eof f \<longrightarrow> unread f = []"
    and "(if at_eof f then 0 else file_blocks (B st) (length (unread f))) \<le> card (free st)"
  shows "\<exists>i st' A. store_file_data fresh f st = Inr (i, st') \<and> stored_file f st i st' A"
  using assms
proof (induction "length (unread f)" arbitrary: f st rule: less_induct)
  case less
  let ?b = "B st" and ?n = "B st div 8 - 1" and ?len = "length (unread f)"
  show ?case
  proof (cases "at_eof f")
    case True
    then show ?thesis using less.prems(3) stored_eof by (subst store_file_data.simps) auto
  next
    case False
    have need: "file_blocks ?b ?len = Suc (min ?n (chunks ?b ?len)) +
        (if ?len < ?n * ?b then 0 else file_blocks ?b (?len - ?n * ?b))"
      by (rule file_blocks_rec [OF less.prems(2) refl])
    have need_le: "file_blocks ?b ?len \<le> card (free st)" using less.prems(4) False by simp
    then have c: "Suc (min ?n (chunks ?b ?len)) \<le> card (free st)" using need by linarith
    then have "0 < card (free st)" by linarith
    then obtain i t where a: "alloc_disk_block st = Inr (i, t)" "unat i \<in> free st" "i \<noteq> - 1" "grows {unat i} {} st t"
      using alloc_write [OF less.prems(1)] by blast
    have t: "builder_ok t" "B t = ?b" "block_size t = block_size st" "card (free t) = card (free st) - 1"
      using grows_fields [OF a(4)] card_free [OF a(4)] less.prems(1) by simp_all
    have "min ?n (chunks (B t) ?len) \<le> card (free t)" using c unfolding t(2,4) by linarith
    note run = data_loop_run [OF t(1) less.prems(3) this, of "[]", unfolded t(2)]
    obtain ds k u where
      ds: "data_loop ?n [] f t = Inr (ds @ replicate k (- 1),
          \<lparr>unread = drop (?n * ?b) (unread f), at_eof = ?len < ?n * ?b\<rparr>, u)"
        "length ds + k = ?n" "length ds = min ?n (chunks ?b ?len)" "- 1 \<notin> set ds"
        "card (unat ` set ds) = length ds" "grows (unat ` set ds) (unat ` set ds) t u"
        "concat (map (\<lambda>d. block ?b (disk u) (unat d)) ds) = pad ?b (take (?n * ?b) (unread f))"
      using run by (simp only: False simp_thms append_Nil) (elim exE conjE, rule that)
    define f' where "f' = \<lparr>unread = drop (?n * ?b) (unread f), at_eof = ?len < ?n * ?b\<rparr>"
    have u: "builder_ok u" "B u = ?b" "block_size u = block_size st" "card (free u) = card (free st) - 1 - length ds"
      using grows_fields [OF ds(6)] card_free [OF ds(6)] t ds(5) by simp_all
    have "\<exists>j v A. store_file_data fresh f' u = Inr (j, v) \<and> stored_file f' u j v A"
    proof (cases "at_eof f'")
      case True
      then show ?thesis using stored_eof [of f' u] by (subst store_file_data.simps) (auto simp: f'_def)
    next
      case False
      have "0 < ?n * ?b" by (rule level_room [OF less.prems(2)])
      moreover have "length (unread f') = ?len - ?n * ?b" "\<not> ?len < ?n * ?b" using False by (simp_all add: f'_def)
      ultimately have "length (unread f') < ?len" by linarith
      moreover have "file_blocks ?b ?len = Suc (length ds) + file_blocks ?b (length (unread f'))"
        unfolding need ds(3) [symmetric] using False by (simp add: f'_def)
      then have "file_blocks ?b (length (unread f')) \<le> card (free u)" using need_le u(4) by linarith
      moreover have "at_eof f' \<longrightarrow> unread f' = []" using False by simp
      ultimately show ?thesis using less.hyps [of f' u] u(1,2) less.prems(2) False by (simp only: if_False)
    qed
    then obtain j v A where v: "store_file_data fresh f' u = Inr (j, v)" "stored_file f' u j v A" by blast
    have vb: "block_size v = block_size st" using v(2) u(3) grows_fields(1) by (auto simp: stored_file_def)
    define rest where "rest = map fresh [8 * length ((ds @ replicate k (- 1)) @ [j])..<?b]"
    define w where "w = write_block i (number_bytes ((ds @ replicate k (- 1)) @ [j]) @ rest) 1 v"
    have n8: "nat (block_size st div 8 - 1) = ?n" using less.prems(2) by (simp add: nat_diff_distrib' nat_div_distrib)
    have "\<not> block_size st < 8" using less.prems(2) by auto
    then have run: "store_file_data fresh f st = Inr (i, w)"
      using False a(1) ds(1) v(1) [unfolded f'_def]
      by (subst store_file_data.simps) (simp add: t(3) n8 Let_def w_def rest_def vb)
    have "length rest = ?b - 8 * (?n + 1)" using ds(2) by (simp add: rest_def)
    from stored_level [OF less.prems(1,2) refl False a(2-4) ds(2-7) f'_def v(2) w_def this] run
    show ?thesis by blast
  qed
qed

text \<open>C30: Storing a file and reading it back: with blocks of at least 16 bytes and enough of them
  free, \<^verbatim>\<open>store_file_data\<close> returns the first block list of the file, and reading the image
  there gives the file, padded with zeros to whole blocks, whatever is written to other blocks
  later.  It takes the blocks for its data and its lists, no others, and writes no block that was
  not free.\<close>

theorem store_file_data_roundtrip:
  assumes "builder_ok st" and "16 \<le> B st" and "file_blocks (B st) (length bytes) \<le> card (free st)"
  shows "\<exists>i st' A. store_file_data fresh \<lparr>unread = bytes, at_eof = False\<rparr> st = Inr (i, st') \<and>
    A \<subseteq> free st \<and> card A = file_blocks (B st) (length bytes) \<and> free st' = free st - A \<and>
    agree (B st) (- A) (disk st) (disk st') \<and>
    (\<forall>img. agree (B st) A (disk st') img \<longrightarrow>
       read_file (N st) (length bytes + 2) (B st) img i = Some (pad (B st) bytes))"
proof -
  have "\<exists>i st' A. store_file_data fresh \<lparr>unread = bytes, at_eof = False\<rparr> st = Inr (i, st') \<and>
      stored_file \<lparr>unread = bytes, at_eof = False\<rparr> st i st' A"
    using store_run [of st "\<lparr>unread = bytes, at_eof = False\<rparr>" fresh] assms by simp
  then obtain i st' A where s: "store_file_data fresh \<lparr>unread = bytes, at_eof = False\<rparr> st = Inr (i, st')"
    "stored_file \<lparr>unread = bytes, at_eof = False\<rparr> st i st' A"
    by blast
  from s(2) have g: "grows A A st st'" and c: "card A = file_blocks (B st) (length bytes)"
    and r: "agree (B st) A (disk st') img \<Longrightarrow> read_file (N st) (length bytes + 2) (B st) img i = Some (pad (B st) bytes)" for img
    by (simp_all add: stored_file_def del: read_file.simps)
  show ?thesis using s(1) grows_fields(5-7) [OF g] c r by blast
qed

theorem store_file_data_roundtrip_witness:
  "\<exists>i st'. store_file_data (\<lambda>_. 0) \<lparr>unread = [104, 105], at_eof = False\<rparr> demo_builder = Inr (i, st') \<and>
     read_file (N demo_builder) 4 512 (disk st') i = Some ([104, 105] @ replicate 510 0)"
proof -
  let ?f = "[104 :: u8, 105]"
  have "file_blocks (B demo_builder) (length ?f) \<le> card (free demo_builder)"
    by (simp add: demo_builder_simps demo_builder_free file_blocks_def chunks_def)
  from store_file_data_roundtrip [OF demo_builder_ok _ this, of "\<lambda>_. 0"] obtain i st' where
    s: "store_file_data (\<lambda>_. 0) \<lparr>unread = ?f, at_eof = False\<rparr> demo_builder = Inr (i, st')"
      "read_file (N demo_builder) (length ?f + 2) (B demo_builder) (disk st') i = Some (pad (B demo_builder) ?f)"
    unfolding demo_builder_simps by force
  have "length ?f + 2 = 4" "B demo_builder = 512" "pad 512 ?f = ?f @ replicate 510 0"
    by (simp_all add: demo_builder_simps pad_def)
  then show ?thesis using s by (metis (no_types))
qed

end
