(* ===== verification/Image_Tree.thy ===== *)
theory Image_Tree
  imports Image_Files
begin

text \<open>
  What \<open>process_dir\<close> of \<open>Make_Listfs\<close> leaves on the disk: chains of file headers that hold the
  directory tree of the host.
\<close>

section \<open>Trees\<close>

text \<open>The entries \<open>.\<close> and \<open>..\<close>, which \<^verbatim>\<open>readdir\<close> gives too, are passed over.\<close>

definition only_dots :: "node list \<Rightarrow> bool" where
  "only_dots es \<longleftrightarrow> (\<forall>e \<in> set es. dots (node_name e))"

lemma only_dots_simps [simp]: "only_dots []" "only_dots (e # es) \<longleftrightarrow> dots (node_name e) \<and> only_dots es"
  by (simp_all add: only_dots_def)

text \<open>The blocks that entries take.\<close>

function entries_blocks :: "nat \<Rightarrow> node list \<Rightarrow> nat" and node_blocks :: "nat \<Rightarrow> node \<Rightarrow> nat" where
  "entries_blocks bs [] = 0"
| "entries_blocks bs (e # es) =
     (if dots (node_name e) then 0 else 1 + node_blocks bs e) + entries_blocks bs es"
| "node_blocks bs (File name info contents) =
     (case contents of None \<Rightarrow> 0 | Some bytes \<Rightarrow> file_blocks bs (length bytes))"
| "node_blocks bs (Dir name info entries) = (case entries of None \<Rightarrow> 0 | Some es \<Rightarrow> entries_blocks bs es)"
| "node_blocks bs (Other name info) = 0"
  by pat_completeness auto
termination
  by (relation "measure (\<lambda>x. case x of Inl (bs, es) \<Rightarrow> size_list size es | Inr (bs, e) \<Rightarrow> size e)") auto

text \<open>
  The trees the builder can store: paths fit into \<^verbatim>\<open>file_name\<close>, and a directory that can be read has
  an entry.
\<close>

function tree_ok :: "u8 list \<Rightarrow> node list \<Rightarrow> bool" and node_ok :: "u8 list \<Rightarrow> node \<Rightarrow> bool" where
  "tree_ok path [] = True"
| "tree_ok path (e # es) =
     ((dots (node_name e) \<or> (length path + length (node_name e) < 259 \<and> node_ok (path @ [47] @ node_name e) e)) \<and>
      tree_ok path es)"
| "node_ok path (File name info contents) = True"
| "node_ok path (Dir name info entries) =
     (case entries of None \<Rightarrow> True | Some es \<Rightarrow> \<not> only_dots es \<and> tree_ok path es)"
| "node_ok path (Other name info) = True"
  by pat_completeness auto
termination
  by (relation "measure (\<lambda>x. case x of Inl (path, es) \<Rightarrow> size_list size es | Inr (path, e) \<Rightarrow> size e)") auto

text \<open>
  The image \<open>img\<close> holds the entries \<open>es\<close> of a directory in the chain of headers from block \<open>i\<close>
  on.  \<open>parent\<close> is the block of the directory's own header and \<open>prev\<close> the header before.
\<close>

function dir_at :: "nat \<Rightarrow> nat \<Rightarrow> (nat \<Rightarrow> u8) \<Rightarrow> u64 \<Rightarrow> u64 \<Rightarrow> u64 \<Rightarrow> node list \<Rightarrow> bool"
  and node_at :: "nat \<Rightarrow> nat \<Rightarrow> (nat \<Rightarrow> u8) \<Rightarrow> u64 \<Rightarrow> listfs_file_header \<Rightarrow> node \<Rightarrow> bool" where
  "dir_at lim bs img parent prev i [] = (i = - 1)"
| "dir_at lim bs img parent prev i (e # es) =
     (if dots (node_name e) then dir_at lim bs img parent prev i es
      else
        i \<noteq> - 1 \<and> unat i < lim \<and> (let h = file_header_at bs img i
          in fh_name h = name_field (node_name e) \<and> fh_prev h = prev \<and> fh_parent h = parent \<and>
             create_time h = st_ctime (node_stat e) \<and> modify_time h = st_mtime (node_stat e) \<and>
             access_time h = st_atime (node_stat e) \<and> node_at lim bs img i h e \<and>
             dir_at lim bs img parent i (fh_next h) es))"
| "node_at lim bs img i h (File name info contents) =
     (fh_flags h = 0 \<and>
      (case contents of
         None \<Rightarrow> fh_size h = 0 \<and> fh_data h = - 1
       | Some bytes \<Rightarrow> fh_size h = st_size info \<and> fh_data h \<noteq> - 1 \<and>
           read_file lim (length bytes + 2) bs img (fh_data h) = Some (pad bs bytes)))"
| "node_at lim bs img i h (Dir name info entries) =
     (fh_flags h = 1 \<and> fh_size h = 0 \<and>
      (case entries of None \<Rightarrow> fh_data h = - 1 | Some es \<Rightarrow> dir_at lim bs img i (- 1) (fh_data h) es))"
| "node_at lim bs img i h (Other name info) = (fh_flags h = 0 \<and> fh_size h = 0 \<and> fh_data h = 0)"
  by pat_completeness auto
termination
  by (relation "measure (\<lambda>x. case x of
    Inl (lim, bs, img, parent, prev, i, es) \<Rightarrow> size_list size es | Inr (lim, bs, img, i, h, e) \<Rightarrow> size e)") auto

lemma dir_at_only_dots: "only_dots es \<Longrightarrow> dir_at lim bs img parent prev i es = (i = - 1)"
  by (induction es) auto

lemma only_dots_blocks: "only_dots es \<Longrightarrow> entries_blocks bs es = 0"
  by (induction es) auto

text \<open>Of a header, \<open>node_at\<close> reads the flags, the size and the data only.\<close>

lemma node_at_cong:
  "fh_flags h = fh_flags h' \<Longrightarrow> fh_size h = fh_size h' \<Longrightarrow> fh_data h = fh_data h' \<Longrightarrow>
   node_at lim bs img i h e = node_at lim bs img i h' e"
  by (cases e) (auto split: option.split)

section \<open>The loop over the entries\<close>

type_synonym entry_vars = "u64 \<times> header_buffer \<times> u64"

definition buffer_ok :: "nat \<Rightarrow> header_buffer \<Rightarrow> bool" where
  "buffer_ok bs b \<longleftrightarrow> 328 \<le> bs \<and> length (fh_name (fst b)) = 256 \<and> length (snd b) = bs - 328"

lemma buffer_length: "buffer_ok bs b \<Longrightarrow> length (buffer_bytes b) = bs"
  by (simp add: buffer_ok_def buffer_bytes_def file_header_length)

lemma buffer_read: "buffer_ok bs b \<Longrightarrow> file_header_of (buffer_bytes b) = fst b"
  by (simp add: buffer_ok_def buffer_bytes_def file_header_round_trip)

lemma name_field_length [simp]: "length (name_field name) = 256"
  by (simp add: name_field_def)

text \<open>The header in the buffer belongs to the block \<^verbatim>\<open>prev_file\<close>, which is taken.\<close>

definition pending :: "builder \<Rightarrow> entry_vars \<Rightarrow> bool" where
  "pending st vars \<longleftrightarrow>
     (fst vars \<noteq> - 1 \<longrightarrow> unat (fst vars) \<notin> free st \<and> unat (fst vars) < N st \<and> buffer_ok (B st) (fst (snd vars)))"

definition prev_set :: "entry_vars \<Rightarrow> nat set" where
  "prev_set vars = (if fst vars = - 1 then {} else {unat (fst vars)})"

text \<open>
  The loop has stored \<open>es\<close> behind \<open>vars\<close> in the blocks \<open>A\<close>: once the buffer is written to its
  block, an image that keeps the other blocks holds the chain from its first block \<open>c\<close> on.
\<close>

definition chain_from :: "u64 \<Rightarrow> entry_vars \<Rightarrow> node list \<Rightarrow> builder \<Rightarrow> entry_vars \<Rightarrow> builder \<Rightarrow> nat set \<Rightarrow> u64 \<Rightarrow> bool" where
  "chain_from parent vars es st vars' st' A c \<longleftrightarrow>
     (\<forall>img. agree (B st) (A \<union> prev_set vars - {unat (fst vars')}) (disk st') img \<longrightarrow>
        block (B st) img (unat (fst vars')) = buffer_bytes (fst (snd vars')) \<longrightarrow>
        (fst vars \<noteq> - 1 \<longrightarrow> block (B st) img (unat (fst vars)) =
           buffer_bytes ((fst (fst (snd vars)))\<lparr>fh_next := c\<rparr>, snd (fst (snd vars)))) \<and>
        dir_at (N st) (B st) img parent (fst vars) c es)"

definition entries_stored ::
  "u64 \<Rightarrow> entry_vars \<Rightarrow> node list \<Rightarrow> builder \<Rightarrow> entry_vars \<Rightarrow> builder \<Rightarrow> nat set \<Rightarrow> bool" where
  "entries_stored parent vars es st vars' st' A \<longleftrightarrow>
     grows A (A \<union> prev_set vars) st st' \<and> card A = entries_blocks (B st) es \<and> pending st' vars' \<and>
     (if only_dots es then vars' = vars \<and> st' = st \<and> A = {}
      else fst vars' \<noteq> - 1 \<and> unat (fst vars') \<in> A \<and>
        (\<exists>c. snd (snd vars') = (if fst vars = - 1 then c else snd (snd vars)) \<and>
           chain_from parent vars es st vars' st' A c))"

definition node_stored ::
  "u64 \<Rightarrow> listfs_file_header \<Rightarrow> node \<Rightarrow> builder \<Rightarrow> listfs_file_header \<Rightarrow> builder \<Rightarrow> nat set \<Rightarrow> bool" where
  "node_stored cur h e st h' st' A \<longleftrightarrow> grows A A st st' \<and> card A = node_blocks (B st) e \<and>
     h' = h\<lparr>fh_flags := fh_flags h', fh_data := fh_data h', fh_size := fh_size h'\<rparr> \<and>
     (\<forall>img. agree (B st) A (disk st') img \<longrightarrow> node_at (N st) (B st) img cur h' e)"

definition dir_stored :: "u64 \<Rightarrow> node list option \<Rightarrow> builder \<Rightarrow> u64 \<Rightarrow> builder \<Rightarrow> nat set \<Rightarrow> bool" where
  "dir_stored parent entries st i st' A \<longleftrightarrow> grows A A st st' \<and>
     card A = (case entries of None \<Rightarrow> 0 | Some es \<Rightarrow> entries_blocks (B st) es) \<and>
     (\<forall>img. agree (B st) A (disk st') img \<longrightarrow>
        (case entries of None \<Rightarrow> i = - 1 | Some es \<Rightarrow> dir_at (N st) (B st) img parent (- 1) i es))"

lemma node_stored_file:
  assumes "stored_file \<lparr>unread = bytes, at_eof = False\<rparr> st i st' A" and "fh_flags h = 0"
  shows "node_stored cur h (File name info (Some bytes)) st (h\<lparr>fh_size := st_size info, fh_data := i\<rparr>) st' A"
  using assms by (simp add: stored_file_def node_stored_def del: read_file.simps)

lemma node_stored_dir:
  assumes "dir_stored cur entries st i st' A" and "fh_size h = 0"
  shows "node_stored cur h (Dir name info entries) st (h\<lparr>fh_flags := 1, fh_data := i\<rparr>) st' A"
  using assms by (cases entries) (simp_all add: dir_stored_def node_stored_def)

text \<open>After the loop the last header is written.\<close>

lemma dir_from_entries:
  assumes ok: "builder_ok st" and ne: "\<not> only_dots es"
    and e: "entries_stored parent (- 1, hb, - 1) es st vars' st' A"
  shows "dir_stored parent (Some es) st (snd (snd vars'))
    (write_block (fst vars') (buffer_bytes (fst (snd vars'))) 1 st') A"
proof -
  obtain p b c where v: "vars' = (p, b, c)" by (cases vars')
  have g: "grows A A st st'" and p: "p \<noteq> - 1" "unat p \<in> A" and card: "card A = entries_blocks (B st) es"
    and pend: "pending st' (p, b, c)" and ch: "chain_from parent (- 1, hb, - 1) es st (p, b, c) st' A c"
    using e ne by (auto simp: entries_stored_def v prev_set_def)
  note f = grows_fields [OF g]
  have bb: "unat p < N st'" "length (buffer_bytes b) = B st'" using pend p by (auto simp: pending_def buffer_length)
  have ok': "builder_ok st'" using ok f by simp
  note w = write_block_ok [OF ok' bb]
  have "grows A A st (write_block p (buffer_bytes b) 1 st')"
    using grows_mono [OF grows_trans [OF g conjunct1 [OF w]], of A] p by auto
  moreover have "dir_at (N st) (B st) img parent (- 1) c es" if a: "agree (B st) A (disk (write_block p (buffer_bytes b) 1 st')) img" for img
  proof -
    have "agree (B st) (A - {unat p}) (disk st') img"
      using a grows_fields(7) [OF conjunct1 [OF w]] f(1) by (auto simp: agree_def)
    moreover have "block (B st) img (unat p) = buffer_bytes b"
      using agreeD [OF a p(2)] w f(1) by simp
    ultimately show ?thesis using ch by (simp add: chain_from_def prev_set_def)
  qed
  ultimately show ?thesis using card by (simp add: dir_stored_def v)
qed

text \<open>One entry: the header before is written, the entry stored, the rest of the loop run.\<close>

lemma write_prev:
  assumes "builder_ok t" and "pending t vars"
    and s_def: "s = (if fst vars \<noteq> - 1
    then write_block (fst vars) (buffer_bytes ((fst (fst (snd vars)))\<lparr>fh_next := cur\<rparr>, snd (fst (snd vars)))) 1 t else t)"
  shows "grows {} (prev_set vars) t s \<and> (fst vars \<noteq> - 1 \<longrightarrow> block (B t) (disk s) (unat (fst vars)) =
    buffer_bytes ((fst (fst (snd vars)))\<lparr>fh_next := cur\<rparr>, snd (fst (snd vars))))"
proof (cases "fst vars = - 1")
  case True
  then show ?thesis by (simp add: s_def prev_set_def)
next
  case False
  then have "unat (fst vars) < N t"
    "length (buffer_bytes ((fst (fst (snd vars)))\<lparr>fh_next := cur\<rparr>, snd (fst (snd vars)))) = B t"
    using assms(2) by (auto simp: pending_def buffer_ok_def intro!: buffer_length)
  from write_block_ok [OF assms(1) this] show ?thesis using False by (simp add: s_def prev_set_def)
qed

lemma entries_step:
  fixes cur :: u64
  assumes ok: "builder_ok st" and b: "328 \<le> B st" and nd: "\<not> dots (node_name e)"
    and pend: "pending st (prev, b0, first)"
    and cur: "unat cur \<in> free st" "cur \<noteq> - 1" "grows {unat cur} {} st t"
    and s: "grows {} (prev_set (prev, b0, first)) t s"
      "prev \<noteq> - 1 \<Longrightarrow> block (B st) (disk s) (unat prev) = buffer_bytes ((fst b0)\<lparr>fh_next := cur\<rparr>, snd b0)"
    and n: "node_stored cur (new_header prev parent (node_name e) (node_stat e)) e s h u A1"
    and r: "entries_stored parent (cur, (h, replicate (B st - 328) 0), if prev = - 1 then cur else first) es u vars' st' A2"
  shows "entries_stored parent (prev, b0, first) (e # es) st vars' st' ({unat cur} \<union> A1 \<union> A2)"
proof -
  let ?V = "prev_set (prev, b0, first)" and ?h0 = "new_header prev parent (node_name e) (node_stat e)"
  let ?A = "{unat cur} \<union> A1 \<union> A2"
  obtain p bb c' where v: "vars' = (p, bb, c')" by (cases vars')
  have gn: "grows A1 A1 s u" and gr: "grows A2 (A2 \<union> {unat cur}) u st'"
    using n r cur(2) by (simp_all add: node_stored_def entries_stored_def prev_set_def)
  have bs: "B t = B st" "B s = B st" "B u = B st" "B st' = B st" "N s = N st" "N u = N st"
    using grows_fields [OF cur(3)] grows_fields [OF s(1)] grows_fields [OF gn] grows_fields [OF gr] by simp_all
  have fr: "A1 \<subseteq> free st - {unat cur}" "A2 \<subseteq> free st - {unat cur} - A1" "?V \<inter> free st = {}"
    using grows_fields(5) [OF cur(3)] grows_fields(5) [OF s(1)] grows_fields(5,6) [OF gn] grows_fields(6) [OF gr] pend
    by (auto simp: prev_set_def pending_def)
  have "grows ?A ({} \<union> ?V \<union> A1 \<union> (A2 \<union> {unat cur})) st st'"
    using grows_trans [OF grows_trans [OF grows_trans [OF cur(3) s(1)] gn] gr] by (simp only: Un_empty_right)
  then have g: "grows ?A (?A \<union> ?V) st st'" by (rule grows_mono) auto
  have "finite A1" "finite A2" using fr finite_subset [of _ "free st"] by (auto simp: free_def intro: finite_subset)
  moreover have "unat cur \<notin> A1" "unat cur \<notin> A2" "A1 \<inter> A2 = {}" using fr by auto
  ultimately have "card ?A = Suc (card A1 + card A2)" by (simp add: card_Un_disjoint)
  then have card: "card ?A = entries_blocks (B st) (e # es)"
    using n r nd by (simp add: node_stored_def entries_stored_def bs)
  have h: "h = ?h0\<lparr>fh_flags := fh_flags h, fh_data := fh_data h, fh_size := fh_size h\<rparr>"
    using n by (simp add: node_stored_def)
  have hf: "fh_name h = name_field (node_name e)" "fh_next h = - 1" "fh_prev h = prev" "fh_parent h = parent"
    "create_time h = st_ctime (node_stat e)" "modify_time h = st_mtime (node_stat e)" "access_time h = st_atime (node_stat e)"
    by (subst h, simp add: new_header_def)+
  have ok_h: "buffer_ok (B st) (h\<lparr>fh_next := c\<rparr>, replicate (B st - 328) 0)" for c
    using b by (simp add: buffer_ok_def hf)
  have link: "dir_at (N st) (B st) img parent prev cur (e # es)"
    if "block (B st) img (unat cur) = buffer_bytes (h\<lparr>fh_next := c\<rparr>, replicate (B st - 328) 0)"
      and "agree (B st) A1 (disk u) img" and "dir_at (N st) (B st) img parent cur c es" for img c
  proof -
    have "file_header_at (B st) img cur = h\<lparr>fh_next := c\<rparr>"
      using that(1) buffer_read [OF ok_h, of c] by (simp add: file_header_at_def)
    moreover have "node_at (N st) (B st) img cur h e" using n that(2) by (simp add: node_stored_def bs)
    then have "node_at (N st) (B st) img cur (h\<lparr>fh_next := c\<rparr>) e" using node_at_cong [of h "h\<lparr>fh_next := c\<rparr>"] by simp
    ultimately show ?thesis using nd cur(2) free_less [OF cur(1)] hf that(3) by (simp add: Let_def)
  qed
  have pv: "block (B st) img (unat prev) = buffer_bytes ((fst b0)\<lparr>fh_next := cur\<rparr>, snd b0)"
    if "agree (B st) ?V (disk st') img" and "prev \<noteq> - 1" for img
  proof -
    have V: "unat prev \<in> ?V" using that(2) by (simp add: prev_set_def)
    then have "unat prev \<in> - A1" "unat prev \<in> - (A2 \<union> {unat cur})" using fr cur(1) by auto
    then show ?thesis
      using agreeD [OF that(1) V] agreeD [OF grows_fields(7) [OF gr], of "unat prev"]
        agreeD [OF grows_fields(7) [OF gn], of "unat prev"] s(2) [OF that(2)] by (simp only: bs)
  qed
  show ?thesis
  proof (cases "only_dots es")
    case True
    then have e: "vars' = (cur, (h, replicate (B st - 328) 0), if prev = - 1 then cur else first)" "st' = u" "A2 = {}" "pending st' vars'"
      using r by (auto simp: entries_stored_def)
    have "chain_from parent (prev, b0, first) (e # es) st vars' st' ?A cur"
      unfolding chain_from_def
    proof (intro allI impI)
      fix img
      assume a: "agree (B st) (?A \<union> ?V - {unat (fst vars')}) (disk st') img"
        and bl: "block (B st) img (unat (fst vars')) = buffer_bytes (fst (snd vars'))"
      have nc: "unat cur \<notin> A1" "unat cur \<notin> ?V" using fr cur(1) by auto
      have "agree (B st) A1 (disk u) img" "agree (B st) ?V (disk st') img"
        using a nc unfolding e(1,2) by (auto elim!: agree_mono)
      moreover have "h\<lparr>fh_next := - 1\<rparr> = h" using hf(2) by (metis listfs_file_header.surjective listfs_file_header.update_convs(2))
      ultimately show "(fst (prev, b0, first) \<noteq> - 1 \<longrightarrow> block (B st) img (unat (fst (prev, b0, first))) =
          buffer_bytes ((fst (fst (snd (prev, b0, first))))\<lparr>fh_next := cur\<rparr>, snd (fst (snd (prev, b0, first))))) \<and>
          dir_at (N st) (B st) img parent (fst (prev, b0, first)) cur (e # es)"
        using link [of img "- 1"] pv [of img] bl dir_at_only_dots [OF True, of "N st" "B st" img parent cur "- 1"]
        by (simp add: e(1) del: dir_at.simps)
    qed
    then show ?thesis using g card nd e cur(2) by (auto simp: entries_stored_def)
  next
    case False
    then obtain c where e: "p \<noteq> - 1" "unat p \<in> A2" "c' = (if prev = - 1 then cur else first)"
      "chain_from parent (cur, (h, replicate (B st - 328) 0), if prev = - 1 then cur else first) es u vars' st' A2 c" "pending st' vars'"
      using r cur(2) by (auto simp: entries_stored_def v)
    have "chain_from parent (prev, b0, first) (e # es) st vars' st' ?A cur"
      unfolding chain_from_def
    proof (intro allI impI)
      fix img
      assume a: "agree (B st) (?A \<union> ?V - {unat (fst vars')}) (disk st') img"
        and bl: "block (B st) img (unat (fst vars')) = buffer_bytes (fst (snd vars'))"
      have np: "unat p \<notin> A1" "unat p \<notin> ?V" "unat p \<noteq> unat cur" using fr e(2) by auto
      have "agree (B st) (A2 \<union> prev_set (cur, (h, replicate (B st - 328) 0), if prev = - 1 then cur else first) - {unat (fst vars')}) (disk st') img"
        using a np cur(2) by (auto simp: v prev_set_def elim!: agree_mono)
      then have "block (B st) img (unat cur) = buffer_bytes (h\<lparr>fh_next := c\<rparr>, replicate (B st - 328) 0)"
        and "dir_at (N st) (B st) img parent cur c es"
        using e(4) bl cur(2) by (auto simp: chain_from_def bs)
      moreover have "agree (B st) A1 (disk st') img" "agree (B st) ?V (disk st') img"
        using a np by (auto simp: v elim!: agree_mono)
      moreover have "agree (B st) A1 (disk u) (disk st')"
        using grows_fields(7) [OF gr] fr by (auto simp: bs elim!: agree_mono)
      ultimately show "(fst (prev, b0, first) \<noteq> - 1 \<longrightarrow> block (B st) img (unat (fst (prev, b0, first))) =
          buffer_bytes ((fst (fst (snd (prev, b0, first))))\<lparr>fh_next := cur\<rparr>, snd (fst (snd (prev, b0, first))))) \<and>
          dir_at (N st) (B st) img parent (fst (prev, b0, first)) cur (e # es)"
        using link [of img c] pv [of img] by (auto intro: agree_trans simp del: dir_at.simps)
    qed
    then show ?thesis using g card nd e by (auto simp: entries_stored_def v)
  qed
qed

section \<open>Whole trees\<close>

lemma entries_nil: "pending st vars \<Longrightarrow> entries_stored parent vars [] st vars st {}"
  by (simp add: entries_stored_def) (rule grows_mono [OF grows_refl], simp)

lemma chain_from_dots:
  "dots (node_name e) \<Longrightarrow> chain_from parent vars (e # es) st vars' st' A c = chain_from parent vars es st vars' st' A c"
  by (simp add: chain_from_def)

lemma entries_dots:
  "dots (node_name e) \<Longrightarrow> entries_stored parent vars es st vars' st' A \<Longrightarrow>
   entries_stored parent vars (e # es) st vars' st' A"
  using chain_from_dots [of e parent vars es st] by (simp add: entries_stored_def)

lemma process_run:
  "builder_ok st \<Longrightarrow> 328 \<le> B st \<Longrightarrow>
    (\<forall>es. entries = Some es \<longrightarrow> \<not> only_dots es \<and> tree_ok path es \<and> entries_blocks (B st) es \<le> card (free st)) \<Longrightarrow>
    \<exists>i st' A. process_dir fresh parent path entries st = Inr (i, st') \<and> dir_stored parent entries st i st' A"
  "builder_ok st \<Longrightarrow> 328 \<le> B st \<Longrightarrow> tree_ok path es \<Longrightarrow> entries_blocks (B st) es \<le> card (free st) \<Longrightarrow>
    pending st vars \<Longrightarrow>
    \<exists>vars' st' A. process_entries fresh parent path vars es st = Inr (vars', st') \<and>
      entries_stored parent vars es st vars' st' A"
  "builder_ok st \<Longrightarrow> 328 \<le> B st \<Longrightarrow> node_ok path e \<Longrightarrow> node_blocks (B st) e \<le> card (free st) \<Longrightarrow>
    fh_flags header = 0 \<and> fh_size header = 0 \<and> fh_data header = 0 \<Longrightarrow>
    \<exists>h st' A. process_node fresh parent path e header st = Inr (h, st') \<and> node_stored parent header e st h st' A"
proof (induction fresh parent path entries st and fresh parent path vars es st and fresh parent path e header st
    rule: process_dir_process_entries_process_node.induct)
  case (1 fresh parent path st)
  have "dir_stored parent None st (- 1) st {}" by (simp add: dir_stored_def)
  then show ?case by auto
next
  case (2 fresh parent path es st)
  define hb where "hb = (file_header_of (map fresh [0..<328]), map fresh [328..<nat (block_size st)])"
  have "pending st (- 1, hb, - 1)" by (simp add: pending_def)
  from "2.IH" [OF hb_def "2.prems"(1,2) _ _ this] "2.prems"(3) obtain vars' st' A where
    r: "process_entries fresh parent path (- 1, hb, - 1) es st = Inr (vars', st')"
      "entries_stored parent (- 1, hb, - 1) es st vars' st' A"
    by blast
  have "process_dir fresh parent path (Some es) st = Inr (snd (snd vars'),
      write_block (fst vars') (buffer_bytes (fst (snd vars'))) 1 st')"
    using r(1) by (simp add: hb_def split_beta)
  moreover have "\<not> only_dots es" using "2.prems"(3) by simp
  ultimately show ?case using dir_from_entries [OF "2.prems"(1) _ r(2)] by blast
next
  case (3 fresh parent path vars st)
  from entries_nil [OF "3.prems"(5)] show ?case by auto
next
  case (4 fresh parent path prev b0 first e es st)
  show ?case
  proof (cases "dots (node_name e)")
    case True
    then show ?thesis using "4.IH"(1) "4.prems" entries_dots [OF True] by fastforce
  next
    case False
    have len: "length path + length (node_name e) < 259" "node_ok (path @ [47] @ node_name e) e" "tree_ok path es"
      using "4.prems"(3) False by simp_all
    have cards: "Suc (node_blocks (B st) e + entries_blocks (B st) es) \<le> card (free st)"
      using "4.prems"(4) False by simp
    then have "0 < card (free st)" by simp
    then obtain cur t where a: "alloc_disk_block st = Inr (cur, t)" "unat cur \<in> free st" "cur \<noteq> - 1"
      "grows {unat cur} {} st t" using alloc_write [OF "4.prems"(1)] by blast
    have t: "builder_ok t" "B t = B st" "N t = N st" "free t = free st - {unat cur}"
      using grows_fields [OF a(4)] "4.prems"(1) by simp_all
    have "pending t (prev, b0, first)" using "4.prems"(5) t by (auto simp: pending_def)
    define s where "s = (if prev \<noteq> - 1
      then write_block prev (buffer_bytes ((fst b0)\<lparr>fh_next := cur\<rparr>, snd b0)) 1 t else t)"
    have s: "grows {} (prev_set (prev, b0, first)) t s"
      "prev \<noteq> - 1 \<Longrightarrow> block (B st) (disk s) (unat prev) = buffer_bytes ((fst b0)\<lparr>fh_next := cur\<rparr>, snd b0)"
      using write_prev [OF t(1) \<open>pending t (prev, b0, first)\<close>, of s cur] by (simp_all add: s_def t(2))
    have ss: "builder_ok s" "B s = B st" "N s = N st" "free s = free st - {unat cur}" "block_size s = block_size st"
      using grows_fields [OF s(1)] grows_fields(1) [OF a(4)] t by simp_all
    have "card (free s) = card (free st) - 1" using card_free [OF a(4)] card_free [OF s(1)] by simp
    then have cs: "node_blocks (B s) e + entries_blocks (B s) es \<le> card (free s)" using cards ss(2) by simp
    let ?h0 = "new_header prev parent (node_name e) (node_stat e)" and ?path = "path @ [47] @ node_name e"
    let ?first = "if prev = - 1 then cur else first"
    have if_s: "(s, ?first) = (if prev \<noteq> - 1
        then (write_block prev (buffer_bytes ((fst b0)\<lparr>fh_next := cur\<rparr>, snd b0)) 1 t, first) else (t, cur))"
      by (simp add: s_def)
    have bs: "\<not> (block_size s < 328 \<or> 260 \<le> length ?path)" using "4.prems"(2) ss(5) len(1) by auto
    have z: "fh_flags ?h0 = 0 \<and> fh_size ?h0 = 0 \<and> fh_data ?h0 = 0" by (simp add: new_header_def)
    have nb: "node_blocks (B s) e \<le> card (free s)" "328 \<le> B s" using cs ss(2) "4.prems"(2) by simp_all
    from "4.IH"(2) [OF False a(1) refl if_s refl refl bs ss(1) nb(2) len(2) nb(1) z] obtain h u A1 where
      n: "process_node fresh cur ?path e ?h0 s = Inr (h, u)" "node_stored cur ?h0 e s h u A1" by blast
    have gn: "grows A1 A1 s u" using n(2) by (simp add: node_stored_def)
    have u: "builder_ok u" "B u = B st" "N u = N st" "free u = free st - {unat cur} - A1" "block_size u = block_size st"
      "card (free u) = card (free s) - node_blocks (B s) e"
      using grows_fields [OF gn] card_free [OF gn] ss n(2) by (simp_all add: node_stored_def)
    have eb: "entries_blocks (B u) es \<le> card (free u)" using cs unfolding u(2,6) ss(2) by linarith
    have bu: "328 \<le> B u" using u(2) "4.prems"(2) by simp
    let ?hb = "(h, replicate (nat (block_size u) - 328) 0)"
    have "fh_name h = name_field (node_name e)"
      using n(2) by (metis listfs_file_header.ext_inject listfs_file_header.surjective listfs_file_header.update_convs(5-7) new_header_def node_stored_def)
    then have "pending u (cur, ?hb, ?first)"
      using u a(2) bu free_less by (simp add: pending_def buffer_ok_def)
    from "4.IH"(3) [OF False a(1) refl if_s refl refl bs n(1) refl u(1) bu len(3) eb this] obtain vars' st' A2 where
      r: "process_entries fresh parent path (cur, ?hb, ?first) es u = Inr (vars', st')"
        "entries_stored parent (cur, ?hb, ?first) es u vars' st' A2" by blast
    have "process_entries fresh parent path (prev, b0, first) (e # es) st = Inr (vars', st')"
      using False a(1) bs n(1) r(1) by (simp add: if_s [symmetric] Let_def)
    then show ?thesis
      using entries_step [OF "4.prems"(1,2) False "4.prems"(5) a(2-4) s n(2), of es vars' st' A2] r(2) u(5) by auto
  qed
next
  case (5 fresh cur path name info entries header st)
  have "\<exists>i st' A. process_dir fresh cur path entries st = Inr (i, st') \<and> dir_stored cur entries st i st' A"
    using "5.prems"(3,4) by (intro "5.IH" "5.prems"(1,2)) auto
  then show ?case using node_stored_dir [of cur entries st _ _ _ header] "5.prems"(5) by fastforce
next
  case (6 fresh cur path name info contents header st)
  show ?case
  proof (cases contents)
    case None
    have "node_stored cur header (File name info None) st (header\<lparr>fh_data := - 1\<rparr>) st {}"
      using "6.prems"(5) by (simp add: node_stored_def)
    then show ?thesis using None by auto
  next
    case (Some bytes)
    have "16 \<le> B st" using "6.prems"(2) by simp
    then obtain i st' A where s: "store_file_data fresh \<lparr>unread = bytes, at_eof = False\<rparr> st = Inr (i, st')"
      "stored_file \<lparr>unread = bytes, at_eof = False\<rparr> st i st' A"
      using store_run [of st "\<lparr>unread = bytes, at_eof = False\<rparr>" fresh] "6.prems"(1,4) Some by auto
    then show ?thesis using node_stored_file [OF s(2), of header cur name info] "6.prems"(5) Some by auto
  qed
next
  case (7 fresh cur path name info header st)
  then have "node_stored cur header (Other name info) st header st {}" by (simp add: node_stored_def)
  then show ?case by auto
qed

text \<open>C29: With blocks large enough for a file header and enough of them free, \<^verbatim>\<open>process_dir\<close> stores a tree
  without empty directories whole: from the block it returns the image holds the chain of
  headers of the entries in their order, each with its name, links, parent and times, a
  file's data read back, a directory's chain recursively.  It takes exactly the blocks that
  headers, lists and data need, out of the free ones, and writes no other.\<close>

theorem process_dir_stores_tree:
  assumes "builder_ok st" and "328 \<le> B st" and "\<not> only_dots es" and "tree_ok path es"
    and "entries_blocks (B st) es \<le> card (free st)"
  shows "\<exists>i st' A. process_dir fresh parent path (Some es) st = Inr (i, st') \<and> A \<subseteq> free st \<and>
    card A = entries_blocks (B st) es \<and> free st' = free st - A \<and> agree (B st) (- A) (disk st) (disk st') \<and>
    (\<forall>img. agree (B st) A (disk st') img \<longrightarrow> dir_at (N st) (B st) img parent (- 1) i es)"
proof -
  obtain i st' A where r: "process_dir fresh parent path (Some es) st = Inr (i, st')"
    "dir_stored parent (Some es) st i st' A"
    using process_run(1) [of st "Some es" path fresh parent] assms by auto
  then have "grows A A st st'" by (simp add: dir_stored_def)
  from grows_fields(5-7) [OF this] r show ?thesis by (auto simp: dir_stored_def simp del: process_dir.simps)
qed

section \<open>Directories without entries\<close>

lemma entries_only_dots: "only_dots es \<Longrightarrow> process_entries fresh parent path vars es st = Inr (vars, st)"
proof (induction es)
  case (Cons e es)
  then show ?case by (cases vars) simp
qed simp

text \<open>A write to the block \<open>- 1\<close>: the file position stays behind the block written last.\<close>

lemma write_no_block:
  assumes ok: "builder_ok st" and pos: "disk_pos st = B st * j" and d: "length d = B st"
  shows "block (B st) (disk (write_block (- 1) d 1 st)) k = (if k = j then d else block (B st) (disk st) k)"
    and "disk_map (write_block (- 1) d 1 st) = disk_map st"
proof -
  have b: "0 < B st" "B st \<le> 2 ^ 31"
  proof -
    show "0 < B st" using ok by (simp add: builder_ok_def)
    have "B st * 1 \<le> B st * N st" using ok by (intro mult_le_mono2) (simp add: builder_ok_def Suc_le_eq)
    then show "B st \<le> 2 ^ 31" using ok unfolding builder_ok_def by linarith
  qed
  have "long (of_int (block_size st) * - 1) < 0"
  proof -
    have "(of_int (block_size st) :: u64) = of_nat (B st)" using b(1) by simp
    then have "long (of_int (block_size st) * - 1) = sint (ucast (- of_nat (B st) :: u64) :: u32)"
      by (simp add: long_def)
    also have "ucast (- of_nat (B st) :: u64) = (of_int (- int (B st)) :: u32)" 
    proof -
      have "of_int (- int (B st)) = (- of_nat (B st) :: u64)" by simp
      moreover have "ucast (of_int z :: u64) = (of_int z :: u32)" for z by (rule bit_word_eqI) (simp add: bit_of_int_iff bit_unsigned_iff)
      ultimately show ?thesis by metis
    qed
    also have "sint \<dots> = - int (B st)" using b by (subst signed_of_int) (simp add: signed_take_bit_int_eq_self)
    finally show ?thesis using b(1) by simp
  qed
  then have w: "write_block (- 1) d 1 st = fwrite d st" using d by (simp add: write_block_def fseek_def)
  show "disk_map (write_block (- 1) d 1 st) = disk_map st" unfolding w by (simp add: fwrite_def)
  have dd: "disk (fwrite d st) = (\<lambda>p. if B st * j \<le> p \<and> p < B st * j + B st then d ! (p - B st * j) else disk st p)"
    using d by (simp add: fwrite_def pos fun_eq_iff)
  show "block (B st) (disk (write_block (- 1) d 1 st)) k = (if k = j then d else block (B st) (disk st) k)"
  proof (cases "k = j")
    case True
    then show ?thesis using d unfolding w dd block_def by (simp, intro nth_equalityI) auto
  next
    case False
    have "B st * k + B st \<le> B st * j \<or> B st * j + B st \<le> B st * k"
      using False mult_le_mono2 [of "Suc k" j "B st"] mult_le_mono2 [of "Suc j" k "B st"] by (cases "k < j") auto
    then show ?thesis using False unfolding w dd block_def by auto
  qed
qed

lemma write_pos: "builder_ok st \<Longrightarrow> unat i < N st \<Longrightarrow> length d = B st \<Longrightarrow> disk_pos (write_block i d 1 st) = B st * Suc (unat i)"
  by (simp only: write_block_def block_offset fseek_nat) (simp add: fwrite_def)

text \<open>What the condition of \<^verbatim>\<open>process_dir_stores_tree\<close> excludes.  For a directory without entries
  \<^verbatim>\<open>process_dir\<close> returns \<open>-1\<close> and takes no block, but it still writes its header buffer, to block
  \<open>-1\<close>: the seek fails, and uninitialised memory overwrites the block behind the one written
  last, whether free or taken.  No other block is written.\<close>

theorem process_dir_empty_overwrites:
  assumes "builder_ok st" and "328 \<le> B st" and "unat i < N st" and "length d = B st" and "only_dots es"
  shows "\<exists>st'. process_dir fresh parent path (Some es) (write_block i d 1 st) = Inr (- 1, st') \<and>
    free st' = free st \<and> block (B st) (disk st') (unat i) = d \<and>
    block (B st) (disk st') (unat i + 1) = map fresh [0..<B st] \<and>
    agree (B st) (- {unat i, unat i + 1}) (disk st) (disk st')"
proof -
  let ?u = "write_block i d 1 st"
  note w = write_block_ok [OF assms(1,3,4)]
  note g = grows_fields [OF conjunct1 [OF w]]
  let ?buf = "(file_header_of (map fresh [0..<328]), map fresh [328..<B st])"
  let ?v = "write_block (- 1) (buffer_bytes ?buf) 1 ?u"
  have "buffer_bytes ?buf = map fresh ([0..<328] @ [328..<B st])"
    by (simp only: buffer_bytes_def fst_conv snd_conv) (simp add: file_header_reads_back)
  also have "[0..<328] @ [328..<B st] = [0..<B st]" using assms(2) using upt_add_eq_append [of 0 328 "B st - 328"] by simp
  finally have b: "buffer_bytes ?buf = map fresh [0..<B st]" .
  have ok: "builder_ok ?u" and pos: "disk_pos ?u = B ?u * Suc (unat i)" and l: "length (buffer_bytes ?buf) = B ?u"
    using assms(1) g write_pos [OF assms(1,3,4)] b by simp_all
  note v = write_no_block [OF ok pos l]
  have run: "process_dir fresh parent path (Some es) ?u = Inr (- 1, ?v)"
    using g(1) by (simp add: entries_only_dots [OF assms(5)] Let_def)
  have "agree (B st) (- {unat i, unat i + 1}) (disk st) (disk ?v)"
    using g(7) v(1) g(1) by (auto simp: agree_def)
  moreover have "free ?v = free st"
  proof -
    have "fs_header ?v = fs_header ?u" by (simp add: write_block_def fwrite_def fseek_def)
    then show ?thesis using v(2) g(5) by (simp add: free_def)
  qed
  moreover have "block (B st) (disk ?v) (unat i) = d" using v(1) [of "unat i"] g(1) w by simp
  moreover have "block (B st) (disk ?v) (unat i + 1) = map fresh [0..<B st]" using v(1) [of "unat i + 1"] g(1) b by simp
  ultimately show ?thesis using run by blast
qed

theorem process_dir_empty_overwrites_witness:
  "\<exists>st'. process_dir (\<lambda>_. 7) 0 [47] (Some []) (write_block 5 (replicate 512 1) 1 demo_builder) = Inr (- 1, st') \<and>
     block 512 (disk st') 6 = replicate 512 7"
  using process_dir_empty_overwrites [OF demo_builder_ok, of 5 "replicate 512 1" "[]" "\<lambda>_. 7" 0 "[47]"]
  by (simp only: demo_builder_simps) (simp add: map_replicate_const)

theorem process_dir_stores_tree_witness:
  "\<exists>i st'. process_dir (\<lambda>_. 0) (- 1) [47]
       (Some [File [97] \<lparr>st_size = 2, st_ctime = 0, st_mtime = 0, st_atime = 0\<rparr> (Some [104, 105])]) demo_builder = Inr (i, st') \<and>
     card (free st') = 61 \<and> fh_name (file_header_at 512 (disk st') i) = name_field [97]"
proof -
  let ?es = "[File [97] \<lparr>st_size = 2, st_ctime = 0, st_mtime = 0, st_atime = 0\<rparr> (Some [104, 105])]"
  have b: "B demo_builder = 512" by (simp add: demo_builder_simps)
  have e: "\<not> only_dots ?es" "tree_ok [47] ?es" "entries_blocks 512 ?es = 3"
    by (simp_all add: dots_def file_blocks_def chunks_def)
  have c: "card (free demo_builder) = 64" by (simp add: demo_builder_free)
  obtain i st' A where r: "process_dir (\<lambda>_. 0) (- 1) [47] (Some ?es) demo_builder = Inr (i, st')" "A \<subseteq> free demo_builder"
    "card A = 3" "free st' = free demo_builder - A"
    "\<forall>img. agree 512 A (disk st') img \<longrightarrow> dir_at (N demo_builder) 512 img (- 1) (- 1) i ?es"
    using process_dir_stores_tree [OF demo_builder_ok _ e(1,2), of "\<lambda>_. 0" "- 1"] e(3) c unfolding b by auto
  have "finite A" using r(2) finite_subset by (auto simp: demo_builder_free)
  then have "card (free st') = 61" using r(2-4) c by (simp add: card_Diff_subset)
  moreover have "fh_name (file_header_at 512 (disk st') i) = name_field [97]"
    using r(5) [rule_format, OF agree_refl] by (simp add: dots_def Let_def)
  ultimately show ?thesis using r(1) by blast
qed

end
