(* ===== verification/Image_Sound.thy ===== *)
theory Image_Sound
  imports Image_Tree
begin

text \<open>
  What holds of every run of \<open>process_dir\<close> of \<open>Make_Listfs\<close>, on every tree of the host: the typing
  of its result and state, and the one error that can end it.
\<close>

section \<open>Sound results\<close>

definition sound :: "('a \<Rightarrow> bool) \<Rightarrow> failure + 'a \<Rightarrow> bool" where
  "sound P r \<longleftrightarrow> (case r of Inl e \<Rightarrow> e = Exit (- 3) | Inr x \<Rightarrow> P x)"

lemma sound_simps [simp]: "sound P (Inl e) \<longleftrightarrow> e = Exit (- 3)" "sound P (Inr x) \<longleftrightarrow> P x"
  by (simp_all add: sound_def)

lemma sound_bind:
  "sound P m \<Longrightarrow> (\<And>x. m = Inr x \<Longrightarrow> P x \<Longrightarrow> sound R (f x)) \<Longrightarrow> sound R (and_then m f)"
  by (cases m) simp_all

lemma sound_mono: "sound P r \<Longrightarrow> (\<And>x. P x \<Longrightarrow> R x) \<Longrightarrow> sound R r"
  by (cases r) simp_all

text \<open>The fields that storing files never touches; blocks are only ever taken.\<close>

definition keeps :: "builder \<Rightarrow> builder \<Rightarrow> bool" where
  "keeps st st' \<longleftrightarrow>
     st' = st\<lparr>disk := disk st', disk_len := disk_len st', disk_pos := disk_pos st', disk_map := disk_map st'\<rparr> \<and>
     length (disk_map st') = length (disk_map st) \<and> free st' \<subseteq> free st"

lemma keeps_refl [simp]: "keeps st st"
  by (simp add: keeps_def)

lemma keeps_fields:
  assumes "keeps st st'"
  shows "block_size st' = block_size st" "fs_header st' = fs_header st" "builder_ok st' = builder_ok st"
    "free st' \<subseteq> free st"
proof -
  have e: "st' = st\<lparr>disk := disk st', disk_len := disk_len st', disk_pos := disk_pos st', disk_map := disk_map st'\<rparr>"
    using assms by (simp add: keeps_def)
  show "block_size st' = block_size st" "fs_header st' = fs_header st" by (subst e, simp)+
  then show "builder_ok st' = builder_ok st" using assms by (simp add: keeps_def builder_ok_def)
qed (use assms in \<open>simp_all add: keeps_def\<close>)

lemma keeps_trans [trans]: "keeps st t \<Longrightarrow> keeps t u \<Longrightarrow> keeps st u"
  unfolding keeps_def by (cases st, cases t, cases u) auto

lemma keeps_write: "keeps st (write_block i d n st)"
  by (simp add: keeps_def write_block_def fwrite_def fseek_def free_def)

lemma alloc_sound:
  "builder_ok st \<Longrightarrow> sound (\<lambda>(i, st'). keeps st st' \<and> unat i \<in> free st - free st') (alloc_disk_block st)"
  using alloc_spec [of st] by (cases "alloc_disk_block st") (auto simp: keeps_def)

section \<open>Files\<close>

lemma data_loop_sound:
  "builder_ok st \<Longrightarrow> sound (\<lambda>(list', f', st'). keeps st st' \<and> length list' = length list + n) (data_loop n list f st)"
proof (induction n list f st rule: data_loop.induct)
  case (2 n list f st)
  obtain bytes g where fr: "fread (nat (block_size st)) f = (bytes, g)" by fastforce
  consider "at_eof f" | "\<not> at_eof f" "bytes = []" | "\<not> at_eof f" "bytes \<noteq> []" by blast
  then show ?case
  proof cases
    case 1
    then show ?thesis using "2.IH"(1) "2.prems" by (simp add: case_prod_beta)
  next
    case 2
    then show ?thesis using "2.IH"(2) [OF 2(1) refl refl fr [symmetric]] "2.prems" fr by (simp add: case_prod_beta)
  next
    case 3
    let ?w = "\<lambda>i t. write_block i (bytes @ replicate (nat (block_size st) - length bytes) 0) 1 t"
    have run: "data_loop (Suc n) list f st =
        and_then (alloc_disk_block st) (\<lambda>(i, t). data_loop n (list @ [i]) g (?w i t))"
      using 3 fr by (simp add: Let_def)
    have step: "sound (\<lambda>(list', f', st'). keeps st st' \<and> length list' = length list + Suc n)
        (data_loop n (list @ [i]) g (?w i t))"
      if a: "alloc_disk_block st = Inr (i, t)" and k: "keeps st t" for i t
    proof -
      have k': "keeps st (?w i t)" using k keeps_write keeps_trans by blast
      then have "builder_ok (?w i t)" using "2.prems" keeps_fields(3) by blast
      from "2.IH"(3) [OF 3(1) refl refl fr [symmetric] 3(2) a refl this] show ?thesis
        by (rule sound_mono) (auto intro: keeps_trans [OF k'])
    qed
    show ?thesis unfolding run
      by (rule sound_bind [OF alloc_sound [OF "2.prems"]]) (use step in \<open>simp only: split_paired_all prod.case\<close>)
  qed
qed simp

lemma store_sound:
  "builder_ok st \<Longrightarrow> 8 \<le> B st \<Longrightarrow>
   sound (\<lambda>(i, st'). keeps st st' \<and> (i = - 1 \<or> unat i \<in> free st - free st')) (store_file_data fresh f st)"
proof (induction fresh f st rule: store_file_data.induct)
  case (1 fresh f st)
  show ?case
  proof (cases "at_eof f")
    case True
    then show ?thesis by (simp add: store_file_data.simps [of fresh f st])
  next
    case False
    have b: "\<not> block_size st < 8" using "1.prems"(2) by simp
    show ?thesis unfolding store_file_data.simps [of fresh f st] if_not_P [OF False] if_not_P [OF b] Let_def
    proof (rule sound_bind [OF alloc_sound [OF "1.prems"(1)]], clarify)
      fix i t
      assume a: "alloc_disk_block st = Inr (i, t)" and k: "keeps st t" and i: "unat i \<in> free st" "unat i \<notin> free t"
      have t: "builder_ok t" using "1.prems"(1) keeps_fields(3) [OF k] by simp
      show "sound (\<lambda>(i, st'). keeps st st' \<and> (i = - 1 \<or> unat i \<in> free st - free st'))
          (and_then (data_loop (nat (block_size t div 8 - 1)) [] f t) (\<lambda>(list, f, st).
           and_then (store_file_data fresh f st) (\<lambda>(next, st).
             Inr (i, write_block i (number_bytes (list @ [next]) @
               map fresh [length (number_bytes (list @ [next]))..<nat (block_size st)]) 1 st))))"
      proof (rule sound_bind [OF data_loop_sound [OF t]], clarify)
        fix list g u
        assume d: "data_loop (nat (block_size t div 8 - 1)) [] f t = Inr (list, g, u)" and ku: "keeps t u"
        have u: "builder_ok u" "8 \<le> B u" using t keeps_fields [OF ku] keeps_fields [OF k] "1.prems"(2) by simp_all
        from "1.IH" [OF False b a refl d refl refl u]
        show "sound (\<lambda>(i, st'). keeps st st' \<and> (i = - 1 \<or> unat i \<in> free st - free st'))
          (and_then (store_file_data fresh g u) (\<lambda>(next, st).
             Inr (i, write_block i (number_bytes (list @ [next]) @
               map fresh [length (number_bytes (list @ [next]))..<nat (block_size st)]) 1 st)))"
        proof (rule sound_bind, clarify)
          fix nxt v
          assume v: "keeps u v"
          have "keeps t (write_block i d 1 v)" for d using v ku keeps_write keeps_trans by blast
          then have "keeps st (write_block i d 1 v) \<and> unat i \<notin> free (write_block i d 1 v)" for d
            using k i keeps_trans keeps_fields(4) by blast
          then show "sound (\<lambda>(i, st'). keeps st st' \<and> (i = - 1 \<or> unat i \<in> free st - free st'))
              (Inr (i, write_block i (number_bytes (list @ [nxt]) @
                 map fresh [length (number_bytes (list @ [nxt]))..<nat (block_size v)]) 1 v))"
            using i by simp
        qed
      qed
    qed
  qed
qed

section \<open>Directories\<close>

text \<open>Every path below a directory fits into \<^verbatim>\<open>file_name\<close>.\<close>

function paths_fit :: "u8 list \<Rightarrow> node list \<Rightarrow> bool" and node_fits :: "u8 list \<Rightarrow> node \<Rightarrow> bool" where
  "paths_fit path [] = True"
| "paths_fit path (e # es) =
     ((dots (node_name e) \<or> (length path + length (node_name e) < 259 \<and> node_fits (path @ [47] @ node_name e) e)) \<and>
      paths_fit path es)"
| "node_fits path (File name info contents) = True"
| "node_fits path (Dir name info entries) = (case entries of None \<Rightarrow> True | Some es \<Rightarrow> paths_fit path es)"
| "node_fits path (Other name info) = True"
  by pat_completeness auto
termination
  by (relation "measure (\<lambda>x. case x of Inl (path, es) \<Rightarrow> size_list size es | Inr (path, e) \<Rightarrow> size e)") auto

text \<open>A block number that an operation returns: \<open>- 1\<close>, or a block it has taken.\<close>

definition taken_between :: "builder \<Rightarrow> builder \<Rightarrow> u64 \<Rightarrow> bool" where
  "taken_between st st' i \<longleftrightarrow> i = - 1 \<or> unat i \<in> free st - free st'"

lemma taken_between_mono: "taken_between t u i \<Longrightarrow> free t \<subseteq> free st \<Longrightarrow> free u' \<subseteq> free u \<Longrightarrow> taken_between st u' i"
  by (auto simp: taken_between_def)

abbreviation sound_dir :: "builder \<Rightarrow> failure + u64 \<times> builder \<Rightarrow> bool" where
  "sound_dir st \<equiv> sound (\<lambda>(i, st'). keeps st st' \<and> taken_between st st' i)"

abbreviation sound_entries :: "builder \<Rightarrow> u64 \<Rightarrow> failure + entry_vars \<times> builder \<Rightarrow> bool" where
  "sound_entries st first \<equiv>
     sound (\<lambda>(vars, st'). keeps st st' \<and> (snd (snd vars) = first \<or> taken_between st st' (snd (snd vars))))"

abbreviation sound_node :: "builder \<Rightarrow> failure + listfs_file_header \<times> builder \<Rightarrow> bool" where
  "sound_node st \<equiv> sound (\<lambda>(h, st'). keeps st st')"

lemma process_sound:
  "builder_ok st \<Longrightarrow> 328 \<le> B st \<Longrightarrow> (\<forall>es. entries = Some es \<longrightarrow> paths_fit path es) \<Longrightarrow>
    sound_dir st (process_dir fresh parent path entries st)"
  "builder_ok st \<Longrightarrow> 328 \<le> B st \<Longrightarrow> paths_fit path es \<Longrightarrow>
    sound_entries st (snd (snd vars)) (process_entries fresh parent path vars es st)"
  "builder_ok st \<Longrightarrow> 328 \<le> B st \<Longrightarrow> node_fits path e \<Longrightarrow>
    sound_node st (process_node fresh parent path e header st)"
proof (induction fresh parent path entries st and fresh parent path vars es st and fresh parent path e header st
    rule: process_dir_process_entries_process_node.induct)
  case (1 fresh parent path st)
  then show ?case by (simp add: taken_between_def)
next
  case (2 fresh parent path es st)
  define hb where "hb = (file_header_of (map fresh [0..<328]), map fresh [328..<nat (block_size st)])"
  have run: "process_dir fresh parent path (Some es) st =
      and_then (process_entries fresh parent path (- 1, hb, - 1) es st)
        (\<lambda>((p, h, first), st). Inr (first, write_block p (buffer_bytes h) 1 st))"
    by (simp add: hb_def Let_def)
  have "sound_entries st (- 1) (process_entries fresh parent path (- 1, hb, - 1) es st)"
    using "2.IH" [OF hb_def "2.prems"(1,2)] "2.prems"(3) by simp
  moreover have "keeps st (write_block p d 1 t)" if "keeps st t" for p d t
    using keeps_trans [OF that keeps_write] .
  moreover have "taken_between st (write_block p d 1 t) f" if "taken_between st t f" for p d f t
    using that keeps_fields(4) [OF keeps_write, of p d 1 t] by (auto simp: taken_between_def)
  ultimately show ?case unfolding run by (auto elim!: sound_bind simp: taken_between_def [of _ _ "- 1"])
next
  case (3 fresh parent path vars st)
  then show ?case by simp
next
  case (4 fresh parent path prev b0 first e es st)
  show ?case
  proof (cases "dots (node_name e)")
    case True
    then show ?thesis using "4.IH"(1) "4.prems" by simp
  next
    case False
    let ?path = "path @ [47] @ node_name e"
    let ?h0 = "new_header prev parent (node_name e) (node_stat e)"
    have len: "length path + length (node_name e) < 259" "node_fits ?path e" "paths_fit path es"
      using "4.prems"(3) False by simp_all
    define linked where "linked cur t = (if prev \<noteq> - 1
      then write_block prev (buffer_bytes ((fst b0)\<lparr>fh_next := cur\<rparr>, snd b0)) 1 t else t)" for cur t
    define head where "head cur = (if prev = - 1 then cur else first)" for cur :: u64
    have if_s: "(linked cur t, head cur) = (if prev \<noteq> - 1
        then (write_block prev (buffer_bytes ((fst b0)\<lparr>fh_next := cur\<rparr>, snd b0)) 1 t, first) else (t, cur))" for cur t
      by (simp add: linked_def head_def)
    have run: "process_entries fresh parent path (prev, b0, first) (e # es) st =
        and_then (alloc_disk_block st) (\<lambda>(cur, t).
          if block_size (linked cur t) < 328 \<or> 260 \<le> length ?path then Inl Fault
          else and_then (process_node fresh cur ?path e ?h0 (linked cur t)) (\<lambda>(h, u).
            process_entries fresh parent path (cur, (h, replicate (nat (block_size u) - 328) 0), head cur) es u))"
      using False by (simp add: Let_def if_s [symmetric]) (simp cong: if_cong)
    show ?thesis unfolding run
    proof (rule sound_bind [OF alloc_sound [OF "4.prems"(1)]], clarify)
      fix cur t
      assume a: "alloc_disk_block st = Inr (cur, t)" and k: "keeps st t" and c: "unat cur \<in> free st" "unat cur \<notin> free t"
      let ?s = "linked cur t"
      have ks: "keeps st ?s" using k keeps_write keeps_trans by (auto simp: linked_def)
      have "keeps t ?s" using keeps_write by (simp add: linked_def)
      note s = keeps_fields [OF ks] keeps_fields(4) [OF this]
      have bs: "\<not> (block_size ?s < 328 \<or> 260 \<le> length ?path)" using "4.prems"(2) s(1) len(1) by auto
      have ok: "builder_ok ?s" "328 \<le> B ?s" using "4.prems"(1,2) s by simp_all
      show "sound_entries st (snd (snd (prev, b0, first)))
          (if block_size ?s < 328 \<or> 260 \<le> length ?path then Inl Fault
           else and_then (process_node fresh cur ?path e ?h0 ?s) (\<lambda>(h, u).
             process_entries fresh parent path (cur, (h, replicate (nat (block_size u) - 328) 0), head cur) es u))"
        unfolding if_not_P [OF bs]
      proof (rule sound_bind [OF "4.IH"(2) [OF False a refl if_s refl refl bs ok len(2)]], clarify)
        fix h u
        assume n: "process_node fresh cur ?path e ?h0 ?s = Inr (h, u)" and ku: "keeps ?s u"
        have u: "builder_ok u" "328 \<le> B u" "keeps st u" using ok keeps_fields [OF ku] keeps_trans [OF ks ku] by simp_all
        have fu: "unat cur \<notin> free u" using c s(5) keeps_fields(4) [OF ku] by blast
        let ?vars = "(cur, (h, replicate (nat (block_size u) - 328) 0), head cur)"
        from "4.IH"(3) [OF False a refl if_s refl refl bs n refl u(1,2) len(3)]
        show "sound_entries st (snd (snd (prev, b0, first))) (process_entries fresh parent path ?vars es u)"
        proof (rule sound_mono, clarify)
          fix p b f v
          assume kv: "keeps u v" and f: "snd (snd (p, b, f)) = snd (snd ?vars) \<or> taken_between u v (snd (snd (p, b, f)))"
          have "free v \<subseteq> free u" "free u \<subseteq> free st" using keeps_fields(4) [OF kv] keeps_fields(4) [OF u(3)] by simp_all
          then have "f = first \<or> taken_between st v f"
            using f c(1) fu taken_between_mono [of u v f st v] by (auto simp: head_def taken_between_def split: if_splits)
          then show "keeps st v \<and> (snd (snd (p, b, f)) = snd (snd (prev, b0, first)) \<or> taken_between st v (snd (snd (p, b, f))))"
            using keeps_trans [OF u(3) kv] by simp
        qed
      qed
    qed
  qed
next
  case (5 fresh cur path name info entries header st)
  have "sound_dir st (process_dir fresh cur path entries st)"
    using "5.prems"(3) by (intro "5.IH" "5.prems"(1,2)) auto
  then show ?case unfolding process_node.simps by (rule sound_bind) auto
next
  case (6 fresh cur path name info contents header st)
  show ?case
  proof (cases contents)
    case (Some bytes)
    have "8 \<le> B st" using "6.prems"(2) by simp
    from store_sound [OF "6.prems"(1) this]
    have "sound_node st (and_then (store_file_data fresh \<lparr>unread = bytes, at_eof = False\<rparr> st)
        (\<lambda>(data, st). Inr (header\<lparr>fh_size := st_size info, fh_data := data\<rparr>, st)))"
      by (rule sound_bind) auto
    then show ?thesis using Some by simp
  qed simp
next
  case (7 fresh cur path name info header st)
  then show ?case by simp
qed

text \<open>C31: The typing of \<^verbatim>\<open>process_dir\<close>: in a well-formed state, on any tree of the host whose paths fit into
  \<^verbatim>\<open>file_name\<close>, it never runs into undefined behaviour.  Either it ends the program with \<open>-3\<close>,
  or it returns \<open>-1\<close> or the number of a block of the disk that was free and is now taken, in a
  well-formed state whose options, header and map size are the same and where every block
  taken before still is.\<close>

theorem process_dir_sound:
  assumes "builder_ok st" and "328 \<le> B st" and "\<forall>es. entries = Some es \<longrightarrow> paths_fit path es"
  shows "case process_dir fresh parent path entries st of
      Inl e \<Rightarrow> e = Exit (- 3)
    | Inr (i, st') \<Rightarrow> builder_ok st' \<and>
        st' = st\<lparr>disk := disk st', disk_len := disk_len st', disk_pos := disk_pos st', disk_map := disk_map st'\<rparr> \<and>
        length (disk_map st') = length (disk_map st) \<and> free st' \<subseteq> free st \<and>
        (i = - 1 \<or> unat i < N st \<and> unat i \<in> free st - free st')"
  using process_sound(1) [OF assms, of fresh parent] keeps_fields(3) [of st] assms(1) free_less [of _ st]
  by (cases "process_dir fresh parent path entries st") (auto simp: keeps_def taken_between_def)

theorem process_dir_sound_witness:
  "case process_dir (\<lambda>_. 0) (- 1) [47] (Some [Dir [97] \<lparr>st_size = 2, st_ctime = 0, st_mtime = 0, st_atime = 0\<rparr> (Some [])])
      demo_builder of
     Inl e \<Rightarrow> e = Exit (- 3) | Inr (i, st') \<Rightarrow> i = - 1 \<or> unat i < 64"
  using process_dir_sound [OF demo_builder_ok, of "Some [Dir [97] \<lparr>st_size = 2, st_ctime = 0, st_mtime = 0, st_atime = 0\<rparr> (Some [])]"
      "[47]" "\<lambda>_. 0" "- 1"]
  by (simp only: demo_builder_simps) (auto simp del: process_dir.simps split: sum.splits)

end
