(* ===== verification/Port_Io.thy ===== *)
theory Port_Io
  imports C4_Prelude
begin

text \<open>
  Port input and output of the drivers.  The machine is a parameter of the driver models:
  a \<open>hardware\<close> says, for every history of port accesses, which byte a port gives next,
  whether the floppy controller then raises its interrupt, and how many timer ticks pass
  in each turn of a loop that waits.  A driver keeps the history in its state.
\<close>

datatype io_event = Out u16 u8 | In u16 u8

record hardware =
  port_value :: "io_event list \<Rightarrow> u16 \<Rightarrow> u8"
  raises_irq :: "io_event list \<Rightarrow> bool"
  timer_ticks :: "io_event list \<Rightarrow> nat \<Rightarrow> nat"

record io_state =
  io_log :: "io_event list"
  pit_ticks :: u32

text \<open>The macros \<^verbatim>\<open>outportb\<close> and \<^verbatim>\<open>inportb\<close>.\<close>

definition outb :: "u16 \<Rightarrow> u8 \<Rightarrow> 'a io_state_scheme \<Rightarrow> 'a io_state_scheme" where
  "outb port v st = st\<lparr>io_log := io_log st @ [Out port v]\<rparr>"

definition inb :: "hardware \<Rightarrow> u16 \<Rightarrow> 'a io_state_scheme \<Rightarrow> u8 \<times> 'a io_state_scheme" where
  "inb hw port st =
     (let v = port_value hw (io_log st) port in (v, st\<lparr>io_log := io_log st @ [In port v]\<rparr>))"

text \<open>The bytes written to a set of ports, oldest first.\<close>

fun writes_to :: "u16 set \<Rightarrow> io_event list \<Rightarrow> (u16 \<times> u8) list" where
  "writes_to P [] = []"
| "writes_to P (Out p v # es) = (if p \<in> P then (p, v) # writes_to P es else writes_to P es)"
| "writes_to P (In p v # es) = writes_to P es"

lemma writes_to_append [simp]: "writes_to P (xs @ ys) = writes_to P xs @ writes_to P ys"
  by (induction P xs rule: writes_to.induct) simp_all

lemma outb_log [simp]: "io_log (outb p v st) = io_log st @ [Out p v]"
  by (simp add: outb_def)

lemma outb_ticks [simp]: "pit_ticks (outb p v st) = pit_ticks st"
  by (simp add: outb_def)

end
