(* ===== verification/Timer.thy ===== *)
theory Timer
  imports Port_Io
begin

text \<open>
  The interval timer of \<^verbatim>\<open>src/kernel/timer.c\<close>: the tick counter, programming the chip and
  \<^verbatim>\<open>sleep\<close>.  A division by zero and a loop that does not end have no result.
\<close>

section \<open>Definitions\<close>

abbreviation (input) I86_PIT_REG_COUNTER0 :: u8 where "I86_PIT_REG_COUNTER0 \<equiv> 0x40"
abbreviation (input) I86_PIT_REG_COUNTER1 :: u8 where "I86_PIT_REG_COUNTER1 \<equiv> 0x41"
abbreviation (input) I86_PIT_REG_COUNTER2 :: u8 where "I86_PIT_REG_COUNTER2 \<equiv> 0x42"
abbreviation (input) I86_PIT_REG_COMMAND :: u16 where "I86_PIT_REG_COMMAND \<equiv> 0x43"
abbreviation (input) I86_PIT_OCW_COUNTER_0 :: u8 where "I86_PIT_OCW_COUNTER_0 \<equiv> 0"
abbreviation (input) I86_PIT_OCW_COUNTER_1 :: u8 where "I86_PIT_OCW_COUNTER_1 \<equiv> 0x40"
abbreviation (input) I86_PIT_OCW_MASK_MODE :: u8 where "I86_PIT_OCW_MASK_MODE \<equiv> 0xE"
abbreviation (input) I86_PIT_OCW_MASK_RL :: u8 where "I86_PIT_OCW_MASK_RL \<equiv> 0x30"
abbreviation (input) I86_PIT_OCW_MASK_COUNTER :: u8 where "I86_PIT_OCW_MASK_COUNTER \<equiv> 0xC0"
abbreviation (input) I86_PIT_OCW_RL_DATA :: u8 where "I86_PIT_OCW_RL_DATA \<equiv> 0x30"

definition inc_pit_ticks :: "'a io_state_scheme \<Rightarrow> 'a io_state_scheme" where
  "inc_pit_ticks st = st\<lparr>pit_ticks := pit_ticks st + 1\<rparr>"

definition get_tick_count :: "'a io_state_scheme \<Rightarrow> u32" where
  "get_tick_count st = pit_ticks st"

definition i86_pit_send_command :: "u8 \<Rightarrow> 'a io_state_scheme \<Rightarrow> 'a io_state_scheme" where
  "i86_pit_send_command cmd st = outb I86_PIT_REG_COMMAND cmd st"

definition pit_port :: "u16 \<Rightarrow> u8" where
  "pit_port counter =
     (if counter = ucast I86_PIT_OCW_COUNTER_0 then I86_PIT_REG_COUNTER0
      else if counter = ucast I86_PIT_OCW_COUNTER_1 then I86_PIT_REG_COUNTER1
      else I86_PIT_REG_COUNTER2)"

definition i86_pit_send_data :: "u16 \<Rightarrow> u8 \<Rightarrow> 'a io_state_scheme \<Rightarrow> 'a io_state_scheme" where
  "i86_pit_send_data data counter st = outb (ucast (pit_port (ucast counter))) (ucast data) st"

definition i86_pit_read_data :: "hardware \<Rightarrow> u16 \<Rightarrow> 'a io_state_scheme \<Rightarrow> u8 \<times> 'a io_state_scheme" where
  "i86_pit_read_data hw counter st = inb hw (ucast (pit_port counter)) st"

definition i86_pit_start_counter ::
  "u32 \<Rightarrow> u8 \<Rightarrow> u8 \<Rightarrow> 'a io_state_scheme \<Rightarrow> 'a io_state_scheme option" where
  "i86_pit_start_counter freq counter mode st =
     (if freq = 0 then Some st
      else if (ucast freq :: u16) = 0 then None
      else
        let divisor = ucast (1193181 div (ucast (ucast freq :: u16) :: u32)) :: u16;
            ocw = 0;
            ocw = (ocw AND NOT I86_PIT_OCW_MASK_MODE) OR mode;
            ocw = (ocw AND NOT I86_PIT_OCW_MASK_RL) OR I86_PIT_OCW_RL_DATA;
            ocw = (ocw AND NOT I86_PIT_OCW_MASK_COUNTER) OR counter;
            st = i86_pit_send_command ocw st;
            st = i86_pit_send_data (divisor AND 0xFF) 0 st;
            st = i86_pit_send_data (drop_bit 8 divisor AND 0xFF) 0 st
        in Some (st\<lparr>pit_ticks := 0\<rparr>))"

text \<open>
  The loop of \<^verbatim>\<open>sleep\<close>: in its \<open>k\<close>-th turn \<open>arrive k\<close> timer interrupts come.  The comparison
  of an \<^verbatim>\<open>int\<close> with a \<^verbatim>\<open>uint32\<close> is unsigned.
\<close>

partial_function (option) sleep_loop ::
  "u32 \<Rightarrow> (nat \<Rightarrow> nat) \<Rightarrow> nat \<Rightarrow> 'a io_state_scheme \<Rightarrow> 'a io_state_scheme option" where
  "sleep_loop ticks arrive k st =
     (if get_tick_count st < ticks then sleep_loop ticks arrive (k + 1) ((inc_pit_ticks ^^ arrive k) st)
      else Some st)"

definition sleep :: "hardware \<Rightarrow> u32 \<Rightarrow> 'a io_state_scheme \<Rightarrow> 'a io_state_scheme option" where
  "sleep hw ms st =
     (let ticks = ms + get_tick_count st in sleep_loop ticks (timer_ticks hw (io_log st)) 0 st)"

section \<open>The rate\<close>

text \<open>
  The chip: the command selects a counter, of which two bytes are then written, the low one
  first.  Its rate is 1193181 Hz divided by the count, where a count of 0 stands for 65536.
\<close>

definition pit_count :: "io_event list \<Rightarrow> nat option" where
  "pit_count log = (case rev (writes_to {0x40, 0x43} log) of
     (p2, hi) # (p1, lo) # (p0, ocw) # _ \<Rightarrow>
       if p2 = 0x40 \<and> p1 = 0x40 \<and> p0 = 0x43 \<and> ocw AND 0xF0 = 0x30
       then Some (unat lo + 256 * unat hi) else None
   | _ \<Rightarrow> None)"

lemma low_byte: "unat (ucast (d AND 0xFF) :: u8) = unat (d :: u16) mod 256"
proof -
  have "d AND 0xFF = take_bit 8 d" by (simp add: take_bit_eq_mask mask_eq_exp_minus_1)
  then show ?thesis by (simp add: unsigned_ucast_eq unsigned_take_bit_eq take_bit_eq_mod unat_mod)
qed

lemma u16_bytes:
  "unat (ucast (d AND 0xFF) :: u8) + 256 * unat (ucast (drop_bit 8 d AND 0xFF) :: u8) = unat (d :: u16)"
proof -
  have "unat d < 65536" using u16_less [of d] by simp
  moreover have "unat (drop_bit 8 d) = unat d div 256" by (simp add: drop_bit_eq_div unat_div)
  ultimately show ?thesis unfolding low_byte by simp
qed

text \<open>Starting counter 0 in one of its modes programs the chip to divide its clock by the
  quotient of 1193181 and the low 16 bits of the frequency, cut to 16 bits: the quotient
  itself for every frequency from 19 to 65535.  A frequency that is a multiple of 65536 is
  a division by zero.\<close>

theorem start_counter_rate:
  assumes "freq \<noteq> 0" and "mode \<in> {0, 2, 4, 6, 8, 10}"
  shows "(unat freq mod 65536 = 0 \<longrightarrow> i86_pit_start_counter freq 0 mode st = None) \<and>
    (unat freq mod 65536 \<noteq> 0 \<longrightarrow> (\<exists>st'. i86_pit_start_counter freq 0 mode st = Some st' \<and>
      pit_count (io_log st') = Some (1193181 div (unat freq mod 65536) mod 65536) \<and> pit_ticks st' = 0)) \<and>
    (19 \<le> unat freq \<and> unat freq < 65536 \<longrightarrow>
      1193181 div (unat freq mod 65536) mod 65536 = 1193181 div unat freq)"
proof -
  let ?f = "ucast freq :: u16"
  have f: "unat ?f = unat freq mod 65536"
    by (simp only: unsigned_ucast_eq) (simp add: take_bit_eq_mod)
  then have z: "?f = 0 \<longleftrightarrow> unat freq mod 65536 = 0"
    unfolding f [symmetric] by (simp only: unat_eq_zero)
  have f32: "unat (ucast ?f :: u32) = unat freq mod 65536"
    unfolding unsigned_ucast_eq [of ?f] f by (simp add: take_bit_eq_mod)
  have "unat (1193181 div (ucast ?f) :: u32) = 1193181 div (unat freq mod 65536)"
    by (simp add: unat_div f32)
  then have d: "unat (ucast (1193181 div (ucast ?f) :: u32) :: u16) =
      1193181 div (unat freq mod 65536) mod 65536"
    by (simp add: unsigned_ucast_eq take_bit_eq_mod)
  have ocw: "((((0 AND NOT 0xE) OR mode) AND NOT 0x30 OR 0x30) AND NOT 0xC0 OR 0) AND 0xF0 = (0x30 :: u8)"
    using assms(2) by auto
  have "\<exists>st'. i86_pit_start_counter freq 0 mode st = Some st' \<and>
      pit_count (io_log st') = Some (1193181 div (unat freq mod 65536) mod 65536) \<and> pit_ticks st' = 0"
    if "unat freq mod 65536 \<noteq> 0"
    using that assms(1) z ocw
    by (simp add: i86_pit_start_counter_def Let_def i86_pit_send_command_def i86_pit_send_data_def
      pit_port_def pit_count_def u16_bytes d del: One_nat_def)
  moreover have "i86_pit_start_counter freq 0 mode st = None" if "unat freq mod 65536 = 0"
    using that assms(1) z by (simp add: i86_pit_start_counter_def)
  moreover have "1193181 div (unat freq mod 65536) mod 65536 = 1193181 div unat freq"
    if "19 \<le> unat freq \<and> unat freq < 65536"
  proof -
    have "1193181 div unat freq \<le> 1193181 div 19" using that by (intro div_le_mono2) auto
    then show ?thesis using that by simp
  qed
  ultimately show ?thesis by auto
qed

section \<open>Sleeping\<close>

lemma inc_ticks_pow [simp]:
  "pit_ticks ((inc_pit_ticks ^^ n) st) = pit_ticks st + of_nat n" "io_log ((inc_pit_ticks ^^ n) st) = io_log st"
  by (induction n) (simp_all add: inc_pit_ticks_def algebra_simps)

text \<open>While no tick comes the loop turns; a tick takes it one step closer.\<close>

lemma sleep_loop_idle:
  assumes lt: "pit_ticks st < ticks" and idle: "\<forall>j. k \<le> j \<and> j < k + n \<longrightarrow> arrive j = 0"
  shows "sleep_loop ticks arrive k st = sleep_loop ticks arrive (k + n) st"
  using idle
proof (induction n)
  case 0
  then show ?case by simp
next
  case (Suc n)
  have "sleep_loop ticks arrive (k + n) st = sleep_loop ticks arrive (k + Suc n) st"
    using lt Suc.prems by (subst sleep_loop.simps) (simp add: get_tick_count_def)
  then show ?case using Suc by simp
qed

lemma sleep_loop_run:
  assumes "\<forall>k. arrive k \<le> 1" and "\<forall>n. \<exists>k \<ge> n. arrive k = 1"
    and "unat (pit_ticks st) + n = unat ticks"
  shows "sleep_loop ticks arrive k st = Some ((inc_pit_ticks ^^ n) st)"
  using assms(3)
proof (induction n arbitrary: k st)
  case 0
  then have "pit_ticks st = ticks" by (simp add: word_unat_eq_iff)
  then show ?case by (subst sleep_loop.simps) (simp add: get_tick_count_def)
next
  case (Suc n)
  have lt: "pit_ticks st < ticks" using Suc.prems by (simp add: word_less_nat_alt)
  define m where "m = (LEAST j. k \<le> j \<and> arrive j = 1)"
  have "\<exists>j. k \<le> j \<and> arrive j = 1" using assms(2) by blast
  then have m: "k \<le> m" "arrive m = 1" unfolding m_def by (metis (mono_tags, lifting) LeastI_ex)+
  have "arrive j = 0" if "k \<le> j" "j < m" for j
    using that not_less_Least [of j "\<lambda>j. k \<le> j \<and> arrive j = 1"] assms(1) [rule_format, of j]
    by (cases "arrive j") (auto simp: m_def)
  then have "sleep_loop ticks arrive k st = sleep_loop ticks arrive m st"
    using sleep_loop_idle [OF lt, of k "m - k" arrive] m(1) by auto
  also have "\<dots> = sleep_loop ticks arrive (m + 1) (inc_pit_ticks st)"
    using lt m(2) by (subst sleep_loop.simps) (simp add: get_tick_count_def)
  finally have e: "sleep_loop ticks arrive k st = sleep_loop ticks arrive (m + 1) (inc_pit_ticks st)" .
  have "unat (pit_ticks st + 1) = Suc (unat (pit_ticks st))"
    using Suc.prems u32_less [of ticks] by (subst unat_Suc_word) auto
  then have "unat (pit_ticks (inc_pit_ticks st)) + n = unat ticks"
    using Suc.prems by (simp add: inc_pit_ticks_def)
  from Suc.IH [OF this, of "m + 1"] show ?case unfolding e by (simp add: funpow_swap1)
qed

lemma sleep_run:
  assumes "\<forall>k. timer_ticks hw (io_log st) k \<le> 1" and "\<forall>n. \<exists>k \<ge> n. timer_ticks hw (io_log st) k = 1"
    and "unat ms + unat (pit_ticks st) < 2 ^ 32"
  shows "sleep hw ms st = Some ((inc_pit_ticks ^^ unat ms) st) \<and>
    unat (pit_ticks st + of_nat (unat ms)) = unat (pit_ticks st) + unat ms"
proof -
  let ?t = "ms + pit_ticks st"
  have t: "unat ?t = unat ms + unat (pit_ticks st)" using assms(3) by (simp add: unat_word_ariths)
  then have "unat (pit_ticks st) + unat ms = unat ?t" by simp
  from sleep_loop_run [OF assms(1,2) this, of 0] t show ?thesis
    by (simp add: sleep_def get_tick_count_def add.commute)
qed

text \<open>C25: \<^verbatim>\<open>sleep\<close> returns after exactly the given number of ticks, as long as ticks keep coming
  and the counter does not wrap before.\<close>

theorem sleep_waits:
  assumes "\<forall>k. timer_ticks hw (io_log st) k \<le> 1" and "\<forall>n. \<exists>k \<ge> n. timer_ticks hw (io_log st) k = 1"
    and "unat ms + unat (pit_ticks st) < 2 ^ 32"
  shows "\<exists>st'. sleep hw ms st = Some st' \<and> unat (pit_ticks st') = unat (pit_ticks st) + unat ms \<and>
    io_log st' = io_log st"
  using sleep_run [OF assms] by auto

text \<open>Where the sum of the tick counter and the time wraps, \<^verbatim>\<open>sleep\<close> does not wait at all.\<close>

theorem sleep_wraps:
  assumes "2 ^ 32 \<le> unat ms + unat (pit_ticks st)"
  shows "sleep hw ms st = Some st"
proof -
  have "unat (ms + pit_ticks st) = unat ms + unat (pit_ticks st) - 2 ^ 32"
    using assms u32_less [of ms] u32_less [of "pit_ticks st"] by (simp add: unat_word_ariths le_mod_geq)
  then have "\<not> pit_ticks st < ms + pit_ticks st"
    using u32_less [of ms] by (simp add: word_less_nat_alt)
  then show ?thesis by (simp add: sleep_def get_tick_count_def sleep_loop.simps)
qed

section \<open>Concrete machines\<close>

definition demo_io :: io_state where
  "demo_io = \<lparr>io_log = [], pit_ticks = 0xFFFFFFF0\<rparr>"

definition demo_hw :: "u8 \<Rightarrow> hardware" where
  "demo_hw v = \<lparr>port_value = (\<lambda>log port. if port = 0x3F4 then 0x80 else v), raises_irq = (\<lambda>log. True),
     timer_ticks = (\<lambda>log k. 1)\<rparr>"

theorem start_counter_rate_witness:
  "\<exists>st'. i86_pit_start_counter 100 0 6 demo_io = Some st' \<and> pit_count (io_log st') = Some 11931"
  using start_counter_rate [of 100 6 demo_io] by auto

theorem sleep_waits_witness:
  "\<exists>st'. sleep (demo_hw 0) 10 demo_io = Some st' \<and> unat (pit_ticks st') = 0xFFFFFFF0 + 10"
  using sleep_waits [of "demo_hw 0" demo_io 10] by (auto simp: demo_hw_def demo_io_def)

theorem sleep_wraps_witness: "sleep (demo_hw 0) 20 demo_io = Some demo_io"
  by (rule sleep_wraps) (simp add: demo_io_def)

end
