(* ===== verification/Dma.thy ===== *)
theory Dma
  imports Port_Io
begin

text \<open>
  The DMA routines of \<^verbatim>\<open>src/drivers/dma.c\<close>, and the controller they program: channel 2 of
  the first 8237, which the floppy drive is wired to, by what a write to each of its ports
  does.  A shift by more than 31 places shifts by the count modulo 32, as the instruction does.
\<close>

section \<open>Definitions\<close>

abbreviation (input) DMA0_CHANMASK_REG :: u16 where "DMA0_CHANMASK_REG \<equiv> 0x0a"
abbreviation (input) DMA0_MODE_REG :: u16 where "DMA0_MODE_REG \<equiv> 0x0b"
abbreviation (input) DMA0_CLEARBYTE_FLIPFLOP_REG :: u16 where "DMA0_CLEARBYTE_FLIPFLOP_REG \<equiv> 0x0c"
abbreviation (input) DMA0_TEMP_REG :: u16 where "DMA0_TEMP_REG \<equiv> 0x0d"
abbreviation (input) DMA1_CHANMASK_REG :: u16 where "DMA1_CHANMASK_REG \<equiv> 0xd4"
abbreviation (input) DMA1_MODE_REG :: u16 where "DMA1_MODE_REG \<equiv> 0xd6"
abbreviation (input) DMA1_CLEARBYTE_FLIPFLOP_REG :: u16 where "DMA1_CLEARBYTE_FLIPFLOP_REG \<equiv> 0xd8"
abbreviation (input) DMA1_UNMASK_ALL_REG :: u16 where "DMA1_UNMASK_ALL_REG \<equiv> 0xdc"

abbreviation (input) DMA_MODE_READ_TRANSFER :: u8 where "DMA_MODE_READ_TRANSFER \<equiv> 4"
abbreviation (input) DMA_MODE_WRITE_TRANSFER :: u8 where "DMA_MODE_WRITE_TRANSFER \<equiv> 8"
abbreviation (input) DMA_MODE_TRANSFER_SINGLE :: u8 where "DMA_MODE_TRANSFER_SINGLE \<equiv> 0x40"

definition shift_1 :: "u32 \<Rightarrow> u8" where
  "shift_1 n = ucast (push_bit (unat n mod 32) 1 :: u32)"

definition dma_mask_channel :: "u8 \<Rightarrow> 'a io_state_scheme \<Rightarrow> 'a io_state_scheme" where
  "dma_mask_channel channel st =
     (if channel \<le> 4 then outb DMA0_CHANMASK_REG (shift_1 (ucast channel - 1)) st
      else outb DMA1_CHANMASK_REG (shift_1 (ucast channel - 5)) st)"

definition dma_unmask_channel :: "u8 \<Rightarrow> 'a io_state_scheme \<Rightarrow> 'a io_state_scheme" where
  "dma_unmask_channel channel st =
     (if channel \<le> 4 then outb DMA0_CHANMASK_REG channel st else outb DMA1_CHANMASK_REG channel st)"

definition dma_unmask_all :: "int \<Rightarrow> 'a io_state_scheme \<Rightarrow> 'a io_state_scheme" where
  "dma_unmask_all dma st = outb DMA1_UNMASK_ALL_REG 0xff st"

definition dma_reset :: "int \<Rightarrow> 'a io_state_scheme \<Rightarrow> 'a io_state_scheme" where
  "dma_reset dma st = outb DMA0_TEMP_REG 0xff st"

definition dma_reset_flipflop :: "int \<Rightarrow> 'a io_state_scheme \<Rightarrow> 'a io_state_scheme" where
  "dma_reset_flipflop channel st =
     (let port = (if channel < 4 then DMA0_CLEARBYTE_FLIPFLOP_REG else DMA1_CLEARBYTE_FLIPFLOP_REG)
      in outb port 0xaa st)"

text \<open>The two switches; a channel without a case leaves the port 0.\<close>

definition dma_addr_port :: "u8 \<Rightarrow> u16" where
  "dma_addr_port channel =
     (if channel < 8 then [0x00, 0x02, 0x04, 0x06, 0xc0, 0xc4, 0xc8, 0xcc] ! unat channel else 0)"

definition dma_count_port :: "u8 \<Rightarrow> u16" where
  "dma_count_port channel =
     (if channel < 8 then [0x01, 0x03, 0x05, 0x07, 0xc2, 0xc6, 0xca, 0xce] ! unat channel else 0)"

definition dma_set_address :: "u8 \<Rightarrow> u8 \<Rightarrow> u8 \<Rightarrow> 'a io_state_scheme \<Rightarrow> 'a io_state_scheme" where
  "dma_set_address channel low high st =
     (if 8 < channel then st
      else let port = dma_addr_port channel in outb port high (outb port low st))"

definition dma_set_count :: "u8 \<Rightarrow> u8 \<Rightarrow> u8 \<Rightarrow> 'a io_state_scheme \<Rightarrow> 'a io_state_scheme" where
  "dma_set_count channel low high st =
     (if 8 < channel then st
      else let port = dma_count_port channel in outb port high (outb port low st))"

definition dma_set_mode :: "u8 \<Rightarrow> u8 \<Rightarrow> 'a io_state_scheme \<Rightarrow> 'a io_state_scheme" where
  "dma_set_mode channel mode st =
     (let dma = (if channel < 4 then 0 else 1);
          chan = (if dma = 0 then channel else channel - 4);
          st = dma_mask_channel channel st;
          port = (if channel < 4 then DMA0_MODE_REG else DMA1_MODE_REG);
          st = outb port (chan OR mode) st
      in dma_unmask_all dma st)"

definition dma_set_read :: "u8 \<Rightarrow> 'a io_state_scheme \<Rightarrow> 'a io_state_scheme" where
  "dma_set_read channel st = dma_set_mode channel (DMA_MODE_READ_TRANSFER OR DMA_MODE_TRANSFER_SINGLE) st"

definition dma_set_write :: "u8 \<Rightarrow> 'a io_state_scheme \<Rightarrow> 'a io_state_scheme" where
  "dma_set_write channel st = dma_set_mode channel (DMA_MODE_WRITE_TRANSFER OR DMA_MODE_TRANSFER_SINGLE) st"

definition dma_set_external_page_register :: "u8 \<Rightarrow> u8 \<Rightarrow> 'a io_state_scheme \<Rightarrow> 'a io_state_scheme" where
  "dma_set_external_page_register reg val st =
     (if 14 < reg \<or> reg = 4 then st
      else
        let port = (if reg < 8 then [0, 0x83, 0x81, 0x82, 0, 0x89, 0x87, 0x88] ! unat reg else 0)
        in outb port val st)"

section \<open>The controller\<close>

text \<open>
  Channel 2 of the first controller.  A flip-flop says which byte of a 16-bit register the
  next write to one of the ports 0 to 7 goes to; it is cleared by a write to \<open>0x0c\<close> and by the
  master clear \<open>0x0d\<close>, which also masks all channels.  In a write to the mask port \<open>0x0a\<close> the
  two low bits select the channel, and bit 2 is its new mask.
\<close>

record dmac =
  flipflop :: bool
  addr2 :: u16
  count2 :: u16
  mode2 :: u8
  masked2 :: bool
  page2 :: u8

definition set_byte :: "bool \<Rightarrow> u8 \<Rightarrow> u16 \<Rightarrow> u16" where
  "set_byte high v r =
     (if high then (r AND 0x00FF) OR push_bit 8 (ucast v) else (r AND 0xFF00) OR ucast v)"

fun dmac_step :: "io_event \<Rightarrow> dmac \<Rightarrow> dmac" where
  "dmac_step (In p v) d = d"
| "dmac_step (Out p v) d =
     (if p = 0x04 then d\<lparr>addr2 := set_byte (flipflop d) v (addr2 d), flipflop := \<not> flipflop d\<rparr>
      else if p = 0x05 then d\<lparr>count2 := set_byte (flipflop d) v (count2 d), flipflop := \<not> flipflop d\<rparr>
      else if p < 0x08 then d\<lparr>flipflop := \<not> flipflop d\<rparr>
      else if p = 0x0a \<and> v AND 3 = 2 then d\<lparr>masked2 := v AND 4 \<noteq> 0\<rparr>
      else if p = 0x0b \<and> v AND 3 = 2 then d\<lparr>mode2 := v\<rparr>
      else if p = 0x0c then d\<lparr>flipflop := False\<rparr>
      else if p = 0x0d then d\<lparr>flipflop := False, masked2 := True\<rparr>
      else if p = 0x0e then d\<lparr>masked2 := False\<rparr>
      else if p = 0x0f then d\<lparr>masked2 := v AND 4 \<noteq> 0\<rparr>
      else if p = 0x81 then d\<lparr>page2 := v\<rparr>
      else d)"

lemma set_bytes: "unat (set_byte True hi (set_byte False lo r)) = unat lo + 256 * unat hi"
proof -
  have e: "set_byte True hi (set_byte False lo r) = ucast lo OR push_bit 8 (ucast hi)"
  proof (rule bit_word_eqI)
    fix n
    assume "n < LENGTH(16)"
    have m: "(0xFF :: u16) = mask 8" "(0xFF00 :: u16) = push_bit 8 (mask 8)" by (simp_all add: mask_eq_exp_minus_1)
    show "bit (set_byte True hi (set_byte False lo r)) n = bit (ucast lo OR push_bit 8 (ucast hi) :: u16) n"
      using bit_imp_le_length [of lo n]
      by (auto simp: set_byte_def m bit_and_iff bit_or_iff bit_mask_iff bit_push_bit_iff bit_unsigned_iff
        possible_bit_word)
  qed
  have "(ucast lo :: u16) OR push_bit 8 (ucast hi) = ucast lo + push_bit 8 (ucast hi)"
  proof (rule disjunctive_add [symmetric])
    fix n show "\<not> bit (ucast lo :: u16) n \<or> \<not> bit (push_bit 8 (ucast hi) :: u16) n"
      using bit_imp_le_length [of lo n] by (auto simp: bit_push_bit_iff bit_unsigned_iff)
  qed
  moreover have "(ucast lo :: u16) + push_bit 8 (ucast hi) = of_nat (unat lo + 256 * unat hi)"
    by (simp add: push_bit_eq_mult mult.commute)
  ultimately have "set_byte True hi (set_byte False lo r) = of_nat (unat lo + 256 * unat hi)"
    unfolding e by (simp only:)
  moreover have "unat (of_nat (unat lo + 256 * unat hi) :: u16) = unat lo + 256 * unat hi"
    using u8_less [of lo] u8_less [of hi] unfolding unsigned_of_nat by (simp add: take_bit_nat_eq_self)
  ultimately show ?thesis by (simp only:)
qed

end
