(* ===== verification/Floppy.thy ===== *)
theory Floppy
  imports Timer Dma "HOL-Library.Signed_Division"
begin

text \<open>
  The floppy driver of \<^verbatim>\<open>src/drivers/floppy.c\<close> over the hardware of \<open>Port_Io\<close>.  Waiting for an
  interrupt that never comes has no result; so has a \<^verbatim>\<open>sleep\<close> that never ends.
\<close>

section \<open>Definitions\<close>

record floppy = io_state +
  current_drive :: u8
  irq_received :: bool
  DMA_BUFFER :: u32

abbreviation (input) FLPYDSK_DOR :: u16 where "FLPYDSK_DOR \<equiv> 0x3f2"
abbreviation (input) FLPYDSK_MSR :: u16 where "FLPYDSK_MSR \<equiv> 0x3f4"
abbreviation (input) FLPYDSK_FIFO :: u16 where "FLPYDSK_FIFO \<equiv> 0x3f5"
abbreviation (input) FLPYDSK_CTRL :: u16 where "FLPYDSK_CTRL \<equiv> 0x3f7"

abbreviation (input) FDC_CMD_SPECIFY :: u8 where "FDC_CMD_SPECIFY \<equiv> 3"
abbreviation (input) FDC_CMD_READ_SECT :: u8 where "FDC_CMD_READ_SECT \<equiv> 6"
abbreviation (input) FDC_CMD_CALIBRATE :: u8 where "FDC_CMD_CALIBRATE \<equiv> 7"
abbreviation (input) FDC_CMD_CHECK_INT :: u8 where "FDC_CMD_CHECK_INT \<equiv> 8"
abbreviation (input) FDC_CMD_SEEK :: u8 where "FDC_CMD_SEEK \<equiv> 0xf"
abbreviation (input) FDC_CMD_EXT_SKIP :: u8 where "FDC_CMD_EXT_SKIP \<equiv> 0x20"
abbreviation (input) FDC_CMD_EXT_DENSITY :: u8 where "FDC_CMD_EXT_DENSITY \<equiv> 0x40"
abbreviation (input) FDC_CMD_EXT_MULTITRACK :: u8 where "FDC_CMD_EXT_MULTITRACK \<equiv> 0x80"
abbreviation (input) DOR_MASK_RESET :: u8 where "DOR_MASK_RESET \<equiv> 4"
abbreviation (input) DOR_MASK_DMA :: u8 where "DOR_MASK_DMA \<equiv> 8"
abbreviation (input) MSR_MASK_DATAREG :: u8 where "MSR_MASK_DATAREG \<equiv> 128"
abbreviation (input) FDC_DMA_CHANNEL :: u8 where "FDC_DMA_CHANNEL \<equiv> 2"
abbreviation (input) FLPY_SECTORS_PER_TRACK :: int where "FLPY_SECTORS_PER_TRACK \<equiv> 18"
abbreviation (input) SECTOR_DTL_512 :: u8 where "SECTOR_DTL_512 \<equiv> 2"
abbreviation (input) GAP3_LENGTH_3_5 :: u8 where "GAP3_LENGTH_3_5 \<equiv> 27"

subsection \<open>Talking to the controller\<close>

definition dma_initialize_floppy :: "u32 \<Rightarrow> u32 \<Rightarrow> 'a io_state_scheme \<Rightarrow> bool \<times> 'a io_state_scheme" where
  "dma_initialize_floppy buffer len st =
     (let a = buffer; c = len - 1
      in if drop_bit 24 a \<noteq> 0 \<or> drop_bit 16 c \<noteq> 0 \<or> drop_bit 16 ((a AND 0xffff) + c) \<noteq> 0
         then (False, st)
         else
           let st = dma_reset 1 st;
               st = dma_mask_channel FDC_DMA_CHANNEL st;
               st = dma_reset_flipflop (uint FDC_DMA_CHANNEL) st;
               st = dma_set_read FDC_DMA_CHANNEL st;
               st = dma_set_address FDC_DMA_CHANNEL (ucast a) (ucast (drop_bit 8 a)) st;
               st = dma_set_external_page_register 2 (ucast (drop_bit 16 a)) st;
               st = dma_set_count FDC_DMA_CHANNEL (ucast c) (ucast (drop_bit 8 c)) st
           in (True, dma_unmask_all 1 st))"

definition flpydsk_set_dma :: "u32 \<Rightarrow> floppy \<Rightarrow> floppy" where
  "flpydsk_set_dma addr st = st\<lparr>DMA_BUFFER := addr\<rparr>"

definition flpydsk_read_status :: "hardware \<Rightarrow> floppy \<Rightarrow> u8 \<times> floppy" where
  "flpydsk_read_status hw st = inb hw FLPYDSK_MSR st"

definition flpydsk_write_dor :: "u8 \<Rightarrow> floppy \<Rightarrow> floppy" where
  "flpydsk_write_dor val st = outb FLPYDSK_DOR val st"

fun send_loop :: "nat \<Rightarrow> hardware \<Rightarrow> u8 \<Rightarrow> floppy \<Rightarrow> floppy" where
  "send_loop 0 hw cmd st = st"
| "send_loop (Suc n) hw cmd st =
     (let (status, st) = flpydsk_read_status hw st
      in if status AND MSR_MASK_DATAREG \<noteq> 0 then outb FLPYDSK_FIFO cmd st else send_loop n hw cmd st)"

definition flpydsk_send_command :: "hardware \<Rightarrow> u8 \<Rightarrow> floppy \<Rightarrow> floppy" where
  "flpydsk_send_command hw cmd st = send_loop 500 hw cmd st"

fun read_loop :: "nat \<Rightarrow> hardware \<Rightarrow> floppy \<Rightarrow> u8 \<times> floppy" where
  "read_loop 0 hw st = (0, st)"
| "read_loop (Suc n) hw st =
     (let (status, st) = flpydsk_read_status hw st
      in if status AND MSR_MASK_DATAREG \<noteq> 0 then inb hw FLPYDSK_FIFO st else read_loop n hw st)"

definition flpydsk_read_data :: "hardware \<Rightarrow> floppy \<Rightarrow> u8 \<times> floppy" where
  "flpydsk_read_data hw st = read_loop 500 hw st"

definition flpydsk_write_ccr :: "u8 \<Rightarrow> floppy \<Rightarrow> floppy" where
  "flpydsk_write_ccr val st = outb FLPYDSK_CTRL val st"

definition i86_flpy_irq :: "'a floppy_scheme \<Rightarrow> 'a floppy_scheme" where
  "i86_flpy_irq st = st\<lparr>irq_received := True\<rparr>"

text \<open>Waiting: either the interrupt has come already, or the controller raises it now.\<close>

definition flpydsk_wait_irq :: "hardware \<Rightarrow> floppy \<Rightarrow> floppy option" where
  "flpydsk_wait_irq hw st =
     (let st = (if \<not> irq_received st \<and> raises_irq hw (io_log st) then i86_flpy_irq st else st)
      in if irq_received st then Some (st\<lparr>irq_received := False\<rparr>) else None)"

definition flpydsk_check_int :: "hardware \<Rightarrow> floppy \<Rightarrow> u32 \<times> u32 \<times> floppy" where
  "flpydsk_check_int hw st =
     (let st = flpydsk_send_command hw FDC_CMD_CHECK_INT st;
          (st0, st) = flpydsk_read_data hw st;
          (cyl, st) = flpydsk_read_data hw st
      in (ucast st0, ucast cyl, st))"

subsection \<open>Drive operations\<close>

definition flpydsk_control_motor :: "hardware \<Rightarrow> bool \<Rightarrow> floppy \<Rightarrow> floppy option" where
  "flpydsk_control_motor hw b st =
     (if 3 < current_drive st then Some st
      else
        let motor = [16, 32, 64, 128] ! unat (current_drive st);
            st = (if b then flpydsk_write_dor (current_drive st OR motor OR DOR_MASK_RESET OR DOR_MASK_DMA) st
                  else flpydsk_write_dor DOR_MASK_RESET st)
        in sleep hw 20 st)"

definition flpydsk_drive_data :: "hardware \<Rightarrow> u8 \<Rightarrow> u8 \<Rightarrow> u8 \<Rightarrow> bool \<Rightarrow> floppy \<Rightarrow> floppy" where
  "flpydsk_drive_data hw stepr loadt unloadt dma st =
     (let st = flpydsk_send_command hw FDC_CMD_SPECIFY st;
          data = push_bit 4 (stepr AND 0xf) OR (unloadt AND 0xf);
          st = flpydsk_send_command hw data st;
          data = push_bit 1 loadt OR (if dma then 0 else 1)
      in flpydsk_send_command hw data st)"

fun calibrate_loop :: "nat \<Rightarrow> hardware \<Rightarrow> u8 \<Rightarrow> floppy \<Rightarrow> (int \<times> floppy) option" where
  "calibrate_loop 0 hw drive st = map_option (Pair (- 1)) (flpydsk_control_motor hw False st)"
| "calibrate_loop (Suc n) hw drive st = do {
     let st = flpydsk_send_command hw FDC_CMD_CALIBRATE st;
     let st = flpydsk_send_command hw drive st;
     st \<leftarrow> flpydsk_wait_irq hw st;
     let (st0, cyl, st) = flpydsk_check_int hw st;
     if cyl = 0 then map_option (Pair 0) (flpydsk_control_motor hw False st)
     else calibrate_loop n hw drive st
   }"

definition flpydsk_calibrate :: "hardware \<Rightarrow> u8 \<Rightarrow> floppy \<Rightarrow> (int \<times> floppy) option" where
  "flpydsk_calibrate hw drive st =
     (if 4 \<le> drive then Some (- 2, st)
      else do {
        st \<leftarrow> flpydsk_control_motor hw True st;
        calibrate_loop 10 hw drive st
      })"

definition flpydsk_disable_controller :: "floppy \<Rightarrow> floppy" where
  "flpydsk_disable_controller st = flpydsk_write_dor 0 st"

definition flpydsk_enable_controller :: "floppy \<Rightarrow> floppy" where
  "flpydsk_enable_controller st = flpydsk_write_dor (DOR_MASK_RESET OR DOR_MASK_DMA) st"

fun check_ints :: "nat \<Rightarrow> hardware \<Rightarrow> floppy \<Rightarrow> floppy" where
  "check_ints 0 hw st = st"
| "check_ints (Suc n) hw st = check_ints n hw (snd (snd (flpydsk_check_int hw st)))"

definition flpydsk_reset :: "hardware \<Rightarrow> floppy \<Rightarrow> floppy option" where
  "flpydsk_reset hw st =
     (let st = flpydsk_disable_controller st;
          st = flpydsk_enable_controller st
      in map_option (check_ints 4 hw) (flpydsk_wait_irq hw st))"

fun read_results :: "nat \<Rightarrow> hardware \<Rightarrow> floppy \<Rightarrow> floppy" where
  "read_results 0 hw st = st"
| "read_results (Suc n) hw st = read_results n hw (snd (flpydsk_read_data hw st))"

definition flpydsk_read_sector_imp :: "hardware \<Rightarrow> u8 \<Rightarrow> u8 \<Rightarrow> u8 \<Rightarrow> floppy \<Rightarrow> floppy option" where
  "flpydsk_read_sector_imp hw head track sector st =
     (let st = snd (dma_initialize_floppy (DMA_BUFFER st) 512 st);
          st = flpydsk_send_command hw
                 (FDC_CMD_READ_SECT OR FDC_CMD_EXT_MULTITRACK OR FDC_CMD_EXT_SKIP OR FDC_CMD_EXT_DENSITY) st;
          st = flpydsk_send_command hw (push_bit 2 head OR current_drive st) st;
          st = flpydsk_send_command hw track st;
          st = flpydsk_send_command hw head st;
          st = flpydsk_send_command hw sector st;
          st = flpydsk_send_command hw SECTOR_DTL_512 st;
          st = flpydsk_send_command hw
                 (if FLPY_SECTORS_PER_TRACK \<le> uint sector + 1 then of_int FLPY_SECTORS_PER_TRACK
                  else sector + 1) st;
          st = flpydsk_send_command hw GAP3_LENGTH_3_5 st;
          st = flpydsk_send_command hw 0xff st
      in do {
        st \<leftarrow> flpydsk_wait_irq hw st;
        let st = read_results 7 hw st;
        Some (snd (snd (flpydsk_check_int hw st)))
      })"

fun seek_loop :: "nat \<Rightarrow> hardware \<Rightarrow> u8 \<Rightarrow> u8 \<Rightarrow> floppy \<Rightarrow> (int \<times> floppy) option" where
  "seek_loop 0 hw cyl head st = Some (- 1, st)"
| "seek_loop (Suc n) hw cyl head st = do {
     let st = flpydsk_send_command hw FDC_CMD_SEEK st;
     let st = flpydsk_send_command hw (push_bit 2 head OR current_drive st) st;
     let st = flpydsk_send_command hw cyl st;
     st \<leftarrow> flpydsk_wait_irq hw st;
     let (st0, cyl0, st) = flpydsk_check_int hw st;
     if cyl0 = ucast cyl then Some (0, st) else seek_loop n hw cyl head st
   }"

definition flpydsk_seek :: "hardware \<Rightarrow> u8 \<Rightarrow> u8 \<Rightarrow> floppy \<Rightarrow> (int \<times> floppy) option" where
  "flpydsk_seek hw cyl head st =
     (if 4 \<le> current_drive st then Some (- 1, st) else seek_loop 10 hw cyl head st)"

text \<open>Division and remainder of \<^verbatim>\<open>int\<close> round towards zero.\<close>

definition flpydsk_lba_to_chs :: "int \<Rightarrow> int \<times> int \<times> int" where
  "flpydsk_lba_to_chs lba =
     ((lba smod (FLPY_SECTORS_PER_TRACK * 2)) sdiv FLPY_SECTORS_PER_TRACK,
      lba sdiv (FLPY_SECTORS_PER_TRACK * 2),
      lba smod FLPY_SECTORS_PER_TRACK + 1)"

definition flpydsk_install :: "hardware \<Rightarrow> floppy \<Rightarrow> floppy option" where
  "flpydsk_install hw st = do {
     st \<leftarrow> flpydsk_reset hw st;
     let st = flpydsk_write_ccr 0 st;
     let st = flpydsk_drive_data hw 3 16 240 True st;
     map_option snd (flpydsk_calibrate hw (current_drive st) st)
   }"

definition flpydsk_set_working_drive :: "u8 \<Rightarrow> floppy \<Rightarrow> floppy" where
  "flpydsk_set_working_drive drive st = (if drive < 4 then st\<lparr>current_drive := drive\<rparr> else st)"

definition flpydsk_get_working_drive :: "floppy \<Rightarrow> u8" where
  "flpydsk_get_working_drive st = current_drive st"

definition flpydsk_read_sector :: "hardware \<Rightarrow> u32 \<Rightarrow> floppy \<Rightarrow> (u32 \<times> floppy) option" where
  "flpydsk_read_sector hw sectorLBA st =
     (if 4 \<le> current_drive st then Some (0, st)
      else do {
        let (head, track, sector) = flpydsk_lba_to_chs (sint sectorLBA);
        st \<leftarrow> flpydsk_control_motor hw True st;
        (r, st) \<leftarrow> flpydsk_seek hw (of_int track) (of_int head) st;
        if r \<noteq> 0 then Some (0, st)
        else do {
          st \<leftarrow> flpydsk_read_sector_imp hw (of_int head) (of_int track) (of_int sector) st;
          st \<leftarrow> flpydsk_control_motor hw False st;
          st \<leftarrow> flpydsk_reset hw st;
          Some (DMA_BUFFER st, st)
        }
      })"

definition init_floppy :: "hardware \<Rightarrow> floppy \<Rightarrow> floppy option" where
  "init_floppy hw st = do {
     let st = flpydsk_set_working_drive 0 st;
     st \<leftarrow> flpydsk_install hw st;
     Some (flpydsk_set_dma 0x20000 st)
   }"


section \<open>Sector addresses\<close>

lemma signed_nonneg: "0 \<le> k \<Longrightarrow> 0 < l \<Longrightarrow> k sdiv l = k div l \<and> k smod l = k mod (l :: int)"
  by (cases "k = 0") (simp_all add: signed_divide_int_def signed_modulo_int_def sgn_if)

lemma chs_facts:
  assumes "0 \<le> lba" and "lba < 2880" and "flpydsk_lba_to_chs lba = (head, track, sector)"
  shows "(track * 2 + head) * 18 + (sector - 1) = lba \<and> head \<in> {0, 1} \<and> 0 \<le> track \<and> track < 80 \<and>
    1 \<le> sector \<and> sector \<le> 18 \<and>
    uint (of_int head :: u8) = head \<and> uint (of_int track :: u8) = track \<and> uint (of_int sector :: u8) = sector"
proof -
  have e: "head = (lba mod 36) div 18" "track = lba div 36" "sector = lba mod 18 + 1"
    using assms(1,3) by (auto simp: flpydsk_lba_to_chs_def signed_nonneg)
  have r: "(track * 2 + head) * 18 + (sector - 1) = lba"
  proof -
    define q x where "q = lba div 36" and "x = lba mod 36"
    have "lba mod 18 = x mod 18" unfolding x_def by (simp add: mod_mod_cancel)
    then have "(q * 2 + x div 18) * 18 + (lba mod 18 + 1 - 1) = 36 * q + (18 * (x div 18) + x mod 18)"
      by simp
    also have "\<dots> = 36 * q + x" by simp
    also have "\<dots> = lba" by (simp add: q_def x_def)
    finally show ?thesis unfolding e q_def x_def .
  qed
  have "lba mod 36 \<le> 35" using pos_mod_bound [of 36 lba] by simp
  then have "(lba mod 36) div 18 \<le> 35 div 18" by (rule zdiv_mono1) simp
  moreover have "0 \<le> (lba mod 36) div 18" by (simp add: pos_imp_zdiv_nonneg_iff)
  ultimately have h: "head = 0 \<or> head = 1" unfolding e by auto
  have "lba div 36 \<le> 2879 div 36" using assms(2) by (intro zdiv_mono1) auto
  then have t: "0 \<le> track" "track < 80" using assms(1) unfolding e by simp_all
  have c: "1 \<le> sector" "sector \<le> 18" unfolding e by simp_all
  have "uint (of_int x :: u8) = x" if "0 \<le> x" "x < 256" for x
    using that by (simp add: unsigned_of_int take_bit_int_eq_self)
  then have "uint (of_int head :: u8) = head" "uint (of_int track :: u8) = track"
    "uint (of_int sector :: u8) = sector"
    using h t c by auto
  then show ?thesis using r h t c by blast
qed

text \<open>On a disk of 2880 sectors the conversion to head, track and sector stays in the
  geometry, loses nothing, and survives the conversion of its parts to bytes.\<close>

theorem lba_to_chs_roundtrip:
  assumes "0 \<le> lba" and "lba < 2880" and "flpydsk_lba_to_chs lba = (head, track, sector)"
  shows "(track * 2 + head) * 18 + (sector - 1) = lba \<and> head \<in> {0, 1} \<and> 0 \<le> track \<and> track < 80 \<and>
    1 \<le> sector \<and> sector \<le> 18 \<and>
    uint (of_int head :: u8) = head \<and> uint (of_int track :: u8) = track \<and> uint (of_int sector :: u8) = sector"
  by (rule chs_facts [OF assms])

section \<open>Programming a transfer\<close>

lemma drop_bit_zero:
  "drop_bit 16 x = 0 \<longleftrightarrow> unat (x :: u32) < 2 ^ 16" "drop_bit 24 x = 0 \<longleftrightarrow> unat (x :: u32) < 2 ^ 24"
proof -
  have "unat (drop_bit 16 x) = unat x div 65536" "unat (drop_bit 24 x) = unat x div 16777216"
    by (simp_all add: drop_bit_eq_div unat_div)
  then show "drop_bit 16 x = 0 \<longleftrightarrow> unat x < 2 ^ 16" "drop_bit 24 x = 0 \<longleftrightarrow> unat x < 2 ^ 24"
    unfolding unat_eq_zero [symmetric] by (simp_all add: div_eq_0_iff)
qed

lemma same_frame:
  fixes A L :: nat
  assumes "0 < L"
  shows "A < 2 ^ 24 \<and> L - 1 < 2 ^ 16 \<and> A mod 65536 + (L - 1) < 2 ^ 16 \<longleftrightarrow>
    A + L \<le> 2 ^ 24 \<and> A div 65536 = (A + L - 1) div 65536"
proof -
  define q r where "q = A div 65536" and "r = A mod 65536"
  have A: "A = 65536 * q + r" "r < 65536" by (simp_all add: q_def r_def)
  have "A + L - 1 = (r + (L - 1)) + q * 65536" using assms A(1) by simp
  then have "(A + L - 1) div 65536 = (r + (L - 1)) div 65536 + q" by simp
  then have d: "A div 65536 = (A + L - 1) div 65536 \<longleftrightarrow> r + (L - 1) < 65536"
    unfolding q_def [symmetric] by (simp add: div_eq_0_iff)
  have "A < 2 ^ 24 \<longleftrightarrow> q < 256" using A by auto
  moreover have "A + L \<le> 2 ^ 24" if "q < 256" "r + (L - 1) < 65536"
  proof -
    have "65536 * q \<le> 65536 * 255" using that(1) by simp
    then show ?thesis using that(2) assms A(1) by simp
  qed
  ultimately show ?thesis unfolding d r_def [symmetric] using assms by auto
qed

text \<open>What the test in \<^verbatim>\<open>dma_initialize_floppy\<close> lets pass.\<close>

definition dma_range :: "u32 \<Rightarrow> u32 \<Rightarrow> bool" where
  "dma_range a len \<longleftrightarrow> 0 < len \<and> unat a + unat len \<le> 2 ^ 24 \<and>
     unat a div 65536 = (unat a + unat len - 1) div 65536"

lemma dma_check:
  "(drop_bit 24 a \<noteq> 0 \<or> drop_bit 16 (len - 1) \<noteq> 0 \<or> drop_bit 16 ((a AND 0xffff) + (len - 1)) \<noteq> (0 :: u32)) \<longleftrightarrow>
   \<not> dma_range a len"
proof (cases "len = 0")
  case True
  then show ?thesis by (simp add: dma_range_def drop_bit_zero)
next
  case False
  then have L: "0 < unat len" by (simp add: unat_gt_0)
  have l1: "unat (len - 1) = unat len - 1" using False by (simp add: unat_minus_one)
  have lo: "unat (a AND 0xffff) = unat a mod 65536"
  proof -
    have "a AND 0xffff = take_bit 16 a" by (simp add: take_bit_eq_mask mask_eq_exp_minus_1)
    then show ?thesis by (simp add: unsigned_take_bit_eq take_bit_eq_mod unat_mod)
  qed
  have sum: "unat ((a AND 0xffff) + (len - 1)) = unat a mod 65536 + (unat len - 1)"
    if "unat len - 1 < 2 ^ 16"
    using that mod_less_divisor [of 65536 "unat a"] by (simp add: unat_word_ariths lo l1)
  show ?thesis unfolding dma_range_def drop_bit_zero l1
    using same_frame [OF L, of "unat a"] sum L False by (auto simp: word_gt_0)
qed


definition dma_events :: "u32 \<Rightarrow> u32 \<Rightarrow> io_event list" where
  "dma_events a c = [Out 0x0d 0xff, Out 0x0a 2, Out 0x0c 0xaa, Out 0x0a 2, Out 0x0b 0x46, Out 0xdc 0xff,
     Out 0x04 (ucast a), Out 0x04 (ucast (drop_bit 8 a)), Out 0x81 (ucast (drop_bit 16 a)),
     Out 0x05 (ucast c), Out 0x05 (ucast (drop_bit 8 c)), Out 0xdc 0xff]"

lemma dma_initialize_eq:
  "dma_initialize_floppy a len st = (if dma_range a len
     then (True, st\<lparr>io_log := io_log st @ dma_events a (len - 1)\<rparr>) else (False, st))"
  unfolding dma_initialize_floppy_def Let_def dma_check
  by (simp add: dma_reset_def dma_mask_channel_def shift_1_def dma_reset_flipflop_def dma_set_read_def
    dma_set_mode_def dma_unmask_all_def dma_set_address_def dma_addr_port_def dma_set_count_def
    dma_count_port_def dma_set_external_page_register_def dma_events_def outb_def Let_def)

lemma byte_of: "unat (ucast (drop_bit k x) :: u8) = unat (x :: u32) div 2 ^ k mod 256"
  if "k = 0 \<or> k = 8 \<or> k = 16"
proof -
  have "unat (ucast y :: u8) = unat y mod 256" for y :: u32
    by (simp only: unsigned_ucast_eq) (simp add: take_bit_eq_mod)
  moreover have "unat (drop_bit k x) = unat x div 2 ^ k"
    using that by (auto simp: drop_bit_eq_div unat_div)
  ultimately show ?thesis by simp
qed

lemma dma_events_program:
  assumes ok: "dma_range a len"
  shows "let d = fold dmac_step (dma_events a (len - 1)) d0 in
    65536 * unat (page2 d) + unat (addr2 d) = unat a \<and> unat (count2 d) + 1 = unat len \<and>
    mode2 d = 0x46 \<and> \<not> masked2 d"
proof -
  have len: "0 < len" "unat a < 2 ^ 24" "unat len - 1 < 65536"
    using ok same_frame [of "unat len" "unat a"] by (auto simp: dma_range_def unat_gt_0 word_gt_0)
  have c: "unat (len - 1) = unat len - 1" using len(1) by (simp add: unat_minus_one word_gt_0)
  have b: "unat (ucast (drop_bit 16 a) :: u8) = unat a div 65536"
    "unat (ucast a :: u8) + 256 * unat (ucast (drop_bit 8 a) :: u8) = unat a mod 65536"
    "unat (ucast (len - 1) :: u8) + 256 * unat (ucast (drop_bit 8 (len - 1)) :: u8) = unat len - 1"
  proof -
    have two: "x mod 256 + 256 * (x div 256 mod 256) = x mod (65536 :: nat)" for x
      using mod_mult2_eq [of x 256 256] by simp
    have "unat a div 65536 < 256" using len(2) by (simp add: less_mult_imp_div_less)
    then show "unat (ucast (drop_bit 16 a) :: u8) = unat a div 65536" using byte_of [of 16 a] by simp
    show "unat (ucast a :: u8) + 256 * unat (ucast (drop_bit 8 a) :: u8) = unat a mod 65536"
      using byte_of [of 0 a] byte_of [of 8 a] two [of "unat a"] by simp
    show "unat (ucast (len - 1) :: u8) + 256 * unat (ucast (drop_bit 8 (len - 1)) :: u8) = unat len - 1"
      using byte_of [of 0 "len - 1"] byte_of [of 8 "len - 1"] two [of "unat len - 1"] len(3) c by simp
  qed
  have "65536 * (unat a div 65536) + unat a mod 65536 = unat a" by simp
  moreover have "0 < unat len" using len(1) by (simp add: word_less_nat_alt)
  ultimately show ?thesis by (simp add: dma_events_def Let_def set_bytes b)
qed

text \<open>\<^verbatim>\<open>dma_initialize_floppy\<close> accepts exactly the non-empty ranges that end within the
  first 16 MB and lie in one 64 KB frame, and writes to no port for any other.  For such a
  range the controller is left, whatever its state was, with channel 2 set to transfer the
  range's bytes to memory, and open.\<close>

theorem dma_initialize_programs:
  shows "(\<not> dma_range a len \<longrightarrow> dma_initialize_floppy a len st = (False, st)) \<and>
    (dma_range a len \<longrightarrow> (\<exists>es. dma_initialize_floppy a len st = (True, st\<lparr>io_log := io_log st @ es\<rparr>) \<and>
      (\<forall>d0. let d = fold dmac_step es d0 in
        65536 * unat (page2 d) + unat (addr2 d) = unat a \<and> unat (count2 d) + 1 = unat len \<and>
        mode2 d = 0x46 \<and> \<not> masked2 d)))"
  unfolding dma_initialize_eq using dma_events_program by auto

section \<open>The protocol\<close>

text \<open>
  A responsive controller: its data register is always ready, it raises its interrupt
  whenever the driver waits for it, and the timer ticks once per turn of a waiting loop.
  \<open>reports hw cyl\<close>: after the command that asks for the cause of the interrupt, the
  second byte it gives is the cylinder.
\<close>

definition responsive :: "hardware \<Rightarrow> bool" where
  "responsive hw \<longleftrightarrow> (\<forall>log. port_value hw log 0x3f4 AND 128 \<noteq> 0) \<and> (\<forall>log. raises_irq hw log) \<and>
     (\<forall>log k. timer_ticks hw log k = 1)"

text \<open>After a seek to \<open>cyl\<close>, asked for its interrupt status, the controller reports the cylinder \<open>c\<close>.\<close>

definition says_cylinder :: "hardware \<Rightarrow> io_event list \<Rightarrow> u8 \<Rightarrow> bool" where
  "says_cylinder hw log c \<longleftrightarrow> (\<forall>m0 m s m'. port_value hw
     (log @ [In 0x3f4 m0, Out 0x3f5 8, In 0x3f4 m, In 0x3f5 s, In 0x3f4 m']) 0x3f5 = c)"

definition reports :: "hardware \<Rightarrow> u8 \<Rightarrow> u8 \<Rightarrow> bool" where
  "reports hw cyl c \<longleftrightarrow> (\<forall>log ws d. writes_to {0x3f5} log = ws @ [(0x3f5, 0x0f), (0x3f5, d), (0x3f5, cyl)] \<longrightarrow>
     says_cylinder hw log c)"

text \<open>
  What the drive and the controllers of DMA and interrupts are told: the writes to the command and output
  registers of the first and to the registers of the others, of which the driver leaves the
  interrupt controllers alone.
\<close>

definition device_ports :: "u16 set" where
  "device_ports = {0x3f2, 0x3f5, 0x81, 0x20, 0x21, 0xA0, 0xA1} \<union> {p. p < 0x10}"

definition told :: "floppy \<Rightarrow> (u16 \<times> u8) list" where
  "told st = writes_to device_ports (io_log st)"

lemma device_ports_simps [simp]:
  "0x3f2 \<in> device_ports" "0x3f5 \<in> device_ports" "0x81 \<in> device_ports" "0xdc \<notin> device_ports"
  "0x20 \<in> device_ports" "0x21 \<in> device_ports" "0xA0 \<in> device_ports" "0xA1 \<in> device_ports"
  "p < 0x10 \<Longrightarrow> p \<in> device_ports"
  by (simp_all add: device_ports_def)

text \<open>Programming the transfer of a sector to \<open>a\<close>, where the address is accepted.\<close>

definition dma_writes :: "u32 \<Rightarrow> (u16 \<times> u8) list" where
  "dma_writes a = (if dma_range a 512 then writes_to device_ports (dma_events a 511) else [])"

definition commands :: "u8 list \<Rightarrow> (u16 \<times> u8) list" where
  "commands cs = map (Pair 0x3f5) cs"

definition step_to :: "(u16 \<times> u8) list \<Rightarrow> nat \<Rightarrow> floppy \<Rightarrow> floppy \<Rightarrow> bool" where
  "step_to ws t st st' \<longleftrightarrow> (\<exists>es. io_log st' = io_log st @ es \<and> writes_to device_ports es = ws) \<and> current_drive st' = current_drive st \<and>
     DMA_BUFFER st' = DMA_BUFFER st \<and> irq_received st' = irq_received st \<and>
     (unat (pit_ticks st) + t < 2 ^ 32 \<longrightarrow> unat (pit_ticks st') = unat (pit_ticks st) + t)"

lemma step_refl: "step_to [] 0 st st"
  by (simp add: step_to_def)

lemma step_trans: "step_to ws t a b \<Longrightarrow> step_to vs u b c \<Longrightarrow> step_to (ws @ vs) (t + u) a c"
  by (fastforce simp: step_to_def)

lemma step_told: "step_to ws t a b \<Longrightarrow> told b = told a @ ws"
  by (auto simp: step_to_def told_def)

lemma writes_to_fifo: "writes_to {0x3f5} es = filter (\<lambda>w. fst w = 0x3f5) (writes_to device_ports es)"
  by (induction "{0x3f5 :: u16}" es rule: writes_to.induct) simp_all

lemma send_ready:
  assumes "responsive hw"
  shows "\<exists>m. flpydsk_send_command hw cmd st =
    st\<lparr>io_log := io_log st @ [In 0x3f4 m, Out 0x3f5 cmd]\<rparr>"
  using assms by (auto simp: flpydsk_send_command_def numeral_eq_Suc responsive_def flpydsk_read_status_def
    inb_def outb_def Let_def)

lemma read_ready:
  assumes "responsive hw"
  shows "\<exists>m v. flpydsk_read_data hw st = (v, st\<lparr>io_log := io_log st @ [In 0x3f4 m, In 0x3f5 v]\<rparr>) \<and>
    v = port_value hw (io_log st @ [In 0x3f4 m]) 0x3f5"
  using assms by (auto simp: flpydsk_read_data_def numeral_eq_Suc responsive_def flpydsk_read_status_def
    inb_def Let_def)

lemma send_step: "responsive hw \<Longrightarrow> step_to (commands [cmd]) 0 st (flpydsk_send_command hw cmd st)"
  using send_ready [of hw cmd st] by (auto simp: step_to_def told_def commands_def)

lemma read_step: "responsive hw \<Longrightarrow> step_to [] 0 st (snd (flpydsk_read_data hw st))"
  using read_ready [of hw st] by (auto simp: step_to_def told_def)

lemma check_int_step:
  assumes "responsive hw"
  shows "\<exists>st0 cyl st'. flpydsk_check_int hw st = (st0, cyl, st') \<and> step_to (commands [8]) 0 st st' \<and>
    (says_cylinder hw (io_log st) c \<longrightarrow> cyl = ucast c)"
proof -
  obtain m where 1: "flpydsk_send_command hw 8 st = st\<lparr>io_log := io_log st @ [In 0x3f4 m, Out 0x3f5 8]\<rparr>"
    (is "_ = ?s1") using send_ready [OF assms] by blast
  obtain m1 v1 where 2: "flpydsk_read_data hw ?s1 = (v1, ?s1\<lparr>io_log := io_log ?s1 @ [In 0x3f4 m1, In 0x3f5 v1]\<rparr>)"
    (is "_ = (_, ?s2)") using read_ready [OF assms, of ?s1] by blast
  obtain m2 v2 where 3: "flpydsk_read_data hw ?s2 = (v2, ?s2\<lparr>io_log := io_log ?s2 @ [In 0x3f4 m2, In 0x3f5 v2]\<rparr>)"
    "v2 = port_value hw (io_log ?s2 @ [In 0x3f4 m2]) 0x3f5"
    using read_ready [OF assms, of ?s2] by blast
  have "v2 = c" if "says_cylinder hw (io_log st) c"
    using that [unfolded says_cylinder_def, rule_format, of m m1 v1 m2] 3(2) by simp
  then show ?thesis using 1 2 3(1)
    by (auto simp: flpydsk_check_int_def Let_def step_to_def told_def commands_def)
qed


lemma inc_ticks_fields [simp]:
  "current_drive ((inc_pit_ticks ^^ n) st) = current_drive st" "DMA_BUFFER ((inc_pit_ticks ^^ n) st) = DMA_BUFFER st"
  "irq_received ((inc_pit_ticks ^^ n) st) = irq_received st"
  by (induction n) (simp_all add: inc_pit_ticks_def)

text \<open>The byte that turns the motor of the current drive on.\<close>

definition motor_on :: "u8 \<Rightarrow> u8" where
  "motor_on drive = drive OR [16, 32, 64, 128] ! unat drive OR 4 OR 8"

lemma motor_step:
  assumes hw: "responsive hw" and drive: "current_drive st < 4" and t: "unat (pit_ticks st) + 20 < 2 ^ 32"
  shows "\<exists>st'. flpydsk_control_motor hw b st = Some st' \<and>
    step_to [(0x3f2, if b then motor_on (current_drive st) else 4)] 20 st st'"
proof -
  let ?s = "flpydsk_write_dor (if b then motor_on (current_drive st) else 4) st"
  have "\<not> 3 < current_drive st" using drive by (simp add: word_less_nat_alt)
  then have "flpydsk_control_motor hw b st = sleep hw 20 ?s"
    by (simp add: flpydsk_control_motor_def Let_def motor_on_def)
  moreover have "sleep hw 20 ?s = Some ((inc_pit_ticks ^^ unat (20 :: u32)) ?s) \<and>
      unat (pit_ticks ?s + of_nat (unat (20 :: u32))) = unat (pit_ticks ?s) + unat (20 :: u32)"
    using hw t by (intro sleep_run) (auto simp: responsive_def flpydsk_write_dor_def)
  moreover have "current_drive ?s = current_drive st" "DMA_BUFFER ?s = DMA_BUFFER st"
    "irq_received ?s = irq_received st"
    by (simp_all add: flpydsk_write_dor_def outb_def)
  ultimately show ?thesis
    by (auto simp: step_to_def told_def flpydsk_write_dor_def)
qed

lemma wait_step:
  assumes "responsive hw" and "\<not> irq_received st"
  shows "\<exists>st'. flpydsk_wait_irq hw st = Some st' \<and> step_to [] 0 st st' \<and> io_log st' = io_log st"
  using assms by (auto simp: flpydsk_wait_irq_def responsive_def i86_flpy_irq_def Let_def step_to_def told_def)

lemma step_irq: "step_to ws t a b \<Longrightarrow> irq_received b = irq_received a"
  by (simp add: step_to_def)

text \<open>One attempt to seek.\<close>

definition seek_commands :: "u8 \<Rightarrow> u8 \<Rightarrow> u8 \<Rightarrow> (u16 \<times> u8) list" where
  "seek_commands drive cyl head = commands [0x0f, push_bit 2 head OR drive, cyl, 8]"

lemma commands_append: "commands xs @ commands ys = commands (xs @ ys)"
  by (simp add: commands_def)

lemma ucast8_eq: "(ucast (c :: u8) :: u32) = ucast d \<longleftrightarrow> c = d"
proof -
  have "unat (ucast x :: u32) = unat x" for x :: u8
    using u8_less [of x] by (simp only: unsigned_ucast_eq) (simp add: take_bit_nat_eq_self)
  then show ?thesis by (metis word_unat_eq_iff)
qed

lemma sends_step: "responsive hw \<Longrightarrow> step_to (commands cs) 0 st (fold (flpydsk_send_command hw) cs st)"
proof (induction cs arbitrary: st)
  case Nil
  then show ?case using step_refl by (simp add: commands_def)
next
  case (Cons c cs)
  from step_trans [OF send_step [OF Cons.prems, of c st] Cons.IH [OF Cons.prems]] show ?case
    by (simp add: commands_append)
qed

lemma send_drive: "responsive hw \<Longrightarrow> current_drive (flpydsk_send_command hw c st) = current_drive st"
  using send_step [of hw c st] by (simp add: step_to_def)

lemma seek_step:
  assumes hw: "responsive hw" and irq: "\<not> irq_received st" and rep: "reports hw cyl c"
  shows "\<exists>st'. seek_loop (Suc n) hw cyl head st =
      (if c = cyl then Some (0, st') else seek_loop n hw cyl head st') \<and>
    step_to (seek_commands (current_drive st) cyl head) 0 st st'"
proof -
  define d where "d = fold (flpydsk_send_command hw) [0x0f, push_bit 2 head OR current_drive st, cyl] st"
  have d: "step_to (commands [0x0f, push_bit 2 head OR current_drive st, cyl]) 0 st d"
    unfolding d_def by (rule sends_step [OF hw])
  obtain e where e: "flpydsk_wait_irq hw d = Some e" "step_to [] 0 d e"
    using wait_step [OF hw, of d] step_irq [OF d] irq by auto
  have "writes_to {0x3f5} (io_log e) = filter (\<lambda>w. fst w = 0x3f5) (told st) @
      [(0x3f5, 0x0f), (0x3f5, push_bit 2 head OR current_drive st), (0x3f5, cyl)]"
    using step_told [OF step_trans [OF d e(2)]] unfolding writes_to_fifo told_def [symmetric]
    by (simp add: commands_def)
  then have "says_cylinder hw (io_log e) c" using rep unfolding reports_def by blast
  then obtain st0 cyl0 f where f: "flpydsk_check_int hw e = (st0, cyl0, f)" "step_to (commands [8]) 0 e f"
    "cyl0 = ucast c"
    using check_int_step [OF hw, of e c] by blast
  have step: "step_to (seek_commands (current_drive st) cyl head) 0 st f"
    using step_trans [OF step_trans [OF d e(2)] f(2)] by (simp add: seek_commands_def commands_append)
  have "seek_loop (Suc n) hw cyl head st = (if c = cyl then Some (0, f) else seek_loop n hw cyl head f)"
    using e(1) f(1,3) by (simp add: Let_def d_def send_drive [OF hw] ucast8_eq)
  then show ?thesis using step by blast
qed

text \<open>Attempts that never find the cylinder.\<close>

lemma seek_fails:
  assumes hw: "responsive hw" and rep: "reports hw cyl c" and ne: "c \<noteq> cyl" and irq: "\<not> irq_received st"
  shows "\<exists>st'. seek_loop n hw cyl head st = Some (- 1, st') \<and>
    step_to (concat (replicate n (seek_commands (current_drive st) cyl head))) 0 st st'"
  using irq
proof (induction n arbitrary: st)
  case 0
  then show ?case using step_refl by simp
next
  case (Suc n)
  obtain t where t: "seek_loop (Suc n) hw cyl head st = seek_loop n hw cyl head t"
    "step_to (seek_commands (current_drive st) cyl head) 0 st t"
    using seek_step [OF hw Suc.prems rep, of n head] ne by auto
  have "current_drive t = current_drive st" using t(2) by (simp add: step_to_def)
  then obtain u where "seek_loop n hw cyl head t = Some (- 1, u)"
    "step_to (concat (replicate n (seek_commands (current_drive st) cyl head))) 0 t u"
    using Suc.IH [of t] step_irq [OF t(2)] Suc.prems by auto
  then show ?case unfolding t(1) using step_trans [OF t(2)] by fastforce
qed

definition read_commands :: "u8 \<Rightarrow> u8 \<Rightarrow> u8 \<Rightarrow> u8 \<Rightarrow> (u16 \<times> u8) list" where
  "read_commands drive head track sector =
     commands [0xE6, push_bit 2 head OR drive, track, head, sector, 2,
       if 18 \<le> uint sector + 1 then 18 else sector + 1, 27, 0xff, 8]"

lemma dma_step: "step_to (dma_writes a) 0 st (snd (dma_initialize_floppy a 512 st))"
  unfolding dma_initialize_eq by (simp add: step_to_def told_def dma_writes_def)

lemma results_step: "responsive hw \<Longrightarrow> step_to [] 0 st (read_results n hw st)"
proof (induction n arbitrary: st)
  case 0
  then show ?case using step_refl by simp
next
  case (Suc n)
  from step_trans [OF read_step [OF Suc.prems, of st] Suc.IH [OF Suc.prems]] show ?case by simp
qed

lemma read_imp_step:
  assumes hw: "responsive hw" and irq: "\<not> irq_received st"
  shows "\<exists>st'. flpydsk_read_sector_imp hw head track sector st = Some st' \<and>
    step_to (dma_writes (DMA_BUFFER st) @ read_commands (current_drive st) head track sector) 0 st st'"
proof -
  define a where "a = snd (dma_initialize_floppy (DMA_BUFFER st) 512 st)"
  define cs where "cs = [0xE6, push_bit 2 head OR current_drive a, track, head, sector, 2,
       if 18 \<le> uint sector + 1 then 18 else sector + 1, 27, 0xff]"
  define b where "b = fold (flpydsk_send_command hw) cs a"
  have a: "step_to (dma_writes (DMA_BUFFER st)) 0 st a" unfolding a_def by (rule dma_step)
  have b: "step_to (commands cs) 0 a b" unfolding b_def by (rule sends_step [OF hw])
  obtain d where d: "flpydsk_wait_irq hw b = Some d" "step_to [] 0 b d"
    using wait_step [OF hw, of b] step_irq [OF step_trans [OF a b]] irq by auto
  define e where "e = read_results 7 hw d"
  have e: "step_to [] 0 d e" unfolding e_def by (rule results_step [OF hw])
  obtain f where f: "snd (snd (flpydsk_check_int hw e)) = f" "step_to (commands [8]) 0 e f"
    using check_int_step [OF hw, of e 0] by auto
  have "flpydsk_read_sector_imp hw head track sector st = Some f"
    using d(1) f(1) unfolding flpydsk_read_sector_imp_def Let_def a_def [symmetric]
    by (cases "18 \<le> uint sector + 1") (simp_all add: b_def cs_def send_drive [OF hw] e_def)
  moreover have "current_drive a = current_drive st" using a by (simp add: step_to_def)
  ultimately show ?thesis
    using step_trans [OF step_trans [OF step_trans [OF step_trans [OF a b] d(2)] e] f(2)]
    by (simp add: read_commands_def cs_def commands_append)
qed

definition reset_commands :: "(u16 \<times> u8) list" where
  "reset_commands = [(0x3f2, 0), (0x3f2, 0x0C)] @ commands [8, 8, 8, 8]"

lemma check_ints_step: "responsive hw \<Longrightarrow> step_to (commands (replicate n 8)) 0 st (check_ints n hw st)"
proof (induction n arbitrary: st)
  case 0
  then show ?case using step_refl by (simp add: commands_def)
next
  case (Suc n)
  obtain t where t: "snd (snd (flpydsk_check_int hw st)) = t" "step_to (commands [8]) 0 st t"
    using check_int_step [OF Suc.prems, of st 0] by auto
  from step_trans [OF t(2) Suc.IH [OF Suc.prems]] t(1) show ?case by (simp add: commands_append)
qed

lemma reset_step:
  assumes hw: "responsive hw" and irq: "\<not> irq_received st"
  shows "\<exists>st'. flpydsk_reset hw st = Some st' \<and> step_to reset_commands 0 st st'"
proof -
  define a where "a = flpydsk_enable_controller (flpydsk_disable_controller st)"
  have a: "step_to [(0x3f2, 0), (0x3f2, 0x0C)] 0 st a"
    by (simp add: a_def step_to_def told_def flpydsk_enable_controller_def flpydsk_disable_controller_def
      flpydsk_write_dor_def) (simp add: outb_def)
  obtain b where b: "flpydsk_wait_irq hw a = Some b" "step_to [] 0 a b"
    using wait_step [OF hw, of a] step_irq [OF a] irq by auto
  have "flpydsk_reset hw st = Some (check_ints 4 hw b)"
    using b(1) by (simp add: flpydsk_reset_def Let_def a_def)
  then show ?thesis
    using step_trans [OF step_trans [OF a b(2)] check_ints_step [OF hw, of 4 b]]
    by (simp add: reset_commands_def numeral_eq_Suc)
qed

section \<open>Reading a sector\<close>

text \<open>What a read of a sector tells the devices.\<close>

definition read_session :: "floppy \<Rightarrow> int \<Rightarrow> int \<Rightarrow> int \<Rightarrow> (u16 \<times> u8) list" where
  "read_session st head track sector = [(0x3f2, motor_on (current_drive st))] @
     seek_commands (current_drive st) (of_int track) (of_int head) @ dma_writes (DMA_BUFFER st) @
     read_commands (current_drive st) (of_int head) (of_int track) (of_int sector) @
     [(0x3f2, 4)] @ reset_commands"

lemma read_sector_run:
  assumes hw: "responsive hw" and chs: "flpydsk_lba_to_chs (sint lba) = (head, track, sector)"
    and rep: "reports hw (of_int track) (of_int track)" and drive: "current_drive st < 4" and irq: "\<not> irq_received st"
    and t: "unat (pit_ticks st) + 40 < 2 ^ 32"
  shows "\<exists>st'. flpydsk_read_sector hw lba st = Some (DMA_BUFFER st, st') \<and>
    step_to (read_session st head track sector) 40 st st'"
proof -
  let ?d = "current_drive st"
  obtain a where a: "flpydsk_control_motor hw True st = Some a" "step_to [(0x3f2, motor_on ?d)] 20 st a"
    using motor_step [OF hw drive, of True] t by auto
  have da: "current_drive a = ?d" "\<not> irq_received a" "unat (pit_ticks a) = unat (pit_ticks st) + 20"
    using a(2) irq t by (simp_all add: step_to_def)
  have ten: "Suc 9 = 10" by simp
  obtain b where
    b: "seek_loop 10 hw (of_int track) (of_int head) a = Some (0, b)"
    "step_to (seek_commands ?d (of_int track) (of_int head)) 0 a b"
    using seek_step [OF hw da(2) rep, of 9 "of_int head"] unfolding ten da(1) by auto
  have nl: "\<not> 4 \<le> ?d" using drive by (simp add: not_le)
  then have seek: "flpydsk_seek hw (of_int track) (of_int head) a = Some (0, b)"
    using b(1) da(1) by (simp add: flpydsk_seek_def)
  have DMA_b: "DMA_BUFFER b = DMA_BUFFER st" using step_trans [OF a(2) b(2)] by (simp add: step_to_def)
  obtain c where c: "flpydsk_read_sector_imp hw (of_int head) (of_int track) (of_int sector) b = Some c"
    "step_to (dma_writes (DMA_BUFFER st) @ read_commands ?d (of_int head) (of_int track) (of_int sector)) 0 b c"
    using read_imp_step [OF hw, of b "of_int head" "of_int track" "of_int sector"] b(2) da
      DMA_b by (auto simp: step_to_def)
  have bc: "step_to (seek_commands ?d (of_int track) (of_int head) @ dma_writes (DMA_BUFFER st) @
      read_commands ?d (of_int head) (of_int track) (of_int sector)) 0 a c"
    using step_trans [OF b(2) c(2)] by simp
  have dc: "current_drive c = ?d" "unat (pit_ticks c) = unat (pit_ticks st) + 20"
    using bc da t by (simp_all add: step_to_def)
  obtain e where e: "flpydsk_control_motor hw False c = Some e" "step_to [(0x3f2, 4)] 20 c e"
    using motor_step [OF hw, of c False] drive dc t by auto
  have "\<not> irq_received e" using e(2) bc da(2) by (simp add: step_to_def)
  then obtain f where f: "flpydsk_reset hw e = Some f" "step_to reset_commands 0 e f"
    using reset_step [OF hw] by blast
  have r: "flpydsk_read_sector hw lba st = Some (DMA_BUFFER f, f)"
    using nl a(1) seek c(1) e(1) f(1) chs by (simp add: flpydsk_read_sector_def)
  from step_trans [OF step_trans [OF step_trans [OF a(2) bc] e(2)] f(2)] have "step_to (read_session st head track sector) 40 st f"
    by (simp add: read_session_def)
  moreover from this have "DMA_BUFFER f = DMA_BUFFER st" by (simp add: step_to_def)
  ultimately show ?thesis using r by simp
qed

text \<open>C26: With a responsive controller that reports the sector's cylinder, \<^verbatim>\<open>flpydsk_read_sector\<close>
  gives the address of the DMA buffer and tells the devices exactly this: motor on, one seek
  to the track, the DMA channel programmed with the buffer, the read command for the head,
  track and sector of the address, motor off, reset.\<close>

theorem read_sector_protocol:
  assumes hw: "responsive hw" and chs: "flpydsk_lba_to_chs (sint lba) = (head, track, sector)"
    and rep: "reports hw (of_int track) (of_int track)" and drive: "current_drive st < 4" and irq: "\<not> irq_received st"
    and t: "unat (pit_ticks st) + 40 < 2 ^ 32"
  shows "\<exists>st'. flpydsk_read_sector hw lba st = Some (DMA_BUFFER st, st') \<and>
    told st' = told st @ [(0x3f2, motor_on (current_drive st))] @
      seek_commands (current_drive st) (of_int track) (of_int head) @ dma_writes (DMA_BUFFER st) @
      read_commands (current_drive st) (of_int head) (of_int track) (of_int sector) @
      [(0x3f2, 4)] @ reset_commands \<and>
    DMA_BUFFER st' = DMA_BUFFER st \<and> current_drive st' = current_drive st"
proof -
  obtain st' where r: "flpydsk_read_sector hw lba st = Some (DMA_BUFFER st, st')"
    "step_to (read_session st head track sector) 40 st st'"
    using read_sector_run [OF assms] by blast
  moreover have "DMA_BUFFER st' = DMA_BUFFER st" "current_drive st' = current_drive st"
    using r(2) by (simp_all add: step_to_def)
  ultimately show ?thesis using step_told [OF r(2)] by (simp add: read_session_def)
qed

text \<open>C27: Where the controller keeps reporting another cylinder, \<^verbatim>\<open>flpydsk_read_sector\<close> gives up
  after ten seeks and returns the null pointer; it leaves the motor running.\<close>

theorem read_sector_seek_error:
  assumes hw: "responsive hw" and chs: "flpydsk_lba_to_chs (sint lba) = (head, track, sector)"
    and rep: "reports hw (of_int track) c" "c \<noteq> of_int track" and drive: "current_drive st < 4" and irq: "\<not> irq_received st"
    and t: "unat (pit_ticks st) + 20 < 2 ^ 32"
  shows "\<exists>st'. flpydsk_read_sector hw lba st = Some (0, st') \<and>
    told st' = told st @ [(0x3f2, motor_on (current_drive st))] @
      concat (replicate 10 (seek_commands (current_drive st) (of_int track) (of_int head)))"
proof -
  let ?d = "current_drive st"
  obtain a where a: "flpydsk_control_motor hw True st = Some a" "step_to [(0x3f2, motor_on ?d)] 20 st a"
    using motor_step [OF hw drive, of True] t by auto
  have da: "current_drive a = ?d" "\<not> irq_received a" using a(2) irq by (simp_all add: step_to_def)
  obtain b where b: "seek_loop 10 hw (of_int track) (of_int head) a = Some (- 1, b)"
    "step_to (concat (replicate 10 (seek_commands ?d (of_int track) (of_int head)))) 0 a b"
    using seek_fails [OF hw rep da(2), of 10 "of_int head"] da(1) by auto
  have nl: "\<not> 4 \<le> ?d" using drive by (simp add: not_le)
  then have "flpydsk_seek hw (of_int track) (of_int head) a = Some (- 1, b)"
    using b(1) da(1) by (simp add: flpydsk_seek_def)
  then have "flpydsk_read_sector hw lba st = Some (0, b)"
    using nl a(1) chs by (simp add: flpydsk_read_sector_def)
  then show ?thesis using step_told [OF step_trans [OF a(2) b(2)]] by simp
qed

section \<open>A concrete drive\<close>

definition demo_floppy :: floppy where
  "demo_floppy = \<lparr>io_log = [], pit_ticks = 0, current_drive = 0, irq_received = False, DMA_BUFFER = 0x20000\<rparr>"

lemma demo_hw_responds: "responsive (demo_hw c)" "reports (demo_hw c) cyl c"
  by (simp_all add: responsive_def reports_def says_cylinder_def demo_hw_def)

lemma demo_chs: "flpydsk_lba_to_chs (sint (100 :: u32)) = (1, 2, 11)"
  by (simp add: flpydsk_lba_to_chs_def signed_nonneg)

theorem lba_to_chs_roundtrip_witness: "((2 :: int) * 2 + 1) * 18 + (11 - 1) = 100"
  using lba_to_chs_roundtrip [of 100 1 2 11] by (simp add: flpydsk_lba_to_chs_def signed_nonneg)

theorem dma_initialize_programs_witness:
  "\<not> fst (dma_initialize_floppy 0x2FFF0 512 demo_floppy) \<and> fst (dma_initialize_floppy 0x20000 512 demo_floppy)"
  using dma_initialize_programs [of "0x2FFF0" 512 demo_floppy] dma_initialize_programs [of "0x20000" 512 demo_floppy]
  by (auto simp: dma_range_def)

theorem read_sector_protocol_witness:
  "\<exists>st'. flpydsk_read_sector (demo_hw 2) 100 demo_floppy = Some (0x20000, st') \<and>
     told st' = [(0x3f2, 0x1C), (0x3f5, 0x0f), (0x3f5, 4), (0x3f5, 2), (0x3f5, 8)] @
       dma_writes 0x20000 @ [(0x3f5, 0xE6), (0x3f5, 4), (0x3f5, 2), (0x3f5, 1), (0x3f5, 11), (0x3f5, 2), (0x3f5, 12), (0x3f5, 27), (0x3f5, 0xff), (0x3f5, 8),
       (0x3f2, 4), (0x3f2, 0), (0x3f2, 0x0C), (0x3f5, 8), (0x3f5, 8), (0x3f5, 8), (0x3f5, 8)]"
  using read_sector_protocol [OF demo_hw_responds(1) demo_chs, of 2 demo_floppy] demo_hw_responds(2) [of 2 2]
  by (auto simp: demo_floppy_def told_def motor_on_def seek_commands_def read_commands_def reset_commands_def
    commands_def)

theorem read_sector_seek_error_witness:
  "\<exists>st'. flpydsk_read_sector (demo_hw 7) 100 demo_floppy = Some (0, st') \<and>
     last (filter (\<lambda>w. fst w = 0x3f2) (told st')) = (0x3f2, 0x1C)"
  using read_sector_seek_error [OF demo_hw_responds(1) demo_chs demo_hw_responds(2), of 7 demo_floppy]
  by (auto simp: demo_floppy_def told_def motor_on_def seek_commands_def commands_def filter_concat)

end
