(* ===== verification/Ring_Store.thy ===== *)
theory Ring_Store
  imports C4_Prelude
begin

text \<open>
  The interface between the two ring-keeping components and their stores.  A store
  holds a forward and a backward link per node and lets both be overwritten; \<open>node\<close>
  says which addresses are nodes (every non-null \<^verbatim>\<open>ListItem\<close> address, every
  page-aligned block base).  The assumptions are the read-after-write laws; the
  lemmas are the three link surgeries the kernel performs: appending before the
  head, unlinking, and replacing a node by one at another address.  The provider
  for \<^verbatim>\<open>ListItem\<close> is in \<open>Kernel_List\<close>, the provider for \<^verbatim>\<open>PhysMemoryBlock\<close>
  in \<open>Phys_Memory\<close>.
\<close>

locale dlist_store =
  fixes nx :: "'s \<Rightarrow> 'a \<Rightarrow> 'a"
    and pv :: "'s \<Rightarrow> 'a \<Rightarrow> 'a"
    and put_nx :: "'a \<Rightarrow> 'a \<Rightarrow> 's \<Rightarrow> 's"
    and put_pv :: "'a \<Rightarrow> 'a \<Rightarrow> 's \<Rightarrow> 's"
    and node :: "'a \<Rightarrow> bool"
  assumes nx_put_nx: "node a \<Longrightarrow> node c \<Longrightarrow> nx (put_nx a b s) c = (if c = a then b else nx s c)"
    and nx_put_pv: "node a \<Longrightarrow> node c \<Longrightarrow> nx (put_pv a b s) c = nx s c"
    and pv_put_pv: "node a \<Longrightarrow> node c \<Longrightarrow> pv (put_pv a b s) c = (if c = a then b else pv s c)"
    and pv_put_nx: "node a \<Longrightarrow> node c \<Longrightarrow> pv (put_nx a b s) c = pv s c"
begin

lemmas links = nx_put_nx nx_put_pv pv_put_pv pv_put_nx

lemma ring_eqI:
  assumes "ring n p xs" and "\<forall>x \<in> set xs. node x"
    and "\<And>x. node x \<Longrightarrow> nx t x = n x" and "\<And>x. node x \<Longrightarrow> pv t x = p x"
  shows "ring (nx t) (pv t) xs"
  using assms by (subst ring_cong [of xs "nx t" n "pv t" p]) auto

text \<open>\<open>a\<close> becomes the last node, just before the head \<open>h\<close>.\<close>

lemma ring_append:
  assumes "ring (nx s) (pv s) xs" and "xs \<noteq> []" and "\<forall>x \<in> set xs. node x"
    and "node a" and "a \<notin> set xs" and "h = hd xs" and "l = pv s h"
  shows "ring (nx (put_pv h a (put_nx l a (put_pv a l (put_nx a h s)))))
     (pv (put_pv h a (put_nx l a (put_pv a l (put_nx a h s))))) (xs @ [a])"
proof -
  have l: "l = last xs" using assms by (simp add: ring_head_prev)
  have nodes: "node h" "node l" using assms(2,3,6) l by auto
  have "ring ((nx s)(a := h, l := a)) ((pv s)(a := l, h := a)) (xs @ [a])"
    using assms l by (intro ring_snoc) auto
  then show ?thesis
    by (rule ring_eqI) (use assms nodes in \<open>auto simp: links\<close>)
qed

text \<open>A node with at least one companion is taken out.\<close>

lemma ring_remove:
  assumes "ring (nx s) (pv s) (as @ x # bs)" and "as @ bs \<noteq> []"
    and "\<forall>y \<in> set (as @ x # bs). node y" and "n = nx s x" and "p = pv s x"
  shows "ring (nx (put_nx p n (put_pv n p s))) (pv (put_nx p n (put_pv n p s))) (as @ bs)"
proof -
  have nodes: "node n" "node p"
    using ring_next_in [OF assms(1), of x] ring_prev_in [OF assms(1), of x] assms(3-5) by auto
  have "ring ((nx s)(p := n)) ((pv s)(n := p)) (as @ bs)"
    unfolding assms(4,5) using assms(1,2) by (rule ring_unlink)
  then show ?thesis
    by (rule ring_eqI) (use assms nodes in \<open>auto simp: links\<close>)
qed

text \<open>
  Node \<open>a\<close> takes the place of the head \<open>x\<close>, which has at least one companion: its
  neighbours are pointed at \<open>a\<close>, then \<open>a\<close> receives their addresses.
\<close>

lemma ring_replace:
  assumes r: "ring (nx s) (pv s) (x # ys)" and ne: "ys \<noteq> []"
    and nd: "\<forall>y \<in> set (x # ys). node y" and a: "node a" "a \<notin> set (x # ys)"
    and n: "n = nx s x" and p: "p = pv s x"
  shows "ring (nx (put_pv a p (put_nx a n (put_nx p a (put_pv n a s)))))
     (pv (put_pv a p (put_nx a n (put_nx p a (put_pv n a s))))) (a # ys)"
proof -
  have ys: "ring ((nx s)(p := n)) ((pv s)(n := p)) ys"
    unfolding n p using r ne by (rule ring_unlink_head)
  have "n = hd ys" "p = last ys"
    using r ne ring_head_prev [OF r] by (auto simp: n p ring_def linked_Cons hd_append)
  with ys ne a have "ring ((nx s)(p := n, a := n, p := a)) ((pv s)(n := p, a := p, n := a)) (ys @ [a])"
    by (intro ring_snoc) auto
  then have *: "ring ((nx s)(p := n, a := n, p := a)) ((pv s)(n := p, a := p, n := a)) (a # ys)"
    using ring_rotate by fastforce
  have "node n" "node p" "a \<noteq> n" "a \<noteq> p"
    using ne nd a \<open>n = hd ys\<close> \<open>p = last ys\<close> by auto
  then show ?thesis
    by (intro ring_eqI [OF *]) (use nd a in \<open>auto simp: links\<close>)
qed

end

end
