(* ===== verification/Kernel_Mutex.thy ===== *)
theory Kernel_Mutex
  imports C4_Prelude
begin

text \<open>
  The spin lock of \<^verbatim>\<open>src/lib/stdlib.c\<close> (\<^verbatim>\<open>mutex_get\<close>, \<^verbatim>\<open>mutex_release\<close>).  One view is
  sequential: the call as a function of the mutex word, \<open>None\<close> where it would spin for
  ever; the components that take locks use this view.  The other is concurrent: any
  number of threads whose atomic steps are the \<^verbatim>\<open>xchg\<close> instruction and the store of
  \<^verbatim>\<open>mutex_release\<close>, interleaved in any order.
\<close>

section \<open>Definitions\<close>

text \<open>\<^verbatim>\<open>xchg\<close> swaps the memory word with the register: (memory, register) afterwards.\<close>

definition xchg :: "bool \<Rightarrow> bool \<Rightarrow> bool \<times> bool" where
  "xchg mem reg = (reg, mem)"

partial_function (option) mutex_get_loop :: "bool \<Rightarrow> bool \<Rightarrow> bool \<Rightarrow> (bool \<times> bool) option" where
  "mutex_get_loop mutex old_value wait =
     (let (mutex', old') = xchg mutex old_value
      in if old' \<and> wait then mutex_get_loop mutex' old' wait else Some (mutex', \<not> old'))"

text \<open>The mutex word afterwards and the returned value.\<close>

definition mutex_get :: "bool \<Rightarrow> bool \<Rightarrow> (bool \<times> bool) option" where
  "mutex_get mutex wait = mutex_get_loop mutex True wait"

definition mutex_release :: "bool \<Rightarrow> bool" where
  "mutex_release mutex = False"

text \<open>
  Threads around one mutex: outside, inside \<^verbatim>\<open>mutex_get\<close> with the current
  \<^verbatim>\<open>old_value\<close> and the \<^verbatim>\<open>wait\<close> argument, or past it with the lock held.
\<close>

datatype spin = Outside | Spinning bool bool | Holding

record lock_sys =
  lock :: bool
  pcs :: "nat \<Rightarrow> spin"

definition lock_init :: lock_sys where
  "lock_init = \<lparr>lock = False, pcs = (\<lambda>_. Outside)\<rparr>"

inductive lock_step :: "lock_sys \<Rightarrow> lock_sys \<Rightarrow> bool" where
  call: "pcs s i = Outside \<Longrightarrow>
     lock_step s (s\<lparr>pcs := (pcs s)(i := Spinning True wait)\<rparr>)"
| acquire: "pcs s i = Spinning old wait \<Longrightarrow> xchg (lock s) old = (l, False) \<Longrightarrow>
     lock_step s (s\<lparr>lock := l, pcs := (pcs s)(i := Holding)\<rparr>)"
| retry: "pcs s i = Spinning old True \<Longrightarrow> xchg (lock s) old = (l, True) \<Longrightarrow>
     lock_step s (s\<lparr>lock := l, pcs := (pcs s)(i := Spinning True True)\<rparr>)"
| give_up: "pcs s i = Spinning old False \<Longrightarrow> xchg (lock s) old = (l, True) \<Longrightarrow>
     lock_step s (s\<lparr>lock := l, pcs := (pcs s)(i := Outside)\<rparr>)"
| release: "pcs s i = Holding \<Longrightarrow>
     lock_step s (s\<lparr>lock := mutex_release (lock s), pcs := (pcs s)(i := Outside)\<rparr>)"

inductive lock_reachable :: "lock_sys \<Rightarrow> bool" where
  start: "lock_reachable lock_init"
| step: "lock_reachable s \<Longrightarrow> lock_step s t \<Longrightarrow> lock_reachable t"

inductive_cases lock_stepE: "lock_step s t"
inductive_simps lock_reachable_simps: "lock_reachable t"

section \<open>The sequential view\<close>

lemma mutex_get_free [simp]: "mutex_get False wait = Some (True, True)"
  by (simp add: mutex_get_def mutex_get_loop.simps xchg_def)

lemma mutex_get_busy_nowait [simp]: "mutex_get True False = Some (True, False)"
  by (simp add: mutex_get_def mutex_get_loop.simps xchg_def)

lemma mutex_get_busy_wait [simp]: "mutex_get True True = None"
proof -
  have "\<not> (m \<and> v \<and> w)" if "mutex_get_loop m v w = Some r" for m v w r
  proof (rule mutex_get_loop.raw_induct [where P = "\<lambda>m v w r. \<not> (m \<and> v \<and> w)", OF _ that])
    fix f :: "bool \<Rightarrow> bool \<Rightarrow> bool \<Rightarrow> (bool \<times> bool) option" and m v w r
    assume IH: "\<And>m v w r. f m v w = Some r \<Longrightarrow> \<not> (m \<and> v \<and> w)"
      and eq: "(let (m', v') = xchg m v in if v' \<and> w then f m' v' w else Some (m', \<not> v')) = Some r"
    show "\<not> (m \<and> v \<and> w)"
      using eq IH [of True True True r] by (auto simp: xchg_def)
  qed
  then have "mutex_get_loop True True True \<noteq> Some r" for r by blast
  then show ?thesis unfolding mutex_get_def by (metis option.exhaust)
qed

lemma mutex_release_free [simp]: "mutex_release m = False"
  by (simp add: mutex_release_def)

text \<open>\<^verbatim>\<open>mutex_get\<close> takes a free mutex at once; on a held one it fails at once when it
  does not wait and never returns when it does.\<close>

theorem mutex_get_outcomes:
  "mutex_get m wait = (if \<not> m then Some (True, True) else if wait then None else Some (True, False))"
  by (cases m; cases wait) simp_all

section \<open>The concurrent view\<close>

text \<open>
  The inductive invariant: every spinning thread offers \<open>True\<close>, and the word is set
  exactly when some thread holds the lock, which is then the only one.
\<close>

definition holders :: "lock_sys \<Rightarrow> nat set" where
  "holders s = {i. pcs s i = Holding}"

definition lock_inv :: "lock_sys \<Rightarrow> bool" where
  "lock_inv s \<longleftrightarrow>
     (\<forall>i old wait. pcs s i = Spinning old wait \<longrightarrow> old) \<and>
     (if lock s then \<exists>h. holders s = {h} else holders s = {})"

lemma holders_upd [simp]:
  "holders (s\<lparr>pcs := (pcs s)(i := x)\<rparr>) =
     (if x = Holding then insert i (holders s) else holders s - {i})"
  "holders (s\<lparr>lock := l, pcs := (pcs s)(i := x)\<rparr>) =
     (if x = Holding then insert i (holders s) else holders s - {i})"
  by (auto simp: holders_def)

lemma not_holder: "pcs s i = Outside \<or> pcs s i = Spinning old wait \<Longrightarrow> holders s - {i} = holders s"
  by (auto simp: holders_def)

lemma lock_inv_init: "lock_inv lock_init"
  by (simp add: lock_inv_def lock_init_def holders_def)

lemma lock_inv_step: "lock_step s t \<Longrightarrow> lock_inv s \<Longrightarrow> lock_inv t"
proof (induction rule: lock_step.induct)
  case (call s i wait)
  then show ?case by (auto simp: lock_inv_def not_holder)
next
  case (acquire s i old wait l)
  then have "\<not> lock s" "l" by (auto simp: lock_inv_def xchg_def)
  with acquire show ?case by (auto simp: lock_inv_def)
next
  case (retry s i old l)
  then have "lock s" "l" by (auto simp: lock_inv_def xchg_def)
  with retry show ?case by (auto simp: lock_inv_def not_holder)
next
  case (give_up s i old l)
  then have "lock s" "l" by (auto simp: lock_inv_def xchg_def)
  moreover have "i \<notin> holders s" using give_up by (simp add: holders_def)
  ultimately show ?case using give_up by (auto simp: lock_inv_def)
next
  case (release s i)
  then have "i \<in> holders s" by (simp add: holders_def)
  with release show ?case by (auto simp: lock_inv_def split: if_splits)
qed

lemma lock_inv_reachable: "lock_reachable s \<Longrightarrow> lock_inv s"
  by (induction rule: lock_reachable.induct) (auto intro: lock_inv_init lock_inv_step)

text \<open>C10: in every interleaving of threads calling \<^verbatim>\<open>mutex_get\<close> and \<^verbatim>\<open>mutex_release\<close> at
  most one holds the mutex, and the mutex word is clear exactly while nobody does.\<close>

theorem mutex_exclusion:
  assumes "lock_reachable s"
  shows "(pcs s i = Holding \<and> pcs s j = Holding \<longrightarrow> i = j) \<and>
    (lock s \<longleftrightarrow> (\<exists>k. pcs s k = Holding))"
proof -
  have "if lock s then \<exists>h. holders s = {h} else holders s = {}"
    using lock_inv_reachable [OF assms] by (simp add: lock_inv_def)
  then have "(lock s \<longrightarrow> (\<exists>h. \<forall>k. (pcs s k = Holding) = (k = h))) \<and>
      (\<not> lock s \<longrightarrow> (\<forall>k. pcs s k \<noteq> Holding))"
    by (auto simp: holders_def set_eq_iff split: if_splits)
  then show ?thesis by (cases "lock s") auto
qed

text \<open>A waiting thread is never shut out of a free mutex: in a reachable state with
  the word clear, the next exchange of a spinning thread enters the critical section.\<close>

theorem mutex_no_lost_wakeup:
  assumes "lock_reachable s" and "\<not> lock s" and "pcs s i = Spinning old wait"
  shows "lock_step s (s\<lparr>lock := True, pcs := (pcs s)(i := Holding)\<rparr>)"
proof -
  have "old" using lock_inv_reachable [OF assms(1)] assms(3) unfolding lock_inv_def by blast
  with assms(2) have "xchg (lock s) old = (True, False)" by (simp add: xchg_def)
  then show ?thesis using assms(3) by (rule lock_step.acquire [rotated])
qed

section \<open>Instances\<close>

lemma reach_one_spinning:
  "lock_reachable \<lparr>lock = False, pcs = (\<lambda>_. Outside)(0 := Spinning True True)\<rparr>"
proof -
  have "lock_step lock_init (lock_init\<lparr>pcs := (pcs lock_init)(0 := Spinning True True)\<rparr>)"
    by (rule lock_step.call) (simp add: lock_init_def)
  then show ?thesis using lock_reachable.step [OF lock_reachable.start] by (simp add: lock_init_def)
qed

lemma reach_one_holding:
  "lock_reachable \<lparr>lock = True, pcs = (\<lambda>_. Outside)(0 := Holding)\<rparr>"
proof -
  let ?s = "\<lparr>lock = False, pcs = (\<lambda>_. Outside)(0 := Spinning True True)\<rparr>"
  have "lock_step ?s (?s\<lparr>lock := True, pcs := (pcs ?s)(0 := Holding)\<rparr>)"
    by (rule lock_step.acquire [of _ _ True True]) (simp_all add: xchg_def)
  then show ?thesis using lock_reachable.step [OF reach_one_spinning] by simp
qed

lemma mutex_exclusion_witness:
  "lock_reachable \<lparr>lock = True, pcs = (\<lambda>_. Outside)(0 := Holding)\<rparr> \<and>
   (lock \<lparr>lock = True, pcs = (\<lambda>_. Outside)(0 := Holding)\<rparr> \<longleftrightarrow>
     (\<exists>k. pcs \<lparr>lock = True, pcs = (\<lambda>_. Outside)(0 := Holding)\<rparr> k = Holding))"
  using reach_one_holding mutex_exclusion [OF reach_one_holding, of 0 0] by blast

lemma mutex_no_lost_wakeup_witness:
  "lock_step \<lparr>lock = False, pcs = (\<lambda>_. Outside)(0 := Spinning True True)\<rparr>
     \<lparr>lock = True, pcs = (\<lambda>_. Outside)(0 := Holding)\<rparr>"
  using mutex_no_lost_wakeup [OF reach_one_spinning, of 0 True True] by simp

end
