(* ===== verification/Phys_Memory.thy ===== *)
theory Phys_Memory
  imports Ring_Store Kernel_Mutex
begin

text \<open>
  The physical page allocator of \<^verbatim>\<open>src/kernel/memory_manager.c\<close>: the free list of
  \<^verbatim>\<open>PhysMemoryBlock\<close> headers kept in the first page of each free block, read and
  written through the temporary mapping \<^verbatim>\<open>TEMP_PAGE\<close>.

  Physical memory is a function from page frames (their base address) to doublewords
  by index; every access the allocator makes is an aligned doubleword.  The page
  table entry behind \<^verbatim>\<open>TEMP_PAGE\<close> (the doubleword at \<^verbatim>\<open>TEMP_PAGE_INFO\<close>) is the field
  \<open>temp_pte\<close>: what \<^verbatim>\<open>TEMP_PAGE\<close> shows is the frame it points at, as the processor
  sees it once \<^verbatim>\<open>invlpg\<close> has dropped the old translation.
\<close>

section \<open>Definitions\<close>

record phys_mem =
  ram :: "u32 \<Rightarrow> nat \<Rightarrow> u32"
  temp_pte :: u32
  free_page_count :: u32
  free_ptr :: u32
  phys_mutex :: bool

abbreviation (input) PAGE_SIZE :: u32 where "PAGE_SIZE \<equiv> 0x1000"
abbreviation (input) PAGE_OFFSET_BITS :: nat where "PAGE_OFFSET_BITS \<equiv> 12"
abbreviation (input) PAGE_PRESENT :: u32 where "PAGE_PRESENT \<equiv> 1"
abbreviation (input) PAGE_WRITABLE :: u32 where "PAGE_WRITABLE \<equiv> 2"

definition page_of :: "u32 \<Rightarrow> u32" where
  "page_of addr = addr AND NOT 0xFFF"

definition temp_map_page :: "u32 \<Rightarrow> phys_mem \<Rightarrow> phys_mem" where
  "temp_map_page addr s =
     s\<lparr>temp_pte := (addr AND NOT 0xFFF) OR PAGE_PRESENT OR PAGE_WRITABLE\<rparr>"

text \<open>Doubleword \<open>i\<close> of \<^verbatim>\<open>TEMP_PAGE\<close>.\<close>

definition temp_rd :: "nat \<Rightarrow> phys_mem \<Rightarrow> u32" where
  "temp_rd i s = ram s (page_of (temp_pte s)) i"

definition temp_wr :: "nat \<Rightarrow> u32 \<Rightarrow> phys_mem \<Rightarrow> phys_mem" where
  "temp_wr i v s = s\<lparr>ram := (ram s)(page_of (temp_pte s) :=
     (ram s (page_of (temp_pte s)))(i := v))\<rparr>"

text \<open>The fields of \<^verbatim>\<open>PhysMemoryBlock\<close> as doubleword offsets.\<close>

abbreviation (input) PB_NEXT :: nat where "PB_NEXT \<equiv> 0"
abbreviation (input) PB_PREV :: nat where "PB_PREV \<equiv> 1"
abbreviation (input) PB_SIZE :: nat where "PB_SIZE \<equiv> 2"

definition get_free_memory_size :: "phys_mem \<Rightarrow> u32" where
  "get_free_memory_size s = push_bit PAGE_OFFSET_BITS (free_page_count s)"

definition lock_phys :: "phys_mem \<Rightarrow> phys_mem option" where
  "lock_phys s = map_option (\<lambda>(m, ok). s\<lparr>phys_mutex := m\<rparr>) (mutex_get (phys_mutex s) True)"

definition unlock_phys :: "phys_mem \<Rightarrow> phys_mem" where
  "unlock_phys s = s\<lparr>phys_mutex := mutex_release (phys_mutex s)\<rparr>"

subsection \<open>Allocation\<close>

text \<open>
  The \<^verbatim>\<open>do\<close> loop over the ring from \<open>cur\<close>: the chosen address (\<open>-1\<close> where no block is
  large enough) and the memory afterwards.
\<close>

partial_function (option) alloc_scan :: "u32 \<Rightarrow> u32 \<Rightarrow> phys_mem \<Rightarrow> (u32 \<times> phys_mem) option" where
  "alloc_scan count cur s0 =
     (let s = temp_map_page cur s0
      in if temp_rd PB_SIZE s = count then
           (let nxt = temp_rd PB_NEXT s;
                prv = temp_rd PB_PREV s;
                s = temp_wr PB_PREV prv (temp_map_page nxt s);
                s = temp_wr PB_NEXT nxt (temp_map_page prv s)
            in Some (cur, if cur = free_ptr s then
                            (let s = s\<lparr>free_ptr := nxt\<rparr>
                             in if cur = free_ptr s then s\<lparr>free_ptr := - 1\<rparr> else s)
                          else s))
         else if count < temp_rd PB_SIZE s then
           (let s = temp_wr PB_SIZE (temp_rd PB_SIZE s - count) s
            in Some (cur + push_bit PAGE_OFFSET_BITS (temp_rd PB_SIZE s), s))
         else if temp_rd PB_NEXT s \<noteq> free_ptr s then alloc_scan count (temp_rd PB_NEXT s) s
         else Some (- 1, s))"

definition alloc_phys_pages :: "u32 \<Rightarrow> phys_mem \<Rightarrow> (u32 \<times> phys_mem) option" where
  "alloc_phys_pages count s =
     (if free_page_count s < count then Some (- 1, s)
      else do {
        s \<leftarrow> lock_phys s;
        (result, s) \<leftarrow>
          (if free_ptr s \<noteq> - 1 then do {
             (result, s) \<leftarrow> alloc_scan count (free_ptr s) s;
             Some (result, if result \<noteq> - 1
                           then s\<lparr>free_page_count := free_page_count s - count\<rparr> else s)
           } else Some (- 1, s));
        Some (result, unlock_phys s)
      })"

subsection \<open>Freeing\<close>

partial_function (option) free_scan :: "u32 \<Rightarrow> u32 \<Rightarrow> u32 \<Rightarrow> phys_mem \<Rightarrow> phys_mem option" where
  "free_scan base count cur s0 =
     (let s = temp_map_page cur s0
      in if cur + push_bit PAGE_OFFSET_BITS (temp_rd PB_SIZE s) = base then
           (let s = temp_wr PB_SIZE (temp_rd PB_SIZE s + count) s
            in Some (if temp_rd PB_NEXT s = base + push_bit PAGE_OFFSET_BITS count then
                       (let next1 = temp_rd PB_NEXT s;
                            s = temp_map_page next1 s;
                            next2 = temp_rd PB_NEXT s;
                            new_count = temp_rd PB_SIZE s;
                            s = temp_wr PB_PREV cur (temp_map_page next2 s);
                            s = temp_wr PB_NEXT next2 (temp_map_page cur s)
                        in temp_wr PB_SIZE (temp_rd PB_SIZE s + new_count) s)
                     else s))
         else if base + push_bit PAGE_OFFSET_BITS count = cur then
           (let old_count = temp_rd PB_SIZE s;
                nxt = temp_rd PB_NEXT s;
                prv = temp_rd PB_PREV s;
                s = temp_wr PB_PREV base (temp_map_page nxt s);
                s = temp_wr PB_NEXT base (temp_map_page prv s);
                s = temp_wr PB_NEXT nxt (temp_map_page base s);
                s = temp_wr PB_PREV prv s
            in Some (temp_wr PB_SIZE (count + old_count) s))
         else if base < cur \<or> temp_rd PB_NEXT s = free_ptr s then
           (let prv = temp_rd PB_NEXT s;
                s = temp_wr PB_PREV base s;
                s = temp_wr PB_NEXT base (temp_map_page prv s);
                s = temp_wr PB_NEXT cur (temp_map_page base s);
                s = temp_wr PB_PREV prv s
            in Some (temp_wr PB_SIZE count s))
         else if temp_rd PB_NEXT s \<noteq> free_ptr s then free_scan base count (temp_rd PB_NEXT s) s
         else Some s)"

definition free_phys_pages :: "u32 \<Rightarrow> u32 \<Rightarrow> phys_mem \<Rightarrow> phys_mem option" where
  "free_phys_pages base count s = do {
     s \<leftarrow> lock_phys s;
     s \<leftarrow> (if free_ptr s = - 1 then
            (let s = temp_wr PB_NEXT base (temp_map_page base s);
                 s = temp_wr PB_PREV base s;
                 s = temp_wr PB_SIZE count s
             in Some (s\<lparr>free_ptr := base\<rparr>))
          else do {
            s \<leftarrow> free_scan base count (free_ptr s) s;
            Some (if base < free_ptr s then s\<lparr>free_ptr := base\<rparr> else s)
          });
     Some (unlock_phys (s\<lparr>free_page_count := free_page_count s + count\<rparr>))
   }"

section \<open>Frames\<close>

lemma page_of_idem [simp]: "page_of (page_of a) = page_of a"
  by (simp add: page_of_def and.assoc)

lemma page_of_flags:
  assumes "f AND NOT 0xFFF = 0"
  shows "page_of (page_of a OR f) = page_of a"
  using assms by (simp add: page_of_def bit.conj_disj_distrib2 and.assoc)

lemma page_of_temp [simp]: "page_of (temp_pte (temp_map_page a s)) = page_of a"
proof -
  have "page_of (page_of a OR (1 OR 2)) = page_of a"
    by (rule page_of_flags) simp
  then show ?thesis by (simp add: temp_map_page_def page_of_def or.assoc)
qed

lemma temp_map_fields [simp]:
  "ram (temp_map_page a s) = ram s" "free_ptr (temp_map_page a s) = free_ptr s"
  "free_page_count (temp_map_page a s) = free_page_count s"
  "phys_mutex (temp_map_page a s) = phys_mutex s"
  by (simp_all add: temp_map_page_def)

lemma temp_map_again [simp]: "temp_map_page a (temp_map_page b s) = temp_map_page a s"
  by (simp add: temp_map_page_def)

lemma temp_wr_fields [simp]:
  "temp_pte (temp_wr i v s) = temp_pte s" "free_ptr (temp_wr i v s) = free_ptr s"
  "free_page_count (temp_wr i v s) = free_page_count s"
  "phys_mutex (temp_wr i v s) = phys_mutex s"
  "ram (temp_wr i v s) = (ram s)(page_of (temp_pte s) := (ram s (page_of (temp_pte s)))(i := v))"
  by (simp_all add: temp_wr_def)

lemma temp_rd_ram: "temp_rd i s = ram s (page_of (temp_pte s)) i"
  by (simp add: temp_rd_def)

section \<open>The block headers provide the link interface\<close>

definition blk_next :: "phys_mem \<Rightarrow> u32 \<Rightarrow> u32" where
  "blk_next s b = ram s (page_of b) PB_NEXT"

definition blk_prev :: "phys_mem \<Rightarrow> u32 \<Rightarrow> u32" where
  "blk_prev s b = ram s (page_of b) PB_PREV"

definition blk_size :: "phys_mem \<Rightarrow> u32 \<Rightarrow> u32" where
  "blk_size s b = ram s (page_of b) PB_SIZE"

text \<open>Writing one header field: map the block's page, then store.\<close>

definition put_next :: "u32 \<Rightarrow> u32 \<Rightarrow> phys_mem \<Rightarrow> phys_mem" where
  "put_next b v s = temp_wr PB_NEXT v (temp_map_page b s)"

definition put_prev :: "u32 \<Rightarrow> u32 \<Rightarrow> phys_mem \<Rightarrow> phys_mem" where
  "put_prev b v s = temp_wr PB_PREV v (temp_map_page b s)"

definition put_size :: "u32 \<Rightarrow> u32 \<Rightarrow> phys_mem \<Rightarrow> phys_mem" where
  "put_size b v s = temp_wr PB_SIZE v (temp_map_page b s)"

lemmas blk_defs = blk_next_def blk_prev_def blk_size_def put_next_def put_prev_def put_size_def

definition aligned :: "u32 \<Rightarrow> bool" where
  "aligned a \<longleftrightarrow> page_of a = a"

interpretation blk_ring: dlist_store blk_next blk_prev put_next put_prev aligned
  by unfold_locales (auto simp: blk_defs aligned_def)

lemma blk_size_put [simp]:
  "blk_size (put_next b v s) c = blk_size s c" "blk_size (put_prev b v s) c = blk_size s c"
  "aligned b \<Longrightarrow> aligned c \<Longrightarrow> blk_size (put_size b v s) c = (if c = b then v else blk_size s c)"
  by (auto simp: blk_defs aligned_def)

lemma blk_link_put_size [simp]:
  "blk_next (put_size b v s) = blk_next s" "blk_prev (put_size b v s) = blk_prev s"
  by (auto simp: blk_defs fun_eq_iff)

lemma put_fields [simp]:
  "free_ptr (put_next b v s) = free_ptr s" "free_ptr (put_prev b v s) = free_ptr s"
  "free_ptr (put_size b v s) = free_ptr s"
  "free_page_count (put_next b v s) = free_page_count s"
  "free_page_count (put_prev b v s) = free_page_count s"
  "free_page_count (put_size b v s) = free_page_count s"
  "phys_mutex (put_next b v s) = phys_mutex s" "phys_mutex (put_prev b v s) = phys_mutex s"
  "phys_mutex (put_size b v s) = phys_mutex s"
  by (simp_all add: blk_defs)

lemma ram_put:
  "p \<noteq> page_of b \<Longrightarrow> ram (put_next b v s) p = ram s p"
  "p \<noteq> page_of b \<Longrightarrow> ram (put_prev b v s) p = ram s p"
  "p \<noteq> page_of b \<Longrightarrow> ram (put_size b v s) p = ram s p"
  by (simp_all add: blk_defs)

lemma ram_unlink:
  "aligned n \<Longrightarrow> aligned p \<Longrightarrow> q \<noteq> n \<Longrightarrow> q \<noteq> p \<Longrightarrow> ram (put_next p v (put_prev n w s)) q = ram s q"
  by (simp add: ram_put aligned_def)

lemma blk_fields [simp]:
  "blk_next (temp_map_page a s) = blk_next s" "blk_prev (temp_map_page a s) = blk_prev s"
  "blk_size (temp_map_page a s) = blk_size s"
  "blk_next (s\<lparr>free_ptr := q\<rparr>) = blk_next s" "blk_prev (s\<lparr>free_ptr := q\<rparr>) = blk_prev s"
  "blk_size (s\<lparr>free_ptr := q\<rparr>) = blk_size s"
  "blk_next (s\<lparr>free_page_count := n\<rparr>) = blk_next s" "blk_prev (s\<lparr>free_page_count := n\<rparr>) = blk_prev s"
  "blk_size (s\<lparr>free_page_count := n\<rparr>) = blk_size s"
  "blk_next (s\<lparr>phys_mutex := m\<rparr>) = blk_next s" "blk_prev (s\<lparr>phys_mutex := m\<rparr>) = blk_prev s"
  "blk_size (s\<lparr>phys_mutex := m\<rparr>) = blk_size s"
  by (auto simp: blk_defs fun_eq_iff)

section \<open>The free list as a list of blocks\<close>

text \<open>
  A block is its base address and its length in pages; \<open>pages\<close> are the page numbers it
  covers.  \<open>chain_of s bs\<close> says that the ring of headers in memory is the list \<open>bs\<close>
  from \<^verbatim>\<open>free_phys_memory_pointer\<close> on; \<open>free_list s bs\<close> adds what holds between calls.
\<close>

type_synonym block = "u32 \<times> u32"

definition pages :: "block \<Rightarrow> nat set" where
  "pages b = {unat (fst b) div 4096 ..< unat (fst b) div 4096 + unat (snd b)}"

definition block_ok :: "phys_mem \<Rightarrow> block \<Rightarrow> bool" where
  "block_ok s b \<longleftrightarrow> aligned (fst b) \<and> snd b \<noteq> 0 \<and>
     unat (fst b) + 4096 * unat (snd b) \<le> 2 ^ 32 \<and> blk_size s (fst b) = snd b"

definition apart :: "block \<Rightarrow> block \<Rightarrow> bool" where
  "apart a b \<longleftrightarrow> pages a \<inter> pages b = {}"

definition chain_of :: "phys_mem \<Rightarrow> block list \<Rightarrow> bool" where
  "chain_of s bs \<longleftrightarrow>
     (\<forall>b \<in> set bs. block_ok s b) \<and>
     sorted_wrt apart bs \<and>
     ring (blk_next s) (blk_prev s) (map fst bs) \<and>
     free_ptr s = (if bs = [] then - 1 else fst (hd bs))"

definition free_list :: "phys_mem \<Rightarrow> block list \<Rightarrow> bool" where
  "free_list s bs \<longleftrightarrow>
     \<not> phys_mutex s \<and> chain_of s bs \<and>
     unat (free_page_count s) = (\<Sum>b \<leftarrow> bs. unat (snd b))"

text \<open>What allocation does to the list: the first block that is large enough gives its
  last \<open>count\<close> pages, or goes as a whole.\<close>

fun take_block :: "u32 \<Rightarrow> block list \<Rightarrow> (u32 \<times> block list) option" where
  "take_block count [] = None"
| "take_block count ((b, n) # bs) =
     (if n = count then Some (b, bs)
      else if count < n then Some (b + push_bit 12 (n - count), (b, n - count) # bs)
      else map_option (\<lambda>(r, bs'). (r, (b, n) # bs')) (take_block count bs))"

subsection \<open>Aligned addresses\<close>

lemma aligned_iff: "aligned a \<longleftrightarrow> unat a mod 4096 = 0"
proof -
  have "unat (a AND 0xFFF) = unat a mod 4096"
  proof -
    have "a AND 0xFFF = take_bit 12 a" by (simp add: take_bit_eq_mask mask_eq_exp_minus_1)
    then show ?thesis by (simp add: take_bit_eq_mod unat_mod)
  qed
  moreover have "page_of a = a \<longleftrightarrow> a AND 0xFFF = 0"
  proof -
    have "page_of a AND (a AND 0xFFF) = 0" and "page_of a OR (a AND 0xFFF) = a"
      unfolding page_of_def by (rule bit_word_eqI; auto simp: bit_simps)+
    then have "a = page_of a + (a AND 0xFFF)"
      using disjunctive_add_eq_or by metis
    then show ?thesis by (metis add_cancel_right_right)
  qed
  ultimately show ?thesis unfolding aligned_def by (metis unat_eq_zero)
qed

lemma aligned_neq_minus1: "aligned a \<Longrightarrow> a \<noteq> - 1"
proof
  assume "aligned a" and "a = - 1"
  then show False by (simp add: aligned_def page_of_def)
qed

lemma aligned_page_of [simp]: "aligned (page_of a)"
  by (simp add: aligned_def)

lemma unat_pages: "4096 * unat (n :: u32) < 2 ^ 32 \<Longrightarrow> unat (push_bit 12 n :: u32) = 4096 * unat n"
  using unat_mult_lem [of n "4096 :: u32"] by (simp add: push_bit_eq_mult mult.commute)

lemma aligned_add: "aligned a \<Longrightarrow> aligned (a + push_bit 12 (n :: u32))"
proof -
  assume a: "aligned a"
  have "unat (a + push_bit 12 n) = (unat a + 4096 * unat n mod 2 ^ 32) mod 2 ^ 32"
    by (simp add: unat_word_ariths push_bit_eq_mult mult.commute)
  also have "\<dots> mod 4096 = (unat a + 4096 * unat n) mod 4096"
    by (simp add: mod_mod_cancel mod_add_right_eq)
  finally show ?thesis using a by (simp add: aligned_iff)
qed

lemma unat_block_offset:
  fixes b n :: u32
  assumes "unat b + 4096 * unat n < 2 ^ 32"
  shows "unat (b + push_bit 12 n) = unat b + 4096 * unat n"
  using assms unat_pages [of n] unat_add_lem [of b "push_bit 12 n"] by simp

lemma pages_nonempty: "snd b \<noteq> 0 \<Longrightarrow> unat (fst b) div 4096 \<in> pages b"
  by (auto simp: pages_def unat_eq_zero simp flip: neq0_conv)

lemma apart_neq: "apart a b \<Longrightarrow> snd a \<noteq> 0 \<Longrightarrow> snd b \<noteq> 0 \<Longrightarrow> fst a \<noteq> fst b"
  using pages_nonempty [of a] pages_nonempty [of b] by (auto simp: apart_def)

text \<open>The two parts of a split block.\<close>

lemma split_block:
  assumes ok: "block_ok s (b, n)" and c: "count < n"
  shows "pages (b + push_bit 12 (n - count), count) \<subseteq> pages (b, n)"
    and "pages (b, n - count) \<subseteq> pages (b, n)"
    and "apart (b + push_bit 12 (n - count), count) (b, n - count)"
proof -
  have k: "unat (n - count) = unat n - unat count" and le: "unat count < unat n"
    using c by (simp_all add: unat_sub word_le_nat_alt word_less_nat_alt)
  have "pages (b + push_bit 12 (n - count), count) =
      {unat b div 4096 + (unat n - unat count) ..< unat b div 4096 + unat n}"
  proof (cases "unat count = 0")
    case True
    then show ?thesis by (simp add: pages_def)
  next
    case False
    then have "unat (b + push_bit 12 (n - count)) = unat b + 4096 * (unat n - unat count)"
      using ok le k by (subst unat_block_offset) (auto simp: block_ok_def)
    then show ?thesis using le by (simp add: pages_def) (simp add: add.commute)
  qed
  then show "pages (b + push_bit 12 (n - count), count) \<subseteq> pages (b, n)"
    and "apart (b + push_bit 12 (n - count), count) (b, n - count)"
    using k by (auto simp: pages_def apart_def)
  show "pages (b, n - count) \<subseteq> pages (b, n)" using k le by (auto simp: pages_def)
qed

section \<open>Allocation refines the block list\<close>

text \<open>Replacing a block by a part of itself, or dropping it, keeps blocks apart.\<close>

lemma apart_shrink:
  "sorted_wrt apart (xs @ b # ys) \<Longrightarrow> pages b' \<subseteq> pages b \<Longrightarrow> sorted_wrt apart (xs @ b' # ys)"
  "sorted_wrt apart (xs @ b # ys) \<Longrightarrow> sorted_wrt apart (xs @ ys)"
  by (auto simp: sorted_wrt_append apart_def)

text \<open>
  One round of the scan, at a block of the list.  The three branches of the loop body
  in terms of header updates.
\<close>

lemma alloc_scan_round:
  assumes "aligned cur"
  shows "alloc_scan count cur s =
    (let n = blk_size s cur; nxt = blk_next s cur; prv = blk_prev s cur
     in if n = count then
          (let s' = put_next prv nxt (put_prev nxt prv s)
           in Some (cur, if cur = free_ptr s then s'\<lparr>free_ptr := (if nxt = cur then - 1 else nxt)\<rparr> else s'))
        else if count < n then
          Some (cur + push_bit 12 (n - count), put_size cur (n - count) s)
        else if nxt \<noteq> free_ptr s then alloc_scan count nxt (temp_map_page cur s)
        else Some (- 1, temp_map_page cur s))"
  using assms by (subst alloc_scan.simps)
    (simp add: Let_def temp_rd_ram blk_defs aligned_def)

lemma chain_of_fields [simp]:
  "chain_of (s\<lparr>phys_mutex := m\<rparr>) bs = chain_of s bs"
  "chain_of (s\<lparr>free_page_count := n\<rparr>) bs = chain_of s bs"
  "chain_of (temp_map_page a s) bs = chain_of s bs"
  by (auto simp: chain_of_def block_ok_def)

lemma chain_of_nodes:
  "chain_of s bs \<Longrightarrow> \<forall>a \<in> set (map fst bs). aligned a"
  by (auto simp: chain_of_def block_ok_def)

lemma chain_unlink:
  assumes ch: "chain_of s (xs @ (b, n) # ys)"
    and nxt: "nxt = blk_next s b" and prv: "prv = blk_prev s b"
  defines "s' \<equiv> put_next prv nxt (put_prev nxt prv s)"
  shows "chain_of (if b = free_ptr s then s'\<lparr>free_ptr := (if nxt = b then - 1 else nxt)\<rparr> else s')
    (xs @ ys)"
proof -
  let ?f = "map fst :: block list \<Rightarrow> u32 list"
  have r: "ring (blk_next s) (blk_prev s) (?f xs @ b # ?f ys)"
    and ok: "\<forall>x \<in> set (xs @ (b, n) # ys). block_ok s x"
    and ap: "sorted_wrt apart (xs @ (b, n) # ys)"
    and fp: "free_ptr s = fst (hd (xs @ [(b, n)]))"
    using ch by (auto simp: chain_of_def hd_append)
  have nodes: "\<forall>a \<in> set (?f xs @ b # ?f ys). aligned a" using ch chain_of_nodes by fastforce
  have "ring (blk_next s') (blk_prev s') (?f xs @ ?f ys)"
    unfolding s'_def using blk_ring.ring_remove [OF r _ nodes nxt prv]
    by (cases "?f xs @ ?f ys = []") (auto simp: ring_def)
  moreover have "nxt = hd (?f ys @ ?f xs @ [b])" using ring_split_next [OF r] nxt by simp
  moreover have "b \<notin> set (?f xs)" "b \<notin> set (?f ys)" using ring_distinct [OF r] by auto
  moreover have "free_ptr s' = free_ptr s" "blk_size s' = blk_size s"
    by (auto simp: s'_def fun_eq_iff)
  ultimately show ?thesis
    using ok fp apart_shrink(2) [OF ap]
    by (cases xs; cases ys) (auto simp: chain_of_def block_ok_def)
qed

lemma chain_split:
  assumes ch: "chain_of s (xs @ (b, n) # ys)" and c: "count < n"
  shows "chain_of (put_size b (n - count) s) (xs @ (b, n - count) # ys)"
proof -
  have ok: "block_ok s (b, n)" and ap: "sorted_wrt apart (xs @ (b, n) # ys)"
    using ch by (auto simp: chain_of_def)
  have "distinct (map fst (xs @ (b, n) # ys))" using ch by (simp add: chain_of_def ring_def)
  then have b: "aligned b" "b \<notin> fst ` set xs" "b \<notin> fst ` set ys"
    using ok by (auto simp: block_ok_def)
  have k: "unat (n - count) = unat n - unat count"
    using c by (simp add: unat_sub word_le_nat_alt word_less_nat_alt)
  have "block_ok (put_size b (n - count) s) (b, n - count)"
    using ok c k by (auto simp: block_ok_def)
  moreover have "block_ok (put_size b (n - count) s) x" if "x \<in> set xs \<union> set ys" for x
  proof -
    have "block_ok s x" "fst x \<noteq> b" using that ch b by (auto simp: chain_of_def)
    then show ?thesis using b by (simp add: block_ok_def)
  qed
  ultimately show ?thesis
    using ch apart_shrink(1) [OF ap split_block(2) [OF ok c]]
    by (auto simp: chain_of_def hd_append)
qed

text \<open>
  The whole scan: it returns, finds what \<open>take_block\<close> finds in the blocks from the
  current one on, and writes only to headers of the list.
\<close>

definition taken :: "u32 \<Rightarrow> block list \<Rightarrow> block list \<Rightarrow> u32 \<times> block list" where
  "taken count xs ys = (case take_block count ys of None \<Rightarrow> (- 1, xs @ ys)
     | Some (r, ys') \<Rightarrow> (r, xs @ ys'))"

lemma taken_simps:
  "taken count xs [] = (- 1, xs)"
  "taken count xs ((b, n) # ys) =
     (if n = count then (b, xs @ ys)
      else if count < n then (b + push_bit 12 (n - count), xs @ (b, n - count) # ys)
      else taken count (xs @ [(b, n)]) ys)"
  by (auto simp: taken_def split: option.splits)

lemma alloc_scan_refines:
  assumes "chain_of s (xs @ ys)" and "ys \<noteq> []" and "taken count xs ys = (r, bs')"
  shows "\<exists>s'. alloc_scan count (fst (hd ys)) s = Some (r, s') \<and> chain_of s' bs' \<and>
    free_page_count s' = free_page_count s \<and> phys_mutex s' = phys_mutex s \<and>
    (\<forall>p. p \<notin> fst ` set (xs @ ys) \<longrightarrow> ram s' p = ram s p)"
  using assms
proof (induction ys arbitrary: xs s)
  case Nil
  then show ?case by simp
next
  case (Cons y ys)
  obtain b n where y: "y = (b, n)" by (cases y)
  let ?f = "map fst :: block list \<Rightarrow> u32 list"
  have ch: "chain_of s (xs @ (b, n) # ys)" using Cons.prems(1) y by simp
  then have r: "ring (blk_next s) (blk_prev s) (?f xs @ b # ?f ys)" and bok: "block_ok s (b, n)"
    and fp: "free_ptr s = hd (?f xs @ [b])"
    by (auto simp: chain_of_def hd_append hd_map)
  have b: "aligned b" "blk_size s b = n" using bok by (auto simp: block_ok_def)
  have nxt: "blk_next s b = hd (?f ys @ ?f xs @ [b])" using ring_split_next [OF r] .
  note round = alloc_scan_round [OF b(1), of count s, unfolded b(2) Let_def]
  consider (exact) "n = count" | (split) "count < n" | (next_block) "n < count" by fastforce
  then show ?case
  proof cases
    case exact
    let ?s = "put_next (blk_prev s b) (blk_next s b) (put_prev (blk_next s b) (blk_prev s b) s)"
    have "blk_next s b \<in> set (?f (xs @ y # ys))" "blk_prev s b \<in> set (?f (xs @ y # ys))"
      using ring_next_in [OF r] ring_prev_in [OF r] y by simp_all
    then have "ram ?s p = ram s p" if "p \<notin> set (?f (xs @ y # ys))" for p
      using that chain_of_nodes [OF Cons.prems(1)] by (intro ram_unlink) auto
    moreover have "r = b" "bs' = xs @ ys"
      using Cons.prems(3) y exact by (auto simp: taken_simps)
    moreover have "alloc_scan count b s = Some (b, if b = free_ptr s
        then ?s\<lparr>free_ptr := (if blk_next s b = b then - 1 else blk_next s b)\<rparr> else ?s)"
      using exact by (simp add: round)
    ultimately show ?thesis
      using chain_unlink [OF ch refl refl] y by auto
  next
    case split
    then show ?thesis
      using Cons.prems(3) chain_split [OF ch split] y b(1)
      by (auto simp: round taken_simps ram_put aligned_def)
  next
    case next_block
    then have k: "n \<noteq> count" "\<not> count < n" by auto
    then have t: "taken count (xs @ [y]) ys = (r, bs')"
      using Cons.prems(3) y by (simp add: taken_simps)
    have ch': "chain_of (temp_map_page b s) ((xs @ [y]) @ ys)" using ch y by simp
    show ?thesis
    proof (cases "ys = []")
      case True
      then show ?thesis
        using t ch' next_block nxt fp y by (auto simp: round taken_simps)
    next
      case False
      then have "blk_next s b = fst (hd ys)" using nxt by (simp add: hd_append hd_map)
      moreover have "fst (hd ys) \<noteq> free_ptr s"
      proof -
        have "fst (hd ys) \<in> set (?f ys)" using False by simp
        moreover have "free_ptr s \<in> set (?f xs @ [b])" unfolding fp by (rule hd_in_set) simp
        moreover have "set (?f xs @ [b]) \<inter> set (?f ys) = {}" using ring_distinct [OF r] by auto
        ultimately show ?thesis by (rule disjoint_neq)
      qed
      ultimately have "alloc_scan count (fst (hd (y # ys))) s =
          alloc_scan count (fst (hd ys)) (temp_map_page b s)"
        using next_block y by (auto simp: round)
      then show ?thesis using Cons.IH [OF ch' False t] by simp
    qed
  qed
qed

text \<open>Only the three doublewords of headers are ever written.\<close>

lemma high_wr:
  assumes "3 \<le> i" shows "j < 3 \<Longrightarrow> ram (temp_wr j v s) p i = ram s p i"
  using assms by simp

lemma alloc_scan_high:
  assumes "alloc_scan count cur s = Some (r, t)" and i: "3 \<le> i"
  shows "ram t p i = ram s p i"
proof -
  have "ram (snd x) p i = ram s p i" if "alloc_scan count cur s = Some x" for count cur s x
  proof (rule alloc_scan.raw_induct [where P = "\<lambda>count cur s x. ram (snd x) p i = ram s p i",
        OF _ that], goal_cases step)
    case (step f count cur s x)
    let ?s = "temp_map_page cur s"
    let ?n = "temp_rd 0 ?s"
    define u where "u = temp_wr 0 ?n (temp_map_page (temp_rd 1 ?s)
      (temp_wr 1 (temp_rd 1 ?s) (temp_map_page ?n ?s)))"
    define v where "v = temp_wr 2 (temp_rd 2 ?s - count) ?s"
    have u: "ram u p i = ram s p i" and v: "ram v p i = ram s p i"
      unfolding u_def v_def by (simp_all add: high_wr [OF i] del: temp_wr_fields(5))
    have s: "ram ?s = ram s" by simp
    from step(2) show ?case
      unfolding Let_def u_def [symmetric] v_def [symmetric]
      using step(1) [of count ?n ?s x] u v s
      by (auto simp del: temp_wr_fields temp_map_fields split: if_splits)
  qed
  from this [OF assms(1)] show ?thesis by simp
qed

lemma alloc_phys_high:
  assumes "alloc_phys_pages count s = Some (r, t)" and i: "3 \<le> i"
  shows "ram t p i = ram s p i"
proof (cases "free_page_count s < count")
  case True
  then show ?thesis using assms(1) by (simp add: alloc_phys_pages_def)
next
  case False
  then obtain u where u: "lock_phys s = Some u" and
    b: "(if free_ptr u \<noteq> - 1 then do {
         (result, v) \<leftarrow> alloc_scan count (free_ptr u) u;
         Some (result, if result \<noteq> - 1 then v\<lparr>free_page_count := free_page_count v - count\<rparr> else v)
       } else Some (- 1, u)) \<bind> (\<lambda>(result, v). Some (result, unlock_phys v)) = Some (r, t)"
    using assms(1) by (auto simp: alloc_phys_pages_def split: Option.bind_splits)
  have su: "ram u = ram s" using u by (auto simp: lock_phys_def)
  show ?thesis
  proof (cases "free_ptr u = - 1")
    case True
    then show ?thesis using b su by (auto simp: unlock_phys_def)
  next
    case False
    then obtain v where v: "alloc_scan count (free_ptr u) u = Some (r, v)" "ram t = ram v"
      using b by (auto simp: unlock_phys_def split: Option.bind_splits)
    then show ?thesis using alloc_scan_high [OF v(1) i] su by simp
  qed
qed

lemma lock_phys_free: "\<not> phys_mutex s \<Longrightarrow> lock_phys s = Some (s\<lparr>phys_mutex := True\<rparr>)"
  by (simp add: lock_phys_def)

lemma take_block_None: "take_block count bs = None \<Longrightarrow> b \<in> set bs \<Longrightarrow> snd b < count"
  by (induction bs) (auto split: if_splits option.splits)

lemma take_block_Some:
  "take_block count bs = Some (r, bs') \<Longrightarrow> \<exists>xs b n ys. bs = xs @ (b, n) # ys \<and>
      (n = count \<and> r = b \<and> bs' = xs @ ys \<or>
       count < n \<and> r = b + push_bit 12 (n - count) \<and> bs' = xs @ (b, n - count) # ys)"
proof (induction bs arbitrary: bs')
  case Nil
  then show ?case by simp
next
  case (Cons x bs)
  obtain b n where x: "x = (b, n)" by (cases x)
  show ?case
  proof (cases "n = count \<or> count < n")
    case True
    with Cons.prems x show ?thesis by (intro exI [of _ "[]"]) (auto split: if_splits)
  next
    case False
    with Cons.prems x obtain bs1 where "take_block count bs = Some (r, bs1)" "bs' = (b, n) # bs1"
      by (auto split: if_splits)
    with Cons.IH x show ?thesis by (metis append_Cons)
  qed
qed

text \<open>The sum of the lengths goes down by \<open>count\<close>.\<close>

lemma take_block_sum:
  assumes "take_block count bs = Some (r, bs')"
  shows "(\<Sum>b \<leftarrow> bs. unat (snd b)) = (\<Sum>b \<leftarrow> bs'. unat (snd b)) + unat count"
proof -
  have "unat n = unat (n - count) + unat count" if "count < n" for n
    using that by (simp add: unat_sub word_le_nat_alt word_less_nat_alt)
  then show ?thesis using take_block_Some [OF assms] by auto
qed

text \<open>The pages handed out come from the list and are gone from it.\<close>

lemma take_block_pages:
  assumes "take_block count bs = Some (r, bs')" and "\<forall>b \<in> set bs. block_ok s b"
    and "sorted_wrt apart bs"
  shows "pages (r, count) \<subseteq> (\<Union>b \<in> set bs. pages b) \<and> aligned r \<and>
    (\<Union>b \<in> set bs'. pages b) \<subseteq> (\<Union>b \<in> set bs. pages b) \<and>
    (\<forall>b \<in> set bs'. apart (r, count) b)"
proof -
  obtain xs b n ys where bs: "bs = xs @ (b, n) # ys"
    and c: "n = count \<and> r = b \<and> bs' = xs @ ys \<or>
       count < n \<and> r = b + push_bit 12 (n - count) \<and> bs' = xs @ (b, n - count) # ys"
    using take_block_Some [OF assms(1)] by blast
  have ok: "block_ok s (b, n)" using assms(2) bs by simp
  have ap: "\<forall>x \<in> set xs \<union> set ys. pages x \<inter> pages (b, n) = {}"
    using assms(3) bs by (auto simp: sorted_wrt_append apart_def)
  from c show ?thesis
  proof (elim disjE conjE)
    assume "n = count" "r = b" "bs' = xs @ ys"
    then show ?thesis using ok ap bs by (auto simp: block_ok_def apart_def)
  next
    assume n: "count < n" and r: "r = b + push_bit 12 (n - count)" "bs' = xs @ (b, n - count) # ys"
    have "aligned r" using ok aligned_add [of b "n - count"] r by (simp add: block_ok_def)
    moreover have "pages (r, count) \<subseteq> pages (b, n)" "pages (b, n - count) \<subseteq> pages (b, n)"
      "pages (r, count) \<inter> pages (b, n - count) = {}"
      using split_block [OF ok n] r by (simp_all add: apart_def)
    ultimately show ?thesis unfolding bs r(2) apart_def using ap by fastforce
  qed
qed


definition free_pages :: "block list \<Rightarrow> nat set" where
  "free_pages bs = (\<Union>b \<in> set bs. pages b)"

lemma alloc_refine:
  assumes "free_list s bs"
  shows "\<exists>r s'. alloc_phys_pages count s = Some (r, s') \<and>
    (case take_block count bs of
       None \<Rightarrow> r = - 1 \<and> free_list s' bs
     | Some (a, bs') \<Rightarrow> r = a \<and> a \<noteq> - 1 \<and> aligned a \<and> free_list s' bs' \<and>
         pages (a, count) \<subseteq> free_pages bs \<and> free_pages bs' \<subseteq> free_pages bs \<and>
         (\<forall>b \<in> set bs'. apart (a, count) b)) \<and>
    (\<forall>p. p \<notin> fst ` set bs \<longrightarrow> ram s' p = ram s p)"
proof -
  have ch: "chain_of s bs" and m: "\<not> phys_mutex s"
    and sum: "unat (free_page_count s) = (\<Sum>b \<leftarrow> bs. unat (snd b))"
    using assms by (auto simp: free_list_def)
  note pgs = take_block_pages [of count bs _ _ s, folded free_pages_def]
  have ok: "\<forall>b \<in> set bs. block_ok s b" "sorted_wrt apart bs" using ch by (auto simp: chain_of_def)
  show ?thesis
  proof (cases "free_page_count s < count \<or> bs = []")
    case True
    have "take_block count bs = None"
    proof (cases "take_block count bs")
      case (Some p)
      then show ?thesis using True sum take_block_sum [of count bs "fst p" "snd p"]
        by (auto simp: word_less_nat_alt)
    qed
    then show ?thesis using True assms ch m
      by (auto simp: alloc_phys_pages_def lock_phys_free unlock_phys_def mutex_release_def
        free_list_def chain_of_def)
  next
    case False
    then have ne: "bs \<noteq> []" and c: "\<not> free_page_count s < count" by auto
    let ?s = "s\<lparr>phys_mutex := True\<rparr>"
    have ch1: "chain_of ?s ([] @ bs)" using ch by simp
    have fp: "free_ptr ?s = fst (hd bs)" "free_ptr ?s \<noteq> - 1"
      using ch ne ok(1) aligned_neq_minus1 by (auto simp: chain_of_def block_ok_def)
    obtain r bs' where t: "taken count [] bs = (r, bs')" by fastforce
    obtain s' where s': "alloc_scan count (fst (hd bs)) ?s = Some (r, s')" "chain_of s' bs'"
      "free_page_count s' = free_page_count s" "phys_mutex s'"
      "\<forall>p. p \<notin> fst ` set bs \<longrightarrow> ram s' p = ram s p"
      using alloc_scan_refines [OF ch1 ne t] by auto
    show ?thesis
    proof (cases "take_block count bs")
      case None
      then show ?thesis using s' fp c m t sum
        by (auto simp: alloc_phys_pages_def lock_phys_free unlock_phys_def mutex_release_def
          free_list_def taken_def)
    next
      case (Some p)
      obtain a bs1 where p: "p = (a, bs1)" by (cases p)
      with t Some have [simp]: "r = a" "bs' = bs1" by (auto simp: taken_def)
      note k = pgs [OF _ ok, of a bs1] take_block_sum [of count bs a bs1]
      have n: "a \<noteq> - 1" using k(1) Some p aligned_neq_minus1 by auto
      have "unat (free_page_count s - count) = unat (free_page_count s) - unat count"
        using c by (simp add: unat_sub not_less word_le_nat_alt)
      then show ?thesis using s' fp c m n k sum Some p
        by (auto simp: alloc_phys_pages_def lock_phys_free unlock_phys_def mutex_release_def
          free_list_def)
    qed
  qed
qed

text \<open>C5: \<^verbatim>\<open>alloc_phys_pages\<close> on a well-formed free list returns, and does what
  \<open>take_block\<close> does to the list of blocks: it gives \<open>-1\<close> exactly where no single
  block is long enough, with the list as it was; otherwise the pages it hands out were
  in the list, are aligned, and are apart from every block left in it.  Only headers
  of listed blocks are written.\<close>

theorem alloc_phys_pages_refines:
  assumes "free_list s bs"
  shows "\<exists>r s'. alloc_phys_pages count s = Some (r, s') \<and>
    (case take_block count bs of
       None \<Rightarrow> r = - 1 \<and> free_list s' bs
     | Some (a, bs') \<Rightarrow> r = a \<and> a \<noteq> - 1 \<and> aligned a \<and> free_list s' bs' \<and>
         pages (a, count) \<subseteq> free_pages bs \<and> (\<forall>b \<in> set bs'. apart (a, count) b)) \<and>
    (\<forall>p. p \<notin> fst ` set bs \<longrightarrow> ram s' p = ram s p)"
  using alloc_refine [OF assms, of count]
  by (elim exE conjE, intro exI conjI) (auto split: option.splits)


section \<open>Freeing refines the block list\<close>

lemma put_temp_map [simp]:
  "put_next b v (temp_map_page a s) = put_next b v s"
  "put_prev b v (temp_map_page a s) = put_prev b v s"
  "put_size b v (temp_map_page a s) = put_size b v s"
  by (simp_all add: blk_defs)

text \<open>Accesses through \<^verbatim>\<open>TEMP_PAGE\<close> as accesses to the header of the mapped block.\<close>

lemma temp_wr_header:
  "temp_wr PB_NEXT v (temp_map_page b s) = put_next b v s"
  "temp_wr PB_PREV v (temp_map_page b s) = put_prev b v s"
  "temp_wr PB_SIZE v (temp_map_page b s) = put_size b v s"
  "temp_wr PB_PREV v (put_next b w s) = put_prev b v (put_next b w s)"
  "temp_wr PB_SIZE v (put_next b w s) = put_size b v (put_next b w s)"
  "temp_wr PB_SIZE v (put_prev b w s) = put_size b v (put_prev b w s)"
proof -
  have s0: "temp_map_page b (temp_wr i w (temp_map_page b s)) = temp_wr i w (temp_map_page b s)"
    for i by (simp add: temp_wr_def temp_map_page_def)
  show "temp_wr PB_NEXT v (temp_map_page b s) = put_next b v s"
    and "temp_wr PB_PREV v (temp_map_page b s) = put_prev b v s"
    and "temp_wr PB_SIZE v (temp_map_page b s) = put_size b v s"
    and "temp_wr PB_PREV v (put_next b w s) = put_prev b v (put_next b w s)"
    and "temp_wr PB_SIZE v (put_next b w s) = put_size b v (put_next b w s)"
    and "temp_wr PB_SIZE v (put_prev b w s) = put_size b v (put_prev b w s)"
    unfolding blk_defs s0 by (rule refl)+
qed

lemma temp_rd_header:
  "temp_rd PB_NEXT (temp_map_page b s) = blk_next s b"
  "temp_rd PB_SIZE (temp_map_page b s) = blk_size s b"
  "temp_rd PB_PREV (temp_map_page b s) = blk_prev s b"
  "temp_rd PB_NEXT (put_size b v s) = blk_next s b"
  "temp_rd PB_SIZE (put_next b v s) = blk_size s b"
  by (simp_all add: temp_rd_ram blk_defs)

lemmas header_access = temp_wr_header temp_rd_header

text \<open>One round of the scan, its branches in terms of header updates.\<close>

lemma free_scan_round:
  "free_scan base count cur s =
    (let n = blk_size s cur; nxt = blk_next s cur; prv = blk_prev s cur
     in if cur + push_bit 12 n = base then
          (let s1 = put_size cur (n + count) s
           in Some (if nxt = base + push_bit 12 count then
               (let next2 = blk_next s1 nxt;
                    s2 = put_next cur next2 (put_prev next2 cur s1)
                in put_size cur (blk_size s2 cur + blk_size s1 nxt) s2)
             else s1))
        else if base + push_bit 12 count = cur then
          Some (put_size base (count + n) (put_prev base prv (put_next base nxt
            (put_next prv base (put_prev nxt base s)))))
        else if base < cur \<or> nxt = free_ptr s then
          Some (put_size base count (put_prev base nxt (put_next base cur
            (put_next nxt base (put_prev cur base s)))))
        else free_scan base count nxt (temp_map_page cur s))"
  by (subst free_scan.simps)
    (simp only: Let_def header_access put_temp_map blk_link_put_size temp_map_again temp_map_fields
      put_fields blk_size_put(1,2) blk_fields(3),
     cases "blk_next s cur = free_ptr s"; simp only: simp_thms if_True if_False)

text \<open>
  A scan over blocks that lie below the freed range, do not end at it and are not the
  last: it arrives at the block \<open>b\<close> that follows them.
\<close>

definition passes :: "u32 \<Rightarrow> block list \<Rightarrow> bool" where
  "passes base xs \<longleftrightarrow> (\<forall>x \<in> set xs. fst x < base \<and> fst x + push_bit 12 (snd x) \<noteq> base)"

lemma free_scan_skips:
  assumes "chain_of s (xs @ ys @ b # zs)" and "passes base ys"
    and "unat base + 4096 * unat count < 2 ^ 32"
  shows "\<exists>t. free_scan base count (fst (hd (ys @ [b]))) s =
    free_scan base count (fst b) (if ys = [] then s else temp_map_page t s)"
  using assms(1,2)
proof (induction ys arbitrary: xs s)
  case Nil
  then show ?case by simp
next
  case (Cons y ys)
  let ?f = "map fst :: block list \<Rightarrow> u32 list"
  have r: "ring (blk_next s) (blk_prev s) (?f xs @ fst y # ?f (ys @ b # zs))"
    and y: "block_ok s y" and fp: "free_ptr s = fst (hd (xs @ [y]))"
    using Cons.prems(1) by (auto simp: chain_of_def hd_append)
  have nxt: "blk_next s (fst y) = fst (hd (ys @ [b]))"
    using ring_split_next [OF r] by (cases ys) auto
  moreover have "fst (hd (ys @ [b])) \<noteq> free_ptr s"
  proof -
    have "fst (hd (ys @ [b])) \<in> set (?f (ys @ b # zs))" by (cases ys) auto
    moreover have "free_ptr s \<in> set (?f (xs @ [y]))" unfolding fp by (cases xs) auto
    moreover have "set (?f (xs @ [y])) \<inter> set (?f (ys @ b # zs)) = {}"
      using ring_distinct [OF r] by auto
    ultimately show ?thesis by (rule disjoint_neq)
  qed
  moreover have "base + push_bit 12 count \<noteq> fst y" "\<not> base < fst y"
    "fst y + push_bit 12 (blk_size s (fst y)) \<noteq> base"
    using Cons.prems(2) y assms(3) unat_block_offset [of base count]
    by (auto simp: passes_def block_ok_def word_less_nat_alt)
  ultimately have "free_scan base count (fst y) s =
      free_scan base count (fst (hd (ys @ [b]))) (temp_map_page (fst y) s)"
    by (subst free_scan_round) (simp add: Let_def)
  moreover have "chain_of (temp_map_page (fst y) s) ((xs @ [y]) @ ys @ b # zs)"
    using Cons.prems(1) by simp
  ultimately show ?case
    using Cons.IH [of "temp_map_page (fst y) s" "xs @ [y]"] Cons.prems(2)
    by (cases "ys = []") (auto simp: passes_def)
qed


text \<open>The ranges that are freed: aligned, not empty, not from frame 0, below the top.\<close>

definition range_ok :: "u32 \<Rightarrow> u32 \<Rightarrow> bool" where
  "range_ok base count \<longleftrightarrow> aligned base \<and> base \<noteq> 0 \<and> count \<noteq> 0 \<and>
     unat base + 4096 * unat count < 2 ^ 32"

lemma block_ok_put [simp]:
  "block_ok (put_next b v s) x = block_ok s x" "block_ok (put_prev b v s) x = block_ok s x"
  "block_ok (s\<lparr>phys_mutex := m\<rparr>) x = block_ok s x"
  "block_ok (s\<lparr>free_ptr := q\<rparr>) x = block_ok s x"
  "block_ok (s\<lparr>free_page_count := k\<rparr>) x = block_ok s x"
  "block_ok (temp_map_page a s) x = block_ok s x"
  by (auto simp: block_ok_def)

lemma block_ok_put_size:
  "aligned b \<Longrightarrow> fst x \<noteq> b \<Longrightarrow> block_ok (put_size b v s) x = block_ok s x"
  "aligned b \<Longrightarrow> block_ok (put_size b v s) (b, n) \<longleftrightarrow>
     n = v \<and> v \<noteq> 0 \<and> unat b + 4096 * unat v \<le> 2 ^ 32"
  by (auto simp: block_ok_def)

text \<open>Blocks that are apart hold at most \<open>2 ^ 20\<close> pages, so the counter never wraps.\<close>

lemma sum_pages:
  assumes "sorted_wrt apart bs" shows "(\<Sum>b \<leftarrow> bs. unat (snd b)) = card (\<Union>b \<in> set bs. pages b)"
  using assms
proof (induction bs)
  case Nil
  then show ?case by simp
next
  case (Cons b bs)
  then have "pages b \<inter> (\<Union>x \<in> set bs. pages x) = {}" by (auto simp: apart_def)
  moreover have "finite (pages x)" for x by (simp add: pages_def)
  ultimately have "card (\<Union>x \<in> set (b # bs). pages x) =
      card (pages b) + card (\<Union>x \<in> set bs. pages x)"
    by (simp add: card_Un_disjoint)
  moreover have "card (pages b) = unat (snd b)" by (simp add: pages_def)
  ultimately show ?case using Cons by simp
qed

lemma pages_bound: "unat (fst b) + 4096 * unat (snd b) \<le> 2 ^ 32 \<Longrightarrow> pages b \<subseteq> {..< 2 ^ 20}"
  by (auto simp: pages_def)

lemma sum_bound:
  assumes "sorted_wrt apart bs" and "\<forall>b \<in> set bs. block_ok s b"
  shows "(\<Sum>b \<leftarrow> bs. unat (snd b)) \<le> 2 ^ 20"
proof -
  have "(\<Union>b \<in> set bs. pages b) \<subseteq> {..< 2 ^ 20}"
    using assms(2) by (intro UN_least pages_bound) (auto simp: block_ok_def)
  then have "card (\<Union>b \<in> set bs. pages b) \<le> card {..< 2 ^ 20 :: nat}" by (intro card_mono) auto
  then show ?thesis using sum_pages [OF assms(1)] by simp
qed

text \<open>What the scan must leave behind for the whole call to give a well-formed list.\<close>

lemma free_phys_run:
  assumes fl: "free_list s bs" and ne: "bs \<noteq> []"
    and scan: "free_scan base count (fst (hd bs)) (s\<lparr>phys_mutex := True\<rparr>) = Some t"
    and ok: "\<forall>b \<in> set bs'. block_ok t b" and ap: "sorted_wrt apart bs'"
    and rg: "ring (blk_next t) (blk_prev t) (map fst bs')"
    and same: "free_ptr t = fst (hd bs)" "free_page_count t = free_page_count s"
    and hd: "bs' \<noteq> []" "fst (hd bs') = (if base < fst (hd bs) then base else fst (hd bs))"
    and sum: "(\<Sum>b \<leftarrow> bs'. unat (snd b)) = (\<Sum>b \<leftarrow> bs. unat (snd b)) + unat count"
  shows "\<exists>s'. free_phys_pages base count s = Some s' \<and> free_list s' bs' \<and> ram s' = ram t"
proof -
  have m: "\<not> phys_mutex s" and fp: "free_ptr s = fst (hd bs)"
    and pc: "unat (free_page_count s) = (\<Sum>b \<leftarrow> bs. unat (snd b))"
    using fl ne by (auto simp: free_list_def chain_of_def)
  have "block_ok s (hd bs)" using fl ne by (auto simp: free_list_def chain_of_def)
  then have "free_ptr s \<noteq> - 1" using fp aligned_neq_minus1 by (auto simp: block_ok_def)
  then have eq: "free_phys_pages base count s = Some (unlock_phys
      ((if base < free_ptr t then t\<lparr>free_ptr := base\<rparr> else t)
         \<lparr>free_page_count := free_page_count s + count\<rparr>))"
    using scan m fp same by (auto simp: free_phys_pages_def lock_phys_free)
  have "unat (free_page_count s + count) = unat (free_page_count s) + unat count"
    using sum_bound [OF ap ok] sum pc by (subst unat_add_lem [symmetric]) simp
  then show ?thesis unfolding eq using ok ap rg hd sum pc same
    by (auto simp: free_list_def chain_of_def unlock_phys_def mutex_release_def)
qed

text \<open>Freeing into an empty list makes the range the only block.\<close>

theorem free_phys_pages_first:
  assumes "free_list s []" and "range_ok base count"
  shows "\<exists>s'. free_phys_pages base count s = Some s' \<and> free_list s' [(base, count)] \<and>
    (\<forall>p. p \<noteq> base \<longrightarrow> ram s' p = ram s p)"
proof -
  have b: "aligned base" "page_of base = base" using assms(2) by (auto simp: range_ok_def aligned_def)
  have s: "\<not> phys_mutex s" "free_ptr s = - 1" "free_page_count s = 0"
    using assms(1) by (auto simp: free_list_def chain_of_def unat_eq_zero)
  let ?s = "s\<lparr>phys_mutex := True\<rparr>"
  let ?t = "put_size base count (put_prev base base (put_next base base ?s))"
  have eq: "free_phys_pages base count s =
      Some (unlock_phys (?t\<lparr>free_ptr := base, free_page_count := count\<rparr>))"
    using s by (simp add: free_phys_pages_def lock_phys_free Let_def header_access del: One_nat_def)
  have "ring (blk_next ?t) (blk_prev ?t) [base]"
    using b by (simp add: blk_ring.links)
  moreover have "block_ok ?t (base, count)"
    using assms(2) b by (simp add: block_ok_put_size range_ok_def)
  moreover have "ram ?t p = ram s p" if "p \<noteq> base" for p
    using that b by (simp add: ram_put)
  ultimately show ?thesis unfolding eq
    by (simp add: free_list_def chain_of_def unlock_phys_def mutex_release_def)
qed


text \<open>A freed range extends the block in front of it, and joins it with the block behind.\<close>

definition join_next :: "block \<Rightarrow> block list \<Rightarrow> block list" where
  "join_next b ys = (case ys of (c, m) # zs \<Rightarrow>
       if c = fst b + push_bit 12 (snd b) then (fst b, snd b + m) # zs else b # ys
     | [] \<Rightarrow> [b])"

lemma join_next_hd:
  "fst (hd (xs @ join_next b ys)) = fst (hd (xs @ [b]))" "xs @ join_next b ys \<noteq> []"
  by (cases xs; auto simp: join_next_def split: list.splits prod.splits)+

lemma join_next_ne [simp]: "join_next b ys \<noteq> []"
  by (simp add: join_next_def split: list.splits prod.splits)

lemma pages_join:
  assumes "unat b + 4096 * unat n = unat c" and "unat b + 4096 * unat (n + m) \<le> 2 ^ 32"
    and "unat (n + m) = unat n + unat m"
  shows "pages (b, n + m) = pages (b, n) \<union> pages (c, m)"
proof -
  have "unat c div 4096 = unat b div 4096 + unat n" using assms(1) [symmetric] by simp
  then show ?thesis using assms(3) by (auto simp: pages_def)
qed

lemma unat_join:
  fixes b n m :: u32
  assumes "unat b + 4096 * unat n = unat c" and "unat c + 4096 * unat m \<le> 2 ^ 32"
  shows "unat (n + m) = unat n + unat m"
  using assms unat_add_lem [of n m] by simp

lemma block_end:
  assumes "block_ok s (b, n)" and "b + push_bit 12 n = c" and "c \<noteq> 0"
  shows "unat b + 4096 * unat n = unat c"
proof (cases "unat b + 4096 * unat n = 2 ^ 32")
  case True
  then have "unat (b + push_bit 12 n) = 0"
    by (simp add: unat_word_ariths push_bit_eq_mult mult.commute mod_add_right_eq)
  then show ?thesis using assms(2,3) by (simp add: unat_eq_zero)
next
  case False
  then show ?thesis using assms unat_block_offset [of b n] by (auto simp: block_ok_def)
qed

lemma sorted_wrt_apart_replace:
  assumes "sorted_wrt apart (xs @ b # ys)" and "pages b' \<subseteq> pages b \<union> q"
    and "\<forall>x \<in> set xs \<union> set ys. pages x \<inter> q = {}"
  shows "sorted_wrt apart (xs @ b' # ys)"
  using assms by (simp add: sorted_wrt_append apart_def) blast


lemma chain_extend:
  assumes ch: "chain_of s (xs @ (b, n) # ys)" and rg: "range_ok base count"
    and e: "unat b + 4096 * unat n = unat base"
    and ap: "\<forall>x \<in> set (xs @ (b, n) # ys). apart (base, count) x"
  shows "chain_of (put_size b (n + count) s) (xs @ (b, n + count) # ys)"
proof -
  have "distinct (map fst (xs @ (b, n) # ys))" using ch by (simp add: chain_of_def ring_def)
  then have b: "aligned b" "b \<notin> fst ` set xs" "b \<notin> fst ` set ys"
    using ch by (auto simp: chain_of_def block_ok_def)
  have k: "unat (n + count) = unat n + unat count"
    using unat_join [OF e] rg by (simp add: range_ok_def)
  have "block_ok (put_size b (n + count) s) (b, n + count)"
    using b(1) rg e k by (auto simp: block_ok_put_size range_ok_def unat_eq_zero [symmetric])
  moreover have "block_ok (put_size b (n + count) s) x" if "x \<in> set xs \<union> set ys" for x
  proof -
    have "fst x \<noteq> b" using that b by auto
    then show ?thesis using that ch b(1) by (auto simp: chain_of_def block_ok_put_size)
  qed
  moreover have "sorted_wrt apart (xs @ (b, n + count) # ys)"
  proof (rule sorted_wrt_apart_replace)
    show "sorted_wrt apart (xs @ (b, n) # ys)" using ch by (simp add: chain_of_def)
    show "pages (b, n + count) \<subseteq> pages (b, n) \<union> pages (base, count)"
      using pages_join [OF e _ k] rg e k by (simp add: range_ok_def)
    show "\<forall>x \<in> set xs \<union> set ys. pages x \<inter> pages (base, count) = {}"
      using ap by (auto simp: apart_def)
  qed
  ultimately show ?thesis using ch by (auto simp: chain_of_def hd_append)
qed

lemma chain_join:
  assumes ch: "chain_of s (xs @ (b, n) # (c, m) # zs)" and c: "b + push_bit 12 n = c" "c \<noteq> 0"
    and n2: "n2 = blk_next s c"
  shows "chain_of (put_size b (n + m) (put_next b n2 (put_prev n2 b s))) (xs @ (b, n + m) # zs)"
proof -
  let ?f = "map fst :: block list \<Rightarrow> u32 list"
  let ?u = "put_next b n2 (put_prev n2 b s)"
  have ok: "block_ok s (b, n)" "block_ok s (c, m)" "\<forall>x \<in> set xs \<union> set zs. block_ok s x"
    and ap: "sorted_wrt apart (xs @ (b, n) # (c, m) # zs)"
    using ch by (auto simp: chain_of_def)
  have r: "ring (blk_next s) (blk_prev s) ((?f xs @ [b]) @ c # ?f zs)"
    using ch by (simp add: chain_of_def)
  have e: "unat b + 4096 * unat n = unat c" using block_end [OF ok(1) c] .
  have k: "unat (n + m) = unat n + unat m"
    using unat_join [OF e] ok(2) by (simp add: block_ok_def)
  have "b = blk_prev s c" using ring_split_prev [OF r] by (cases zs) auto
  moreover have nodes: "\<forall>y \<in> set ((?f xs @ [b]) @ c # ?f zs). aligned y"
    using ok by (auto simp: block_ok_def)
  ultimately have r': "ring (blk_next ?u) (blk_prev ?u) ((?f xs @ [b]) @ ?f zs)"
    using n2 by (intro blk_ring.ring_remove [OF r]) auto
  have b: "aligned b" "b \<notin> fst ` set xs" "b \<notin> fst ` set zs"
    using ring_distinct [OF r] nodes by auto
  have "block_ok (put_size b (n + m) ?u) (b, n + m)"
    using ok e k b by (auto simp: block_ok_put_size) (auto simp: block_ok_def unat_eq_zero [symmetric])
  moreover have "block_ok (put_size b (n + m) ?u) x" if "x \<in> set xs \<union> set zs" for x
  proof -
    have "fst x \<noteq> b" using that b by auto
    then show ?thesis using that ok(3) b(1) by (simp add: block_ok_put_size)
  qed
  moreover have "sorted_wrt apart (xs @ (b, n + m) # zs)"
  proof (rule sorted_wrt_apart_replace)
    show "sorted_wrt apart (xs @ (b, n) # zs)" using ap by (auto simp: sorted_wrt_append)
    show "pages (b, n + m) \<subseteq> pages (b, n) \<union> pages (c, m)"
      using pages_join [OF e _ k] ok(2) e k by (simp add: block_ok_def)
    show "\<forall>x \<in> set xs \<union> set zs. pages x \<inter> pages (c, m) = {}"
      using ap by (auto simp: sorted_wrt_append apart_def)
  qed
  ultimately show ?thesis using ch r' by (auto simp: chain_of_def hd_append)
qed


lemma range_end:
  assumes "range_ok base count"
  shows "base < base + push_bit 12 count" "base + push_bit 12 count \<noteq> 0"
proof -
  have "unat (base + push_bit 12 count) = unat base + 4096 * unat count"
    using assms by (intro unat_block_offset) (simp add: range_ok_def)
  then show "base < base + push_bit 12 count" "base + push_bit 12 count \<noteq> 0"
    using assms by (auto simp: range_ok_def word_less_nat_alt unat_eq_zero [symmetric])
qed

text \<open>The branch of the scan that extends the block ending at the freed range.\<close>

lemma free_scan_extend:
  assumes ch: "chain_of s (xs @ (b, n) # ys)" and rg: "range_ok base count"
    and e: "b + push_bit 12 n = base" and ps: "passes base xs"
    and ap: "\<forall>x \<in> set (xs @ (b, n) # ys). apart (base, count) x"
  shows "\<exists>t. free_scan base count b s = Some t \<and> chain_of t (xs @ join_next (b, n + count) ys) \<and>
    free_page_count t = free_page_count s \<and>
    (\<Sum>x \<leftarrow> xs @ join_next (b, n + count) ys. unat (snd x)) =
      (\<Sum>x \<leftarrow> xs @ (b, n) # ys. unat (snd x)) + unat count \<and>
    (\<forall>p. p \<notin> fst ` set (xs @ (b, n) # ys) \<longrightarrow> ram t p = ram s p)"
proof -
  let ?f = "map fst :: block list \<Rightarrow> u32 list"
  let ?u = "put_size b (n + count) s"
  let ?stop = "base + push_bit 12 count"
  have ok: "block_ok s (b, n)" "\<forall>x \<in> set ys. block_ok s x" using ch by (auto simp: chain_of_def)
  have e': "unat b + 4096 * unat n = unat base"
    using block_end [OF ok(1) e] rg by (simp add: range_ok_def)
  have r: "ring (blk_next s) (blk_prev s) (?f xs @ b # ?f ys)" using ch by (simp add: chain_of_def)
  have nxt: "blk_next s b = hd (?f ys @ ?f xs @ [b])" using ring_split_next [OF r] .
  have b: "aligned b" "blk_size s b = n" using ok(1) by (auto simp: block_ok_def)
  have u: "chain_of ?u (xs @ (b, n + count) # ys)" using chain_extend [OF ch rg e' ap] .
  have e2: "b + push_bit 12 (n + count) = ?stop" using e by (simp add: push_bit_add add.assoc [symmetric])
  have k: "unat (n + count) = unat n + unat count"
    using unat_join [OF e'] rg by (simp add: range_ok_def)
  have bp: "page_of b = b" using b(1) by (simp add: aligned_def)
  note round = free_scan_round [of base count b s, unfolded b(2) Let_def e]
  show ?thesis
  proof (cases "blk_next s b = ?stop")
    case False
    then have "free_scan base count b s = Some ?u" by (simp add: round)
    moreover have "join_next (b, n + count) ys = (b, n + count) # ys"
      using False nxt e2 by (cases ys) (auto simp: join_next_def)
    ultimately show ?thesis using u k bp by (auto simp: ram_put)
  next
    case True
    have "hd (?f xs @ [b]) < base"
    proof -
      have "\<forall>x \<in> set (?f xs @ [b]). x < base"
        using ps e' ok(1) by (auto simp: passes_def block_ok_def word_less_nat_alt unat_eq_zero [symmetric])
      moreover have "hd (?f xs @ [b]) \<in> set (?f xs @ [b])" by (rule hd_in_set) simp
      ultimately show ?thesis by blast
    qed
    then obtain c m zs where ys: "ys = (c, m) # zs"
      using True nxt range_end(1) [OF rg] by (cases ys) (auto simp: order.strict_iff_not)
    have c: "c = ?stop" using True nxt ys by simp
    have "c \<noteq> b" using ring_distinct [OF r] ys by auto
    moreover have "aligned c" "blk_size s c = m" using ok(2) ys by (auto simp: block_ok_def)
    ultimately have "free_scan base count b s = Some (put_size b (n + count + m)
        (put_next b (blk_next ?u c) (put_prev (blk_next ?u c) b ?u)))"
      using True b c by (simp add: round)
    moreover have "chain_of (put_size b (n + count + m)
        (put_next b (blk_next ?u c) (put_prev (blk_next ?u c) b ?u))) (xs @ (b, n + count + m) # zs)"
      using chain_join [OF u [unfolded ys] _ _ refl] e2 c range_end(2) [OF rg] by simp
    moreover have "unat (n + count + m) = unat n + unat count + unat m"
    proof -
      have "block_ok ?u (b, n + count)" "block_ok ?u (c, m)"
        using u ys by (simp_all add: chain_of_def)
      then show ?thesis using block_end [of ?u b "n + count" c] unat_join [of b "n + count" c m]
        e2 c range_end(2) [OF rg] k by (simp add: block_ok_def)
    qed
    moreover have "blk_next s c \<in> set (?f (xs @ (b, n) # ys))"
      using ring_next_in [OF r, of c] ys by simp
    then have nn: "aligned (blk_next s c)" "blk_next s c \<in> fst ` set (xs @ (b, n) # ys)"
      using chain_of_nodes [OF ch] by auto
    moreover have "ram (put_size b (n + count + m) (put_next b (blk_next ?u c)
        (put_prev (blk_next ?u c) b ?u))) p = ram s p"
      if p: "p \<notin> fst ` set (xs @ (b, n) # ys)" for p
    proof -
      have "p \<noteq> blk_next s c" using p nn(2) by metis
      moreover have "p \<noteq> b" using p by auto
      ultimately show ?thesis using bp nn(1) by (simp add: ram_put aligned_def)
    qed
    ultimately show ?thesis using ys c e2 by (simp add: join_next_def)
  qed
qed

lemma free_extends:
  assumes fl: "free_list s (xs @ (b, n) # ys)" and rg: "range_ok base count"
    and e: "b + push_bit 12 n = base" and ps: "passes base xs"
    and ap: "\<forall>x \<in> set (xs @ (b, n) # ys). apart (base, count) x"
  shows "\<exists>s'. free_phys_pages base count s = Some s' \<and>
    free_list s' (xs @ join_next (b, n + count) ys) \<and>
    (\<forall>p. p \<notin> fst ` set (xs @ (b, n) # ys) \<longrightarrow> ram s' p = ram s p)"
proof -
  let ?s = "s\<lparr>phys_mutex := True\<rparr>"
  have ch: "chain_of ?s (xs @ (b, n) # ys)" using fl by (simp add: free_list_def)
  obtain u where u: "free_scan base count (fst (hd (xs @ [(b, n)]))) ?s = free_scan base count b u"
    "chain_of u (xs @ (b, n) # ys)" "ram u = ram s" "free_page_count u = free_page_count s"
    using free_scan_skips [of ?s "[]" xs "(b, n)" ys base count] ch ps rg
    by (auto simp: range_ok_def split: if_splits)
  obtain t where t: "free_scan base count b u = Some t"
    "chain_of t (xs @ join_next (b, n + count) ys)" "free_page_count t = free_page_count u"
    "(\<Sum>x \<leftarrow> xs @ join_next (b, n + count) ys. unat (snd x)) =
      (\<Sum>x \<leftarrow> xs @ (b, n) # ys. unat (snd x)) + unat count"
    "\<forall>p. p \<notin> fst ` set (xs @ (b, n) # ys) \<longrightarrow> ram t p = ram u p"
    using free_scan_extend [OF u(2) rg e ps ap] by blast
  let ?bs = "xs @ join_next (b, n + count) ys"
  have h: "\<not> base < fst (hd (xs @ [(b, n)]))"
  proof -
    have "block_ok s (b, n)" using fl by (simp add: free_list_def chain_of_def)
    from block_end [OF this e] have "b \<le> base" using rg
      by (simp add: range_ok_def word_le_nat_alt)
    then show ?thesis using ps by (cases xs) (auto simp: passes_def not_less)
  qed
  have hd: "fst (hd ?bs) = fst (hd (xs @ [(b, n)]))" "?bs \<noteq> []"
    "fst (hd (xs @ (b, n) # ys)) = fst (hd (xs @ [(b, n)]))"
    using join_next_hd [of xs "(b, n + count)" ys] by (simp_all add: hd_append)
  have tt: "\<forall>b \<in> set ?bs. block_ok t b" "sorted_wrt apart ?bs"
    "ring (blk_next t) (blk_prev t) (map fst ?bs)"
    "free_ptr t = fst (hd (xs @ (b, n) # ys))"
    using t(2) hd unfolding chain_of_def by simp_all
  have "\<exists>s'. free_phys_pages base count s = Some s' \<and> free_list s' ?bs \<and> ram s' = ram t"
  proof (rule free_phys_run [OF fl _ _ tt _ hd(2) _ t(4)])
    show "free_scan base count (fst (hd (xs @ (b, n) # ys))) ?s = Some t"
      using u(1) t(1) hd(3) by simp
    show "free_page_count t = free_page_count s" using t(3) u(4) by simp
    show "fst (hd ?bs) = (if base < fst (hd (xs @ (b, n) # ys)) then base
        else fst (hd (xs @ (b, n) # ys)))" using h hd by simp
  qed simp
  then show ?thesis using t(5) u(3) by auto
qed

text \<open>C7: Freeing a range that starts where a block of the list ends, the blocks in front
  of it lying below, extends that block; where the next block starts at the end of the
  range the two become one.  The list stays well-formed, the counter grows by the
  range, and only headers of the list are written.\<close>

theorem free_phys_pages_extends:
  assumes fl: "free_list s (xs @ (b, n) # ys)" and rg: "range_ok base count"
    and e: "b + push_bit 12 n = base" and ps: "passes base xs"
    and ap: "\<forall>x \<in> set (xs @ (b, n) # ys). apart (base, count) x"
  shows "\<exists>s'. free_phys_pages base count s = Some s' \<and>
    free_list s' (xs @ join_next (b, n + count) ys) \<and>
    (\<forall>p. p \<notin> fst ` set (xs @ (b, n) # ys) \<longrightarrow> ram s' p = ram s p)"
  using free_extends [OF assms] .


text \<open>The branch that puts a new header in front of the block following the range.\<close>

lemma fresh_base:
  assumes "\<forall>x \<in> set bs. apart (base, count) x" and "count \<noteq> 0"
    and "\<forall>x \<in> set bs. block_ok s x"
  shows "base \<notin> set (map fst bs)"
  using assms apart_neq [of "(base, count)"] by (fastforce simp: block_ok_def)

lemma range_block:
  assumes "range_ok base count" shows "unat (base + push_bit 12 count) = unat base + 4096 * unat count"
  using assms by (intro unat_block_offset) (simp add: range_ok_def)

lemma free_scan_prepend:
  assumes ch: "chain_of s (xs @ (c, m) # ys)" and ne: "xs @ ys \<noteq> []" and rg: "range_ok base count"
    and e: "base + push_bit 12 count = c"
    and ap: "\<forall>x \<in> set (xs @ (c, m) # ys). apart (base, count) x"
  shows "\<exists>t. free_scan base count c s = Some t \<and>
    (\<forall>x \<in> set (xs @ (base, count + m) # ys). block_ok t x) \<and>
    sorted_wrt apart (xs @ (base, count + m) # ys) \<and>
    ring (blk_next t) (blk_prev t) (map fst (xs @ (base, count + m) # ys)) \<and>
    free_ptr t = free_ptr s \<and> free_page_count t = free_page_count s \<and>
    unat (count + m) = unat count + unat m \<and>
    (\<forall>p. p \<notin> insert base (fst ` set (xs @ (c, m) # ys)) \<longrightarrow> ram t p = ram s p)"
proof -
  let ?f = "map fst :: block list \<Rightarrow> u32 list"
  have ok: "block_ok s (c, m)" "\<forall>x \<in> set (xs @ (c, m) # ys). block_ok s x"
    using ch by (auto simp: chain_of_def)
  have c: "aligned c" "blk_size s c = m" and b: "aligned base" "page_of base = base"
    using ok(1) rg by (auto simp: block_ok_def range_ok_def aligned_def)
  have e': "unat base + 4096 * unat count = unat c" using range_block [OF rg] e by simp
  have k: "unat (count + m) = unat count + unat m"
    using unat_join [OF e'] ok(1) by (simp add: block_ok_def)
  have notend: "c + push_bit 12 m \<noteq> base"
  proof
    assume "c + push_bit 12 m = base"
    then have "unat c + 4096 * unat m = unat base"
      using block_end [OF ok(1)] rg by (simp add: range_ok_def)
    moreover have "unat count \<noteq> 0" using rg by (simp add: range_ok_def unat_eq_zero)
    ultimately show False using e' by simp
  qed
  have fresh: "base \<notin> set (?f (xs @ (c, m) # ys))"
    using fresh_base [OF ap _ ok(2)] rg by (simp add: range_ok_def)
  let ?t = "put_prev base (blk_prev s c) (put_next base (blk_next s c)
    (put_next (blk_prev s c) base (put_prev (blk_next s c) base s)))"
  have r: "ring (blk_next s) (blk_prev s) (c # ?f ys @ ?f xs)"
    using ch ring_rotate [of _ _ "?f xs" "c # ?f ys"] by (simp add: chain_of_def)
  have nodes: "\<forall>y \<in> set (c # ?f ys @ ?f xs). aligned y"
    using ok(2) by (auto simp: block_ok_def)
  have "ring (blk_next ?t) (blk_prev ?t) (base # ?f ys @ ?f xs)"
    using ne fresh b by (intro blk_ring.ring_replace [OF r _ nodes _ _ refl refl]) auto
  then have r': "ring (blk_next ?t) (blk_prev ?t) (?f xs @ base # ?f ys)"
    using ring_rotate [of _ _ "base # ?f ys" "?f xs"] by simp
  have "block_ok (put_size base (count + m) ?t) (base, count + m)"
    using b rg k e' ok(1) by (simp add: block_ok_put_size)
      (simp add: block_ok_def range_ok_def unat_eq_zero [symmetric])
  moreover have "block_ok (put_size base (count + m) ?t) x" if "x \<in> set xs \<union> set ys" for x
  proof -
    have "fst x \<noteq> base" using that fresh by auto
    then show ?thesis using that ok(2) b(1) by (auto simp: block_ok_put_size)
  qed
  moreover have "sorted_wrt apart (xs @ (base, count + m) # ys)"
  proof (rule sorted_wrt_apart_replace)
    show "sorted_wrt apart (xs @ (c, m) # ys)" using ch by (simp add: chain_of_def)
    show "pages (base, count + m) \<subseteq> pages (c, m) \<union> pages (base, count)"
      using pages_join [OF e' _ k] ok(1) e' k by (auto simp: block_ok_def)
    show "\<forall>x \<in> set xs \<union> set ys. pages x \<inter> pages (base, count) = {}"
      using ap by (auto simp: apart_def)
  qed
  moreover have "free_scan base count c s = Some (put_size base (count + m) ?t)"
    using notend e c(2) by (subst free_scan_round) (simp add: Let_def)
  moreover have "ram (put_size base (count + m) ?t) p = ram s p"
    if p: "p \<notin> insert base (fst ` set (xs @ (c, m) # ys))" for p
  proof -
    have "blk_next s c \<in> set (c # ?f ys @ ?f xs)" "blk_prev s c \<in> set (c # ?f ys @ ?f xs)"
      using ring_next_in [OF r] ring_prev_in [OF r] by simp_all
    moreover have "set (c # ?f ys @ ?f xs) = fst ` set (xs @ (c, m) # ys)" by auto
    ultimately have "p \<noteq> blk_next s c" "p \<noteq> blk_prev s c" "p \<noteq> base"
      "page_of (blk_next s c) = blk_next s c" "page_of (blk_prev s c) = blk_prev s c"
      using p nodes by (auto simp only: aligned_def insert_iff)
    then show ?thesis using b(2) by (simp add: ram_put)
  qed
  ultimately show ?thesis using r' k by auto
qed


text \<open>Freeing a range that ends where a block of the list starts, with at least one
  other block in the list, moves the header of that block down to the range.\<close>

theorem free_phys_pages_prepends:
  assumes fl: "free_list s (xs @ (c, m) # ys)" and ne: "xs @ ys \<noteq> []" and rg: "range_ok base count"
    and e: "base + push_bit 12 count = c" and ps: "passes base xs"
    and ap: "\<forall>x \<in> set (xs @ (c, m) # ys). apart (base, count) x"
  shows "\<exists>s'. free_phys_pages base count s = Some s' \<and>
    free_list s' (xs @ (base, count + m) # ys) \<and>
    (\<forall>p. p \<notin> insert base (fst ` set (xs @ (c, m) # ys)) \<longrightarrow> ram s' p = ram s p)"
proof -
  let ?s = "s\<lparr>phys_mutex := True\<rparr>"
  let ?bs = "xs @ (base, count + m) # ys"
  have ch: "chain_of ?s (xs @ (c, m) # ys)" using fl by (simp add: free_list_def)
  obtain u where u: "free_scan base count (fst (hd (xs @ [(c, m)]))) ?s = free_scan base count c u"
    "chain_of u (xs @ (c, m) # ys)" "ram u = ram s" "free_page_count u = free_page_count s"
    "free_ptr u = free_ptr s"
    using free_scan_skips [of ?s "[]" xs "(c, m)" ys base count] ch ps rg
    by (auto simp: range_ok_def split: if_splits)
  obtain t where t: "free_scan base count c u = Some t" "\<forall>x \<in> set ?bs. block_ok t x"
    "sorted_wrt apart ?bs" "ring (blk_next t) (blk_prev t) (map fst ?bs)" "free_ptr t = free_ptr u"
    "free_page_count t = free_page_count u" "unat (count + m) = unat count + unat m"
    "\<forall>p. p \<notin> insert base (fst ` set (xs @ (c, m) # ys)) \<longrightarrow> ram t p = ram u p"
    using free_scan_prepend [OF u(2) ne rg e ap] by blast
  have hd: "fst (hd (xs @ (c, m) # ys)) = fst (hd (xs @ [(c, m)]))" by (simp add: hd_append)
  have fp: "free_ptr s = fst (hd (xs @ (c, m) # ys))"
    using fl by (simp add: free_list_def chain_of_def)
  have "\<exists>s'. free_phys_pages base count s = Some s' \<and> free_list s' ?bs \<and> ram s' = ram t"
  proof (rule free_phys_run [OF fl _ _ t(2-4)])
    show "free_scan base count (fst (hd (xs @ (c, m) # ys))) ?s = Some t"
      using u(1) t(1) hd by simp
    show "fst (hd ?bs) = (if base < fst (hd (xs @ (c, m) # ys)) then base
        else fst (hd (xs @ (c, m) # ys)))"
      using ps range_end(1) [OF rg] e by (cases xs) (auto simp: passes_def not_less)
  qed (use t u fp in simp_all)
  then show ?thesis using t(8) u(3) by auto
qed

text \<open>The branch that links the range in as a block of its own, before \<open>cur\<close>.\<close>

definition insert_before :: "u32 \<Rightarrow> u32 \<Rightarrow> u32 \<Rightarrow> phys_mem \<Rightarrow> phys_mem" where
  "insert_before base count cur s =
     (let nxt = blk_next s cur
      in put_size base count (put_prev base nxt (put_next base cur
           (put_next nxt base (put_prev cur base s)))))"

definition adjacent :: "block \<Rightarrow> block \<Rightarrow> bool" where
  "adjacent a b \<longleftrightarrow> fst a + push_bit 12 (snd a) = fst b \<or> fst b + push_bit 12 (snd b) = fst a"

lemma insert_before_fields [simp]:
  "free_ptr (insert_before base count cur s) = free_ptr s"
  "free_page_count (insert_before base count cur s) = free_page_count s"
  by (simp_all add: insert_before_def Let_def)

lemma insert_before_blocks:
  assumes ch: "chain_of s bs" and rg: "range_ok base count"
    and ap: "\<forall>x \<in> set bs. apart (base, count) x" and cur: "cur \<in> set (map fst bs)"
  shows "\<forall>x \<in> insert (base, count) (set bs). block_ok (insert_before base count cur s) x"
    and "\<forall>p. p \<notin> insert base (fst ` set bs) \<longrightarrow> ram (insert_before base count cur s) p = ram s p"
    and "blk_next (insert_before base count cur s) = (\<lambda>p. if page_of p = base then cur
      else if page_of p = blk_next s cur then base else blk_next s p)"
    and "blk_prev (insert_before base count cur s) = (\<lambda>p. if page_of p = base then blk_next s cur
      else if page_of p = cur then base else blk_prev s p)"
proof -
  have ok: "\<forall>x \<in> set bs. block_ok s x" and r: "ring (blk_next s) (blk_prev s) (map fst bs)"
    using ch by (simp_all add: chain_of_def)
  have fresh: "base \<notin> set (map fst bs)"
    using fresh_base [OF ap _ ok] rg by (simp add: range_ok_def)
  have b: "aligned base" "page_of base = base" using rg by (auto simp: range_ok_def aligned_def)
  have nx: "blk_next s cur \<in> set (map fst bs)" using ring_next_in [OF r cur] .
  have al: "page_of cur = cur" "page_of (blk_next s cur) = blk_next s cur"
    using chain_of_nodes [OF ch, THEN bspec] cur nx unfolding aligned_def by blast+
  have "block_ok (insert_before base count cur s) x" if "x \<in> set bs" for x
  proof -
    have "fst x \<noteq> base" using that fresh by auto
    then show ?thesis using that ok b by (auto simp: insert_before_def Let_def block_ok_put_size)
  qed
  moreover have "block_ok (insert_before base count cur s) (base, count)"
    using rg b by (simp add: insert_before_def Let_def block_ok_put_size range_ok_def)
  ultimately show "\<forall>x \<in> insert (base, count) (set bs). block_ok (insert_before base count cur s) x"
    by simp
  show "\<forall>p. p \<notin> insert base (fst ` set bs) \<longrightarrow> ram (insert_before base count cur s) p = ram s p"
  proof (intro allI impI)
    fix p assume "p \<notin> insert base (fst ` set bs)"
    then have "p \<noteq> base" "p \<noteq> cur" "p \<noteq> blk_next s cur" using cur nx by (auto simp only: set_map insert_iff)
    then show "ram (insert_before base count cur s) p = ram s p"
      using b al by (simp add: insert_before_def Let_def ram_put)
  qed
  show "blk_next (insert_before base count cur s) = (\<lambda>p. if page_of p = base then cur
      else if page_of p = blk_next s cur then base else blk_next s p)"
    "blk_prev (insert_before base count cur s) = (\<lambda>p. if page_of p = base then blk_next s cur
      else if page_of p = cur then base else blk_prev s p)"
    using al b unfolding insert_before_def Let_def by (auto simp: blk_defs fun_eq_iff)
qed


lemma adjacent_simps:
  "range_ok base count \<Longrightarrow> block_ok s x \<Longrightarrow> \<not> adjacent (base, count) x \<Longrightarrow>
   fst x + push_bit 12 (blk_size s (fst x)) \<noteq> base \<and> base + push_bit 12 count \<noteq> fst x"
  by (auto simp: adjacent_def block_ok_def)

lemma free_scan_insert:
  assumes "range_ok base count" and "block_ok s x" and "\<not> adjacent (base, count) x"
    and "base < fst x \<or> blk_next s (fst x) = free_ptr s"
  shows "free_scan base count (fst x) s = Some (insert_before base count (fst x) s)"
  using assms adjacent_simps [OF assms(1-3)]
  by (subst free_scan_round) (auto simp: Let_def insert_before_def)

lemma free_scan_step:
  assumes "range_ok base count" and "block_ok s x" and "\<not> adjacent (base, count) x"
    and "\<not> base < fst x" and "blk_next s (fst x) \<noteq> free_ptr s"
  shows "free_scan base count (fst x) s =
    free_scan base count (blk_next s (fst x)) (temp_map_page (fst x) s)"
  using assms adjacent_simps [OF assms(1-3)]
  by (subst free_scan_round) (simp add: Let_def)

text \<open>
  Where the scan stops on one or two blocks: at the first one, or, where the range lies
  above it, at the second.
\<close>

definition insert_point :: "u32 \<Rightarrow> block list \<Rightarrow> u32" where
  "insert_point base bs = (if length bs = 2 \<and> \<not> base < fst (hd bs) then fst (bs ! 1) else fst (hd bs))"

lemma free_scan_insert_small:
  assumes ch: "chain_of s bs" and len: "bs \<noteq> []" "length bs \<le> 2" and rg: "range_ok base count"
    and ap: "\<forall>x \<in> set bs. \<not> adjacent (base, count) x"
  shows "\<exists>u. free_scan base count (fst (hd bs)) s = Some (insert_before base count (insert_point base bs) u) \<and>
    chain_of u bs \<and> ram u = ram s \<and> free_ptr u = free_ptr s \<and> free_page_count u = free_page_count s"
proof -
  have ok: "\<forall>x \<in> set bs. block_ok s x" and r: "ring (blk_next s) (blk_prev s) (map fst bs)"
    and fp: "free_ptr s = fst (hd bs)"
    using ch len by (auto simp: chain_of_def)
  have "bs = [hd bs] \<or> bs = [hd bs, bs ! 1]" using len by (cases bs; cases "tl bs") auto
  then consider (one) x where "bs = [x]" | (two) x y where "bs = [x, y]" by blast
  then show ?thesis
  proof cases
    case one
    then show ?thesis using free_scan_insert [OF rg, of s x] ok ap r fp ch
      by (intro exI [of _ s]) (simp add: insert_point_def)
  next
    case two
    have nx: "blk_next s (fst x) = fst y" "blk_next s (fst y) = fst x" "fst x \<noteq> fst y"
      using r two by (auto simp: ring_def)
    show ?thesis
    proof (cases "base < fst x")
      case True
      then show ?thesis using free_scan_insert [OF rg, of s x] ok ap two ch
        by (intro exI [of _ s]) (simp add: insert_point_def)
    next
      case False
      then show ?thesis using free_scan_step [OF rg, of s x] ok ap two nx fp ch
          free_scan_insert [OF rg, of "temp_map_page (fst x) s" y]
        by (intro exI [of _ "temp_map_page (fst x) s"]) (simp add: insert_point_def)
    qed
  qed
qed

text \<open>The list after the insertion.\<close>

definition insert_small :: "block \<Rightarrow> block list \<Rightarrow> block list" where
  "insert_small b bs = (if fst b < fst (hd bs) then b # bs else hd bs # b # tl bs)"

lemma insert_small_ring:
  assumes ch: "chain_of u bs" and len: "bs \<noteq> []" "length bs \<le> 2" and rg: "range_ok base count"
    and ap: "\<forall>x \<in> set bs. apart (base, count) x"
  defines "t \<equiv> insert_before base count (insert_point base bs) u"
  shows "ring (blk_next t) (blk_prev t) (map fst (insert_small (base, count) bs))"
    and "sorted_wrt apart (insert_small (base, count) bs)"
    and "insert_point base bs \<in> set (map fst bs)"
proof -
  have ok: "\<forall>x \<in> set bs. block_ok u x" and r: "ring (blk_next u) (blk_prev u) (map fst bs)"
    and srt: "sorted_wrt apart bs"
    using ch by (simp_all add: chain_of_def)
  have fresh: "base \<notin> set (map fst bs)"
    by (rule fresh_base [OF _ _ ok]) (use ap rg in \<open>auto simp: range_ok_def\<close>)
  have b: "page_of base = base" and al: "\<forall>x \<in> set bs. page_of (fst x) = fst x"
    using rg ok by (auto simp: range_ok_def block_ok_def aligned_def)
  have sym: "apart x y \<longleftrightarrow> apart y x" for x y by (auto simp: apart_def)
  have "bs = [hd bs] \<or> bs = [hd bs, bs ! 1]" using len by (cases bs; cases "tl bs") auto
  then consider (one) x where "bs = [x]" | (two) x y where "bs = [x, y]" by blast
  note cases = this
  show cur: "insert_point base bs \<in> set (map fst bs)"
    by (rule cases) (auto simp: insert_point_def)
  note t = insert_before_blocks(3,4) [OF ch rg ap cur]
  show "sorted_wrt apart (insert_small (base, count) bs)"
    by (rule cases) (use srt ap sym in \<open>auto simp: insert_small_def\<close>)
  show "ring (blk_next t) (blk_prev t) (map fst (insert_small (base, count) bs))"
    unfolding t_def t
    by (rule cases) (use r b al fresh in \<open>auto simp: insert_small_def insert_point_def ring_def\<close>)
qed

text \<open>Freeing a range that touches no block of a list of one or two blocks adds it to
  the list as a block of its own; the lowest of its blocks is still the first.\<close>

theorem free_phys_pages_inserts:
  assumes fl: "free_list s bs" and len: "bs \<noteq> []" "length bs \<le> 2" and rg: "range_ok base count"
    and ap: "\<forall>x \<in> set bs. apart (base, count) x \<and> \<not> adjacent (base, count) x"
  shows "\<exists>s' bs'. free_phys_pages base count s = Some s' \<and> free_list s' bs' \<and>
    set bs' = insert (base, count) (set bs) \<and> length bs' = Suc (length bs) \<and>
    (\<forall>p. p \<notin> insert base (fst ` set bs) \<longrightarrow> ram s' p = ram s p)"
proof -
  let ?bs = "insert_small (base, count) bs" and ?cur = "insert_point base bs"
  have ch: "chain_of (s\<lparr>phys_mutex := True\<rparr>) bs" and fp: "free_ptr s = fst (hd bs)"
    using fl len by (auto simp: free_list_def chain_of_def)
  obtain u where u: "free_scan base count (fst (hd bs)) (s\<lparr>phys_mutex := True\<rparr>) =
      Some (insert_before base count ?cur u)" "chain_of u bs" "ram u = ram s"
      "free_ptr u = free_ptr s" "free_page_count u = free_page_count s"
    using free_scan_insert_small [OF ch len rg] ap by auto
  have ap': "\<forall>x \<in> set bs. apart (base, count) x" using ap by simp
  note r = insert_small_ring [OF u(2) len rg ap']
  note t = insert_before_blocks(1,2) [OF u(2) rg ap' r(3)]
  have bs: "set ?bs = insert (base, count) (set bs)" "length ?bs = Suc (length bs)"
    "(\<Sum>x \<leftarrow> ?bs. unat (snd x)) = (\<Sum>x \<leftarrow> bs. unat (snd x)) + unat count"
    using len by (cases bs; auto simp: insert_small_def)+
  have "\<exists>s'. free_phys_pages base count s = Some s' \<and> free_list s' ?bs \<and>
      ram s' = ram (insert_before base count ?cur u)"
    by (rule free_phys_run [OF fl len(1) u(1) _ r(2,1) _ _ _ _ bs(3)])
      (use t(1) bs(1) fp u in \<open>simp_all add: insert_small_def\<close>)
  then show ?thesis using bs t(2) u(3) by auto
qed

section \<open>Where the free list breaks\<close>

lemma sorted_wrt_apart_mem:
  assumes "sorted_wrt apart bs" and "x \<in> set bs" and "y \<in> set bs" and "x \<noteq> y"
  shows "apart x y"
  using assms by (induction bs) (auto simp: apart_def)

text \<open>
  \<open>alone s n c m\<close>: unlocked, \<open>n\<close> pages counted, the ring is the header \<open>c\<close> of \<open>m\<close>
  pages.  \<open>pair s n b k c m\<close>: the ring is \<open>b\<close> and \<open>c\<close>, with \<open>k\<close> and \<open>m\<close> pages.
\<close>

definition alone :: "phys_mem \<Rightarrow> u32 \<Rightarrow> u32 \<Rightarrow> u32 \<Rightarrow> bool" where
  "alone s n c m \<longleftrightarrow> \<not> phys_mutex s \<and> free_page_count s = n \<and> free_ptr s = c \<and>
     blk_next s c = c \<and> blk_prev s c = c \<and> blk_size s c = m"

definition pair :: "phys_mem \<Rightarrow> u32 \<Rightarrow> u32 \<Rightarrow> u32 \<Rightarrow> u32 \<Rightarrow> u32 \<Rightarrow> bool" where
  "pair s n b k c m \<longleftrightarrow> \<not> phys_mutex s \<and> free_page_count s = n \<and> free_ptr s = b \<and>
     blk_next s b = c \<and> blk_prev s b = c \<and> blk_size s b = k \<and>
     blk_next s c = b \<and> blk_prev s c = b \<and> blk_size s c = m"

lemma free_below_alone:
  assumes s: "alone s n c m" and al: "aligned base" "aligned c" and lt: "base < c"
    and e: "base + push_bit 12 count = c" and notend: "c + push_bit 12 m \<noteq> base"
  shows "\<exists>s'. free_phys_pages base count s = Some s' \<and> pair s' (n + count) base (count + m) c m"
proof -
  let ?s = "s\<lparr>phys_mutex := True\<rparr>"
  let ?t = "put_size base (count + m) (put_prev base c (put_next base c
    (put_next c base (put_prev c base ?s))))"
  have "free_scan base count c ?s = Some ?t"
    using notend e s by (subst free_scan_round) (simp add: Let_def alone_def)
  moreover have "c \<noteq> - 1" using al(2) aligned_neq_minus1 by blast
  ultimately have "free_phys_pages base count s =
      Some (unlock_phys (?t\<lparr>free_ptr := base, free_page_count := n + count\<rparr>))"
    using s lt by (simp add: free_phys_pages_def lock_phys_free alone_def)
  then show ?thesis
    using less_imp_neq [OF lt] al s
    by (simp add: pair_def alone_def unlock_phys_def mutex_release_def blk_ring.links)
qed

lemma alloc_from_pair:
  assumes s: "pair s n b k c m" and al: "aligned b" "aligned c" "b \<noteq> c" and n: "\<not> n < count"
  shows "k = count \<Longrightarrow> \<exists>s'. alloc_phys_pages count s = Some (b, s') \<and> alone s' (n - count) c m"
    and "count < k \<Longrightarrow> \<exists>s'. alloc_phys_pages count s = Some (b + push_bit 12 (k - count), s') \<and>
      pair s' (n - count) b (k - count) c m"
proof -
  have f: "b \<noteq> - 1" "b + push_bit 12 (k - count) \<noteq> - 1"
    using aligned_neq_minus1 [OF al(1)] aligned_neq_minus1 [OF aligned_add [OF al(1), of "k - count"]]
    by auto
  have sc: "alloc_scan count b u = (if k = count then Some (b, (put_next c c (put_prev c c u))\<lparr>free_ptr := c\<rparr>)
      else if count < k then Some (b + push_bit 12 (k - count), put_size b (k - count) u)
      else alloc_scan count c (temp_map_page b u))"
    if "u = s\<lparr>phys_mutex := True\<rparr>" for u
    using s al that by (subst alloc_scan_round) (auto simp: pair_def)
  show "k = count \<Longrightarrow> \<exists>s'. alloc_phys_pages count s = Some (b, s') \<and> alone s' (n - count) c m"
    using s f n al by (auto simp: alloc_phys_pages_def lock_phys_free pair_def alone_def sc
      unlock_phys_def mutex_release_def blk_ring.links)
  show "count < k \<Longrightarrow> \<exists>s'. alloc_phys_pages count s = Some (b + push_bit 12 (k - count), s') \<and>
      pair s' (n - count) b (k - count) c m"
    using s f n al by (auto simp: alloc_phys_pages_def lock_phys_free pair_def sc
      unlock_phys_def mutex_release_def blk_ring.links)
qed

text \<open>Such a ring with overlapping blocks is no free list.\<close>

lemma overlap_no_list:
  assumes s: "pair s n base (count + m) c m" and ne: "base \<noteq> c" "aligned base" "m \<noteq> 0"
    and e: "unat base + 4096 * unat count = unat c" and top: "unat c + 4096 * unat m \<le> 2 ^ 32"
  shows "\<not> free_list s bs"
proof
  assume "free_list s bs"
  then have bs: "ring (blk_next s) (blk_prev s) (map fst bs)" "sorted_wrt apart bs"
    "\<forall>x \<in> set bs. block_ok s x" "free_ptr s = (if bs = [] then - 1 else fst (hd bs))"
    by (auto simp: free_list_def chain_of_def)
  have h: "free_ptr s = base" "blk_next s base = c" "blk_size s base = count + m" "blk_size s c = m"
    using s by (simp_all add: pair_def)
  have "base \<noteq> - 1" using ne(2) aligned_neq_minus1 by blast
  then have "base \<in> set (map fst bs)" using bs(4) h(1) by (cases bs) auto
  moreover from this have "c \<in> set (map fst bs)" using ring_next_in [OF bs(1)] h(2) by metis
  ultimately have "(base, count + m) \<in> set bs" "(c, m) \<in> set bs"
    using bs(3) h by (auto simp: block_ok_def)
  then have "apart (base, count + m) (c, m)" using sorted_wrt_apart_mem [OF bs(2)] ne(1) by simp
  moreover have "pages (base, count + m) = pages (base, count) \<union> pages (c, m)"
    using top e unat_join [OF e] by (intro pages_join) auto
  ultimately show False using pages_nonempty [of "(c, m)"] ne(3) by (auto simp: apart_def)
qed

text \<open>Freeing the range just below the only block of the list leaves a ring of two
  headers, the new one and the old one, whose blocks overlap: the memory holds no
  well-formed free list any more.\<close>

theorem free_phys_pages_single_overlap:
  assumes fl: "free_list s [(c, m)]" and rg: "range_ok base count"
    and e: "base + push_bit 12 count = c"
  shows "\<exists>s'. free_phys_pages base count s = Some s' \<and>
    free_ptr s' = base \<and> blk_next s' base = c \<and> blk_size s' base = count + m \<and>
    blk_next s' c = base \<and> blk_size s' c = m \<and> \<not> (\<exists>bs. free_list s' bs)"
proof -
  have ok: "block_ok s (c, m)" and s: "alone s (free_page_count s) c m"
    using fl by (auto simp: free_list_def chain_of_def alone_def block_ok_def)
  have e': "unat base + 4096 * unat count = unat c" using range_block [OF rg] e by simp
  have lt: "base < c" using range_end(1) [OF rg] e by simp
  have notend: "c + push_bit 12 m \<noteq> base"
  proof
    assume "c + push_bit 12 m = base"
    then have "unat c + 4096 * unat m = unat base"
      using block_end [OF ok] rg by (simp add: range_ok_def)
    then show False using lt by (simp add: word_less_nat_alt)
  qed
  obtain s' where s': "free_phys_pages base count s = Some s'"
    "pair s' (free_page_count s + count) base (count + m) c m"
    using free_below_alone [OF s _ _ lt e notend] rg ok by (auto simp: range_ok_def block_ok_def)
  then have "\<not> free_list s' bs" for bs
    using overlap_no_list [OF s'(2) _ _ _ e'] less_imp_neq [OF lt] rg ok
    by (auto simp: range_ok_def block_ok_def)
  then show ?thesis using s' by (auto simp: pair_def)
qed

text \<open>With three blocks in the list, freeing a range below all of them and touching none
  drops the last block from the ring: its pages stay counted as free and can never be
  allocated.\<close>

theorem free_phys_pages_drops_third:
  assumes fl: "free_list s [x, y, z]" and rg: "range_ok base count" and lt: "base < fst x"
    and ap: "\<forall>b \<in> {x, y, z}. apart (base, count) b \<and> \<not> adjacent (base, count) b"
  shows "\<exists>s'. free_phys_pages base count s = Some s' \<and> chain_of s' [(base, count), x, y] \<and>
    unat (free_page_count s') = unat count + unat (snd x) + unat (snd y) + unat (snd z)"
proof -
  let ?s = "s\<lparr>phys_mutex := True\<rparr>"
  have ch: "chain_of ?s [x, y, z]" and s: "\<not> phys_mutex s" "free_ptr s = fst x"
    and pc: "unat (free_page_count s) = unat (snd x) + unat (snd y) + unat (snd z)"
    using fl by (auto simp: free_list_def chain_of_def)
  have ok: "\<forall>b \<in> {x, y, z}. block_ok ?s b" and r: "ring (blk_next s) (blk_prev s) [fst x, fst y, fst z]"
    and srt: "sorted_wrt apart [x, y, z]"
    using ch by (simp_all add: chain_of_def)
  have ap': "\<forall>b \<in> set [x, y, z]. apart (base, count) b" using ap by simp
  have "\<forall>b \<in> set [x, y, z]. block_ok ?s b" using ok by simp
  then have fresh: "base \<notin> set (map fst [x, y, z])"
    by (rule fresh_base [OF ap', rotated]) (use rg in \<open>simp add: range_ok_def\<close>)
  have b: "page_of base = base" and al: "\<forall>b \<in> {x, y, z}. page_of (fst b) = fst b"
    using rg ok by (auto simp: range_ok_def block_ok_def aligned_def)
  let ?t = "insert_before base count (fst x) ?s"
  have scan: "free_scan base count (fst x) ?s = Some ?t"
    using free_scan_insert [OF rg, of ?s x] ok ap lt by simp
  have "fst x \<noteq> - 1" using ok aligned_neq_minus1 by (simp add: block_ok_def)
  then have eq: "free_phys_pages base count s =
      Some (unlock_phys (?t\<lparr>free_ptr := base, free_page_count := free_page_count s + count\<rparr>))"
    using s lt scan by (simp add: free_phys_pages_def lock_phys_free)
  have t: "\<forall>b \<in> insert (base, count) (set [x, y, z]). block_ok ?t b"
    using insert_before_blocks(1) [OF ch rg ap', of "fst x"] by simp
  have "ring (blk_next ?t) (blk_prev ?t) [base, fst x, fst y]"
    using insert_before_blocks(3,4) [OF ch rg ap', of "fst x"] r b al fresh by (auto simp: ring_def)
  moreover have "sorted_wrt apart [(base, count), x, y, z]" using srt ap by simp
  moreover have "unat (free_page_count s + count) = unat (free_page_count s) + unat count"
    using sum_bound [of "[(base, count), x, y, z]" ?t] t calculation(2) pc
    by (subst unat_add_lem [symmetric]) simp
  ultimately show ?thesis using t pc unfolding eq
    by (auto simp: chain_of_def unlock_phys_def)
qed

text \<open>The overlap of a single block and the range below it hands out one page twice:
  after two frees, an allocated page comes back from a later allocation although it
  was never freed.\<close>

theorem double_allocation:
  "(do {
     s \<leftarrow> free_phys_pages 0x2000 1 \<lparr>ram = (\<lambda>_ _. 0), temp_pte = 0, free_page_count = 0,
            free_ptr = - 1, phys_mutex = False\<rparr>;
     s \<leftarrow> free_phys_pages 0x1000 1 s;
     (p, s) \<leftarrow> alloc_phys_pages 1 s;
     (q, s) \<leftarrow> alloc_phys_pages 1 s;
     s \<leftarrow> free_phys_pages q 1 s;
     (r, s) \<leftarrow> alloc_phys_pages 1 s;
     Some (p, q, r)
   }) = Some (0x2000, 0x1000, 0x2000)"
proof -
  have al: "aligned 0x1000" "aligned 0x2000" by (simp_all add: aligned_def page_of_def)
  let ?s0 = "\<lparr>ram = (\<lambda>_ _. 0), temp_pte = 0, free_page_count = 0, free_ptr = - 1,
    phys_mutex = False\<rparr>"
  have "\<exists>s. free_phys_pages 0x2000 1 ?s0 = Some s \<and> alone s 1 0x2000 1"
    by (simp add: free_phys_pages_def lock_phys_free unlock_phys_def mutex_release_def alone_def
      Let_def header_access blk_ring.links al del: One_nat_def)
  then obtain s1 where s1: "free_phys_pages 0x2000 1 ?s0 = Some s1" "alone s1 1 0x2000 1" by blast
  obtain s2 where s2: "free_phys_pages 0x1000 1 s1 = Some s2" "pair s2 2 0x1000 2 0x2000 1"
    using free_below_alone [OF s1(2) al, of 1] by auto
  obtain s3 where s3: "alloc_phys_pages 1 s2 = Some (0x2000, s3)" "pair s3 1 0x1000 1 0x2000 1"
    using alloc_from_pair(2) [OF s2(2) al, of 1] by auto
  obtain s4 where s4: "alloc_phys_pages 1 s3 = Some (0x1000, s4)" "alone s4 0 0x2000 1"
    using alloc_from_pair(1) [OF s3(2) al, of 1] by auto
  obtain s5 where s5: "free_phys_pages 0x1000 1 s4 = Some s5" "pair s5 1 0x1000 2 0x2000 1"
    using free_below_alone [OF s4(2) al, of 1] by auto
  obtain s6 where "alloc_phys_pages 1 s5 = Some (0x2000, s6)"
    using alloc_from_pair(2) [OF s5(2) al, of 1] by auto
  then show ?thesis using s1(1) s2(1) s3(1) s4(1) s5(1) by simp
qed

section \<open>Freeing in good order\<close>

text \<open>
  The freeings that keep the free list well-formed: the range is whole and apart from the list, and the list is empty, a
  block ends where the range starts, another than the only block starts where it ends, or the range
  touches none of at most two blocks.
\<close>

definition frees_cleanly :: "block list \<Rightarrow> block \<Rightarrow> bool" where
  "frees_cleanly bs r \<longleftrightarrow> range_ok (fst r) (snd r) \<and> (\<forall>x \<in> set bs. apart r x) \<and>
     (bs = [] \<or>
      (\<exists>xs b ys. bs = xs @ b # ys \<and> fst b + push_bit 12 (snd b) = fst r \<and> passes (fst r) xs) \<or>
      (\<exists>xs b ys. bs = xs @ b # ys \<and> xs @ ys \<noteq> [] \<and> fst r + push_bit 12 (snd r) = fst b \<and> passes (fst r) xs) \<or>
      length bs \<le> 2 \<and> (\<forall>x \<in> set bs. \<not> adjacent r x))"

lemma joined_pages:
  fixes b n c m :: u32
  assumes "unat b + 4096 * unat n = unat c" and "unat c + 4096 * unat m \<le> 2 ^ 32"
  shows "pages (b, n + m) = pages (b, n) \<union> pages (c, m)"
proof -
  note u = unat_join [OF assms]
  have "unat b + 4096 * unat (n + m) \<le> 2 ^ 32" unfolding u distrib_left using assms by simp
  then show ?thesis using assms(1) u by (intro pages_join)
qed

lemma join_next_pages:
  assumes e: "unat b + 4096 * unat n = unat base" and rg: "range_ok base count" and ok: "\<forall>x \<in> set ys. block_ok s x"
  shows "free_pages (join_next (b, n + count) ys) = pages (b, n) \<union> pages (base, count) \<union> free_pages ys"
proof -
  have r: "unat base + 4096 * unat count < 2 ^ 32" using rg by (simp add: range_ok_def)
  have j: "pages (b, n + count) = pages (b, n) \<union> pages (base, count)" using joined_pages [OF e] r by simp
  have u: "unat (n + count) = unat n + unat count" using unat_join [OF e] r by simp
  show ?thesis
  proof (cases ys)
    case Nil
    then show ?thesis using j by (simp add: join_next_def free_pages_def)
  next
    case (Cons y zs)
    obtain c m where y: "y = (c, m)" by (cases y)
    show ?thesis
    proof (cases "c = b + push_bit 12 (n + count)")
      case True
      have "unat b + 4096 * unat (n + count) < 2 ^ 32" using e r u by simp
      then have c: "unat b + 4096 * unat (n + count) = unat c" unfolding True by (rule unat_block_offset [symmetric])
      have "unat c + 4096 * unat m \<le> 2 ^ 32" using ok Cons y by (simp add: block_ok_def)
      from joined_pages [OF c this] show ?thesis using True Cons y j by (auto simp: join_next_def free_pages_def)
    qed (use Cons y j in \<open>auto simp: join_next_def free_pages_def\<close>)
  qed
qed

lemma free_pages_split: "free_pages (xs @ b # ys) = free_pages xs \<union> pages b \<union> free_pages ys"
  by (auto simp: free_pages_def)

lemma frees_cleanly_run:
  assumes fl: "free_list s bs" and c: "frees_cleanly bs (base, count)"
  shows "\<exists>s' bs'. free_phys_pages base count s = Some s' \<and> free_list s' bs' \<and>
    free_pages bs' = free_pages bs \<union> pages (base, count) \<and>
    (\<forall>p. p \<notin> insert base (fst ` set bs) \<longrightarrow> ram s' p = ram s p)"
proof -
  have rg: "range_ok base count" and ap: "\<forall>x \<in> set bs. apart (base, count) x" using c by (simp_all add: frees_cleanly_def)
  have ok: "\<forall>x \<in> set bs. block_ok s x" using fl by (simp add: free_list_def chain_of_def)
  consider "bs = []" | xs b n ys where "bs = xs @ (b, n) # ys" "b + push_bit 12 n = base" "passes base xs"
    | xs b n ys where "bs = xs @ (b, n) # ys" "xs @ ys \<noteq> []" "base + push_bit 12 count = b" "passes base xs"
    | "bs \<noteq> []" "length bs \<le> 2" "\<forall>x \<in> set bs. \<not> adjacent (base, count) x"
    using c by (auto simp: frees_cleanly_def)
  then show ?thesis
  proof cases
    case 1
    then obtain s' where "free_phys_pages base count s = Some s'" "free_list s' [(base, count)]" "\<forall>p. p \<noteq> base \<longrightarrow> ram s' p = ram s p"
      using free_phys_pages_first [of s base count] fl rg by blast
    then show ?thesis using 1 by (intro exI [of _ s'] exI [of _ "[(base, count)]"]) (simp add: free_pages_def)
  next
    case 2
    from free_extends [OF fl [unfolded 2(1)] rg 2(2,3) ap [unfolded 2(1)]] obtain s' where
      s': "free_phys_pages base count s = Some s'" "free_list s' (xs @ join_next (b, n + count) ys)"
      "\<forall>p. p \<notin> fst ` set (xs @ (b, n) # ys) \<longrightarrow> ram s' p = ram s p" by blast
    have "block_ok s (b, n)" "base \<noteq> 0" using ok rg 2(1) by (auto simp: range_ok_def)
    from block_end [OF this(1) 2(2) this(2)] have "unat b + 4096 * unat n = unat base" .
    from join_next_pages [OF this rg, of ys s] ok 2(1)
    have "free_pages (xs @ join_next (b, n + count) ys) = free_pages bs \<union> pages (base, count)"
      unfolding 2(1) free_pages_split by (auto simp: free_pages_def)
    then show ?thesis using s' 2(1) by blast
  next
    case 3
    from free_phys_pages_prepends [OF fl [unfolded 3(1)] 3(2) rg 3(3,4) ap [unfolded 3(1)]] obtain s' where
      s': "free_phys_pages base count s = Some s'" "free_list s' (xs @ (base, count + n) # ys)"
      "\<forall>p. p \<notin> insert base (fst ` set (xs @ (b, n) # ys)) \<longrightarrow> ram s' p = ram s p" by blast
    have "unat base + 4096 * unat count = unat b" using range_block [OF rg] 3(3) by simp
    moreover have "unat b + 4096 * unat n \<le> 2 ^ 32" using ok 3(1) by (simp add: block_ok_def)
    ultimately have "pages (base, count + n) = pages (base, count) \<union> pages (b, n)" by (rule joined_pages)
    then have "free_pages (xs @ (base, count + n) # ys) = free_pages bs \<union> pages (base, count)"
      unfolding 3(1) free_pages_split by auto
    then show ?thesis using s' 3(1) by blast
  next
    case 4
    from free_phys_pages_inserts [OF fl 4(1,2) rg] ap 4(3) obtain s' bs' where
      s': "free_phys_pages base count s = Some s'" "free_list s' bs'" "set bs' = insert (base, count) (set bs)"
      "\<forall>p. p \<notin> insert base (fst ` set bs) \<longrightarrow> ram s' p = ram s p" by blast
    moreover have "free_pages bs' = free_pages bs \<union> pages (base, count)" using s'(3) by (auto simp: free_pages_def)
    ultimately show ?thesis by blast
  qed
qed


section \<open>Concrete lists\<close>

definition demo_mem :: "(u32 \<times> u32 \<times> u32 \<times> u32) list \<Rightarrow> u32 \<Rightarrow> u32 \<Rightarrow> phys_mem" where
  "demo_mem hs n p = \<lparr>ram = (\<lambda>b i. case map_of hs b of
       None \<Rightarrow> 0 | Some (nx, pv, k) \<Rightarrow> if i = 0 then nx else if i = 1 then pv else k),
     temp_pte = 0, free_page_count = n, free_ptr = p, phys_mutex = False\<rparr>"

lemmas demo_simps = demo_mem_def free_list_def chain_of_def block_ok_def apart_def pages_def
  ring_def aligned_def page_of_def blk_next_def blk_prev_def blk_size_def

lemma demo_empty: "free_list (demo_mem [] 0 (- 1)) []"
  by (simp add: demo_simps)

lemma demo_one: "free_list (demo_mem [(0x2000, 0x2000, 0x2000, 3)] 3 0x2000) [(0x2000, 3)]"
  by (simp add: demo_simps)

lemma demo_two:
  "free_list (demo_mem [(0x2000, 0x6000, 0x6000, 1), (0x6000, 0x2000, 0x2000, 2)] 3 0x2000)
     [(0x2000, 1), (0x6000, 2)]"
  by (simp add: demo_simps)

lemma demo_three:
  "free_list (demo_mem [(0x4000, 0x6000, 0x9000, 1), (0x6000, 0x9000, 0x4000, 2),
       (0x9000, 0x4000, 0x6000, 5)] 8 0x4000) [(0x4000, 1), (0x6000, 2), (0x9000, 5)]"
  by (simp add: demo_simps)

lemmas demo_range = range_ok_def passes_def apart_def pages_def adjacent_def aligned_def page_of_def

theorem alloc_phys_pages_refines_witness:
  "\<exists>r s'. alloc_phys_pages 2 (demo_mem [(0x2000, 0x6000, 0x6000, 1), (0x6000, 0x2000, 0x2000, 2)]
     3 0x2000) = Some (r, s') \<and> r = 0x6000 \<and> free_list s' [(0x2000, 1)]"
  using alloc_phys_pages_refines [OF demo_two, of 2] by auto

theorem free_phys_pages_first_witness:
  "\<exists>s'. free_phys_pages 0x3000 4 (demo_mem [] 0 (- 1)) = Some s' \<and> free_list s' [(0x3000, 4)]"
  using free_phys_pages_first [OF demo_empty, of "0x3000" 4] by (auto simp: demo_range)

theorem free_phys_pages_extends_witness:
  "\<exists>s'. free_phys_pages 0x3000 3 (demo_mem [(0x2000, 0x6000, 0x6000, 1),
     (0x6000, 0x2000, 0x2000, 2)] 3 0x2000) = Some s' \<and> free_list s' [(0x2000, 6)]"
  using free_phys_pages_extends [of _ "[]" "0x2000" 1 "[(0x6000, 2)]" "0x3000" 3] demo_two
  by (auto simp: demo_range join_next_def)

theorem free_phys_pages_prepends_witness:
  "\<exists>s'. free_phys_pages 0x5000 1 (demo_mem [(0x2000, 0x6000, 0x6000, 1),
     (0x6000, 0x2000, 0x2000, 2)] 3 0x2000) = Some s' \<and> free_list s' [(0x2000, 1), (0x5000, 3)]"
  using free_phys_pages_prepends [of _ "[(0x2000, 1)]" "0x6000" 2 "[]" "0x5000" 1] demo_two
  by (auto simp: demo_range)

theorem free_phys_pages_inserts_witness:
  "\<exists>s' bs'. free_phys_pages 0x4000 1 (demo_mem [(0x2000, 0x6000, 0x6000, 1),
     (0x6000, 0x2000, 0x2000, 2)] 3 0x2000) = Some s' \<and> free_list s' bs' \<and>
     set bs' = {(0x2000, 1), (0x4000, 1), (0x6000, 2)}"
proof -
  have "range_ok 0x4000 1" "\<forall>x \<in> set [(0x2000, 1), (0x6000, 2)].
      apart (0x4000, 1) x \<and> \<not> adjacent (0x4000, 1) x"
    by (simp_all add: demo_range)
  from free_phys_pages_inserts [OF demo_two _ _ this] show ?thesis by auto
qed

theorem free_phys_pages_single_overlap_witness:
  "\<exists>s'. free_phys_pages 0x1000 1 (demo_mem [(0x2000, 0x2000, 0x2000, 3)] 3 0x2000) = Some s' \<and>
     free_ptr s' = 0x1000 \<and> blk_size s' 0x1000 = 4 \<and> blk_next s' 0x1000 = 0x2000 \<and>
     blk_size s' 0x2000 = 3"
  using free_phys_pages_single_overlap [OF demo_one, of "0x1000" 1] by (auto simp: demo_range)

theorem free_phys_pages_drops_third_witness:
  "\<exists>s'. free_phys_pages 0x1000 2 (demo_mem [(0x4000, 0x6000, 0x9000, 1),
     (0x6000, 0x9000, 0x4000, 2), (0x9000, 0x4000, 0x6000, 5)] 8 0x4000) = Some s' \<and>
     chain_of s' [(0x1000, 2), (0x4000, 1), (0x6000, 2)] \<and> unat (free_page_count s') = 10"
  using free_phys_pages_drops_third [OF demo_three, of "0x1000" 2] by (auto simp: demo_range)

end
