(* ===== verification/Paging.thy ===== *)
theory Paging
  imports Phys_Memory
begin

text \<open>
  The two-level page tables of \<^verbatim>\<open>src/kernel/memory_manager.c\<close>: \<^verbatim>\<open>map_pages\<close> writes
  entries (and creates page tables on the way), \<^verbatim>\<open>get_page_info\<close> reads them, both
  through \<^verbatim>\<open>TEMP_PAGE\<close>.  The tables live in the same physical memory as the free list.
  \<^verbatim>\<open>flush_page_cache\<close> has no counterpart: there is no translation cache in the model.
\<close>

section \<open>Definitions\<close>

definition page_index :: "nat \<Rightarrow> u32 \<Rightarrow> nat" where
  "page_index shift vaddr = unat (drop_bit shift vaddr AND 0x3FF)"

definition get_page_directory_index :: "u32 \<Rightarrow> nat" where
  "get_page_directory_index vaddr = page_index 22 vaddr"

definition get_page_table_index :: "u32 \<Rightarrow> nat" where
  "get_page_table_index vaddr = page_index 12 vaddr"

text \<open>\<^verbatim>\<open>memset((void*)TEMP_PAGE, 0, PAGE_SIZE)\<close>.\<close>

definition temp_clear :: "phys_mem \<Rightarrow> phys_mem" where
  "temp_clear s = s\<lparr>ram := (ram s)(page_of (temp_pte s) :=
     (\<lambda>i. if i < 1024 then 0 else ram s (page_of (temp_pte s)) i))\<rparr>"

text \<open>The inner loop, from the page table \<open>page_table\<close> at level \<open>shift\<close> on.\<close>

fun map_walk :: "nat \<Rightarrow> u32 \<Rightarrow> u32 \<Rightarrow> u32 \<Rightarrow> u32 \<Rightarrow> phys_mem \<Rightarrow> (bool \<times> phys_mem) option" where
  "map_walk shift page_table vaddr paddr flags s0 =
     (if shift < 12 then Some (True, s0)
      else
        let index = page_index shift vaddr;
            s = temp_map_page page_table s0
        in if 12 < shift then
             (let entry = temp_rd index s
              in if entry AND PAGE_PRESENT = 0 then do {
                   (addr, s) \<leftarrow> alloc_phys_pages 1 s;
                   if addr \<noteq> - 1
                   then (let s = temp_clear (temp_map_page addr s);
                             s = temp_map_page page_table s;
                             s = temp_wr index (addr OR PAGE_PRESENT OR PAGE_WRITABLE OR 4) s
                         in map_walk (shift - 10) addr vaddr paddr flags s)
                   else Some (False, s)
                 }
                 else map_walk (shift - 10) entry vaddr paddr flags s)
           else map_walk (shift - 10) page_table vaddr paddr flags
                  (temp_wr index ((paddr AND NOT (of_nat PAGE_OFFSET_BITS)) OR flags) s))"

fun map_pages_loop :: "nat \<Rightarrow> u32 \<Rightarrow> u32 \<Rightarrow> u32 \<Rightarrow> u32 \<Rightarrow> phys_mem \<Rightarrow> (bool \<times> phys_mem) option" where
  "map_pages_loop 0 page_dir vaddr paddr flags s = Some (True, s)"
| "map_pages_loop (Suc n) page_dir vaddr paddr flags s = do {
     (ok, s) \<leftarrow> map_walk 22 page_dir vaddr paddr flags s;
     if ok then map_pages_loop n page_dir (vaddr + PAGE_SIZE) (paddr + PAGE_SIZE) flags s
     else Some (False, s)
   }"

definition map_pages ::
  "u32 \<Rightarrow> u32 \<Rightarrow> u32 \<Rightarrow> u32 \<Rightarrow> u32 \<Rightarrow> phys_mem \<Rightarrow> (bool \<times> phys_mem) option" where
  "map_pages page_dir vaddr paddr count flags s =
     map_pages_loop (unat count) page_dir vaddr paddr flags s"

definition get_page_info :: "u32 \<Rightarrow> u32 \<Rightarrow> phys_mem \<Rightarrow> u32 \<times> phys_mem" where
  "get_page_info page_dir vaddr s =
     (let s = temp_map_page page_dir s;
          pde = temp_rd (get_page_directory_index vaddr) s
      in if pde AND PAGE_PRESENT = 0 then (0, s)
         else
           let s = temp_map_page (pde AND NOT 0xFFF) s
           in (temp_rd (get_page_table_index vaddr) s, s))"

declare map_walk.simps [simp del]

section \<open>Invariant\<close>

text \<open>
  \<open>dir_entry\<close> and \<open>lookup\<close> read the tables; \<open>paging_ok s dir bs\<close>: the free list is
  \<open>bs\<close>, the directory and the tables it points at are aligned frames outside the free
  pages, and no two directory entries share a table.
\<close>

definition dir_entry :: "phys_mem \<Rightarrow> u32 \<Rightarrow> nat \<Rightarrow> u32" where
  "dir_entry s dir i = ram s (page_of dir) i"

definition present :: "u32 \<Rightarrow> bool" where
  "present e \<longleftrightarrow> e AND 1 \<noteq> 0"

definition lookup :: "phys_mem \<Rightarrow> u32 \<Rightarrow> u32 \<Rightarrow> u32" where
  "lookup s dir vaddr =
     (let e = dir_entry s dir (page_index 22 vaddr)
      in if present e then ram s (page_of e) (page_index 12 vaddr) else 0)"

definition in_use :: "block list \<Rightarrow> u32 \<Rightarrow> bool" where
  "in_use bs a \<longleftrightarrow> aligned a \<and> unat a div 4096 \<notin> free_pages bs"

definition paging_ok :: "phys_mem \<Rightarrow> u32 \<Rightarrow> block list \<Rightarrow> bool" where
  "paging_ok s dir bs \<longleftrightarrow>
     free_list s bs \<and> in_use bs dir \<and>
     (\<forall>i < 1024. present (dir_entry s dir i) \<longrightarrow>
        in_use bs (page_of (dir_entry s dir i)) \<and> page_of (dir_entry s dir i) \<noteq> dir) \<and>
     (\<forall>i < 1024. \<forall>j < 1024. present (dir_entry s dir i) \<longrightarrow> present (dir_entry s dir j) \<longrightarrow>
        page_of (dir_entry s dir i) = page_of (dir_entry s dir j) \<longrightarrow> i = j)"

lemma paging_ok_list: "paging_ok s dir bs \<Longrightarrow> free_list s bs"
  by (simp add: paging_ok_def)

text \<open>\<^verbatim>\<open>get_page_info\<close> is \<open>lookup\<close>.\<close>

lemma get_page_info_lookup: "fst (get_page_info dir vaddr s) = lookup s dir vaddr"
  unfolding get_page_info_def page_of_def [symmetric]
  by (simp add: lookup_def Let_def temp_rd_ram get_page_directory_index_def
    get_page_table_index_def dir_entry_def present_def)

section \<open>Frames in use and the free list\<close>

text \<open>Headers lie in free pages, so memory in use can change under the free list.\<close>

lemma header_free:
  assumes "free_list s bs" and "p \<in> fst ` set bs"
  shows "unat p div 4096 \<in> free_pages bs" and "aligned p"
proof -
  obtain n where m: "(p, n) \<in> set bs" using assms(2) by auto
  then have "block_ok s (p, n)" using assms(1) by (auto simp: free_list_def chain_of_def)
  then show "unat p div 4096 \<in> free_pages bs" "aligned p"
    using m pages_nonempty [of "(p, n)"] by (auto simp: free_pages_def block_ok_def)
qed

lemma free_list_frame:
  assumes fl: "free_list s bs" and same: "\<And>p. p \<in> fst ` set bs \<Longrightarrow> ram t p = ram s p"
    and f: "free_ptr t = free_ptr s" "free_page_count t = free_page_count s"
      "phys_mutex t = phys_mutex s"
  shows "free_list t bs"
proof -
  have al: "page_of p = p" if "p \<in> fst ` set bs" for p
    using header_free(2) [OF fl that] by (simp add: aligned_def)
  have hd: "blk_next t p = blk_next s p" "blk_prev t p = blk_prev s p" "blk_size t p = blk_size s p"
    if "p \<in> fst ` set bs" for p
    using same [OF that] al [OF that] by (simp_all add: blk_next_def blk_prev_def blk_size_def)
  have "ring (blk_next t) (blk_prev t) (map fst bs) = ring (blk_next s) (blk_prev s) (map fst bs)"
    by (rule ring_cong) (use hd in auto)
  moreover have "block_ok t b = block_ok s b" if "b \<in> set bs" for b
    using hd(3) [of "fst b"] that by (simp add: block_ok_def)
  ultimately show ?thesis using fl f by (simp add: free_list_def chain_of_def)
qed

lemma in_use_not_header: "free_list s bs \<Longrightarrow> in_use bs a \<Longrightarrow> a \<notin> fst ` set bs"
  using header_free by (auto simp: in_use_def)

lemma in_use_page [simp]: "in_use bs a \<Longrightarrow> page_of a = a"
  by (simp add: in_use_def aligned_def)

lemma in_use_mono: "in_use bs a \<Longrightarrow> free_pages bs' \<subseteq> free_pages bs \<Longrightarrow> in_use bs' a"
  by (auto simp: in_use_def)

lemma temp_clear_fields [simp]:
  "free_ptr (temp_clear s) = free_ptr s" "free_page_count (temp_clear s) = free_page_count s"
  "phys_mutex (temp_clear s) = phys_mutex s" "temp_pte (temp_clear s) = temp_pte s"
  "ram (temp_clear s) = (ram s)(page_of (temp_pte s) :=
     (\<lambda>i. if i < 1024 then 0 else ram s (page_of (temp_pte s)) i))"
  by (simp_all add: temp_clear_def)

lemma free_list_map [simp]: "free_list (temp_map_page b s) bs = free_list s bs"
  by (auto simp: free_list_def)

lemma temp_map_cong: "page_of a = page_of b \<Longrightarrow> temp_map_page a s = temp_map_page b s"
  by (simp only: temp_map_page_def page_of_def)

lemma free_list_write:
  assumes "free_list s bs" and "in_use bs a" and "page_of b = a"
  shows "free_list (temp_wr i v (temp_map_page b s)) bs"
    and "free_list (temp_clear (temp_map_page b s)) bs"
proof -
  have ne: "p \<noteq> a" if "p \<in> fst ` set bs" for p
    using in_use_not_header [OF assms(1,2)] that by metis
  show "free_list (temp_wr i v (temp_map_page b s)) bs"
    by (rule free_list_frame [OF assms(1)]) (simp_all add: ne assms(3))
  show "free_list (temp_clear (temp_map_page b s)) bs"
    by (rule free_list_frame [OF assms(1)]) (simp_all add: ne assms(3))
qed

text \<open>Allocation: the pages were free and are in use afterwards; memory in use is untouched.\<close>

lemma alloc_in_use:
  assumes "free_list s bs"
  shows "\<exists>r t bs'. alloc_phys_pages count s = Some (r, t) \<and> free_list t bs' \<and>
    free_pages bs' \<subseteq> free_pages bs \<and> (\<forall>a. in_use bs a \<longrightarrow> ram t a = ram s a) \<and>
    (r = - 1 \<longleftrightarrow> take_block count bs = None) \<and>
    (r \<noteq> - 1 \<longrightarrow> aligned r \<and> pages (r, count) \<subseteq> free_pages bs \<and>
       pages (r, count) \<inter> free_pages bs' = {} \<and>
       (\<Sum>b \<leftarrow> bs. unat (snd b)) = (\<Sum>b \<leftarrow> bs'. unat (snd b)) + unat count)"
proof -
  obtain r t where a: "alloc_phys_pages count s = Some (r, t)"
    and c: "case take_block count bs of None \<Rightarrow> r = - 1 \<and> free_list t bs
       | Some (a, bs') \<Rightarrow> r = a \<and> a \<noteq> - 1 \<and> aligned a \<and> free_list t bs' \<and>
         pages (a, count) \<subseteq> free_pages bs \<and> free_pages bs' \<subseteq> free_pages bs \<and>
         (\<forall>b \<in> set bs'. apart (a, count) b)"
    and f: "\<forall>p. p \<notin> fst ` set bs \<longrightarrow> ram t p = ram s p"
    using alloc_refine [OF assms, of count] by blast
  have fr: "\<forall>a. in_use bs a \<longrightarrow> ram t a = ram s a"
    using f in_use_not_header [OF assms] by blast
  show ?thesis
  proof (cases "take_block count bs")
    case None
    then show ?thesis using a c fr by auto
  next
    case (Some q)
    then obtain bs' where "take_block count bs = Some (r, bs')" "free_list t bs'" "aligned r" "pages (r, count) \<subseteq> free_pages bs" "r \<noteq> - 1"
      "free_pages bs' \<subseteq> free_pages bs" "\<forall>b \<in> set bs'. apart (r, count) b"
      using c by (cases q) auto
    moreover from this(7) have "pages (r, count) \<inter> free_pages bs' = {}"
      by (auto simp: free_pages_def apart_def)
    moreover note take_block_sum [OF calculation(1)]
    ultimately show ?thesis using a fr Some by auto
  qed
qed

lemma alloc_one:
  assumes "free_list s bs"
  shows "\<exists>r t bs'. alloc_phys_pages 1 s = Some (r, t) \<and> free_list t bs' \<and>
    free_pages bs' \<subseteq> free_pages bs \<and> (\<forall>a. in_use bs a \<longrightarrow> ram t a = ram s a) \<and>
    (r \<noteq> - 1 \<longrightarrow> in_use bs' r \<and> \<not> in_use bs r)"
proof -
  have "unat r div 4096 \<in> pages (r, 1)" for r using pages_nonempty [of "(r, 1)"] by simp
  then show ?thesis using alloc_in_use [OF assms, of 1] unfolding in_use_def by blast
qed

lemma take_one: "bs \<noteq> [] \<Longrightarrow> \<forall>b \<in> set bs. snd b \<noteq> 0 \<Longrightarrow> take_block 1 bs \<noteq> None"
proof
  assume "bs \<noteq> []" "\<forall>b \<in> set bs. snd b \<noteq> 0" "take_block 1 bs = None"
  then show False using take_block_None [of 1 bs "hd bs"] by (simp add: word_less_nat_alt unat_eq_zero)
qed

text \<open>A page is there as long as the list holds any.\<close>

lemma alloc_frame:
  assumes fl: "free_list s bs" and n: "0 < (\<Sum>b \<leftarrow> bs. unat (snd b))"
  shows "\<exists>r t bs'. alloc_phys_pages 1 s = Some (r, t) \<and> free_list t bs' \<and>
    free_pages bs' \<subseteq> free_pages bs \<and> (\<forall>a. in_use bs a \<longrightarrow> ram t a = ram s a) \<and>
    in_use bs' r \<and> \<not> in_use bs r \<and>
    (\<Sum>b \<leftarrow> bs. unat (snd b)) = (\<Sum>b \<leftarrow> bs'. unat (snd b)) + 1"
proof -
  have "take_block 1 bs \<noteq> None"
    using fl n by (intro take_one) (auto simp: free_list_def chain_of_def block_ok_def)
  then obtain r t bs' where t: "alloc_phys_pages 1 s = Some (r, t)" "free_list t bs'"
    "free_pages bs' \<subseteq> free_pages bs" "\<forall>a. in_use bs a \<longrightarrow> ram t a = ram s a"
    "aligned r" "pages (r, 1) \<subseteq> free_pages bs" "pages (r, 1) \<inter> free_pages bs' = {}"
    "(\<Sum>b \<leftarrow> bs. unat (snd b)) = (\<Sum>b \<leftarrow> bs'. unat (snd b)) + unat (1 :: u32)"
    using alloc_in_use [OF fl, of 1] by auto
  moreover have "unat r div 4096 \<in> pages (r, 1)" using pages_nonempty [of "(r, 1)"] by simp
  ultimately have "in_use bs' r \<and> \<not> in_use bs r" unfolding in_use_def by blast
  then show ?thesis using t by auto
qed

section \<open>Page numbers and indices\<close>

definition page_no :: "u32 \<Rightarrow> nat" where
  "page_no a = unat a div 4096"

lemma page_no_less: "page_no a < 2 ^ 20"
  using u32_less [of a] by (simp add: page_no_def less_mult_imp_div_less)

lemma unat_and_mask10: "unat ((a :: u32) AND 0x3FF) = unat a mod 1024"
proof -
  have "a AND 0x3FF = take_bit 10 a" by (simp add: take_bit_eq_mask mask_eq_exp_minus_1)
  then show ?thesis by (simp add: take_bit_eq_mod unat_mod)
qed

lemma page_index_12: "page_index 12 a = page_no a mod 1024"
  by (simp add: page_index_def unat_and_mask10 page_no_def drop_bit_eq_div unat_div)

lemma page_index_22: "page_index 22 a = page_no a div 1024"
proof -
  have "unat a div 4194304 < 1024" using u32_less [of a] by (simp add: less_mult_imp_div_less)
  then show ?thesis
    by (simp add: page_index_def unat_and_mask10 page_no_def drop_bit_eq_div unat_div div_mult2_eq [symmetric])
qed

lemma index_less: "page_index 22 a < 1024" "page_index 12 a < 1024"
  using page_no_less [of a] by (simp_all add: page_index_12 page_index_22 less_mult_imp_div_less)

lemma same_page:
  "page_index 22 a = page_index 22 b \<and> page_index 12 a = page_index 12 b \<longleftrightarrow> page_no a = page_no b"
  unfolding page_index_12 page_index_22 by (metis div_mult_mod_eq)

lemma page_no_step: "page_no a + 1 < 2 ^ 20 \<Longrightarrow> page_no (a + 0x1000) = page_no a + 1"
proof -
  assume "page_no a + 1 < 2 ^ 20"
  then have "unat a + 4096 < 2 ^ 32" unfolding page_no_def by simp
  then have "unat (a + 0x1000) = unat a + 4096"
    using unat_add_lem [of a "0x1000"] by simp
  then show ?thesis by (simp add: page_no_def)
qed

section \<open>Mapping one page\<close>

lemma map_walk_leaf:
  "map_walk 12 page_table vaddr paddr flags s =
     Some (True, temp_wr (page_index 12 vaddr) ((paddr AND NOT 12) OR flags) (temp_map_page page_table s))"
  by (simp add: map_walk.simps [of 12] map_walk.simps [of 2] Let_def)

lemma map_walk_top:
  "map_walk 22 dir vaddr paddr flags s =
     (let e = dir_entry s dir (page_index 22 vaddr); u = temp_map_page dir s
      in if present e then map_walk 12 e vaddr paddr flags u
         else do {
           (addr, s) \<leftarrow> alloc_phys_pages 1 u;
           if addr \<noteq> - 1
           then map_walk 12 addr vaddr paddr flags
                  (temp_wr (page_index 22 vaddr) (addr OR 7)
                     (temp_map_page dir (temp_clear (temp_map_page addr s))))
           else Some (False, s)
         })"
  by (simp add: map_walk.simps [of 22] Let_def temp_rd_ram dir_entry_def present_def or.assoc
    split_def cong: if_cong)


text \<open>What writing the entry of \<open>vaddr\<close> in its table does to all lookups.\<close>

definition entry_for :: "u32 \<Rightarrow> u32 \<Rightarrow> u32" where
  "entry_for paddr flags = (paddr AND NOT 12) OR flags"

definition table_frames :: "phys_mem \<Rightarrow> u32 \<Rightarrow> u32 set" where
  "table_frames s dir = {page_of (dir_entry s dir i) | i. i < 1024 \<and> present (dir_entry s dir i)}"

lemma leaf_write:
  fixes v :: u32
  assumes ok: "paging_ok s dir bs" and e: "e = dir_entry s dir (page_index 22 vaddr)" "present e"
  defines "t \<equiv> temp_wr (page_index 12 vaddr) v (temp_map_page e s)"
  shows "paging_ok t dir bs"
    and "lookup t dir w = (if page_no w = page_no vaddr then v else lookup s dir w)"
    and "a \<notin> table_frames s dir \<Longrightarrow> ram t a = ram s a"
    and "table_frames t dir = table_frames s dir"
proof -
  have use: "in_use bs (page_of e)" "page_of e \<noteq> dir"
    using ok e index_less by (auto simp: paging_ok_def)
  have d: "page_of dir = dir" using ok by (auto simp: paging_ok_def)
  have r: "ram t = (ram s)(page_of e := (ram s (page_of e))(page_index 12 vaddr := v))"
    by (simp add: t_def)
  have de: "dir_entry t dir i = dir_entry s dir i" for i
    using use(2) d by (simp add: dir_entry_def r)
  have fl: "free_list t bs" unfolding t_def
    using ok use by (intro free_list_write(1)) (auto simp: paging_ok_def)
  then show "paging_ok t dir bs" using ok de by (simp add: paging_ok_def)
  show "table_frames t dir = table_frames s dir" by (simp add: table_frames_def de)
  show "ram t a = ram s a" if "a \<notin> table_frames s dir"
    using that e index_less by (auto simp: table_frames_def r)
  have inj: "page_of (dir_entry s dir (page_index 22 w)) = page_of e \<Longrightarrow>
      present (dir_entry s dir (page_index 22 w)) \<Longrightarrow> page_index 22 w = page_index 22 vaddr"
    using ok e index_less unfolding paging_ok_def by blast
  show "lookup t dir w = (if page_no w = page_no vaddr then v else lookup s dir w)"
    using inj e same_page [of w vaddr] by (auto simp: lookup_def Let_def de r)
qed

text \<open>What entering a fresh, cleared table does: no translation changes.\<close>

lemma table_write:
  assumes ok: "paging_ok s dir bs" and a: "free_list u bs'" "free_pages bs' \<subseteq> free_pages bs"
      "\<forall>a. in_use bs a \<longrightarrow> ram u a = ram s a" and r: "in_use bs' r" "\<not> in_use bs r"
    and i: "i < 1024" "\<not> present (dir_entry s dir i)"
  defines "t \<equiv> temp_wr i (r OR 7) (temp_map_page dir (temp_clear (temp_map_page r u)))"
  shows "paging_ok t dir bs'" and "dir_entry t dir i = r OR 7" and "lookup t dir w = lookup s dir w"
    and "in_use bs a \<Longrightarrow> a \<noteq> dir \<Longrightarrow> ram t a = ram s a"
    and "table_frames t dir = insert r (table_frames s dir)" and "page_of (r OR 7) = r"
    and "present (r OR 7)"
proof -
  have fr: "page_of r = r" "r \<noteq> dir" "page_of dir = dir" "in_use bs dir"
    using r ok by (auto simp: paging_ok_def)
  show p7: "page_of (r OR 7) = r"
    using page_of_flags [of 7 r] fr(1) by simp
  have "(r OR 7) AND 1 = 1" by (rule bit_word_eqI) (auto simp: bit_simps)
  then show pr: "present (r OR 7)" by (simp add: present_def)
  have rm: "ram t = (ram u)(r := (\<lambda>k. if k < 1024 then 0 else ram u r k), dir := (ram u dir)(i := r OR 7))"
    using fr by (simp add: t_def cong: if_cong)
  have de: "dir_entry t dir j = (if j = i then r OR 7 else dir_entry s dir j)" for j
    using fr a(3) by (simp add: dir_entry_def rm)
  then show "dir_entry t dir i = r OR 7" by simp
  have old: "in_use bs (page_of (dir_entry s dir j))" "page_of (dir_entry s dir j) \<noteq> dir"
      "page_of (dir_entry s dir j) \<noteq> r"
    if "j < 1024" "present (dir_entry s dir j)" for j
    using that ok r by (auto simp: paging_ok_def)
  have "free_list (temp_clear (temp_map_page r u)) bs'" using free_list_write(2) [OF a(1) r(1)] fr by simp
  then have "free_list t bs'" unfolding t_def
    using in_use_mono [OF fr(4) a(2)] fr(3) by (intro free_list_write(1))
  moreover have "in_use bs' (page_of (dir_entry t dir j)) \<and> page_of (dir_entry t dir j) \<noteq> dir"
    if "j < 1024" "present (dir_entry t dir j)" for j
    using that de [of j] old [of j] p7 r fr in_use_mono [OF _ a(2)] by (auto split: if_splits)
  moreover have "j = k" if "j < 1024" "k < 1024" "present (dir_entry t dir j)" "present (dir_entry t dir k)"
    "page_of (dir_entry t dir j) = page_of (dir_entry t dir k)" for j k
  proof -
    have "present (dir_entry s dir j) \<Longrightarrow> present (dir_entry s dir k) \<Longrightarrow>
        page_of (dir_entry s dir j) = page_of (dir_entry s dir k) \<Longrightarrow> j = k"
      using ok that(1,2) unfolding paging_ok_def by blast
    then show ?thesis using that de [of j] de [of k] old(3) [of j] old(3) [of k] p7
      by (auto split: if_splits)
  qed
  ultimately show "paging_ok t dir bs'"
    unfolding paging_ok_def using in_use_mono [OF fr(4) a(2)] by blast
  show "lookup t dir w = lookup s dir w"
  proof (cases "page_index 22 w = i")
    case True
    then show ?thesis using i de [of i] pr p7 fr index_less(2) [of w]
      by (simp add: lookup_def Let_def rm)
  next
    case False
    then show ?thesis using de old [of "page_index 22 w"] a(3) index_less(1)
      by (simp add: lookup_def Let_def rm)
  qed
  show "ram t a = ram s a" if "in_use bs a" "a \<noteq> dir"
  proof -
    have "a \<noteq> r" using that r(2) by auto
    then show ?thesis using that a(3) by (simp add: rm)
  qed
  show "table_frames t dir = insert r (table_frames s dir)"
    using i pr p7 by (auto simp: table_frames_def de)
qed


text \<open>The frames that may change when something is mapped: the tables, and frames that were free.\<close>

lemma map_one:
  assumes ok: "paging_ok s dir bs"
  shows "\<exists>ok t bs'. map_walk 22 dir vaddr paddr flags s = Some (ok, t) \<and> paging_ok t dir bs' \<and>
    free_pages bs' \<subseteq> free_pages bs \<and>
    (\<forall>w. lookup t dir w = (if ok \<and> page_no w = page_no vaddr then entry_for paddr flags
       else lookup s dir w)) \<and>
    (\<forall>a. in_use bs a \<and> a \<noteq> dir \<and> a \<notin> table_frames s dir \<longrightarrow> ram t a = ram s a) \<and>
    (\<forall>a \<in> table_frames t dir. a \<in> table_frames s dir \<or> \<not> in_use bs a)"
proof -
  let ?i = "page_index 22 vaddr"
  let ?v = "entry_for paddr flags"
  have ok': "paging_ok (temp_map_page dir s) dir bs" and same: "dir_entry (temp_map_page dir s) = dir_entry s"
    "lookup (temp_map_page dir s) = lookup s" "table_frames (temp_map_page dir s) = table_frames s"
    using ok by (auto simp: paging_ok_def dir_entry_def lookup_def table_frames_def fun_eq_iff Let_def)
  show ?thesis
  proof (cases "present (dir_entry s dir ?i)")
    case True
    let ?t = "temp_wr (page_index 12 vaddr) ?v (temp_map_page (dir_entry s dir ?i) s)"
    have "map_walk 22 dir vaddr paddr flags s = Some (True, ?t)"
      using True by (simp add: map_walk_top map_walk_leaf entry_for_def)
    moreover note leaf_write [OF ok refl True, where v = ?v]
    ultimately show ?thesis
      by (intro exI [of _ True] exI [of _ ?t] exI [of _ bs]) auto
  next
    case False
    obtain r u bs' where u: "alloc_phys_pages 1 (temp_map_page dir s) = Some (r, u)" "free_list u bs'"
      "free_pages bs' \<subseteq> free_pages bs" "\<forall>a. in_use bs a \<longrightarrow> ram u a = ram s a"
      "r \<noteq> - 1 \<longrightarrow> in_use bs' r \<and> \<not> in_use bs r"
      using alloc_one [of "temp_map_page dir s" bs] ok by (auto simp: paging_ok_def)
    show ?thesis
    proof (cases "r = - 1")
      case True
      have d: "page_of dir = dir" "in_use bs dir" using ok by (auto simp: paging_ok_def)
      have de: "dir_entry u dir j = dir_entry s dir j" for j using u(4) d by (simp add: dir_entry_def)
      have tab: "ram u (page_of (dir_entry s dir j)) = ram s (page_of (dir_entry s dir j))"
        "in_use bs' (page_of (dir_entry s dir j))"
        if "present (dir_entry s dir j)" "j < 1024" for j
        using u(3,4) ok that in_use_mono by (auto simp: paging_ok_def)
      have "paging_ok u dir bs'"
        using ok u(2) tab(2) in_use_mono [OF d(2) u(3)] by (simp add: paging_ok_def de)
      moreover have "lookup u dir w = lookup s dir w" for w
        using tab(1) index_less(1) by (simp add: lookup_def Let_def de)
      moreover have "table_frames u dir = table_frames s dir" by (simp add: table_frames_def de)
      moreover have "map_walk 22 dir vaddr paddr flags s = Some (False, u)"
        using False True u(1) by (simp add: map_walk_top Let_def)
      ultimately show ?thesis using u(3,4) by auto
    next
      case r: False
      let ?m = "temp_wr ?i (r OR 7) (temp_map_page dir (temp_clear (temp_map_page r u)))"
      note tw = table_write [OF ok u(2,3,4) _ _ index_less(1) False]
      have i: "in_use bs' r" "\<not> in_use bs r" using u(5) r by auto
      note m = tw [OF i]
      let ?t = "temp_wr (page_index 12 vaddr) ?v (temp_map_page (r OR 7) ?m)"
      have lf: "paging_ok ?t dir bs'"
        "\<And>w. lookup ?t dir w = (if page_no w = page_no vaddr then ?v else lookup ?m dir w)"
        "\<And>a. a \<notin> table_frames ?m dir \<Longrightarrow> ram ?t a = ram ?m a"
        "table_frames ?t dir = table_frames ?m dir"
        using leaf_write [OF m(1) m(2) [symmetric] m(7), where v = ?v] by blast+
      have "temp_map_page (r OR 7) ?m = temp_map_page r ?m"
        using m(6) i(1) by (intro temp_map_cong) simp
      then have "map_walk 22 dir vaddr paddr flags s = Some (True, ?t)"
        using False r u(1) by (simp add: map_walk_top map_walk_leaf Let_def entry_for_def)
      moreover have "ram ?t a = ram s a" if "in_use bs a" "a \<noteq> dir" "a \<notin> table_frames s dir" for a
        using lf(3) [of a] m(4) [of a] m(5) that i(2) by (metis insert_iff)
      ultimately show ?thesis using lf m(3,5) u(3) i(2) by (intro exI [of _ True] exI [of _ ?t] exI [of _ bs']) auto
    qed
  qed
qed


section \<open>Mapping a range\<close>

text \<open>
  The lookups after \<open>k\<close> pages from \<open>vaddr\<close> have been mapped to consecutive frames
  from \<open>paddr\<close>.
\<close>

definition mapped :: "(u32 \<Rightarrow> u32) \<Rightarrow> u32 \<Rightarrow> u32 \<Rightarrow> nat \<Rightarrow> u32 \<Rightarrow> u32 \<Rightarrow> u32" where
  "mapped old vaddr paddr k flags w =
     (if page_no vaddr \<le> page_no w \<and> page_no w < page_no vaddr + k
      then entry_for (paddr + of_nat (page_no w - page_no vaddr) * 0x1000) flags
      else old w)"

lemma map_loop:
  assumes "paging_ok s dir bs" and "page_no vaddr + n \<le> 2 ^ 20"
  shows "\<exists>ok k t bs'. map_pages_loop n dir vaddr paddr flags s = Some (ok, t) \<and>
    k \<le> n \<and> (ok \<longleftrightarrow> k = n) \<and> paging_ok t dir bs' \<and> free_pages bs' \<subseteq> free_pages bs \<and>
    (\<forall>w. lookup t dir w = mapped (lookup s dir) vaddr paddr k flags w) \<and>
    (\<forall>a. in_use bs a \<and> a \<noteq> dir \<and> a \<notin> table_frames s dir \<longrightarrow> ram t a = ram s a)"
  using assms
proof (induction n arbitrary: s bs vaddr paddr)
  case 0
  then show ?case by (intro exI [of _ True] exI [of _ "0 :: nat"] exI [of _ s] exI [of _ bs])
    (auto simp: mapped_def)
next
  case (Suc n)
  obtain ok t bs' where t: "map_walk 22 dir vaddr paddr flags s = Some (ok, t)" "paging_ok t dir bs'"
    "free_pages bs' \<subseteq> free_pages bs"
    "\<forall>w. lookup t dir w = (if ok \<and> page_no w = page_no vaddr then entry_for paddr flags
       else lookup s dir w)"
    "\<forall>a. in_use bs a \<and> a \<noteq> dir \<and> a \<notin> table_frames s dir \<longrightarrow> ram t a = ram s a"
    "\<forall>a \<in> table_frames t dir. a \<in> table_frames s dir \<or> \<not> in_use bs a"
    using map_one [OF Suc.prems(1), of vaddr paddr flags] by (elim exE conjE) (rule that)
  show ?case
  proof (cases ok)
    case False
    then show ?thesis using t
      by (intro exI [of _ False] exI [of _ "0 :: nat"] exI [of _ t] exI [of _ bs']) (auto simp: mapped_def)
  next
    case True
    let ?v = "vaddr + 0x1000" and ?p = "paddr + 0x1000"
    have nx: "n = 0 \<or> page_no ?v = page_no vaddr + 1"
      using Suc.prems(2) page_no_step [of vaddr] by (cases "n = 0") simp_all
    have "page_no ?v + n \<le> 2 ^ 20" using nx Suc.prems(2) page_no_less [of ?v] by auto
    from Suc.IH [OF t(2) this] obtain ok2 k u bs2 where
      u: "map_pages_loop n dir ?v ?p flags t = Some (ok2, u)" "k \<le> n" "ok2 \<longleftrightarrow> k = n"
      "paging_ok u dir bs2" "free_pages bs2 \<subseteq> free_pages bs'"
      "\<forall>w. lookup u dir w = mapped (lookup t dir) ?v ?p k flags w"
      "\<forall>a. in_use bs' a \<and> a \<noteq> dir \<and> a \<notin> table_frames t dir \<longrightarrow> ram u a = ram t a" by blast
    have "lookup u dir w = mapped (lookup s dir) vaddr paddr (Suc k) flags w" for w
    proof (cases "k = 0")
      case True
      then show ?thesis using u(6) t(4) \<open>ok\<close> by (auto simp: mapped_def)
    next
      case False
      then have pv: "page_no ?v = page_no vaddr + 1" using nx u(2) by auto
      have "paddr + 0x1000 + of_nat (j - (page_no vaddr + 1)) * 0x1000 =
          paddr + of_nat (j - page_no vaddr) * 0x1000" if "page_no vaddr + 1 \<le> j" for j
      proof -
        have "j - page_no vaddr = Suc (j - (page_no vaddr + 1))" using that by simp
        then have "(of_nat (j - page_no vaddr) :: u32) = of_nat (j - (page_no vaddr + 1)) + 1" by simp
        then show ?thesis by (simp add: algebra_simps)
      qed
      then show ?thesis using u(6) t(4) \<open>ok\<close> pv by (auto simp: mapped_def)
    qed
    moreover have "ram u a = ram s a" if "in_use bs a" "a \<noteq> dir" "a \<notin> table_frames s dir" for a
    proof -
      have "in_use bs' a" using that(1) t(3) by (rule in_use_mono)
      moreover have "a \<notin> table_frames t dir" using that t(6) by blast
      ultimately have "ram u a = ram t a" using u(7) that(2) by blast
      then show ?thesis using t(5) that by simp
    qed
    ultimately show ?thesis using u t(1,3) True
      by (intro exI [of _ ok2] exI [of _ "Suc k"] exI [of _ u] exI [of _ bs2]) auto
  qed
qed

text \<open>C6: \<^verbatim>\<open>map_pages\<close> on well-formed tables returns.  It maps a prefix of the range, all of it
  exactly where it returns true: \<^verbatim>\<open>get_page_info\<close> of a mapped page gives the entry for its
  frame, of every other page what it gave before.  The tables and the free list stay
  well-formed, and memory in use outside the tables is not written.\<close>

theorem map_pages_maps:
  assumes "paging_ok s dir bs" and "page_no vaddr + unat count \<le> 2 ^ 20"
  shows "\<exists>ok k t bs'. map_pages dir vaddr paddr count flags s = Some (ok, t) \<and>
    k \<le> unat count \<and> (ok \<longleftrightarrow> k = unat count) \<and>
    paging_ok t dir bs' \<and> free_pages bs' \<subseteq> free_pages bs \<and>
    (\<forall>w. fst (get_page_info dir w t) =
       mapped (\<lambda>w. fst (get_page_info dir w s)) vaddr paddr k flags w) \<and>
    (\<forall>a. in_use bs a \<and> a \<noteq> dir \<and> a \<notin> table_frames s dir \<longrightarrow> ram t a = ram s a)"
  using map_loop [OF assms] unfolding map_pages_def get_page_info_lookup by (simp add: mapped_def)

text \<open>Remapping a page to the entry it has with new flags, as \<^verbatim>\<open>init_memory_manager\<close> does to
  make the kernel's code read-only, cannot take the writable bit away: the mask
  \<^verbatim>\<open>~PAGE_OFFSET_BITS\<close> clears only bits 2 and 3 of the old entry.\<close>

theorem remap_keeps_writable:
  assumes "paging_ok s dir bs" and "fst (get_page_info dir vaddr s) AND PAGE_WRITABLE \<noteq> 0"
    and "map_pages dir vaddr (fst (get_page_info dir vaddr s)) 1 flags s = Some (True, t)"
  shows "fst (get_page_info dir vaddr t) AND PAGE_WRITABLE \<noteq> 0"
proof -
  have n: "page_no vaddr + 1 \<le> 2 ^ 20" using page_no_less [of vaddr] by simp
  have "lookup t dir vaddr = entry_for (lookup s dir vaddr) flags"
    using map_loop [OF assms(1) n, of "lookup s dir vaddr" flags] assms(3)
    by (auto simp: map_pages_def get_page_info_lookup mapped_def)
  moreover have "bit e 1 \<Longrightarrow> bit (entry_for e flags) 1" for e
    by (simp add: entry_for_def bit_simps)
  moreover have "(e AND 2 \<noteq> 0) = bit e 1" for e :: u32
    using and_exp_eq_0_iff_not_bit [of e 1] by auto
  ultimately show ?thesis using assms(2) by (simp add: get_page_info_lookup)
qed


section \<open>Allocation and mapping for a caller\<close>

lemma alloc_paging:
  assumes ok: "paging_ok s dir bs"
  shows "\<exists>r t bs'. alloc_phys_pages count s = Some (r, t) \<and> paging_ok t dir bs' \<and>
    free_pages bs' \<subseteq> free_pages bs \<and> lookup t dir = lookup s dir \<and>
    dir_entry t dir = dir_entry s dir \<and> (r = - 1 \<longleftrightarrow> take_block count bs = None) \<and>
    (r \<noteq> - 1 \<longrightarrow> aligned r \<and> pages (r, count) \<subseteq> free_pages bs \<and>
       pages (r, count) \<inter> free_pages bs' = {})"
proof -
  obtain r t bs' where t: "alloc_phys_pages count s = Some (r, t)" "free_list t bs'"
    "free_pages bs' \<subseteq> free_pages bs" "\<forall>a. in_use bs a \<longrightarrow> ram t a = ram s a"
    "r = - 1 \<longleftrightarrow> take_block count bs = None"
    "r \<noteq> - 1 \<longrightarrow> aligned r \<and> pages (r, count) \<subseteq> free_pages bs \<and> pages (r, count) \<inter> free_pages bs' = {} \<and>
       (\<Sum>b \<leftarrow> bs. unat (snd b)) = (\<Sum>b \<leftarrow> bs'. unat (snd b)) + unat count"
    using alloc_in_use [OF paging_ok_list [OF ok], of count] by (elim exE conjE) (rule that)
  have d: "page_of dir = dir" "in_use bs dir" using ok by (auto simp: paging_ok_def)
  have de: "dir_entry t dir = dir_entry s dir" using t(4) d by (auto simp: dir_entry_def)
  have tab: "ram t (page_of (dir_entry s dir j)) = ram s (page_of (dir_entry s dir j))"
    "in_use bs' (page_of (dir_entry s dir j))"
    if "present (dir_entry s dir j)" "j < 1024" for j
    using t(3,4) ok that in_use_mono by (auto simp: paging_ok_def)
  have "paging_ok t dir bs'"
    using ok t(2) tab(2) in_use_mono [OF d(2) t(3)] by (simp add: paging_ok_def de)
  moreover have "lookup t dir w = lookup s dir w" for w
    using tab(1) index_less(1) by (simp add: lookup_def Let_def de)
  ultimately show ?thesis using t(1,3,5,6) de by auto
qed

text \<open>Where the page tables exist, mapping succeeds and allocates nothing.\<close>

lemma map_present:
  assumes "paging_ok s dir bs" and "page_no vaddr + n \<le> 2 ^ 20"
    and "\<forall>w. page_no vaddr \<le> page_no w \<and> page_no w < page_no vaddr + n \<longrightarrow>
       present (dir_entry s dir (page_index 22 w))"
  shows "\<exists>t. map_pages_loop n dir vaddr paddr flags s = Some (True, t) \<and> paging_ok t dir bs \<and>
    dir_entry t dir = dir_entry s dir"
  using assms
proof (induction n arbitrary: s vaddr paddr)
  case 0
  then show ?case by simp
next
  case (Suc n)
  let ?e = "dir_entry s dir (page_index 22 vaddr)"
  let ?t = "temp_wr (page_index 12 vaddr) (entry_for paddr flags) (temp_map_page ?e s)"
  have pr: "present ?e" using Suc.prems(3) by simp
  have ok: "paging_ok ?t dir bs" using leaf_write(1) [OF Suc.prems(1) refl pr] .
  have "page_of ?e \<noteq> dir" "page_of dir = dir"
    using Suc.prems(1) pr index_less(1) by (auto simp: paging_ok_def)
  then have de: "dir_entry ?t dir = dir_entry s dir" by (auto simp: dir_entry_def)
  have nx: "n = 0 \<or> page_no (vaddr + 0x1000) = page_no vaddr + 1"
    using Suc.prems(2) page_no_step [of vaddr] by (cases "n = 0") simp_all
  then have "\<exists>t. map_pages_loop n dir (vaddr + 0x1000) (paddr + 0x1000) flags ?t = Some (True, t) \<and>
      paging_ok t dir bs \<and> dir_entry t dir = dir_entry ?t dir"
  proof (cases "n = 0")
    case False
    then show ?thesis using Suc.prems(2,3) nx de by (intro Suc.IH [OF ok]) auto
  qed (use ok in simp)
  moreover have "map_walk 22 dir vaddr paddr flags s = Some (True, ?t)"
    using pr by (simp add: map_walk_top map_walk_leaf entry_for_def)
  ultimately show ?case using de by auto
qed

section \<open>Concrete tables\<close>

lemma demo_paging:
  "paging_ok (demo_mem [(0x2000, 0x2000, 0x2000, 3)] 3 0x2000) 0x1000 [(0x2000, 3)]"
proof -
  have "\<not> present (dir_entry (demo_mem [(0x2000, 0x2000, 0x2000, 3)] 3 0x2000) 0x1000 i)" for i
    by (simp add: dir_entry_def present_def demo_mem_def page_of_def)
  moreover have "in_use [(0x2000, 3)] 0x1000"
    by (simp add: in_use_def free_pages_def pages_def aligned_def page_of_def)
  ultimately show ?thesis using demo_one by (simp add: paging_ok_def)
qed

theorem map_pages_maps_witness:
  "\<exists>ok k t bs'. map_pages 0x1000 0x3FF000 0x9000 2 3
       (demo_mem [(0x2000, 0x2000, 0x2000, 3)] 3 0x2000) = Some (ok, t) \<and>
     k \<le> (2 :: nat) \<and> (ok \<longleftrightarrow> k = 2) \<and> paging_ok t 0x1000 bs'"
proof -
  have "page_no 0x3FF000 + unat (2 :: u32) \<le> 2 ^ 20" by (simp add: page_no_def)
  from map_pages_maps [OF demo_paging this, of "0x9000" 3] show ?thesis by auto
qed

text \<open>A directory at \<open>0x1000\<close> whose first entry is a table at \<open>0x5000\<close> that maps page 3
  to frame \<open>0x3000\<close>, present and writable.\<close>

definition demo_tables :: phys_mem where
  "demo_tables = \<lparr>ram = (\<lambda>b i. if b = 0x1000 \<and> i = 0 then 0x5007
       else if b = 0x5000 \<and> i = 3 then 0x3003 else 0),
     temp_pte = 0, free_page_count = 0, free_ptr = - 1, phys_mutex = False\<rparr>"

lemma demo_tables_ok: "paging_ok demo_tables 0x1000 []"
proof -
  have "dir_entry demo_tables 0x1000 i = (if i = 0 then 0x5007 else 0)" for i
    by (simp add: dir_entry_def demo_tables_def page_of_def)
  then show ?thesis
    by (auto simp: paging_ok_def free_list_def chain_of_def in_use_def free_pages_def aligned_def
      page_of_def present_def ring_def demo_tables_def)
qed

theorem remap_keeps_writable_witness:
  "\<exists>t. map_pages 0x1000 0x3000 0x3003 1 1 demo_tables = Some (True, t) \<and>
     fst (get_page_info 0x1000 0x3000 t) AND 2 \<noteq> 0"
proof -
  have info: "fst (get_page_info 0x1000 0x3000 demo_tables) = 0x3003"
    by (simp add: get_page_info_lookup lookup_def dir_entry_def present_def page_of_def
      page_index_def demo_tables_def)
  have "\<exists>t. map_pages 0x1000 0x3000 0x3003 1 1 demo_tables = Some (True, t)"
    by (simp add: map_pages_def map_walk_top map_walk_leaf Let_def dir_entry_def present_def
      page_of_def page_index_def demo_tables_def)
  then obtain t where t: "map_pages 0x1000 0x3000 0x3003 1 1 demo_tables = Some (True, t)" ..
  then have "fst (get_page_info 0x1000 0x3000 t) AND 2 \<noteq> 0"
    using remap_keeps_writable [OF demo_tables_ok, of "0x3000" 1 t] info by simp
  then show ?thesis using t by blast
qed

end
