(* ===== verification/Virt_Memory.thy ===== *)
theory Virt_Memory
  imports Paging
begin

text \<open>
  The virtual memory blocks of \<^verbatim>\<open>src/kernel/memory_manager.c\<close>: each \<^verbatim>\<open>AddressSpace\<close>
  owns a table of \<^verbatim>\<open>VirtMemoryBlock\<close>s, searched and updated by \<^verbatim>\<open>alloc_virt_pages\<close>
  and \<^verbatim>\<open>free_virt_pages\<close>, which call the page tables and the physical allocator.

  An address space is named by \<open>Kernel_Space\<close> or \<open>User_Space\<close> (the static objects
  \<^verbatim>\<open>kernel_address_space\<close> and \<^verbatim>\<open>user_address_space\<close>), or \<open>Space_At\<close> and the address
  of the process it is a field of.  Table entries are objects of a typed
  store, indexed by their address; they are 12 bytes long, and every \<^verbatim>\<open>memcpy\<close> here
  moves whole entries by whole entries, so copying bytes forward is copying entries
  forward.
\<close>

section \<open>Definitions\<close>

datatype vmb_type = VMB_RESERVED | VMB_MEMORY | VMB_IO_MEMORY

record vmb =
  vtype :: vmb_type
  vbase :: u32
  vlength :: u32

record address_space =
  page_dir :: u32
  as_start :: u32
  as_end :: u32
  block_table_size :: u32
  block_count :: u32
  blocks :: u32
  as_mutex :: bool

datatype space_ref = Kernel_Space | User_Space | Space_At u32

record vm_state =
  phys :: phys_mem
  spaces :: "space_ref \<Rightarrow> address_space"
  entries :: "u32 \<Rightarrow> vmb"

abbreviation (input) VMB_SIZE :: u32 where "VMB_SIZE \<equiv> 12"
abbreviation (input) KERNEL_MEMORY_START :: u32 where "KERNEL_MEMORY_START \<equiv> 0x80000000"
abbreviation (input) KERNEL_MEMORY_END :: u32 where "KERNEL_MEMORY_END \<equiv> 0xFFBFFFFF"
abbreviation (input) USER_MEMORY_START :: u32 where "USER_MEMORY_START \<equiv> 0"
abbreviation (input) USER_MEMORY_END :: u32 where "USER_MEMORY_END \<equiv> 0x7FFFFFFF"

abbreviation upd_space :: "space_ref \<Rightarrow> (address_space \<Rightarrow> address_space) \<Rightarrow> vm_state \<Rightarrow> vm_state" where
  "upd_space sp f st \<equiv> st\<lparr>spaces := (spaces st)(sp := f (spaces st sp))\<rparr>"

text \<open>\<^verbatim>\<open>address_space->blocks[i]\<close>.\<close>

definition entry_addr :: "u32 \<Rightarrow> nat \<Rightarrow> u32" where
  "entry_addr table i = table + of_nat i * VMB_SIZE"

definition block_at :: "vm_state \<Rightarrow> space_ref \<Rightarrow> nat \<Rightarrow> vmb" where
  "block_at st sp i = entries st (entry_addr (blocks (spaces st sp)) i)"

definition put_block :: "space_ref \<Rightarrow> nat \<Rightarrow> vmb \<Rightarrow> vm_state \<Rightarrow> vm_state" where
  "put_block sp i b st =
     st\<lparr>entries := (entries st)(entry_addr (blocks (spaces st sp)) i := b)\<rparr>"

text \<open>\<^verbatim>\<open>memcpy\<close> of \<open>n\<close> entries, forward.\<close>

fun copy_entries :: "nat \<Rightarrow> u32 \<Rightarrow> u32 \<Rightarrow> (u32 \<Rightarrow> vmb) \<Rightarrow> u32 \<Rightarrow> vmb" where
  "copy_entries 0 dst src m = m"
| "copy_entries (Suc n) dst src m =
     copy_entries n (dst + VMB_SIZE) (src + VMB_SIZE) (m(dst := m src))"

definition lock_space :: "space_ref \<Rightarrow> vm_state \<Rightarrow> vm_state option" where
  "lock_space sp st = map_option (\<lambda>(m, ok). upd_space sp (\<lambda>a. a\<lparr>as_mutex := m\<rparr>) st)
     (mutex_get (as_mutex (spaces st sp)) True)"

definition unlock_space :: "space_ref \<Rightarrow> vm_state \<Rightarrow> vm_state" where
  "unlock_space sp st = upd_space sp (\<lambda>a. a\<lparr>as_mutex := mutex_release (as_mutex a)\<rparr>) st"

text \<open>The physical memory operations on the field \<open>phys\<close>.\<close>

definition phys_alloc :: "u32 \<Rightarrow> vm_state \<Rightarrow> (u32 \<times> vm_state) option" where
  "phys_alloc count st = map_option (\<lambda>(r, p). (r, st\<lparr>phys := p\<rparr>)) (alloc_phys_pages count (phys st))"

definition phys_free :: "u32 \<Rightarrow> u32 \<Rightarrow> vm_state \<Rightarrow> vm_state option" where
  "phys_free base count st = map_option (\<lambda>p. st\<lparr>phys := p\<rparr>) (free_phys_pages base count (phys st))"

definition phys_map ::
  "u32 \<Rightarrow> u32 \<Rightarrow> u32 \<Rightarrow> u32 \<Rightarrow> u32 \<Rightarrow> vm_state \<Rightarrow> (bool \<times> vm_state) option" where
  "phys_map dir vaddr paddr count flags st =
     map_option (\<lambda>(ok, p). (ok, st\<lparr>phys := p\<rparr>)) (map_pages dir vaddr paddr count flags (phys st))"

definition phys_info :: "u32 \<Rightarrow> u32 \<Rightarrow> vm_state \<Rightarrow> u32 \<times> vm_state" where
  "phys_info dir vaddr st = (let (e, p) = get_page_info dir vaddr (phys st) in (e, st\<lparr>phys := p\<rparr>))"

definition is_blocks_overlapped :: "u32 \<Rightarrow> u32 \<Rightarrow> u32 \<Rightarrow> u32 \<Rightarrow> bool" where
  "is_blocks_overlapped base1 size1 base2 size2 \<longleftrightarrow>
     (base2 \<le> base1 \<and> base1 < base2 + size2) \<or> (base1 \<le> base2 \<and> base2 < base1 + size1)"

text \<open>The two search loops: \<open>k\<close> table entries are left, the next is \<open>i\<close>.\<close>

fun search_down :: "nat \<Rightarrow> nat \<Rightarrow> (nat \<Rightarrow> vmb) \<Rightarrow> u32 \<Rightarrow> u32 \<Rightarrow> u32 \<times> nat" where
  "search_down 0 i b count vaddr = (vaddr, i)"
| "search_down (Suc k) i b count vaddr =
     (if is_blocks_overlapped (vbase (b i)) (vlength (b i)) vaddr count
      then search_down k (i + 1) b count (vbase (b i) - push_bit 12 count)
      else (vaddr, i))"

fun search_fixed :: "nat \<Rightarrow> nat \<Rightarrow> (nat \<Rightarrow> vmb) \<Rightarrow> u32 \<Rightarrow> u32 \<Rightarrow> u32 \<times> nat" where
  "search_fixed 0 i b count vaddr = (vaddr, i)"
| "search_fixed (Suc k) i b count vaddr =
     (if is_blocks_overlapped (vbase (b i)) (vlength (b i)) vaddr (push_bit 12 count) then (0, i)
      else if vbase (b i) < vaddr then (vaddr, i)
      else search_fixed k (i + 1) b count vaddr)"

definition choose_vaddr :: "space_ref \<Rightarrow> u32 \<Rightarrow> u32 \<Rightarrow> vm_state \<Rightarrow> u32 \<times> nat" where
  "choose_vaddr sp vaddr count st =
     (let a = spaces st sp
      in if vaddr = 0 then
           search_down (unat (block_count a)) 0 (block_at st sp) count
             (as_end a - push_bit 12 count + 1)
         else if as_start a \<le> vaddr \<and> vaddr + push_bit 12 count < as_end a then
           search_fixed (unat (block_count a)) 0 (block_at st sp) count vaddr
         else (0, 0))"

text \<open>
  Growing a full table.  The result says whether \<^verbatim>\<open>goto fail\<close> was taken; \<open>new_size\<close>
  is in pages.
\<close>

definition table_pages :: "u32 \<Rightarrow> u32" where
  "table_pages table_size =
     drop_bit 12 ((table_size * VMB_SIZE + 0xFFF AND NOT 0xFFF) + PAGE_SIZE)"

definition grow_kernel_table :: "vm_state \<Rightarrow> (bool \<times> vm_state) option" where
  "grow_kernel_table st = do {
     (new_page, st) \<leftarrow> phys_alloc 1 st;
     if new_page = - 1 then Some (False, st)
     else
       let a = spaces st Kernel_Space;
           i = unat (block_count a - 1);
           main_block = block_at st Kernel_Space i
       in do {
         (ok, st) \<leftarrow> phys_map (page_dir a) (vbase main_block + vlength main_block) new_page 1
                       (PAGE_PRESENT OR PAGE_WRITABLE) st;
         if ok
         then Some (True, put_block Kernel_Space i
                (main_block\<lparr>vlength := vlength main_block + PAGE_SIZE\<rparr>) st)
         else do {
           st \<leftarrow> phys_free new_page 1 st;
           Some (True, st)
         }
       }
   }"

text \<open>The body of \<^verbatim>\<open>alloc_virt_pages\<close>, with the way its table grows as a parameter.\<close>

definition insert_block :: "space_ref \<Rightarrow> nat \<Rightarrow> vmb \<Rightarrow> vm_state \<Rightarrow> vm_state" where
  "insert_block sp i b st =
     (let t = blocks (spaces st sp);
          n = unat (block_count (spaces st sp) - of_nat i);
          st = st\<lparr>entries := copy_entries n (entry_addr t (i + 1)) (entry_addr t i) (entries st)\<rparr>;
          st = upd_space sp (\<lambda>a. a\<lparr>block_count := block_count a + 1\<rparr>) st
      in put_block sp i b st)"

definition grow_if_full ::
  "(vm_state \<Rightarrow> (bool \<times> vm_state) option) \<Rightarrow> space_ref \<Rightarrow> vm_state \<Rightarrow> (bool \<times> vm_state) option" where
  "grow_if_full grow sp st =
     (let a = spaces st sp
      in if block_count a = block_table_size a then do {
           (ok, st) \<leftarrow> grow st;
           if ok
           then Some (True, upd_space sp (\<lambda>a'. a'\<lparr>block_table_size :=
                  push_bit 12 (table_pages (block_table_size a)) div VMB_SIZE\<rparr>) st)
           else Some (False, st)
         }
         else Some (True, st))"

definition undo_alloc :: "space_ref \<Rightarrow> u32 \<Rightarrow> u32 \<Rightarrow> u32 \<Rightarrow> vm_state \<Rightarrow> (u32 \<times> vm_state) option" where
  "undo_alloc sp vaddr paddr count st = do {
     (_, st) \<leftarrow> phys_map (page_dir (spaces st sp)) vaddr 0 count 0 st;
     st \<leftarrow> phys_free paddr count st;
     Some (0, st)
   }"

definition alloc_virt_body ::
  "(vm_state \<Rightarrow> (bool \<times> vm_state) option) \<Rightarrow> space_ref \<Rightarrow> u32 \<Rightarrow> u32 \<Rightarrow> u32 \<Rightarrow> u32 \<Rightarrow> vm_state \<Rightarrow>
   (u32 \<times> vm_state) option" where
  "alloc_virt_body grow sp vaddr0 paddr0 count flags st0 = do {
     st \<leftarrow> lock_space sp st0;
     let (vaddr, i) = choose_vaddr sp vaddr0 count st;
     (result, st) \<leftarrow>
       (if vaddr \<noteq> 0 then do {
          (paddr, st) \<leftarrow> (if paddr0 = - 1 then phys_alloc count st else Some (paddr0, st));
          let type = (if paddr0 = - 1 then VMB_MEMORY else VMB_IO_MEMORY);
          if paddr \<noteq> - 1 then do {
            (ok, st) \<leftarrow> phys_map (page_dir (spaces st sp)) vaddr paddr count flags st;
            if ok then do {
              (ok, st) \<leftarrow> grow_if_full grow sp st;
              if ok
              then Some (vaddr, insert_block sp i
                     \<lparr>vtype = type, vbase = vaddr, vlength = push_bit 12 count\<rparr> st)
              else undo_alloc sp vaddr paddr count st
            }
            else undo_alloc sp vaddr paddr count st
          }
          else Some (vaddr, st)
        }
        else Some (0, st));
     Some (result, unlock_space sp st)
   }"

text \<open>
  \<^verbatim>\<open>free_virt_pages\<close>.  The test in it is the assignment \<^verbatim>\<open>type = VMB_MEMORY\<close>, whose value
  is not zero: the block is marked as memory and its frames are always freed.
\<close>

fun find_block :: "nat \<Rightarrow> nat \<Rightarrow> (nat \<Rightarrow> vmb) \<Rightarrow> u32 \<Rightarrow> nat" where
  "find_block 0 i b vaddr = i"
| "find_block (Suc k) i b vaddr =
     (if vbase (b i) \<le> vaddr \<and> vaddr < vbase (b i) + vlength (b i) then i
      else find_block k (i + 1) b vaddr)"

definition free_virt_pages :: "space_ref \<Rightarrow> u32 \<Rightarrow> u32 \<Rightarrow> vm_state \<Rightarrow> (bool \<times> vm_state) option" where
  "free_virt_pages sp vaddr flags st0 = do {
     st \<leftarrow> lock_space sp st0;
     let n = unat (block_count (spaces st sp));
     let i = find_block n 0 (block_at st sp) vaddr;
     if i < n then do {
       let st = put_block sp i ((block_at st sp i)\<lparr>vtype := VMB_MEMORY\<rparr>) st;
       let (e, st) = phys_info (page_dir (spaces st sp)) vaddr st;
       st \<leftarrow> phys_free (e AND NOT 0xFFF) (drop_bit 12 (vlength (block_at st sp i))) st;
       let st = upd_space sp (\<lambda>a. a\<lparr>block_count := block_count a - 1\<rparr>) st;
       let t = blocks (spaces st sp);
       let st = st\<lparr>entries := copy_entries (unat (block_count (spaces st sp) - of_nat i))
                  (entry_addr t i) (entry_addr t (i + 1)) (entries st)\<rparr>;
       Some (True, unlock_space sp st)
     }
     else Some (False, unlock_space sp st)
   }"

text \<open>Growing the table of another space: a new table in kernel memory, the old one freed.\<close>

definition grow_user_table :: "space_ref \<Rightarrow> vm_state \<Rightarrow> (bool \<times> vm_state) option" where
  "grow_user_table sp st = do {
     (new_table, st) \<leftarrow> alloc_virt_body grow_kernel_table Kernel_Space 0 (- 1)
        (table_pages (block_table_size (spaces st sp))) (PAGE_PRESENT OR PAGE_WRITABLE) st;
     if new_table \<noteq> 0 then do {
       let a = spaces st sp;
       let st = st\<lparr>entries := copy_entries (unat (block_table_size a)) new_table (blocks a) (entries st)\<rparr>;
       (_, st) \<leftarrow> free_virt_pages Kernel_Space (blocks a) 0 st;
       Some (True, upd_space sp (\<lambda>a. a\<lparr>blocks := new_table\<rparr>) st)
     }
     else Some (False, st)
   }"

definition alloc_virt_pages ::
  "space_ref \<Rightarrow> u32 \<Rightarrow> u32 \<Rightarrow> u32 \<Rightarrow> u32 \<Rightarrow> vm_state \<Rightarrow> (u32 \<times> vm_state) option" where
  "alloc_virt_pages sp =
     alloc_virt_body (if sp = Kernel_Space then grow_kernel_table else grow_user_table sp) sp"

subsection \<open>Start-up\<close>

record memory_map_entry =
  map_base :: u64
  map_length :: u64
  map_type :: u32

text \<open>The addresses the linker script gives, of the kernel's sections.\<close>

record kernel_layout =
  KERNEL_CODE_BASE :: u32
  KERNEL_DATA_BASE :: u32
  KERNEL_END :: u32

partial_function (option) add_memory_map ::
  "(nat \<Rightarrow> memory_map_entry) \<Rightarrow> nat \<Rightarrow> u32 \<times> vm_state \<Rightarrow> (u32 \<times> vm_state) option" where
  "add_memory_map memory_map k s =
     (if map_type (memory_map k) = 0 then Some s
      else if map_type (memory_map k) = 1 \<and> 0x100000 \<le> map_base (memory_map k) then do {
        st \<leftarrow> phys_free (ucast (map_base (memory_map k)))
               (ucast (drop_bit 12 (map_length (memory_map k)))) (snd s);
        add_memory_map memory_map (k + 1) (fst s + ucast (map_length (memory_map k)), st)
      }
      else add_memory_map memory_map (k + 1) s)"

text \<open>The kernel's own pages are mapped again with the flags of their section.\<close>

definition remap_section :: "u32 \<Rightarrow> u32 \<Rightarrow> u32 \<Rightarrow> u32 \<Rightarrow> vm_state \<Rightarrow> vm_state option" where
  "remap_section dir vaddr count flags st =
     (let (e, st) = phys_info dir vaddr st
      in map_option snd (phys_map dir vaddr e count flags st))"

definition init_memory_manager ::
  "kernel_layout \<Rightarrow> u32 \<Rightarrow> (nat \<Rightarrow> memory_map_entry) \<Rightarrow> vm_state \<Rightarrow> (u32 \<times> vm_state) option" where
  "init_memory_manager lay cr3 memory_map st = do {
     (memory_size, st) \<leftarrow> add_memory_map memory_map 0 (0x100000, st);
     st \<leftarrow> remap_section cr3 (KERNEL_CODE_BASE lay)
            (drop_bit 12 (KERNEL_DATA_BASE lay - KERNEL_CODE_BASE lay)) (PAGE_PRESENT OR 0x100) st;
     st \<leftarrow> remap_section cr3 (KERNEL_DATA_BASE lay)
            (drop_bit 12 (KERNEL_END lay - KERNEL_DATA_BASE lay))
            (PAGE_PRESENT OR PAGE_WRITABLE OR 0x100) st;
     st \<leftarrow> remap_section cr3 0xFFFFE000 1 (PAGE_PRESENT OR PAGE_WRITABLE OR 0x100) st;
     let st = upd_space Kernel_Space (\<lambda>a. a\<lparr>page_dir := cr3, as_start := KERNEL_MEMORY_START,
                as_end := KERNEL_MEMORY_END, block_table_size := PAGE_SIZE div VMB_SIZE,
                blocks := KERNEL_MEMORY_START, block_count := 1\<rparr>) st;
     (page, st) \<leftarrow> phys_alloc 1 st;
     (_, st) \<leftarrow> phys_map cr3 (blocks (spaces st Kernel_Space)) page 1 (PAGE_PRESENT OR PAGE_WRITABLE) st;
     Some (memory_size, put_block Kernel_Space 0
       \<lparr>vtype = VMB_RESERVED, vbase = blocks (spaces st Kernel_Space), vlength = PAGE_SIZE\<rparr> st)
   }"


section \<open>Block tables\<close>

lemma entry_addr_step [simp]: "entry_addr t i + 12 = entry_addr t (Suc i)"
  by (simp add: entry_addr_def algebra_simps)

lemma entry_addr_inj:
  assumes "12 * i < 2 ^ 32" and "12 * j < 2 ^ 32"
  shows "entry_addr t i = entry_addr t j \<longleftrightarrow> i = j"
proof -
  have "entry_addr t k = t + of_nat (12 * k)" for k by (simp add: entry_addr_def)
  moreover have "(of_nat (12 * i) :: u32) = of_nat (12 * j) \<longleftrightarrow> 12 * i = 12 * j"
    using assms by (intro of_nat_inj_word) simp_all
  ultimately show ?thesis by simp
qed

text \<open>Copying a table one entry up repeats its first entry; one entry down shifts it.\<close>

lemma copy_up:
  "12 * (i + n) < 2 ^ 32 \<Longrightarrow> 12 * j < 2 ^ 32 \<Longrightarrow>
   copy_entries n (entry_addr t (Suc i)) (entry_addr t i) m (entry_addr t j) =
     (if i < j \<and> j \<le> i + n then m (entry_addr t i) else m (entry_addr t j))"
proof (induction n arbitrary: i m)
  case 0
  then show ?case by auto
next
  case (Suc n)
  then show ?case by (auto simp: entry_addr_inj)
qed

lemma copy_down:
  "12 * (i + n) < 2 ^ 32 \<Longrightarrow> 12 * j < 2 ^ 32 \<Longrightarrow>
   copy_entries n (entry_addr t i) (entry_addr t (Suc i)) m (entry_addr t j) =
     (if i \<le> j \<and> j < i + n then m (entry_addr t (Suc j)) else m (entry_addr t j))"
proof (induction n arbitrary: i m)
  case 0
  then show ?case by auto
next
  case (Suc n)
  then show ?case by (auto simp: entry_addr_inj not_less_eq_eq)
qed

text \<open>The table of a space as a list.\<close>

definition block_table :: "vm_state \<Rightarrow> space_ref \<Rightarrow> vmb list" where
  "block_table st sp = map (block_at st sp) [0..<unat (block_count (spaces st sp))]"

lemma block_table_length [simp]: "length (block_table st sp) = unat (block_count (spaces st sp))"
  by (simp add: block_table_def)

lemma block_table_nth [simp]:
  "i < unat (block_count (spaces st sp)) \<Longrightarrow> block_table st sp ! i = block_at st sp i"
  by (simp add: block_table_def)

lemma insert_table:
  assumes i: "i \<le> unat (block_count (spaces st sp))"
    and n: "12 * (unat (block_count (spaces st sp)) + 1) < 2 ^ 32"
  shows "block_table (insert_block sp i b st) sp =
     take i (block_table st sp) @ b #
       replicate (unat (block_count (spaces st sp)) - i) (block_at st sp i)"
proof (rule nth_equalityI)
  let ?n = "unat (block_count (spaces st sp))" and ?t = "blocks (spaces st sp)"
  have n': "unat (block_count (spaces st sp) + 1) = ?n + 1"
    using n by (intro unat_Suc_word [THEN trans]) simp_all
  have k: "unat (block_count (spaces st sp) - of_nat i) = ?n - i"
    using i n by (simp add: unat_sub_if' unat_of_nat32)
  show "length (block_table (insert_block sp i b st) sp) =
      length (take i (block_table st sp) @ b # replicate (?n - i) (block_at st sp i))"
    using i n' by (simp add: insert_block_def Let_def put_block_def)
  fix j assume "j < length (block_table (insert_block sp i b st) sp)"
  then have j: "j < ?n + 1" using n' by (simp add: insert_block_def Let_def put_block_def)
  have "block_table (insert_block sp i b st) sp ! j = block_at (insert_block sp i b st) sp j"
    using j n' by (intro block_table_nth) (simp add: insert_block_def Let_def put_block_def)
  also have "\<dots> = (if j = i then b
      else copy_entries (?n - i) (entry_addr ?t (Suc i)) (entry_addr ?t i) (entries st) (entry_addr ?t j))"
    using i j n k by (simp add: insert_block_def Let_def put_block_def block_at_def entry_addr_inj)
  also have "\<dots> = (if j = i then b else if i < j then block_at st sp i else block_at st sp j)"
    using i j n by (auto simp: copy_up block_at_def)
  finally show "block_table (insert_block sp i b st) sp ! j =
      (take i (block_table st sp) @ b # replicate (?n - i) (block_at st sp i)) ! j"
    using i j by (auto simp: nth_append nth_Cons')
qed

text \<open>Entering a block at index \<open>i\<close> of a table makes every later entry a copy of the
  entry that was at \<open>i\<close>: \<^verbatim>\<open>memcpy\<close> runs forward over its own output.  Only where at most
  one entry follows is this an insertion.\<close>

theorem insert_block_table:
  assumes "i \<le> unat (block_count (spaces st sp))"
    and "12 * (unat (block_count (spaces st sp)) + 1) < 2 ^ 32"
  shows "block_table (insert_block sp i b st) sp =
     take i (block_table st sp) @ b #
       replicate (unat (block_count (spaces st sp)) - i) (block_at st sp i)"
  using assms by (rule insert_table)


section \<open>Choosing the address of one page\<close>

definition top_of :: "vmb \<Rightarrow> nat" where
  "top_of b = unat (vbase b) + unat (vlength b)"

text \<open>A table that is fit for the search: whole pages, highest block first, disjoint.\<close>

definition table_ok :: "vmb list \<Rightarrow> nat \<Rightarrow> bool" where
  "table_ok bl lim \<longleftrightarrow>
     (\<forall>b \<in> set bl. aligned (vbase b) \<and> 4096 \<le> unat (vbase b) \<and> 4096 dvd unat (vlength b) \<and>
        vlength b \<noteq> 0 \<and> top_of b \<le> lim) \<and>
     sorted_wrt (\<lambda>a b. top_of b \<le> unat (vbase a)) bl"

text \<open>Where a one-page range \<open>v\<close> fits between the first \<open>i\<close> blocks and the rest.\<close>

definition fits_at :: "vmb list \<Rightarrow> u32 \<Rightarrow> nat \<Rightarrow> bool" where
  "fits_at bl v i \<longleftrightarrow> aligned v \<and> i \<le> length bl \<and>
     (\<forall>b \<in> set (take i bl). unat v + 4096 \<le> unat (vbase b)) \<and>
     (\<forall>b \<in> set (drop i bl). top_of b \<le> unat v)"

lemma page_gap: "x mod 4096 = 0 \<Longrightarrow> y mod 4096 = 0 \<Longrightarrow> x < y \<Longrightarrow> x + 4096 \<le> (y :: nat)"
  by (auto simp: mod_eq_0_iff_dvd elim!: dvdE)

lemma aligned_less: "aligned a \<Longrightarrow> aligned b \<Longrightarrow> a < b \<Longrightarrow> unat a + 4096 \<le> unat b"
  unfolding aligned_iff word_less_nat_alt by (rule page_gap)

lemma page_overlap:
  assumes al: "aligned v" "aligned (vbase b)" and len: "vlength b \<noteq> 0" "4096 dvd unat (vlength b)"
    and top: "top_of b \<le> unat v + 4096" "unat v + 4096 < 2 ^ 32"
  shows "is_blocks_overlapped (vbase b) (vlength b) v 1 \<longleftrightarrow> \<not> top_of b \<le> unat v"
proof -
  have l: "4096 \<le> unat (vlength b)" using len by (auto simp: dvd_imp_le unat_gt_0)
  have s: "unat (vbase b + vlength b) = top_of b"
    using top by (simp add: top_of_def unat_add_lem [THEN iffD1])
  have v1: "unat (v + 1) = unat v + 1" using top by (intro unat_Suc_word [THEN trans]) simp_all
  have "\<not> v < vbase b" using aligned_less [OF al] l top(1) by (auto simp: top_of_def)
  then have "vbase b \<le> v" by simp
  moreover have "unat (vbase b) < top_of b" using l by (simp add: top_of_def)
  ultimately show ?thesis
    by (auto simp: is_blocks_overlapped_def word_less_nat_alt word_le_nat_alt s v1)
qed

lemma aligned_minus_page:
  "aligned a \<Longrightarrow> 4096 \<le> unat a \<Longrightarrow> aligned (a - 0x1000) \<and> unat (a - 0x1000) = unat a - 4096"
  by (auto simp: aligned_iff unat_sub word_le_nat_alt mod_if)

lemma search_down_fits:
  assumes "table_ok bl lim" and "aligned v" and "unat v + 4096 < 2 ^ 32"
    and "length bl = i + k"
    and "\<forall>j < i. unat v + 4096 \<le> unat (vbase (bl ! j))"
    and "\<forall>j. i \<le> j \<longrightarrow> j < i + k \<longrightarrow> top_of (bl ! j) \<le> unat v + 4096"
    and "\<And>j. j < i + k \<Longrightarrow> b j = bl ! j"
  shows "\<exists>v' i'. search_down k i b 1 v = (v', i') \<and> fits_at bl v' i'"
  using assms
proof (induction k arbitrary: i v)
  case 0
  then show ?case by (auto simp: fits_at_def in_set_conv_nth)
next
  case (Suc k)
  have m: "bl ! i \<in> set bl" using Suc.prems(4) by simp
  then have bi: "aligned (vbase (bl ! i))" "4096 \<le> unat (vbase (bl ! i))" "vlength (bl ! i) \<noteq> 0"
    "4096 dvd unat (vlength (bl ! i))"
    using Suc.prems(1) by (auto simp: table_ok_def)
  have ord: "top_of (bl ! j) \<le> unat (vbase (bl ! j'))" if "j' < j" "j < length bl" for j j'
    using Suc.prems(1) that by (auto simp: table_ok_def sorted_wrt_iff_nth_less)
  have ov: "is_blocks_overlapped (vbase (bl ! i)) (vlength (bl ! i)) v 1 \<longleftrightarrow>
      \<not> top_of (bl ! i) \<le> unat v"
    using Suc.prems bi by (intro page_overlap) auto
  show ?case
  proof (cases "top_of (bl ! i) \<le> unat v")
    case True
    have "top_of (bl ! j) \<le> unat v" if "i \<le> j" "j < length bl" for j
    proof (cases "j = i")
      case False
      then have "top_of (bl ! j) \<le> unat (vbase (bl ! i))" using ord that by simp
      then show ?thesis using True by (simp add: top_of_def)
    qed (use True in simp)
    then have "fits_at bl v i"
      using Suc.prems(2,4,5) by (auto simp: fits_at_def in_set_conv_nth)
    then show ?thesis using True ov Suc.prems(7) [of i] by simp
  next
    case False
    let ?v = "vbase (bl ! i) - 0x1000"
    note m = aligned_minus_page [OF bi(1,2)]
    have "\<forall>j < Suc i. unat ?v + 4096 \<le> unat (vbase (bl ! j))"
    proof (intro allI impI)
      fix j assume "j < Suc i"
      then show "unat ?v + 4096 \<le> unat (vbase (bl ! j))"
        using m bi(2) ord [of j i] Suc.prems(4) by (cases "j = i") (auto simp: top_of_def)
    qed
    moreover have "\<forall>j. Suc i \<le> j \<longrightarrow> j < Suc i + k \<longrightarrow> top_of (bl ! j) \<le> unat ?v + 4096"
      using m bi(2) ord [of i] Suc.prems(4) by auto
    moreover have "unat ?v + 4096 < 2 ^ 32" using m bi(2) u32_less [of "vbase (bl ! i)"] by simp
    ultimately have "\<exists>v' i'. search_down k (Suc i) b 1 ?v = (v', i') \<and> fits_at bl v' i'"
      using m Suc.prems(4,7) by (intro Suc.IH [OF Suc.prems(1)]) auto
    then show ?thesis using False ov Suc.prems(7) [of i] by simp
  qed
qed


section \<open>Allocation with memory at hand\<close>

lemma block_at_lock [simp]:
  "block_at (st\<lparr>spaces := (spaces st)(sp := spaces st sp\<lparr>as_mutex := m\<rparr>)\<rparr>) sp = block_at st sp"
  by (simp add: block_at_def fun_eq_iff)

lemma choose_vaddr_lock [simp]:
  "choose_vaddr sp v count (st\<lparr>spaces := (spaces st)(sp := spaces st sp\<lparr>as_mutex := m\<rparr>)\<rparr>) =
   choose_vaddr sp v count st"
  by (simp add: choose_vaddr_def Let_def)

lemma lock_space_free:
  "\<not> as_mutex (spaces st sp) \<Longrightarrow> lock_space sp st = Some (upd_space sp (\<lambda>a. a\<lparr>as_mutex := True\<rparr>) st)"
  by (simp add: lock_space_def)

lemma unlock_insert:
  "\<not> as_mutex (spaces st sp) \<Longrightarrow>
   unlock_space sp (insert_block sp i b ((upd_space sp (\<lambda>a. a\<lparr>as_mutex := True\<rparr>) st)\<lparr>phys := p\<rparr>)) =
   insert_block sp i b (st\<lparr>phys := p\<rparr>)"
  by (auto simp: unlock_space_def insert_block_def Let_def put_block_def mutex_release_def fun_eq_iff
    intro!: vm_state.equality address_space.equality)

lemma alloc_virt_run:
  assumes unl: "\<not> as_mutex (spaces st sp)" and ch: "choose_vaddr sp v0 count st = (v, i)" "v \<noteq> 0"
    and pg: "paging_ok (phys st) (page_dir (spaces st sp)) bs" and mem: "take_block count bs \<noteq> None"
    and rng: "page_no v + unat count \<le> 2 ^ 20"
    and tabs: "\<forall>w. page_no v \<le> page_no w \<and> page_no w < page_no v + unat count \<longrightarrow>
       present (dir_entry (phys st) (page_dir (spaces st sp)) (page_index 22 w))"
    and room: "block_count (spaces st sp) \<noteq> block_table_size (spaces st sp)"
  shows "\<exists>r p bs'. alloc_virt_pages sp v0 (- 1) count flags st =
      Some (v, insert_block sp i \<lparr>vtype = VMB_MEMORY, vbase = v, vlength = push_bit 12 count\<rparr>
        (st\<lparr>phys := p\<rparr>)) \<and>
    paging_ok p (page_dir (spaces st sp)) bs' \<and> free_pages bs' \<subseteq> free_pages bs \<and>
    pages (r, count) \<subseteq> free_pages bs \<and> pages (r, count) \<inter> free_pages bs' = {} \<and>
    (\<forall>w. lookup p (page_dir (spaces st sp)) w =
       mapped (lookup (phys st) (page_dir (spaces st sp))) v r (unat count) flags w)"
proof -
  let ?dir = "page_dir (spaces st sp)"
  obtain r q bs' where q: "alloc_phys_pages count (phys st) = Some (r, q)" "paging_ok q ?dir bs'"
    "free_pages bs' \<subseteq> free_pages bs" "lookup q ?dir = lookup (phys st) ?dir"
    "dir_entry q ?dir = dir_entry (phys st) ?dir" "r = - 1 \<longleftrightarrow> take_block count bs = None"
    "r \<noteq> - 1 \<longrightarrow> aligned r \<and> pages (r, count) \<subseteq> free_pages bs \<and> pages (r, count) \<inter> free_pages bs' = {}"
    using alloc_paging [OF pg, of count] by (elim exE conjE) (rule that)
  obtain p where p: "map_pages_loop (unat count) ?dir v r flags q = Some (True, p)"
    "paging_ok p ?dir bs'"
    using map_present [OF q(2) rng, of r flags] tabs q(5) by auto
  have lk: "\<forall>w. lookup p ?dir w = mapped (lookup (phys st) ?dir) v r (unat count) flags w"
    using map_loop [OF q(2) rng, of r flags] p(1) q(4) by auto
  have r: "r \<noteq> - 1" using q(6) mem by simp
  have "alloc_virt_pages sp v0 (- 1) count flags st = Some (v, unlock_space sp
      (insert_block sp i \<lparr>vtype = VMB_MEMORY, vbase = v, vlength = push_bit 12 count\<rparr>
        ((upd_space sp (\<lambda>a. a\<lparr>as_mutex := True\<rparr>) st)\<lparr>phys := p\<rparr>)))"
    using unl ch q(1) p(1) r room
    by (simp add: alloc_virt_pages_def alloc_virt_body_def lock_space_free phys_alloc_def
      phys_map_def map_pages_def grow_if_full_def)
  then show ?thesis using unlock_insert [OF unl] p(2) q(3,7) r lk by auto
qed


lemma choose_one_page:
  assumes tab: "table_ok (block_table st sp) (unat (as_end (spaces st sp)) + 1)"
    and e: "unat (as_end (spaces st sp)) mod 4096 = 4095" "unat (as_end (spaces st sp)) + 1 < 2 ^ 32"
    and ch: "choose_vaddr sp 0 1 st = (v, i)"
  shows "fits_at (block_table st sp) v i"
proof -
  let ?e = "as_end (spaces st sp)"
  let ?v = "?e - 0x1000 + 1"
  have e1: "unat (?e + 1) = unat ?e + 1" using e(2) by (intro unat_Suc_word [THEN trans]) simp_all
  then have "aligned (?e + 1)" using e(1) by (simp add: aligned_iff mod_Suc)
  moreover have "4095 \<le> unat ?e" using e(1) mod_less_eq_dividend [of "unat ?e" 4096] by simp
  moreover have "?v = ?e + 1 - 0x1000" by simp
  ultimately have v: "aligned ?v" "unat ?v + 4096 = unat ?e + 1"
    using aligned_minus_page [of "?e + 1"] e1 by auto
  have "\<exists>v' i'. search_down (unat (block_count (spaces st sp))) 0 (block_at st sp) 1 ?v = (v', i') \<and>
      fits_at (block_table st sp) v' i'"
    using v e tab
    by (intro search_down_fits [OF tab]) (auto simp: table_ok_def all_set_conv_all_nth)
  then show ?thesis using ch by (simp add: choose_vaddr_def Let_def)
qed

text \<open>C13: \<^verbatim>\<open>alloc_virt_pages\<close> for one page anywhere, on a well-formed table with room and with
  memory at hand, returns a page that no block of the table touches, maps it to a page
  that was free and is no longer, changes no other translation, and enters the block at
  the index that keeps the table in order (copying the entry there over all later ones).\<close>

theorem alloc_virt_page_correct:
  assumes unl: "\<not> as_mutex (spaces st sp)"
    and tab: "table_ok (block_table st sp) (unat (as_end (spaces st sp)) + 1)"
    and e: "unat (as_end (spaces st sp)) mod 4096 = 4095" "unat (as_end (spaces st sp)) + 1 < 2 ^ 32"
    and ch: "choose_vaddr sp 0 1 st = (v, i)" "v \<noteq> 0"
    and pg: "paging_ok (phys st) (page_dir (spaces st sp)) bs" and mem: "take_block 1 bs \<noteq> None"
    and pr: "present (dir_entry (phys st) (page_dir (spaces st sp)) (page_index 22 v))"
    and room: "block_count (spaces st sp) \<noteq> block_table_size (spaces st sp)"
      "12 * (unat (block_count (spaces st sp)) + 1) < 2 ^ 32"
  shows "\<exists>r st' bs'. alloc_virt_pages sp 0 (- 1) 1 flags st = Some (v, st') \<and>
    fits_at (block_table st sp) v i \<and>
    block_table st' sp = take i (block_table st sp) @
      \<lparr>vtype = VMB_MEMORY, vbase = v, vlength = PAGE_SIZE\<rparr> #
      replicate (unat (block_count (spaces st sp)) - i) (block_at st sp i) \<and>
    paging_ok (phys st') (page_dir (spaces st sp)) bs' \<and>
    pages (r, 1) \<subseteq> free_pages bs - free_pages bs' \<and>
    (\<forall>w. lookup (phys st') (page_dir (spaces st sp)) w =
       (if page_no w = page_no v then entry_for r flags
        else lookup (phys st) (page_dir (spaces st sp)) w))"
proof -
  have fit: "fits_at (block_table st sp) v i" using choose_one_page [OF tab e ch(1)] .
  then have i: "i \<le> unat (block_count (spaces st sp))" by (simp add: fits_at_def)
  have rng: "page_no v + unat (1 :: u32) \<le> 2 ^ 20" using page_no_less [of v] by simp
  have tabs: "\<forall>w. page_no v \<le> page_no w \<and> page_no w < page_no v + unat (1 :: u32) \<longrightarrow>
      present (dir_entry (phys st) (page_dir (spaces st sp)) (page_index 22 w))"
  proof (intro allI impI)
    fix w assume "page_no v \<le> page_no w \<and> page_no w < page_no v + unat (1 :: u32)"
    then have "page_no w = page_no v" by simp
    then show "present (dir_entry (phys st) (page_dir (spaces st sp)) (page_index 22 w))"
      using pr by (simp add: page_index_22)
  qed
  obtain r p bs' where p: "alloc_virt_pages sp 0 (- 1) 1 flags st =
      Some (v, insert_block sp i \<lparr>vtype = VMB_MEMORY, vbase = v, vlength = push_bit 12 1\<rparr>
        (st\<lparr>phys := p\<rparr>))" "paging_ok p (page_dir (spaces st sp)) bs'"
      "free_pages bs' \<subseteq> free_pages bs" "pages (r, 1) \<subseteq> free_pages bs" "pages (r, 1) \<inter> free_pages bs' = {}"
      "\<forall>w. lookup p (page_dir (spaces st sp)) w =
         mapped (lookup (phys st) (page_dir (spaces st sp))) v r (unat (1 :: u32)) flags w"
    using alloc_virt_run [OF unl ch pg mem rng tabs room(1), of flags] by (elim exE conjE) (rule that)
  let ?st' = "insert_block sp i \<lparr>vtype = VMB_MEMORY, vbase = v, vlength = PAGE_SIZE\<rparr> (st\<lparr>phys := p\<rparr>)"
  have same: "block_table (st\<lparr>phys := p\<rparr>) sp = block_table st sp"
    "block_at (st\<lparr>phys := p\<rparr>) sp = block_at st sp"
    by (simp_all add: block_table_def block_at_def fun_eq_iff)
  have "phys ?st' = p" by (simp add: insert_block_def Let_def put_block_def)
  moreover have "mapped f v r 1 flags w = (if page_no w = page_no v then entry_for r flags else f w)"
    for f w by (auto simp: mapped_def)
  moreover have "block_table ?st' sp = take i (block_table st sp) @
      \<lparr>vtype = VMB_MEMORY, vbase = v, vlength = PAGE_SIZE\<rparr> #
      replicate (unat (block_count (spaces st sp)) - i) (block_at st sp i)"
    using insert_table [of i "st\<lparr>phys := p\<rparr>" sp] i room(2) same by simp
  moreover have "pages (r, 1) \<subseteq> free_pages bs - free_pages bs'" using p(4,5) by blast
  ultimately show ?thesis using p(1,2,6) fit
    by (intro exI [of _ r] exI [of _ ?st'] exI [of _ bs']) simp
qed


section \<open>A given address\<close>

text \<open>The bytes of \<open>n\<close> pages from \<open>v\<close> and of a block.\<close>

definition clear_of :: "u32 \<Rightarrow> u32 \<Rightarrow> vmb \<Rightarrow> bool" where
  "clear_of v count b \<longleftrightarrow>
     unat v + 4096 * unat count \<le> unat (vbase b) \<or> top_of b \<le> unat v"

lemma range_overlap:
  assumes "unat v + 4096 * unat count < 2 ^ 32" and "top_of b < 2 ^ 32"
  shows "is_blocks_overlapped (vbase b) (vlength b) v (push_bit 12 count) \<longleftrightarrow>
    (unat v \<le> unat (vbase b) \<and> unat (vbase b) < unat v + 4096 * unat count) \<or>
    (unat (vbase b) \<le> unat v \<and> unat v < top_of b)"
proof -
  have "unat (v + push_bit 12 count) = unat v + 4096 * unat count"
    using assms(1) by (rule unat_block_offset)
  moreover have "unat (vbase b + vlength b) = top_of b"
    using assms(2) by (simp add: top_of_def unat_add_lem [THEN iffD1])
  ultimately show ?thesis by (simp add: is_blocks_overlapped_def word_less_nat_alt word_le_nat_alt)
qed

lemma search_fixed_result:
  assumes "table_ok bl lim" and "lim < 2 ^ 32" and "unat v + 4096 * unat count < 2 ^ 32"
    and "length bl = i + k" and "v \<noteq> 0" and "0 < count"
    and "\<And>j. j < i + k \<Longrightarrow> b j = bl ! j"
  shows "case search_fixed k i b count v of (v', i') \<Rightarrow>
    if \<forall>c \<in> set (drop i bl). clear_of v count c
    then v' = v \<and> i \<le> i' \<and> i' \<le> length bl \<and>
      (\<forall>c \<in> set (drop i (take i' bl)). unat v + 4096 * unat count \<le> unat (vbase c)) \<and>
      (\<forall>c \<in> set (drop i' bl). top_of c \<le> unat v)
    else v' = 0"
  using assms(4,7)
proof (induction k arbitrary: i)
  case 0
  then show ?case by simp
next
  case (Suc k)
  have i: "i < length bl" using Suc.prems(1) by simp
  have dr: "drop i bl = bl ! i # drop (Suc i) bl" using i by (simp add: Cons_nth_drop_Suc)
  have m: "bl ! i \<in> set bl" using i by simp
  then have bi: "top_of (bl ! i) < 2 ^ 32" "unat (vbase (bl ! i)) < top_of (bl ! i)"
    using assms(1,2) by (auto simp: table_ok_def top_of_def unat_gt_0)
  have ord: "\<forall>c \<in> set (drop (Suc i) bl). top_of c \<le> unat (vbase (bl ! i))"
    using assms(1) i by (auto simp: table_ok_def sorted_wrt_iff_nth_less in_set_conv_nth)
  have c0: "0 < unat count" using assms(6) by (simp add: unat_gt_0 word_neq_0_conv)
  note ov = range_overlap [OF assms(3) bi(1)]
  have bb: "b i = bl ! i" using Suc.prems by simp
  show ?case
  proof (cases "clear_of v count (bl ! i)")
    case False
    then have "is_blocks_overlapped (vbase (bl ! i)) (vlength (bl ! i)) v (push_bit 12 count)"
      using ov by (auto simp: clear_of_def)
    then show ?thesis using False bb dr by simp
  next
    case clear: True
    then have no: "\<not> is_blocks_overlapped (vbase (bl ! i)) (vlength (bl ! i)) v (push_bit 12 count)"
      using ov bi(2) c0 by (auto simp: clear_of_def)
    show ?thesis
    proof (cases "vbase (bl ! i) < v")
      case True
      then have below: "top_of (bl ! i) \<le> unat v"
        using clear by (auto simp: clear_of_def word_less_nat_alt)
      then have "\<forall>c \<in> set (drop i bl). top_of c \<le> unat v" using ord dr bi(2) by fastforce
      then show ?thesis using no True bb i by (auto simp: clear_of_def)
    next
      case False
      then have above: "unat v + 4096 * unat count \<le> unat (vbase (bl ! i))"
        using clear bi(2) by (auto simp: clear_of_def word_less_nat_alt)
      have "search_fixed (Suc k) i b count v = search_fixed k (Suc i) b count v"
        using no False bb by simp
      moreover have "drop i (take i' bl) = bl ! i # drop (Suc i) (take i' bl)"
        if "Suc i \<le> i'" "i' \<le> length bl" for i'
        using that by (simp add: Cons_nth_drop_Suc [of i "take i' bl", symmetric])
      ultimately show ?thesis
        using Suc.IH [of "Suc i"] Suc.prems clear above by (auto simp: dr split: prod.splits if_splits)
    qed
  qed
qed

text \<open>At a given address inside the space, \<^verbatim>\<open>alloc_virt_pages\<close> goes on with that address
  exactly where the range is clear of every block of a well-formed table, at an index
  with all blocks before it above the range and all others below; where some block is in
  the way it gives up.\<close>

theorem choose_given_address:
  assumes tab: "table_ok (block_table st sp) lim" "lim < 2 ^ 32"
    and v: "v \<noteq> 0" "0 < count" "unat v + 4096 * unat count < 2 ^ 32"
      "as_start (spaces st sp) \<le> v" "v + push_bit 12 count < as_end (spaces st sp)"
  shows "case choose_vaddr sp v count st of (v', i) \<Rightarrow>
    if \<forall>b \<in> set (block_table st sp). clear_of v count b
    then v' = v \<and> i \<le> length (block_table st sp) \<and>
      (\<forall>b \<in> set (take i (block_table st sp)). unat v + 4096 * unat count \<le> unat (vbase b)) \<and>
      (\<forall>b \<in> set (drop i (block_table st sp)). top_of b \<le> unat v)
    else v' = 0"
proof -
  have "choose_vaddr sp v count st =
      search_fixed (unat (block_count (spaces st sp))) 0 (block_at st sp) count v"
    using v by (simp add: choose_vaddr_def Let_def)
  then show ?thesis
    using search_fixed_result [OF tab v(3) _ v(1,2), of 0 "unat (block_count (spaces st sp))"
        "block_at st sp"] by (simp only: drop_0 add_0 block_table_length block_table_nth simp_thms le0)
qed

text \<open>Where the pages asked for are not there, \<^verbatim>\<open>alloc_virt_pages\<close> still returns the
  address it chose, with nothing mapped there and no block entered.\<close>

theorem alloc_virt_no_memory:
  assumes unl: "\<not> as_mutex (spaces st sp)" and ch: "choose_vaddr sp v0 count st = (v, i)" "v \<noteq> 0"
    and pg: "paging_ok (phys st) (page_dir (spaces st sp)) bs" and mem: "take_block count bs = None"
  shows "\<exists>st'. alloc_virt_pages sp v0 (- 1) count flags st = Some (v, st') \<and>
    block_table st' sp = block_table st sp \<and>
    lookup (phys st') (page_dir (spaces st sp)) = lookup (phys st) (page_dir (spaces st sp))"
proof -
  let ?dir = "page_dir (spaces st sp)"
  obtain r q bs' where q: "alloc_phys_pages count (phys st) = Some (r, q)" "paging_ok q ?dir bs'"
    "free_pages bs' \<subseteq> free_pages bs" "lookup q ?dir = lookup (phys st) ?dir"
    "dir_entry q ?dir = dir_entry (phys st) ?dir" "r = - 1 \<longleftrightarrow> take_block count bs = None"
    "r \<noteq> - 1 \<longrightarrow> aligned r \<and> pages (r, count) \<subseteq> free_pages bs \<and> pages (r, count) \<inter> free_pages bs' = {}"
    using alloc_paging [OF pg, of count] by (elim exE conjE) (rule that)
  have "alloc_virt_pages sp v0 (- 1) count flags st = Some (v, unlock_space sp
      ((upd_space sp (\<lambda>a. a\<lparr>as_mutex := True\<rparr>) st)\<lparr>phys := q\<rparr>))"
    using unl ch q(1,6) mem
    by (simp add: alloc_virt_pages_def alloc_virt_body_def lock_space_free phys_alloc_def)
  then show ?thesis using q(4)
    by (simp add: unlock_space_def block_table_def block_at_def)
qed


section \<open>Several pages\<close>

text \<open>Asked for two or more pages anywhere, with the topmost page of the space taken,
  \<^verbatim>\<open>alloc_virt_pages\<close> returns a range that contains that page and maps it anew: the
  search compares blocks with a range of \<^verbatim>\<open>count\<close> bytes, not \<^verbatim>\<open>count\<close> pages.\<close>

theorem alloc_virt_pages_overlap:
  assumes unl: "\<not> as_mutex (spaces st sp)" and ne: "block_count (spaces st sp) \<noteq> 0"
    and e: "unat (as_end (spaces st sp)) mod 4096 = 4095" "unat (as_end (spaces st sp)) + 1 < 2 ^ 32"
    and b0: "vbase (block_at st sp 0) = as_end (spaces st sp) - 0xFFF"
    and c: "2 \<le> unat count" "4096 * unat count \<le> unat (as_end (spaces st sp))"
    and pg: "paging_ok (phys st) (page_dir (spaces st sp)) bs" and mem: "take_block count bs \<noteq> None"
    and tabs: "\<forall>w. page_no w \<le> page_no (vbase (block_at st sp 0)) \<and>
       page_no (vbase (block_at st sp 0)) < page_no w + unat count \<longrightarrow>
       present (dir_entry (phys st) (page_dir (spaces st sp)) (page_index 22 w))"
    and room: "block_count (spaces st sp) \<noteq> block_table_size (spaces st sp)"
  shows "\<exists>v st' r. alloc_virt_pages sp 0 (- 1) count flags st = Some (v, st') \<and>
    unat v \<le> unat (vbase (block_at st sp 0)) \<and>
    unat (vbase (block_at st sp 0)) < unat v + 4096 * unat count \<and>
    lookup (phys st') (page_dir (spaces st sp)) (vbase (block_at st sp 0)) =
      entry_for (r + (count - 1) * 0x1000) flags"
proof -
  let ?e = "as_end (spaces st sp)" and ?b = "vbase (block_at st sp 0)"
  let ?v = "?e - push_bit 12 count + 1"
  have pc: "unat (push_bit 12 count :: u32) = 4096 * unat count"
    using c(2) u32_less [of ?e] by (intro unat_pages) simp
  have b: "unat ?b = unat ?e - 4095" using b0 e(1) mod_less_eq_dividend [of "unat ?e" 4096]
    by (simp add: unat_sub word_le_nat_alt)
  have v: "unat ?v = unat ?e + 1 - 4096 * unat count"
  proof -
    have "unat (?e - push_bit 12 count) = unat ?e - 4096 * unat count"
      using pc c(2) by (simp add: unat_sub word_le_nat_alt)
    then show ?thesis using c(2) e(2) by (subst unat_Suc_word) simp_all
  qed
  have v1: "unat (?v + count) = unat ?v + unat count"
    using v c e(2) by (intro unat_add_lem [THEN iffD1]) simp
  have "\<not> is_blocks_overlapped ?b (vlength (block_at st sp 0)) ?v count"
    using v v1 b c e(1) by (auto simp: is_blocks_overlapped_def word_less_nat_alt word_le_nat_alt)
  moreover have "0 < unat (block_count (spaces st sp))" using ne by (simp add: unat_gt_0)
  then obtain n where "unat (block_count (spaces st sp)) = Suc n"
    using gr0_implies_Suc by blast
  ultimately have ch: "choose_vaddr sp 0 count st = (?v, 0)" by (simp add: choose_vaddr_def Let_def)
  have v0: "?v \<noteq> 0" using v c(2) by (auto simp: unat_eq_zero [symmetric])
  have pv: "page_no ?v + unat count = page_no ?b + 1"
    using v b e(1) c by (simp add: page_no_def)
  then have rng: "page_no ?v + unat count \<le> 2 ^ 20" using page_no_less [of ?b] by simp
  have tabs': "\<forall>w. page_no ?v \<le> page_no w \<and> page_no w < page_no ?v + unat count \<longrightarrow>
      present (dir_entry (phys st) (page_dir (spaces st sp)) (page_index 22 w))"
    using tabs pv by simp
  obtain r p bs' where p: "alloc_virt_pages sp 0 (- 1) count flags st =
      Some (?v, insert_block sp 0 \<lparr>vtype = VMB_MEMORY, vbase = ?v, vlength = push_bit 12 count\<rparr>
        (st\<lparr>phys := p\<rparr>))"
      "\<forall>w. lookup p (page_dir (spaces st sp)) w =
         mapped (lookup (phys st) (page_dir (spaces st sp))) ?v r (unat count) flags w"
    using alloc_virt_run [OF unl ch v0 pg mem rng tabs' room, of flags] by blast
  have "page_no ?b - page_no ?v = unat count - 1" using pv by simp
  then have "(of_nat (page_no ?b - page_no ?v) :: u32) = count - 1" using c(1) by (simp add: of_nat_diff)
  then have "mapped f ?v r (unat count) flags ?b = entry_for (r + (count - 1) * 0x1000) flags" for f
    using pv c(1) by (simp add: mapped_def)
  moreover have "phys (insert_block sp 0 x (st\<lparr>phys := p\<rparr>)) = p" for x
    by (simp add: insert_block_def Let_def put_block_def)
  moreover have "unat ?v \<le> unat ?b" "unat ?b < unat ?v + 4096 * unat count" using v b c by simp_all
  ultimately show ?thesis using p
    by (intro exI [of _ ?v] exI [of _ "insert_block sp 0
      \<lparr>vtype = VMB_MEMORY, vbase = ?v, vlength = push_bit 12 count\<rparr> (st\<lparr>phys := p\<rparr>)"]
      exI [of _ r]) simp
qed

section \<open>Freeing\<close>

text \<open>The block \<open>b\<close> contains the address \<open>v\<close>.\<close>

definition holds :: "vmb \<Rightarrow> u32 \<Rightarrow> bool" where
  "holds b v \<longleftrightarrow> unat (vbase b) \<le> unat v \<and> unat v < top_of b"

text \<open>The block of a well-formed table that holds an address is the one the loop finds.\<close>

lemma block_test:
  assumes "top_of b < 2 ^ 32"
  shows "vbase b \<le> v \<and> v < vbase b + vlength b \<longleftrightarrow> holds b v"
proof -
  have "unat (vbase b + vlength b) = top_of b" using assms unfolding top_of_def by (subst unat_add_lem [THEN iffD1]) simp_all
  then show ?thesis by (simp add: holds_def word_le_nat_alt word_less_nat_alt)
qed

lemma find_block_none: "\<forall>j < k. \<not> (vbase (b (i + j)) \<le> v \<and> v < vbase (b (i + j)) + vlength (b (i + j))) \<Longrightarrow> find_block k i b v = i + k"
proof (induction k arbitrary: i)
  case (Suc k)
  have "\<not> (vbase (b i) \<le> v \<and> v < vbase (b i) + vlength (b i))" using Suc.prems [rule_format, of 0] by simp
  moreover have "\<forall>j < k. \<not> (vbase (b (i + 1 + j)) \<le> v \<and> v < vbase (b (i + 1 + j)) + vlength (b (i + 1 + j)))"
    using Suc.prems by (metis Suc_less_eq add.assoc plus_1_eq_Suc)
  ultimately show ?case using Suc.IH [of "i + 1"] by simp
qed simp

lemma find_block_at:
  assumes "\<forall>j < m. \<not> (vbase (b (i + j)) \<le> v \<and> v < vbase (b (i + j)) + vlength (b (i + j)))"
    and "vbase (b (i + m)) \<le> v \<and> v < vbase (b (i + m)) + vlength (b (i + m))" and "m < k"
  shows "find_block k i b v = i + m"
  using assms
proof (induction k arbitrary: i m)
  case (Suc k)
  show ?case
  proof (cases m)
    case (Suc l)
    have "\<not> (vbase (b i) \<le> v \<and> v < vbase (b i) + vlength (b i))" using Suc.prems(1) [rule_format, of 0] \<open>m = Suc l\<close> by simp
    moreover have "find_block k (i + 1) b v = i + 1 + l"
      using Suc.prems \<open>m = Suc l\<close> by (intro Suc.IH) (auto simp del: plus_1_eq_Suc)
    ultimately show ?thesis using Suc by simp
  qed (use Suc.prems in simp)
qed simp

lemma find_holds:
  assumes ok: "table_ok bl lim" and lim: "lim < 2 ^ 32" and bl: "bl = map b [0..<n]"
  shows "i < n \<Longrightarrow> holds (b i) v \<Longrightarrow> find_block n 0 b v = i"
    and "\<forall>x \<in> set bl. \<not> holds x v \<Longrightarrow> find_block n 0 b v = n"
proof -
  have top: "top_of (b j) < 2 ^ 32" if "j < n" for j
  proof -
    have "b j \<in> set bl" using that bl by auto
    then show ?thesis using ok lim by (auto simp: table_ok_def)
  qed
  note test = block_test [OF top]
  show "find_block n 0 b v = n" if "\<forall>x \<in> set bl. \<not> holds x v"
    using find_block_none [of n b 0 v] test that bl by auto
  assume i: "i < n" "holds (b i) v"
  have "\<not> holds (b j) v" if "j < i" for j
  proof -
    have "top_of (b i) \<le> unat (vbase (b j))"
      using ok that i(1) unfolding table_ok_def sorted_wrt_iff_nth_less bl by auto
    then show ?thesis using i(2) by (simp add: holds_def)
  qed
  then show "find_block n 0 b v = i"
    using find_block_at [of i b 0 v n] test i by auto
qed

lemma free_found:
  assumes unl: "\<not> as_mutex (spaces st sp)"
    and i: "find_block (unat (block_count (spaces st sp))) 0 (block_at st sp) vaddr = i"
      "i < unat (block_count (spaces st sp))"
    and n: "12 * (unat (block_count (spaces st sp)) + 1) < 2 ^ 32"
    and fr: "free_phys_pages (lookup (phys st) (page_dir (spaces st sp)) vaddr AND NOT 0xFFF)
       (drop_bit 12 (vlength (block_at st sp i)))
       (snd (get_page_info (page_dir (spaces st sp)) vaddr (phys st))) = Some p"
  shows "\<exists>st'. free_virt_pages sp vaddr flags st = Some (True, st') \<and> phys st' = p \<and>
    block_table st' sp = take i (block_table st sp) @ drop (Suc i) (block_table st sp) \<and>
    spaces st' = (spaces st)(sp := (spaces st sp)\<lparr>block_count := block_count (spaces st sp) - 1\<rparr>)"
proof -
  let ?n = "unat (block_count (spaces st sp))" and ?t = "blocks (spaces st sp)"
  let ?dir = "page_dir (spaces st sp)"
  let ?m = "(entries st)(entry_addr ?t i := (block_at st sp i)\<lparr>vtype := VMB_MEMORY\<rparr>)"
  let ?k = "unat (block_count (spaces st sp) - 1 - of_nat i)"
  let ?m' = "copy_entries ?k (entry_addr ?t i) (entry_addr ?t (Suc i)) ?m"
  obtain e q where e: "get_page_info ?dir vaddr (phys st) = (e, q)" by fastforce
  then have le: "lookup (phys st) ?dir vaddr = e" using get_page_info_lookup [of ?dir vaddr "phys st"] by simp
  have n1: "unat (block_count (spaces st sp) - 1) = ?n - 1"
    using i(2) by (intro unat_minus_one) auto
  have k: "?k = ?n - 1 - i" using i(2) n n1 by (simp add: unat_sub_if' unat_of_nat32)
  have f: "free_virt_pages sp vaddr flags st = Some (True,
      st\<lparr>phys := p, entries := ?m', spaces := (spaces st)(sp := spaces st sp
        \<lparr>block_count := block_count (spaces st sp) - 1, as_mutex := False\<rparr>)\<rparr>)"
    using unl i fr e le
    by (simp add: free_virt_pages_def lock_space_free phys_info_def phys_free_def put_block_def
      unlock_space_def mutex_release_def block_at_def Let_def)
  let ?st' = "st\<lparr>phys := p, entries := ?m', spaces := (spaces st)(sp := spaces st sp
        \<lparr>block_count := block_count (spaces st sp) - 1, as_mutex := False\<rparr>)\<rparr>"
  have "block_table ?st' sp = take i (block_table st sp) @ drop (Suc i) (block_table st sp)"
  proof (rule nth_equalityI)
    show "length (block_table ?st' sp) =
        length (take i (block_table st sp) @ drop (Suc i) (block_table st sp))"
      using i(2) n1 by simp
    fix j assume "j < length (block_table ?st' sp)"
    then have j: "j < ?n - 1" using n1 by simp
    have "block_table ?st' sp ! j = ?m' (entry_addr ?t j)"
      using j n1 by (simp add: block_at_def)
    also have "\<dots> = (if i \<le> j then block_at st sp (Suc j) else block_at st sp j)"
      using j i(2) n k by (auto simp: copy_down entry_addr_inj block_at_def)
    finally show "block_table ?st' sp ! j =
        (take i (block_table st sp) @ drop (Suc i) (block_table st sp)) ! j"
      using i(2) j by (auto simp: nth_append)
  qed
  moreover have "spaces ?st' = (spaces st)(sp := (spaces st sp)\<lparr>block_count := block_count (spaces st sp) - 1\<rparr>)"
    using unl by (cases "spaces st sp") simp
  ultimately show ?thesis using f by (intro exI [of _ ?st']) simp
qed

lemma free_missed:
  assumes unl: "\<not> as_mutex (spaces st sp)"
    and i: "find_block (unat (block_count (spaces st sp))) 0 (block_at st sp) vaddr = unat (block_count (spaces st sp))"
  shows "free_virt_pages sp vaddr flags st = Some (False, st)"
proof -
  have s: "(spaces st)(sp := (spaces st sp)\<lparr>as_mutex := False\<rparr>) = spaces st" using unl by (cases "spaces st sp") (simp add: fun_eq_iff)
  show ?thesis using unl i s
    by (simp add: free_virt_pages_def lock_space_free block_at_def unlock_space_def mutex_release_def Let_def)
qed

text \<open>C14: In a well-formed table, \<^verbatim>\<open>free_virt_pages\<close> takes out the one block that contains the address and changes
  nothing else of the address spaces, and gives the free list as many pages as the block has, from the
  frame the address is mapped to, whatever the type of the block: memory-mapped devices included.  For an
  address that is in no block it answers \<open>false\<close> and changes nothing.  The frames are to be freed in
  one of the ways that keep the free list well-formed.\<close>

theorem free_virt_pages_removes:
  assumes unl: "\<not> as_mutex (spaces st sp)" and ok: "table_ok (block_table st sp) lim" "lim < 2 ^ 32"
    and n: "12 * (unat (block_count (spaces st sp)) + 1) < 2 ^ 32" and fl: "free_list (phys st) bs"
  shows "(\<forall>i vaddr. i < length (block_table st sp) \<and> holds (block_table st sp ! i) vaddr \<longrightarrow>
      (let r = (lookup (phys st) (page_dir (spaces st sp)) vaddr AND NOT 0xFFF, drop_bit 12 (vlength (block_table st sp ! i)))
       in frees_cleanly bs r \<longrightarrow> (\<exists>st' bs'. free_virt_pages sp vaddr flags st = Some (True, st') \<and>
         block_table st' sp = take i (block_table st sp) @ drop (Suc i) (block_table st sp) \<and>
         spaces st' = (spaces st)(sp := (spaces st sp)\<lparr>block_count := block_count (spaces st sp) - 1\<rparr>) \<and>
         free_list (phys st') bs' \<and> free_pages bs' = free_pages bs \<union> pages r \<and>
         (\<forall>p. p \<notin> insert (fst r) (fst ` set bs) \<longrightarrow> ram (phys st') p = ram (phys st) p)))) \<and>
    (\<forall>vaddr. (\<forall>b \<in> set (block_table st sp). \<not> holds b vaddr) \<longrightarrow> free_virt_pages sp vaddr flags st = Some (False, st))"
proof (intro conjI allI impI)
  note found = find_holds [OF ok block_table_def]
  fix vaddr
  show "free_virt_pages sp vaddr flags st = Some (False, st)" if "\<forall>b \<in> set (block_table st sp). \<not> holds b vaddr"
    by (rule free_missed [OF unl found(2) [OF that]])
  fix i assume i: "i < length (block_table st sp) \<and> holds (block_table st sp ! i) vaddr"
  let ?dir = "page_dir (spaces st sp)"
  let ?r = "lookup (phys st) ?dir vaddr AND NOT 0xFFF" and ?c = "drop_bit 12 (vlength (block_table st sp ! i))"
  let ?q = "snd (get_page_info ?dir vaddr (phys st))"
  have q: "free_list ?q bs" "ram ?q = ram (phys st)" using fl by (simp_all add: get_page_info_def Let_def)
  have "\<exists>st' bs'. free_virt_pages sp vaddr flags st = Some (True, st') \<and>
         block_table st' sp = take i (block_table st sp) @ drop (Suc i) (block_table st sp) \<and>
         spaces st' = (spaces st)(sp := (spaces st sp)\<lparr>block_count := block_count (spaces st sp) - 1\<rparr>) \<and>
         free_list (phys st') bs' \<and> free_pages bs' = free_pages bs \<union> pages (?r, ?c) \<and>
         (\<forall>p. p \<notin> insert ?r (fst ` set bs) \<longrightarrow> ram (phys st') p = ram (phys st) p)" if c: "frees_cleanly bs (?r, ?c)"
  proof -
    obtain p bs' where p: "free_phys_pages ?r ?c ?q = Some p" "free_list p bs'" "free_pages bs' = free_pages bs \<union> pages (?r, ?c)"
      "\<forall>a. a \<notin> insert ?r (fst ` set bs) \<longrightarrow> ram p a = ram (phys st) a" using frees_cleanly_run [OF q(1) c] q(2) by auto
    have k: "i < unat (block_count (spaces st sp))" using i by simp
    with i found(1) have "find_block (unat (block_count (spaces st sp))) 0 (block_at st sp) vaddr = i" by simp
    from free_found [OF unl this k n, of p flags] p k show ?thesis by auto
  qed
  then show "let r = (?r, ?c) in frees_cleanly bs r \<longrightarrow> (\<exists>st' bs'. free_virt_pages sp vaddr flags st = Some (True, st') \<and>
         block_table st' sp = take i (block_table st sp) @ drop (Suc i) (block_table st sp) \<and>
         spaces st' = (spaces st)(sp := (spaces st sp)\<lparr>block_count := block_count (spaces st sp) - 1\<rparr>) \<and>
         free_list (phys st') bs' \<and> free_pages bs' = free_pages bs \<union> pages r \<and>
         (\<forall>p. p \<notin> insert (fst r) (fst ` set bs) \<longrightarrow> ram (phys st') p = ram (phys st) p))" by (simp add: Let_def)
qed

section \<open>Concrete spaces\<close>

text \<open>
  A space from \<open>0x400000\<close> to \<open>0x7FFFFF\<close> whose topmost page is taken, with its page
  table at \<open>0x5000\<close> and three free pages from \<open>0x2000\<close>, or none.
\<close>

definition demo_phys :: phys_mem where
  "demo_phys = \<lparr>ram = (\<lambda>b i. if b = 0x1000 then (if i = 1 then 0x5007 else 0)
       else if b = 0x2000 then (if i = 2 then 3 else 0x2000) else 0),
     temp_pte = 0, free_page_count = 3, free_ptr = 0x2000, phys_mutex = False\<rparr>"

definition demo_vm :: "phys_mem \<Rightarrow> vm_state" where
  "demo_vm p = \<lparr>phys = p,
     spaces = (\<lambda>_. \<lparr>page_dir = 0x1000, as_start = 0x400000, as_end = 0x7FFFFF,
       block_table_size = 341, block_count = 1, blocks = 0x100, as_mutex = False\<rparr>),
     entries = (\<lambda>_. \<lparr>vtype = VMB_IO_MEMORY, vbase = 0x7FF000, vlength = 0x1000\<rparr>)\<rparr>"

lemma demo_phys_ok: "paging_ok demo_phys 0x1000 [(0x2000, 3)]"
proof -
  have "dir_entry demo_phys 0x1000 i = (if i = 1 then 0x5007 else 0)" for i
    by (simp add: dir_entry_def demo_phys_def page_of_def)
  moreover have "free_list demo_phys [(0x2000, 3)]" by (simp add: demo_phys_def demo_simps)
  ultimately show ?thesis
    by (auto simp: paging_ok_def in_use_def free_pages_def pages_def aligned_def page_of_def present_def)
qed

lemma demo_vm_simps:
  "phys (demo_vm p) = p" "spaces (demo_vm p) sp = \<lparr>page_dir = 0x1000, as_start = 0x400000,
     as_end = 0x7FFFFF, block_table_size = 341, block_count = 1, blocks = 0x100, as_mutex = False\<rparr>"
  "block_at (demo_vm p) sp i = \<lparr>vtype = VMB_IO_MEMORY, vbase = 0x7FF000, vlength = 0x1000\<rparr>"
  "block_table (demo_vm p) sp = [\<lparr>vtype = VMB_IO_MEMORY, vbase = 0x7FF000, vlength = 0x1000\<rparr>]"
  by (simp_all add: demo_vm_def block_at_def block_table_def)

lemma demo_choose: "choose_vaddr Kernel_Space 0 1 (demo_vm p) = (0x7FE000, 1)"
  by (simp add: choose_vaddr_def demo_vm_simps Let_def is_blocks_overlapped_def)

lemma demo_table_ok: "table_ok (block_table (demo_vm p) sp) 0x800000"
  by (simp add: table_ok_def demo_vm_simps aligned_def page_of_def top_of_def)

lemma demo_present: "present (dir_entry demo_phys 0x1000 1)"
  by (simp add: present_def dir_entry_def demo_phys_def page_of_def)

theorem insert_block_table_witness:
  "block_table (insert_block Kernel_Space 0 \<lparr>vtype = VMB_MEMORY, vbase = 0x7FE000, vlength = 0x1000\<rparr>
     (demo_vm demo_phys)) Kernel_Space =
   [\<lparr>vtype = VMB_MEMORY, vbase = 0x7FE000, vlength = 0x1000\<rparr>,
    \<lparr>vtype = VMB_IO_MEMORY, vbase = 0x7FF000, vlength = 0x1000\<rparr>]"
  using insert_block_table [of 0 "demo_vm demo_phys" Kernel_Space
    "\<lparr>vtype = VMB_MEMORY, vbase = 0x7FE000, vlength = 0x1000\<rparr>"] by (simp add: demo_vm_simps)

theorem alloc_virt_page_correct_witness:
  "\<exists>st'. alloc_virt_pages Kernel_Space 0 (- 1) 1 3 (demo_vm demo_phys) = Some (0x7FE000, st') \<and>
     block_table st' Kernel_Space =
       [\<lparr>vtype = VMB_IO_MEMORY, vbase = 0x7FF000, vlength = 0x1000\<rparr>,
        \<lparr>vtype = VMB_MEMORY, vbase = 0x7FE000, vlength = 0x1000\<rparr>]"
  using alloc_virt_page_correct [of "demo_vm demo_phys" Kernel_Space "0x7FE000" 1 "[(0x2000, 3)]" 3]
    demo_table_ok demo_choose demo_phys_ok demo_present
  by (auto simp: demo_vm_simps page_index_def)

theorem choose_given_address_witness:
  "choose_vaddr Kernel_Space 0x500000 2 (demo_vm demo_phys) = (0x500000, 1)"
proof -
  have "clear_of 0x500000 2 b" if "b \<in> set (block_table (demo_vm demo_phys) Kernel_Space)" for b
    using that by (simp add: demo_vm_simps clear_of_def)
  then show ?thesis
    using choose_given_address [OF demo_table_ok, of "0x500000" 2 demo_phys Kernel_Space]
    by (auto simp: demo_vm_simps top_of_def choose_vaddr_def is_blocks_overlapped_def Let_def split: prod.splits)
qed

theorem alloc_virt_no_memory_witness:
  "\<exists>st'. alloc_virt_pages Kernel_Space 0 (- 1) 1 3 (demo_vm demo_tables) = Some (0x7FE000, st') \<and>
     block_table st' Kernel_Space = [\<lparr>vtype = VMB_IO_MEMORY, vbase = 0x7FF000, vlength = 0x1000\<rparr>]"
  using alloc_virt_no_memory [of "demo_vm demo_tables" Kernel_Space 0 1 "0x7FE000" 1 "[]" 3]
    demo_choose demo_tables_ok by (auto simp: demo_vm_simps)

theorem alloc_virt_pages_overlap_witness:
  "\<exists>v st'. alloc_virt_pages Kernel_Space 0 (- 1) 2 3 (demo_vm demo_phys) = Some (v, st') \<and>
     unat v \<le> 0x7FF000 \<and> 0x7FF000 < unat v + 4096 * 2"
proof -
  have "\<forall>w. page_no w \<le> page_no 0x7FF000 \<and> page_no 0x7FF000 < page_no w + unat (2 :: u32) \<longrightarrow>
      present (dir_entry demo_phys 0x1000 (page_index 22 w))"
  proof (intro allI impI)
    fix w assume "page_no w \<le> page_no 0x7FF000 \<and> page_no 0x7FF000 < page_no w + unat (2 :: u32)"
    moreover have "page_no 0x7FF000 = 2047" by (simp add: page_no_def)
    ultimately have "page_no w = 2046 \<or> page_no w = 2047" by auto
    then have "page_no w div 1024 = 1" by auto
    then show "present (dir_entry demo_phys 0x1000 (page_index 22 w))"
      using demo_present by (simp add: page_index_22)
  qed
  then show ?thesis
    using alloc_virt_pages_overlap [of "demo_vm demo_phys" Kernel_Space 2 "[(0x2000, 3)]" 3] demo_phys_ok
    by (auto simp: demo_vm_simps)
qed

text \<open>The topmost page of the space mapped to the frame at \<open>0x9000\<close>, with no free page.\<close>

definition demo_mapped :: phys_mem where
  "demo_mapped = \<lparr>ram = (\<lambda>b i. if b = 0x1000 \<and> i = 1 then 0x5007
       else if b = 0x5000 \<and> i = 1023 then 0x9003 else 0),
     temp_pte = 0, free_page_count = 0, free_ptr = - 1, phys_mutex = False\<rparr>"

theorem free_virt_pages_removes_witness:
  "(\<exists>st' bs'. free_virt_pages Kernel_Space 0x7FF123 0 (demo_vm demo_mapped) = Some (True, st') \<and>
     block_table st' Kernel_Space = [] \<and> free_list (phys st') bs' \<and> free_pages bs' = pages (0x9000, 1)) \<and>
   free_virt_pages Kernel_Space 0x7FEFFF 0 (demo_vm demo_mapped) = Some (False, demo_vm demo_mapped)"
proof -
  have lk: "lookup demo_mapped 0x1000 0x7FF123 = 0x9003"
    by (simp add: lookup_def dir_entry_def demo_mapped_def page_of_def page_index_def present_def)
  have fl: "free_list demo_mapped []" by (simp add: demo_mapped_def free_list_def chain_of_def ring_def)
  have c: "frees_cleanly [] (0x9000, 1)" by (simp add: frees_cleanly_def range_ok_def aligned_def page_of_def)
  note r = free_virt_pages_removes [of "demo_vm demo_mapped" Kernel_Space "0x800000" "[]" 0, OF _ demo_table_ok]
  have h: "holds \<lparr>vtype = VMB_IO_MEMORY, vbase = 0x7FF000, vlength = 0x1000\<rparr> 0x7FF123"
    "\<not> holds \<lparr>vtype = VMB_IO_MEMORY, vbase = 0x7FF000, vlength = 0x1000\<rparr> 0x7FEFFF"
    by (simp_all add: holds_def top_of_def)
  show ?thesis using r lk fl c h by (fastforce simp: demo_vm_simps Let_def free_pages_def)
qed

end
