(* ===== verification/Kernel_Mem.thy ===== *)
theory Kernel_Mem
  imports C4_Prelude
begin

text \<open>
  The byte-memory half of \<^verbatim>\<open>src/lib/stdlib.c\<close>.  Memory is a total function from
  32-bit addresses to bytes (a flat address space: an address that was never
  written holds whatever it holds), pointers are words and pointer arithmetic wraps
  as it does on the machine; \<^verbatim>\<open>char\<close> is the signed byte of the compiler the kernel is
  built with.  The inline assembly is modelled by the string instructions it issues
  (direction flag clear): \<open>rep_stosl\<close>, \<open>rep_stosb\<close> and \<open>repe_cmpsb\<close> work on the registers
  they are given, and a register the assembly never loads is a parameter.
\<close>

type_synonym mem = "u32 \<Rightarrow> u8"

section \<open>Definitions\<close>

subsection \<open>Copying and filling\<close>

fun memcpy_loop :: "nat \<Rightarrow> u32 \<Rightarrow> u32 \<Rightarrow> mem \<Rightarrow> mem" where
  "memcpy_loop 0 d s m = m"
| "memcpy_loop (Suc n) d s m = memcpy_loop n (d + 1) (s + 1) (m(d := m s))"

definition memcpy :: "u32 \<Rightarrow> u32 \<Rightarrow> u32 \<Rightarrow> mem \<Rightarrow> u32 \<times> mem" where
  "memcpy dest src len m = (dest, memcpy_loop (unat len) dest src m)"

definition store32 :: "u32 \<Rightarrow> u32 \<Rightarrow> mem \<Rightarrow> mem" where
  "store32 a v m = m(a := ucast v, a + 1 := ucast (drop_bit 8 v),
     a + 2 := ucast (drop_bit 16 v), a + 3 := ucast (drop_bit 24 v))"

fun rep_stosb :: "nat \<Rightarrow> u32 \<Rightarrow> u8 \<Rightarrow> mem \<Rightarrow> u32 \<times> mem" where
  "rep_stosb 0 edi al m = (edi, m)"
| "rep_stosb (Suc ecx) edi al m = rep_stosb ecx (edi + 1) al (m(edi := al))"

fun rep_stosl :: "nat \<Rightarrow> u32 \<Rightarrow> u32 \<Rightarrow> mem \<Rightarrow> u32 \<times> mem" where
  "rep_stosl 0 edi eax m = (edi, m)"
| "rep_stosl (Suc ecx) edi eax m = rep_stosl ecx (edi + 4) eax (store32 edi eax m)"

definition memset :: "u32 \<Rightarrow> u8 \<Rightarrow> u32 \<Rightarrow> mem \<Rightarrow> mem" where
  "memset a v count m =
     (let w = scast v :: u32;
          eax = w OR push_bit 8 w OR push_bit 16 w OR push_bit 24 w;
          (edi, m1) = rep_stosl (unat (drop_bit 2 count)) a eax m
      in snd (rep_stosb (unat (count AND 3)) edi v m1))"

definition memset_word :: "u32 \<Rightarrow> u16 \<Rightarrow> u32 \<Rightarrow> mem \<Rightarrow> mem" where
  "memset_word a v count m =
     (let w = ucast v :: u32
      in snd (rep_stosl (unat (drop_bit 1 count)) a (w OR push_bit 16 w) m))"

subsection \<open>Comparing and searching\<close>

text \<open>
  \<open>repe_cmpsb\<close> compares \<open>[esi]\<close> with \<open>[edi]\<close> while the bytes agree and the count
  lasts.  The flags are kept as the pair (above, below); with a zero count they stay
  what they were.
\<close>

fun repe_cmpsb :: "nat \<Rightarrow> u32 \<Rightarrow> u32 \<Rightarrow> bool \<times> bool \<Rightarrow> mem \<Rightarrow> u32 \<times> u32 \<times> bool \<times> bool" where
  "repe_cmpsb 0 esi edi fl m = (esi, edi, fl)"
| "repe_cmpsb (Suc ecx) esi edi fl m =
     (let fl' = (m edi < m esi, m esi < m edi)
      in if m esi = m edi then repe_cmpsb ecx (esi + 1) (edi + 1) fl' m
         else (esi + 1, edi + 1, fl'))"

definition memcmp :: "bool \<times> bool \<Rightarrow> u32 \<Rightarrow> u32 \<Rightarrow> u32 \<Rightarrow> mem \<Rightarrow> u32" where
  "memcmp fl mem1 mem2 count m =
     (let (esi, edi, above, below) = repe_cmpsb (unat count) mem1 mem2 fl m
      in of_bool above - of_bool below)"

text \<open>
  \<^verbatim>\<open>memchr\<close> issues \<^verbatim>\<open>repe cmpsb\<close> with only AL, EDI and ECX loaded, so ESI is
  whatever the register holds: it is the first argument, and the register's value
  after the call is returned with the result.
\<close>

definition memchr :: "u32 \<Rightarrow> u32 \<Rightarrow> u8 \<Rightarrow> u32 \<Rightarrow> mem \<Rightarrow> u32 \<times> u32" where
  "memchr esi a v count m =
     (let (esi', edi, fl) = repe_cmpsb (unat count) esi a (False, False) m
      in (if edi < a + count then edi else 0, esi'))"

definition strlen :: "u32 \<Rightarrow> u32 \<Rightarrow> mem \<Rightarrow> u32 \<times> u32" where
  "strlen esi str m = (let (p, esi') = memchr esi str 0 (- 1) m in (p - str, esi'))"

definition strchr :: "u32 \<Rightarrow> u32 \<Rightarrow> u8 \<Rightarrow> mem \<Rightarrow> u32 \<times> u32" where
  "strchr esi str v m = (let (n, esi') = strlen esi str m in memchr esi' str v n m)"

definition strcpy :: "u32 \<Rightarrow> u32 \<Rightarrow> u32 \<Rightarrow> mem \<Rightarrow> mem" where
  "strcpy esi dest src m = (let (n, esi') = strlen esi src m in snd (memcpy dest src (n + 1) m))"

text \<open>
  The \<^verbatim>\<open>min\<close> macro evaluates \<^verbatim>\<open>strlen(src)\<close> once for the comparison and, where it is
  the smaller one, a second time for the value, with ESI as the first call left it.
\<close>

definition strncpy :: "u32 \<Rightarrow> u32 \<Rightarrow> u32 \<Rightarrow> u32 \<Rightarrow> mem \<Rightarrow> mem" where
  "strncpy esi dest src max_count m =
     (let (n, esi1) = strlen esi src m;
          len = (if n < max_count - 1 then fst (strlen esi1 src m) else max_count - 1);
          m1 = snd (memcpy dest src len m)
      in m1(dest + len := 0))"

partial_function (option) strcmp :: "mem \<Rightarrow> u32 \<Rightarrow> u32 \<Rightarrow> u32 option" where
  "strcmp m str1 str2 =
     (let c1 = m str1; c2 = m str2
      in if c1 = 0 then Some (scast c1 - scast c2)
         else if c1 = c2 then strcmp m (str1 + 1) (str2 + 1)
         else Some (scast c1 - scast c2))"

subsection \<open>Numbers\<close>

definition isspace :: "u32 \<Rightarrow> bool" where
  "isspace c \<longleftrightarrow> c = 9 \<or> c = 10 \<or> c = 11 \<or> c = 12 \<or> c = 13 \<or> c = 32"

definition isdigit :: "u32 \<Rightarrow> bool" where
  "isdigit c \<longleftrightarrow> 48 \<le> sint c \<and> sint c \<le> 57"

partial_function (option) atoi_spaces :: "mem \<Rightarrow> u32 \<Rightarrow> u32 option" where
  "atoi_spaces m s = (if isspace (scast (m s)) then atoi_spaces m (s + 1) else Some s)"

partial_function (option) atoi_digits :: "mem \<Rightarrow> u32 \<Rightarrow> u32 \<Rightarrow> u32 option" where
  "atoi_digits m s n =
     (if isdigit (scast (m s)) then atoi_digits m (s + 1) (10 * n - (scast (m s) - 48))
      else Some n)"

definition atoi :: "mem \<Rightarrow> u32 \<Rightarrow> u32 option" where
  "atoi m s0 = do {
     s \<leftarrow> atoi_spaces m s0;
     let neg = (m s = 45);
     let s = (if m s = 45 \<or> m s = 43 then s + 1 else s);
     n \<leftarrow> atoi_digits m s 0;
     Some (if neg then n else - n)
   }"

text \<open>A NUL-terminated string at an address.\<close>

fun cstr :: "mem \<Rightarrow> u32 \<Rightarrow> u8 list \<Rightarrow> bool" where
  "cstr m a [] = (m a = 0)"
| "cstr m a (c # cs) = (m a = c \<and> c \<noteq> 0 \<and> cstr m (a + 1) cs)"

section \<open>Filling\<close>

text \<open>
  A byte's offset from the start of a region, and how the offset changes when the
  region's start moves up by \<open>j\<close>.
\<close>

lemma offset_shift:
  assumes "j < 2 ^ 32"
  shows "unat ((x :: u32) - (a + of_nat j)) =
    (if j \<le> unat (x - a) then unat (x - a) - j else 2 ^ 32 + unat (x - a) - j)"
proof -
  have j: "unat (of_nat j :: u32) = j" using assms by (rule unat_of_nat32)
  have "unat (x - (a + of_nat j)) = unat ((x - a) - of_nat j)"
    by (simp only: diff_diff_add)
  also have "\<dots> = (if j \<le> unat (x - a) then unat (x - a) - j else unat (x - a) + 2 ^ 32 - j)"
    by (subst unat_sub_if') (simp only: j, simp)
  finally show ?thesis by (simp only: add.commute)
qed

lemma offset_eq_iff:
  assumes "k < 2 ^ 32"
  shows "unat ((x :: u32) - a) = k \<longleftrightarrow> x = a + of_nat k"
proof
  assume "unat (x - a) = k"
  then have "x - a = of_nat k" by (metis word_of_unat)
  then show "x = a + of_nat k" by (simp add: algebra_simps)
next
  assume "x = a + of_nat k"
  with assms show "unat (x - a) = k" by (simp add: unsigned_of_nat take_bit_nat_eq_self)
qed

lemma offset_less: "unat ((x :: u32) - a) < 2 ^ 32"
  by (rule u32_less)

lemma offset_step: "x \<noteq> (a :: u32) \<Longrightarrow> unat (x - a) = Suc (unat (x - (a + 1)))"
  using offset_shift [of 1 x a] offset_eq_iff [of 0 x a] by auto

lemma rep_stosb_eq:
  "n \<le> 2 ^ 32 \<Longrightarrow> rep_stosb n edi al m =
     (edi + of_nat n, \<lambda>x. if unat (x - edi) < n then al else m x)"
proof (induction n arbitrary: edi m)
  case 0
  then show ?case by simp
next
  case (Suc n)
  then have "rep_stosb (Suc n) edi al m = (edi + 1 + of_nat n,
      \<lambda>x. if unat (x - (edi + 1)) < n then al else (m(edi := al)) x)"
    by simp
  moreover have "(if unat (x - (edi + 1)) < n then al else (m(edi := al)) x) =
      (if unat (x - edi) < Suc n then al else m x)" for x
    by (cases "x = edi") (auto simp: offset_step)
  ultimately show ?case by (simp add: add.assoc add.commute)
qed

text \<open>Byte \<open>j\<close> of a doubleword in memory order.\<close>

definition dword_byte :: "nat \<Rightarrow> u32 \<Rightarrow> u8" where
  "dword_byte j v = ucast (drop_bit (8 * j) v)"

lemma store32_eq:
  "store32 a v m = (\<lambda>x. if unat (x - a) < 4 then dword_byte (unat (x - a)) v else m x)"
proof (rule ext)
  fix x
  have "unat (x - a) < 4 \<longleftrightarrow> unat (x - a) \<in> {0, 1, 2, 3}" by auto
  then show "store32 a v m x = (if unat (x - a) < 4 then dword_byte (unat (x - a)) v else m x)"
    using offset_eq_iff [of 0 x a] offset_eq_iff [of 1 x a] offset_eq_iff [of 2 x a]
      offset_eq_iff [of 3 x a]
    by (auto simp: store32_def dword_byte_def)
qed

lemma rep_stosl_eq:
  "4 * n \<le> 2 ^ 32 \<Longrightarrow> rep_stosl n edi eax m =
     (edi + 4 * of_nat n,
      \<lambda>x. if unat (x - edi) < 4 * n then dword_byte (unat (x - edi) mod 4) eax else m x)"
proof (induction n arbitrary: edi m)
  case 0
  then show ?case by simp
next
  case (Suc n)
  have "(if unat (x - (edi + 4)) < 4 * n then dword_byte (unat (x - (edi + 4)) mod 4) eax
      else store32 edi eax m x) =
      (if unat (x - edi) < 4 * Suc n then dword_byte (unat (x - edi) mod 4) eax else m x)" for x
    using Suc.prems offset_shift [of 4 x edi] by (auto simp: store32_eq le_mod_geq)
  then show ?case using Suc by (simp add: algebra_simps)
qed

lemma unat_div_4: "unat (drop_bit 2 (w :: u32)) = unat w div 4"
  by (simp add: drop_bit_eq_div unat_div)

lemma unat_mod_4: "unat ((w :: u32) AND 3) = unat w mod 4"
proof -
  have "w AND 3 = take_bit 2 w" by (simp add: take_bit_eq_mask mask_eq_exp_minus_1)
  then show ?thesis by (simp add: take_bit_eq_mod unat_mod)
qed

text \<open>
  \<^verbatim>\<open>memset\<close> in full: whole doublewords first, then the remaining bytes.
\<close>

lemma memset_eq:
  fixes v :: u8
  defines "w \<equiv> scast v :: u32"
  defines "eax \<equiv> w OR push_bit 8 w OR push_bit 16 w OR push_bit 24 w"
  shows "memset a v count m =
    (\<lambda>x. if unat (x - a) < 4 * (unat count div 4) then dword_byte (unat (x - a) mod 4) eax
          else if unat (x - a) < unat count then v else m x)"
proof (rule ext)
  fix x
  define q r where q: "q = unat count div 4" and r: "r = unat count mod 4"
  have qr: "unat count = 4 * q + r" by (simp add: q r)
  then have lt: "4 * q + r < 2 ^ 32" using u32_less [of count] by simp
  then have q4: "4 * q < 2 ^ 32" by linarith
  have l: "rep_stosl q a eax m = (a + of_nat (4 * q),
      \<lambda>x. if unat (x - a) < 4 * q then dword_byte (unat (x - a) mod 4) eax else m x)"
    using q4 by (subst rep_stosl_eq) auto
  have "memset a v count m = snd (rep_stosb r (a + of_nat (4 * q)) v
      (\<lambda>x. if unat (x - a) < 4 * q then dword_byte (unat (x - a) mod 4) eax else m x))"
    unfolding memset_def unat_div_4 unat_mod_4 w_def [symmetric] Let_def eax_def [symmetric]
      q [symmetric] r [symmetric] l by simp
  also have "\<dots> = (\<lambda>x. if unat (x - (a + of_nat (4 * q))) < r then v
      else if unat (x - a) < 4 * q then dword_byte (unat (x - a) mod 4) eax else m x)"
    using lt by (subst rep_stosb_eq) auto
  finally show "memset a v count m x =
      (if unat (x - a) < 4 * (unat count div 4) then dword_byte (unat (x - a) mod 4) eax
       else if unat (x - a) < unat count then v else m x)"
    unfolding q [symmetric] unfolding qr offset_shift [OF q4]
    using lt by (cases "4 * q \<le> unat (x - a)") auto
qed

lemma char_nonneg_bit7: "(v :: u8) < 128 \<Longrightarrow> \<not> bit v 7"
  by (simp add: bit_iff_odd div_word_less)

lemma char_nonneg_scast:
  assumes "(v :: u8) < 128"
  shows "(scast v :: u32) = ucast v"
proof (rule bit_word_eqI)
  fix n :: nat
  have "n < 7 \<or> n = 7 \<or> 8 \<le> n" by auto
  then show "bit (scast v :: u32) n = bit (ucast v :: u32) n" if "n < LENGTH(32)"
    using that char_nonneg_bit7 [OF assms] bit_imp_le_length [of v n]
    by (auto simp: bit_signed_iff bit_unsigned_iff min_def)
qed

lemma dword_byte_fill:
  fixes v :: u8
  assumes "j < 4"
  shows "dword_byte j (ucast v OR push_bit 8 (ucast v) OR push_bit 16 (ucast v)
    OR push_bit 24 (ucast v)) = v"
proof (rule bit_word_eqI)
  fix i
  assume i: "i < LENGTH(8)"
  have b: "bit (ucast v :: u32) n = bit v n" for n
    using bit_imp_le_length [of v n] by (auto simp: bit_unsigned_iff)
  have hi: "\<not> bit v n" if "8 \<le> n" for n
    using that bit_imp_le_length [of v n] by auto
  have "j = 0 \<or> j = 1 \<or> j = 2 \<or> j = 3" using assms by auto
  then show "bit (dword_byte j (ucast v OR push_bit 8 (ucast v) OR push_bit 16 (ucast v)
    OR push_bit 24 (ucast v))) i = bit v i"
    unfolding dword_byte_def
    by (elim disjE; simp only: bit_unsigned_iff bit_drop_bit_eq
      bit_or_iff bit_push_bit_iff b o_apply)
      (use i in \<open>auto simp: possible_bit_word hi\<close>)
qed


lemma dword_byte_fill_char:
  "j < 4 \<Longrightarrow> (v :: u8) < 128 \<Longrightarrow> dword_byte j (scast v OR push_bit 8 (scast v) OR
     push_bit 16 (scast v) OR push_bit 24 (scast v)) = v"
  using dword_byte_fill [of j v] by (simp only: char_nonneg_scast)

text \<open>\<^verbatim>\<open>memset\<close> with a non-negative character fills exactly the \<open>count\<close> bytes from
  its start (the region may wrap around the address space) and leaves the rest alone.\<close>

theorem memset_fills:
  assumes "(v :: u8) < 128"
  shows "memset a v count m = (\<lambda>x. if unat (x - a) < unat count then v else m x)"
proof (rule ext)
  fix x
  have "4 * (unat count div 4) \<le> unat count" by simp
  then show "memset a v count m x = (if unat (x - a) < unat count then v else m x)"
    unfolding memset_eq using dword_byte_fill_char [of "unat (x - a) mod 4" v] assms by auto
qed

section \<open>Copying\<close>

lemma memcpy_loop_snoc:
  "memcpy_loop (Suc n) d s m =
     (let m' = memcpy_loop n d s m in m'(d + of_nat n := m' (s + of_nat n)))"
proof (induction n arbitrary: d s m)
  case 0
  then show ?case by simp
next
  case (Suc n)
  have "memcpy_loop (Suc (Suc n)) d s m = memcpy_loop (Suc n) (d + 1) (s + 1) (m(d := m s))"
    by (rule memcpy_loop.simps)
  also have "\<dots> = (let m' = memcpy_loop n (d + 1) (s + 1) (m(d := m s))
      in m'(d + 1 + of_nat n := m' (s + 1 + of_nat n)))"
    by (rule Suc)
  also have "memcpy_loop n (d + 1) (s + 1) (m(d := m s)) = memcpy_loop (Suc n) d s m"
    by (rule memcpy_loop.simps [symmetric])
  finally show ?case by (simp only: of_nat_Suc add.assoc)
qed

text \<open>
  The forward byte loop in closed form.  With the destination \<open>k\<close> bytes above the
  source (\<open>k\<close> may be a wrapped distance), byte \<open>i\<close> of the destination receives byte
  \<open>i mod k\<close> of the source: a plain copy where the regions do not overlap this way,
  a repetition of the first \<open>k\<close> bytes where they do.
\<close>

lemma memcpy_loop_eq:
  assumes "k = unat (d - s)" and "k \<noteq> 0" and "n \<le> 2 ^ 32"
  shows "memcpy_loop n d s m =
    (\<lambda>x. if unat (x - d) < n then m (s + of_nat (unat (x - d) mod k)) else m x)"
  using assms(3)
proof (induction n)
  case 0
  then show ?case by simp
next
  case (Suc n)
  let ?m = "memcpy_loop n d s m"
  have n: "n < 2 ^ 32" using Suc.prems by simp
  have m: "?m = (\<lambda>x. if unat (x - d) < n then m (s + of_nat (unat (x - d) mod k)) else m x)"
    using Suc by simp
  have d: "d = s + of_nat k" using assms(1) by simp
  have k: "k < 2 ^ 32" using assms(1) u32_less by simp
  have "unat (s + of_nat n - d) = (if k \<le> n then n - k else 2 ^ 32 + n - k)"
    using offset_shift [OF k, of "s + of_nat n" s] n by (simp add: d unat_of_nat32)
  moreover have "?m (s + of_nat n) = (if unat (s + of_nat n - d) < n
      then m (s + of_nat (unat (s + of_nat n - d) mod k)) else m (s + of_nat n))"
    by (simp only: m)
  ultimately have "?m (s + of_nat n) = m (s + of_nat (n mod k))"
    using assms(2) k by (cases "k \<le> n") (auto simp: le_mod_geq)
  moreover have "unat (x - d) < Suc n \<longleftrightarrow> x = d + of_nat n \<or> unat (x - d) < n" for x
    using offset_eq_iff [OF n, of x d] by auto
  moreover have "unat (d + of_nat n - d) = n" using n by (simp add: unat_of_nat32)
  ultimately show ?case
    unfolding memcpy_loop_snoc Let_def
    by (auto simp: m fun_eq_iff)
qed

text \<open>\<^verbatim>\<open>memcpy\<close> returns its destination and copies by repetition: with the destination
  \<open>k\<close> bytes above the source, destination byte \<open>i < len\<close> receives source byte
  \<open>i mod k\<close>, and bytes outside the destination keep their value.  For \<open>k \<ge> len\<close> this
  is an exact copy; for smaller \<open>k\<close> the tail of the source is lost.\<close>

theorem memcpy_repeats:
  assumes "dest \<noteq> src"
  shows "memcpy dest src len m = (dest, \<lambda>x. if unat (x - dest) < unat len
     then m (src + of_nat (unat (x - dest) mod unat (dest - src))) else m x)"
proof -
  have "unat (dest - src) \<noteq> 0" using assms by (simp add: unat_eq_zero)
  then show ?thesis
    using memcpy_loop_eq [OF refl, of dest src "unat len" m] u32_less [of len]
    by (simp add: memcpy_def)
qed

section \<open>Comparing\<close>

lemma repe_cmpsb_mismatch:
  assumes "\<And>i. i < k \<Longrightarrow> m (esi + of_nat i) = m (edi + of_nat i)"
    and "m (esi + of_nat k) \<noteq> m (edi + of_nat k)" and "k < n"
  shows "repe_cmpsb n esi edi fl m = (esi + of_nat (Suc k), edi + of_nat (Suc k),
     m (edi + of_nat k) < m (esi + of_nat k), m (esi + of_nat k) < m (edi + of_nat k))"
  using assms
proof (induction k arbitrary: n esi edi fl)
  case 0
  then show ?case by (cases n) (auto simp: Let_def)
next
  case (Suc k)
  obtain n' where n: "n = Suc n'" using Suc.prems(3) by (cases n) auto
  have "m (esi + 1 + of_nat i) = m (edi + 1 + of_nat i)" if "i < k" for i
    using Suc.prems(1) [of "Suc i"] that by (simp add: ac_simps)
  moreover have "m esi = m edi" using Suc.prems(1) [of 0] by simp
  moreover have "m (esi + 1 + of_nat k) \<noteq> m (edi + 1 + of_nat k)" "k < n'"
    using Suc.prems(2,3) n by (simp_all add: ac_simps)
  ultimately show ?case
    using Suc.IH [of "esi + 1" "edi + 1" n' "(m edi < m esi, m esi < m edi)"] n
    by (simp add: Let_def ac_simps)
qed

lemma repe_cmpsb_equal:
  assumes "\<And>i. i < n \<Longrightarrow> m (esi + of_nat i) = m (edi + of_nat i)" and "0 < n"
  shows "repe_cmpsb n esi edi fl m = (esi + of_nat n, edi + of_nat n, False, False)"
  using assms
proof (induction n arbitrary: esi edi fl)
  case 0
  then show ?case by simp
next
  case (Suc n)
  have e: "m (esi + 1 + of_nat i) = m (edi + 1 + of_nat i)" if "i < n" for i
    using Suc.prems(1) [of "Suc i"] that by (simp add: ac_simps)
  have "m esi = m edi" using Suc.prems(1) [of 0] by simp
  then show ?case
    using Suc.IH [of "esi + 1" "edi + 1" "(False, False)", OF e] by (cases n) (auto simp: ac_simps)
qed

text \<open>The first position where two memory blocks differ decides \<^verbatim>\<open>memcmp\<close>.\<close>

lemma memcmp_first_difference:
  assumes "\<And>i. i < k \<Longrightarrow> m (a + of_nat i) = m (b + of_nat i)"
    and "m (a + of_nat k) \<noteq> m (b + of_nat k)" and "k < unat count"
  shows "memcmp fl a b count m = (if m (b + of_nat k) < m (a + of_nat k) then 1 else - 1)"
  using assms(2) by (auto simp: memcmp_def repe_cmpsb_mismatch [OF assms] not_less)

lemma memcmp_equal:
  assumes "\<And>i. i < unat count \<Longrightarrow> m (a + of_nat i) = m (b + of_nat i)" and "count \<noteq> 0"
  shows "memcmp fl a b count m = 0"
proof -
  have "0 < unat count" using assms(2) by (simp add: unat_eq_zero flip: neq0_conv)
  then show ?thesis by (simp add: memcmp_def repe_cmpsb_equal [OF assms(1)])
qed

lemma sint_char_bounds: "- 128 \<le> sint (c :: u8)" "sint (c :: u8) < 128"
proof -
  have "- (2 ^ (LENGTH(8) - 1)) \<le> sint c" by (rule sint_ge)
  then show "- 128 \<le> sint c" by simp
  have "sint c < 2 ^ (LENGTH(8) - 1)" by (rule sint_lt)
  then show "sint c < 128" by simp
qed

lemma sint_of_int32:
  "- (2 ^ 31) \<le> i \<Longrightarrow> i < 2 ^ 31 \<Longrightarrow> sint (of_int i :: u32) = i"
  by (simp add: signed_of_int signed_take_bit_int_eq_self)

lemma scast_char_diff:
  "(scast (c :: u8) - scast (d :: u8) :: u32) = of_int (sint c - sint d)"
  by simp

lemma sint_char_diff:
  "sint (scast (c :: u8) - scast (d :: u8) :: u32) = sint c - sint d"
  unfolding scast_char_diff
  using sint_char_bounds [of c] sint_char_bounds [of d] by (intro sint_of_int32) auto

text \<open>
  What \<^verbatim>\<open>strcmp\<close> computes on two NUL-terminated strings: the difference of the first
  pair of differing bytes, read as signed characters, the terminator included.
\<close>

fun str_diff :: "u8 list \<Rightarrow> u8 list \<Rightarrow> int" where
  "str_diff [] [] = 0"
| "str_diff [] (d # ds) = - sint d"
| "str_diff (c # cs) [] = sint c"
| "str_diff (c # cs) (d # ds) = (if c = d then str_diff cs ds else sint c - sint d)"

lemma strcmp_str_diff:
  "cstr m a s \<Longrightarrow> cstr m b t \<Longrightarrow> \<exists>r. strcmp m a b = Some r \<and> sint r = str_diff s t"
proof (induction s t arbitrary: a b rule: str_diff.induct)
  case 1
  then show ?case by (subst strcmp.simps) simp
next
  case (2 d ds)
  then show ?case using sint_char_diff [of 0 d] by (subst strcmp.simps) (simp add: Let_def)
next
  case (3 c cs)
  then show ?case using sint_char_diff [of c 0] by (subst strcmp.simps) (auto simp: Let_def)
next
  case (4 c cs d ds)
  then show ?case using sint_char_diff [of c d] by (subst strcmp.simps) (auto simp: Let_def)
qed

lemma str_diff_0_iff:
  "0 \<notin> set s \<Longrightarrow> 0 \<notin> set t \<Longrightarrow> str_diff s t = 0 \<longleftrightarrow> s = t"
  by (induction s t rule: str_diff.induct) (auto dest: signed_word_eqI simp: signed_eq_0_iff)

lemma str_diff_sym: "str_diff t s = - str_diff s t"
  by (induction s t rule: str_diff.induct) auto

lemma cstr_no_nul: "cstr m a s \<Longrightarrow> 0 \<notin> set s"
  by (induction s arbitrary: a) auto

text \<open>C11: on NUL-terminated strings \<^verbatim>\<open>strcmp\<close> returns, with zero exactly for equal
  strings, and its sign is reversed when the arguments are swapped.\<close>

theorem strcmp_decides:
  assumes "cstr m a s" and "cstr m b t"
  shows "\<exists>r r'. strcmp m a b = Some r \<and> strcmp m b a = Some r' \<and>
    (r = 0 \<longleftrightarrow> s = t) \<and> sint r = str_diff s t \<and> sint r' = - sint r"
proof -
  obtain r where r: "strcmp m a b = Some r" "sint r = str_diff s t"
    using strcmp_str_diff assms by blast
  obtain r' where r': "strcmp m b a = Some r'" "sint r' = str_diff t s"
    using strcmp_str_diff assms by blast
  have "r = 0 \<longleftrightarrow> sint r = 0" by (metis signed_0 signed_word_eqI)
  also have "\<dots> \<longleftrightarrow> s = t"
    using r(2) str_diff_0_iff cstr_no_nul assms by metis
  finally show ?thesis using r r' str_diff_sym [of s t] by auto
qed

section \<open>Searching\<close>

text \<open>
  Where the bytes at the stale ESI and at the string first differ \<open>k\<close> bytes in, and
  the string does not reach the top of memory within \<open>k + 1\<close> bytes, the bound
  \<^verbatim>\<open>mem + count\<close> with \<^verbatim>\<open>count = -1\<close> is the address one below the string, so the
  match is rejected.
\<close>

lemma memchr_stale:
  assumes "\<And>i. i < k \<Longrightarrow> m (esi + of_nat i) = m (a + of_nat i)"
    and "m (esi + of_nat k) \<noteq> m (a + of_nat k)" and "k < unat count"
  shows "memchr esi a v count m =
    (if a + of_nat (Suc k) < a + count then a + of_nat (Suc k) else 0, esi + of_nat (Suc k))"
  by (simp add: memchr_def repe_cmpsb_mismatch [OF assms])

lemma unat_minus_1_word32: "unat (- 1 :: u32) = 2 ^ 32 - 1"
  by (simp add: unsigned_minus_1_eq_mask mask_eq_exp_minus_1)

lemma strlen_stale:
  assumes "\<And>i. i < k \<Longrightarrow> m (esi + of_nat i) = m (a + of_nat i)"
    and "m (esi + of_nat k) \<noteq> m (a + of_nat k)"
    and "unat a + Suc k < 2 ^ 32" and "a \<noteq> 0"
  shows "strlen esi a m = (- a, esi + of_nat (Suc k))"
proof -
  have k: "k < unat (- 1 :: u32)" using assms(3) by (simp add: unat_minus_1_word32)
  have "unat (a + of_nat (Suc k)) = unat a + Suc k"
    using assms(3) by (subst unat_add_le) auto
  moreover have "unat (a + - 1) = unat a - 1"
    using assms(4) by (simp add: unat_minus_one)
  ultimately have "\<not> a + of_nat (Suc k) < a + - 1"
    unfolding word_less_nat_alt by simp
  then have "memchr esi a 0 (- 1) m = (0, esi + of_nat (Suc k))"
    using memchr_stale [OF assms(1,2) k, of 0] by (simp only: if_False)
  then show ?thesis by (simp add: strlen_def)
qed

text \<open>\<^verbatim>\<open>strlen\<close> does not measure the string: because \<^verbatim>\<open>memchr\<close> compares the string
  with the bytes at the unloaded ESI and tests the result against \<^verbatim>\<open>str - 1\<close>, it returns
  the negated address for every string that differs from those bytes before the top of
  memory, whatever the string holds.\<close>

theorem strlen_returns_negated_address:
  assumes "m (esi + of_nat k) \<noteq> m (a + of_nat k)"
    and "unat a + Suc k < 2 ^ 32" and "a \<noteq> 0"
  shows "fst (strlen esi a m) = - a"
proof -
  let ?P = "\<lambda>j. m (esi + of_nat j) \<noteq> m (a + of_nat j)"
  define j where "j = (LEAST j. ?P j)"
  have "?P j" unfolding j_def using assms(1) by (rule LeastI)
  moreover have "j \<le> k" unfolding j_def using assms(1) by (rule Least_le)
  moreover have "\<not> ?P i" if "i < j" for i using that not_less_Least unfolding j_def by blast
  ultimately show ?thesis using strlen_stale [of j m esi a] assms(2,3) by simp
qed

text \<open>A C string survives copying its bytes and terminator.\<close>

lemma cstr_nth: "cstr m a s \<longleftrightarrow>
   (\<forall>i < length s. m (a + of_nat i) = s ! i) \<and> m (a + of_nat (length s)) = 0 \<and> 0 \<notin> set s"
proof (induction s arbitrary: a)
  case Nil
  then show ?case by simp
next
  case (Cons c cs)
  have "(\<forall>i < Suc (length cs). m (a + of_nat i) = (c # cs) ! i) \<longleftrightarrow>
      m a = c \<and> (\<forall>i < length cs. m (a + 1 + of_nat i) = cs ! i)"
    unfolding All_less_Suc2 by (simp add: add.assoc)
  with Cons show ?case by (auto simp: add.assoc)
qed

text \<open>The final string of \<^verbatim>\<open>strncpy\<close> is right although its length test is not.
  For a source that ends at least \<open>max_count\<close> bytes below the top of memory, the
  destination holds the source cut to \<open>max_count - 1\<close> characters, and nothing outside
  the \<open>max_count\<close> bytes of the destination changes.\<close>

theorem strncpy_copies_string:
  assumes str: "cstr m src s"
    and stale: "m (esi + of_nat k) \<noteq> m (src + of_nat k)" "unat src + Suc k < 2 ^ 32"
    and src: "src \<noteq> 0" "unat src + unat max_count \<le> 2 ^ 32"
    and cnt: "0 < max_count" and apart: "unat max_count \<le> unat (dest - src)"
  shows "cstr (strncpy esi dest src max_count m) dest (take (unat max_count - 1) s) \<and>
    (\<forall>x. unat max_count \<le> unat (x - dest) \<longrightarrow> strncpy esi dest src max_count m x = m x)"
proof -
  let ?n = "unat (max_count - 1)" and ?m' = "strncpy esi dest src max_count m"
  have n: "?n = unat max_count - 1" and c0: "unat max_count \<noteq> 0"
    using cnt by (auto simp: unat_minus_one unat_eq_zero word_neq_0_conv)
  have ne: "dest \<noteq> src" using apart c0 by auto
  have "unat (- src) = 2 ^ 32 - unat src"
    using src(1) unat_sub_if' [of 0 src] by (simp add: unat_eq_zero)
  then have "\<not> - src < max_count - 1"
    unfolding word_less_nat_alt using src(2) n c0 by simp
  then have m': "?m' = (snd (memcpy dest src (max_count - 1) m))(dest + (max_count - 1) := 0)"
    using strlen_returns_negated_address [OF stale src(1)]
    by (auto simp: strncpy_def Let_def split: prod.split)
  have at: "?m' x = (if x = dest + (max_count - 1) then 0
      else if unat (x - dest) < ?n then m (src + of_nat (unat (x - dest) mod unat (dest - src))) else m x)" for x
    unfolding m' memcpy_repeats [OF ne] by simp
  have byte: "?m' (dest + of_nat i) = (if i = ?n then 0 else m (src + of_nat i))" if "i \<le> ?n" for i
  proof -
    have i: "i < 2 ^ 32" using that u32_less [of "max_count - 1"] by simp
    have "unat (dest + of_nat i - dest) = i" using i by (simp add: unat_of_nat32)
    moreover have "dest + of_nat i = dest + (max_count - 1) \<longleftrightarrow> i = ?n"
      using offset_eq_iff [OF i, of "dest + (max_count - 1)" dest] by auto
    moreover have "i mod unat (dest - src) = i" using that apart n c0 by simp
    ultimately show ?thesis using at [of "dest + of_nat i"] that by simp
  qed
  have "cstr ?m' dest (take (unat max_count - 1) s)"
    using str byte unfolding cstr_nth n [symmetric]
    by (auto simp: min_def dest: in_set_takeD)
  moreover have "\<forall>x. unat max_count \<le> unat (x - dest) \<longrightarrow> ?m' x = m x"
    using n c0 by (auto simp: at)
  ultimately show ?thesis by blast
qed

section \<open>Numbers\<close>

text \<open>The number a digit string denotes.\<close>

fun dec_value :: "int \<Rightarrow> u8 list \<Rightarrow> int" where
  "dec_value n [] = n"
| "dec_value n (d # ds) = dec_value (10 * n + (sint d - 48)) ds"

lemma isdigit_char: "isdigit (scast (c :: u8)) \<longleftrightarrow> 48 \<le> sint c \<and> sint c \<le> 57"
proof -
  have "sint (scast c :: u32) = sint c" using sint_char_diff [of c 0] by simp
  then show ?thesis by (simp add: isdigit_def)
qed

lemma not_isdigit_0: "\<not> isdigit 0"
  by (simp add: isdigit_def)

lemma not_isspace_0: "\<not> isspace 0"
  by (simp add: isspace_def)

lemma atoi_digits_run:
  assumes "cstr m a (ds @ rest)" and "list_all (\<lambda>d. isdigit (scast d)) ds"
    and "rest = [] \<or> \<not> isdigit (scast (hd rest))"
  shows "atoi_digits m a (- of_int v) = Some (- of_int (dec_value v ds))"
  using assms
proof (induction ds arbitrary: a v)
  case Nil
  then have "\<not> isdigit (scast (m a))" by (cases rest) (auto simp: not_isdigit_0)
  then show ?case by (subst atoi_digits.simps) simp
next
  case (Cons d ds)
  have e: "10 * (- of_int v) - (scast d - 48) = (- of_int (10 * v + (sint d - 48)) :: u32)"
    by (simp add: algebra_simps)
  have "m a = d" "isdigit (scast d)" using Cons.prems by auto
  then have "atoi_digits m a (- of_int v) = atoi_digits m (a + 1) (10 * (- of_int v) - (scast d - 48))"
    by (subst atoi_digits.simps) (simp only: if_True)
  also have "\<dots> = Some (- of_int (dec_value (10 * v + (sint d - 48)) ds))"
    unfolding e using Cons by (intro Cons.IH) auto
  finally show ?case by simp
qed

lemma atoi_spaces_run:
  assumes "cstr m a (ws @ rest)" and "list_all (\<lambda>w. isspace (scast w)) ws"
    and "rest = [] \<or> \<not> isspace (scast (hd rest))"
  shows "atoi_spaces m a = Some (a + of_nat (length ws))"
  using assms
proof (induction ws arbitrary: a)
  case Nil
  then have "\<not> isspace (scast (m a))" by (cases rest) (auto simp: not_isspace_0)
  then show ?case by (subst atoi_spaces.simps) simp
next
  case (Cons w ws)
  then show ?case by (subst atoi_spaces.simps) (auto simp: add.assoc)
qed

lemma cstr_append: "cstr m a (s @ t) \<Longrightarrow> cstr m (a + of_nat (length s)) t"
proof (induction s arbitrary: a)
  case Nil
  then show ?case by simp
next
  case (Cons c s)
  then have "cstr m (a + 1 + of_nat (length s)) t" by simp
  then show ?case by (simp add: add.assoc)
qed

lemma dec_value_mono: "list_all (\<lambda>d. isdigit (scast d)) ds \<Longrightarrow> 0 \<le> n \<Longrightarrow> n \<le> dec_value n ds"
proof (induction ds arbitrary: n)
  case Nil
  then show ?case by simp
next
  case (Cons d ds)
  then have "10 * n + (sint d - 48) \<le> dec_value (10 * n + (sint d - 48)) ds"
    by (intro Cons.IH) (auto simp: isdigit_char)
  with Cons.prems show ?case by (simp add: isdigit_char)
qed

lemma sign_not_digit: "\<not> isdigit (scast (45 :: u8))" "\<not> isdigit (scast (43 :: u8))"
    "\<not> isspace (scast (45 :: u8))" "\<not> isspace (scast (43 :: u8))"
  by (simp_all add: isdigit_def isspace_def)

lemma isdigit_not_space: "isdigit (scast (c :: u8)) \<Longrightarrow> \<not> isspace (scast c)"
  by (auto simp: isspace_def isdigit_def)

text \<open>C12: \<^verbatim>\<open>atoi\<close> returns on every string of blanks, an optional sign and digits, and
  yields the denoted number modulo \<open>2 ^ 32\<close>; a number in the range of \<^verbatim>\<open>int\<close>,
  \<open>- 2 ^ 31\<close> included, is returned exactly.\<close>

theorem atoi_parses:
  assumes str: "cstr m a (ws @ sign @ ds @ rest)"
    and ws: "list_all (\<lambda>w. isspace (scast w)) ws"
    and sign: "sign \<in> {[], [45], [43]}"
    and ds: "ds \<noteq> []" "list_all (\<lambda>d. isdigit (scast d)) ds"
    and rest: "rest = [] \<or> \<not> isdigit (scast (hd rest))"
    and v: "v = (if sign = [45] then - dec_value 0 ds else dec_value 0 ds)"
  shows "\<exists>r. atoi m a = Some r \<and> r = of_int v \<and>
    (- (2 ^ 31) \<le> v \<and> v < 2 ^ 31 \<longrightarrow> sint r = v)"
proof -
  let ?s = "a + of_nat (length ws)"
  obtain d ds' where d: "ds = d # ds'" using ds(1) by (cases ds) auto
  have dig: "isdigit (scast d)" using ds d by simp
  have sp: "atoi_spaces m a = Some ?s"
    using str ws sign dig d sign_not_digit isdigit_not_space
    by (intro atoi_spaces_run [of m a ws "sign @ ds @ rest"]) auto
  have s: "cstr m ?s (sign @ ds @ rest)" using str by (rule cstr_append)
  have nosign: "m ?s \<noteq> 45" "m ?s \<noteq> 43" if "sign = []"
    using s d dig that sign_not_digit by auto
  have run: "atoi_digits m b 0 = Some (- of_int (dec_value 0 ds))" if "cstr m b (ds @ rest)" for b
    using atoi_digits_run [OF that ds(2) rest, of 0] by simp
  have "atoi m a = Some (of_int v)"
    using sign s nosign run [of ?s] run [of "?s + 1"] v
    by (auto simp: atoi_def sp Let_def)
  moreover have "- (2 ^ 31) \<le> v \<and> v < 2 ^ 31 \<longrightarrow> sint (of_int v :: u32) = v"
    using sint_of_int32 by blast
  ultimately show ?thesis by blast
qed

section \<open>Instances\<close>

text \<open>Memory that is zero but for some bytes stored from an address on.\<close>

fun bytes_at :: "u32 \<Rightarrow> u8 list \<Rightarrow> mem \<Rightarrow> mem" where
  "bytes_at a [] m = m"
| "bytes_at a (c # cs) m = bytes_at (a + 1) cs (m(a := c))"

lemma memset_fills_witness:
  "(7 :: u8) < 128 \<and>
   memset 100 7 6 (\<lambda>_. 0) = (\<lambda>x. if unat (x - 100) < unat (6 :: u32) then 7 else 0)"
proof -
  have h: "(7 :: u8) < 128" by simp
  show ?thesis using h memset_fills [OF h, of 100 6 "\<lambda>_. 0"] by simp
qed

lemma memcpy_repeats_witness:
  "(103 :: u32) \<noteq> 100 \<and> memcpy 103 100 7 (bytes_at 100 [1, 2, 3, 4, 5, 6, 7] (\<lambda>_. 0)) =
    (103, \<lambda>x. if unat (x - 103) < unat (7 :: u32)
      then bytes_at 100 [1, 2, 3, 4, 5, 6, 7] (\<lambda>_. 0) (100 + of_nat (unat (x - 103) mod unat (103 - 100 :: u32)))
      else bytes_at 100 [1, 2, 3, 4, 5, 6, 7] (\<lambda>_. 0) x)"
proof -
  have h: "(103 :: u32) \<noteq> 100" by simp
  show ?thesis using h memcpy_repeats [OF h] by blast
qed

lemma strcmp_decides_witness:
  "\<exists>r r'. strcmp (bytes_at 10 [97, 98] (bytes_at 20 [97, 200, 99] (\<lambda>_. 0))) 10 20 = Some r \<and>
     strcmp (bytes_at 10 [97, 98] (bytes_at 20 [97, 200, 99] (\<lambda>_. 0))) 20 10 = Some r' \<and>
     (r = 0 \<longleftrightarrow> [97, 98 :: u8] = [97, 200, 99]) \<and> sint r = str_diff [97, 98] [97, 200, 99] \<and>
     sint r' = - sint r"
  by (rule strcmp_decides) simp_all

lemma strlen_returns_negated_address_witness:
  "cstr (bytes_at 10 [97, 98] (\<lambda>_. 0)) 10 [97, 98] \<and>
   fst (strlen 500 10 (bytes_at 10 [97, 98] (\<lambda>_. 0))) = - 10"
proof -
  have "fst (strlen 500 10 (bytes_at 10 [97, 98] (\<lambda>_. 0))) = - 10"
    by (rule strlen_returns_negated_address [of _ _ 0]) simp_all
  then show ?thesis by simp
qed

lemma strncpy_copies_string_witness:
  "cstr (strncpy 500 64 16 4 (bytes_at 16 [97, 98, 99, 100, 101] (\<lambda>_. 0))) 64
     (take (unat (4 :: u32) - 1) [97, 98, 99, 100, 101])"
  by (rule strncpy_copies_string [where k = 0, THEN conjunct1]) simp_all

lemma atoi_parses_witness:
  "\<exists>r. atoi (bytes_at 16 [32, 45, 52, 50, 120] (\<lambda>_. 0)) 16 = Some r \<and> sint r = - 42"
proof -
  have "\<exists>r. atoi (bytes_at 16 [32, 45, 52, 50, 120] (\<lambda>_. 0)) 16 = Some r \<and> r = of_int (- 42) \<and>
      (- (2 ^ 31) \<le> (- 42 :: int) \<and> (- 42 :: int) < 2 ^ 31 \<longrightarrow> sint r = - 42)"
    by (rule atoi_parses [of _ _ "[32]" "[45]" "[52, 50]" "[120]"])
      (simp_all add: isspace_def isdigit_char isdigit_def)
  then show ?thesis by auto
qed

end
