(* ===== verification/Tty.thy ===== *)
theory Tty
  imports Virt_Memory Kernel_Mem
begin

text \<open>
  The text terminal of \<^verbatim>\<open>src/drivers/tty.c\<close>: the screen buffer, the cursor, and formatted
  output.  The screen, the strings printed and \<^verbatim>\<open>num_buffer\<close> lie in one byte memory; what is
  written to I/O ports is kept as a list, oldest first.  Reading the array \<^verbatim>\<open>digits\<close> out of
  its bounds, dividing by zero and taking an argument that was not passed have no result.
\<close>

section \<open>Definitions\<close>

record tty =
  tty_mem :: mem
  tty_width :: u32
  tty_height :: u32
  cursor :: u32
  text_attr :: u8
  tty_buffer :: u32
  tty_io_port :: u16
  num_buffer :: u32
  port_writes :: "(u16 \<times> u8) list"

definition load16 :: "u32 \<Rightarrow> mem \<Rightarrow> u16" where
  "load16 a m = ucast (m a) OR push_bit 8 (ucast (m (a + 1)))"

definition outportb :: "u16 \<Rightarrow> u8 \<Rightarrow> tty \<Rightarrow> tty" where
  "outportb port v st = st\<lparr>port_writes := port_writes st @ [(port, v)]\<rparr>"

definition init_tty :: "vm_state \<Rightarrow> tty \<Rightarrow> (vm_state \<times> tty) option" where
  "init_tty vm st = do {
     (b, vm) \<leftarrow> alloc_virt_pages Kernel_Space 0 0xB8000 1 (PAGE_PRESENT OR PAGE_WRITABLE) vm;
     Some (vm, st\<lparr>tty_buffer := b, tty_width := ucast (load16 0x44A (tty_mem st)),
       tty_height := 25, tty_io_port := load16 0x463 (tty_mem st), cursor := 0, text_attr := 7\<rparr>)
   }"

text \<open>A blank cell: the attribute in the high byte, the character in the low one.\<close>

definition blank_cell :: "u8 \<Rightarrow> u16" where
  "blank_cell attr = push_bit 8 (ucast attr) + 32"

definition move_cursor :: "u32 \<Rightarrow> tty \<Rightarrow> tty" where
  "move_cursor pos st =
     (let st = st\<lparr>cursor := pos\<rparr>;
          w = tty_width st; h = tty_height st; buf = tty_buffer st;
          st = (if w * h \<le> cursor st then
                  (let st = st\<lparr>cursor := (h - 1) * w\<rparr>;
                       st = st\<lparr>tty_mem := snd (memcpy buf (buf + w * 2) (w * h * 2) (tty_mem st))\<rparr>
                   in st\<lparr>tty_mem := memset_word (buf + w * (h - 1) * 2) (blank_cell (text_attr st)) w
                           (tty_mem st)\<rparr>)
                else st);
          st = outportb (tty_io_port st) 0x0E st;
          st = outportb (tty_io_port st + 1) (ucast (drop_bit 8 (cursor st))) st;
          st = outportb (tty_io_port st) 0x0F st
      in outportb (tty_io_port st + 1) (ucast (cursor st AND 0xFF)) st)"

definition out_char :: "u8 \<Rightarrow> tty \<Rightarrow> tty option" where
  "out_char chr st =
     (if chr = 10 then
        if tty_width st = 0 then None
        else Some (move_cursor ((cursor st div tty_width st + 1) * tty_width st) st)
      else
        let a = tty_buffer st + cursor st * 2;
            st = st\<lparr>tty_mem := (tty_mem st)(a := chr)\<rparr>;
            st = st\<lparr>tty_mem := (tty_mem st)(a + 1 := text_attr st)\<rparr>
        in Some (move_cursor (cursor st + 1) st))"

partial_function (option) out_string :: "u32 \<Rightarrow> tty \<Rightarrow> tty option" where
  "out_string s st =
     (if tty_mem st s = 0 then Some st
      else do {
        st' \<leftarrow> out_char (tty_mem st s) st;
        out_string (s + 1) st'
      })"

definition clear_screen :: "tty \<Rightarrow> tty" where
  "clear_screen st =
     (let st = st\<lparr>tty_mem := memset_word (tty_buffer st) (blank_cell (text_attr st))
                     (tty_width st * tty_height st) (tty_mem st)\<rparr>
      in move_cursor 0 st)"

definition set_text_attr :: "u8 \<Rightarrow> tty \<Rightarrow> tty" where
  "set_text_attr attr st = st\<lparr>text_attr := attr\<rparr>"

subsection \<open>Numbers\<close>

text \<open>\<^verbatim>\<open>"0123456789ABCDEF"\<close> with its terminator.\<close>

definition digits :: "u8 list" where
  "digits = [48, 49, 50, 51, 52, 53, 54, 55, 56, 57, 65, 66, 67, 68, 69, 70, 0]"

partial_function (option) to_str_loop :: "u32 \<Rightarrow> u32 \<Rightarrow> u32 \<Rightarrow> tty \<Rightarrow> (u32 \<times> tty) option" where
  "to_str_loop base value i st =
     (if base = 0 \<or> length digits \<le> unat (value mod base) then None
      else
        let st = st\<lparr>tty_mem := (tty_mem st)(num_buffer st + i := digits ! unat (value mod base))\<rparr>;
            i = i - 1;
            value = value div base
        in if value \<noteq> 0 then to_str_loop base value i st else Some (num_buffer st + (i + 1), st))"

definition int_to_str :: "u32 \<Rightarrow> u8 \<Rightarrow> tty \<Rightarrow> (u32 \<times> tty) option" where
  "int_to_str value base st =
     (let i = 65 - 1;
          st = st\<lparr>tty_mem := (tty_mem st)(num_buffer st + i := 0)\<rparr>
      in to_str_loop (ucast base) value (i - 1) st)"

text \<open>\<^verbatim>\<open>size_t\<close> is \<^verbatim>\<open>uint32\<close>: the second routine repeats the first.\<close>

definition uint32_to_str :: "u32 \<Rightarrow> u8 \<Rightarrow> tty \<Rightarrow> (u32 \<times> tty) option" where
  "uint32_to_str value base st =
     (let i = 65 - 1;
          st = st\<lparr>tty_mem := (tty_mem st)(num_buffer st + i := 0)\<rparr>
      in to_str_loop (ucast base) value (i - 1) st)"

subsection \<open>Formatted output\<close>

definition out_number :: "u8 \<Rightarrow> u32 \<Rightarrow> tty \<Rightarrow> tty option" where
  "out_number base arg st = do {
     (s, st) \<leftarrow> int_to_str arg base st;
     out_string s st
   }"

definition out_arg :: "u8 \<Rightarrow> u32 \<Rightarrow> tty \<Rightarrow> tty option" where
  "out_arg c arg st =
     (if c = 99 then out_char (ucast arg) st
      else if c = 115 then out_string arg st
      else if c = 98 then out_number 2 arg st
      else if c = 111 then out_number 8 arg st
      else if c = 100 then out_number 10 arg st
      else if c = 117 then do { (s, st) \<leftarrow> uint32_to_str arg 10 st; out_string s st }
      else out_number 16 arg st)"

definition takes_arg :: "u8 \<Rightarrow> bool" where
  "takes_arg c \<longleftrightarrow> c \<in> set [99, 115, 98, 111, 100, 117, 120]"

definition out_directive :: "u8 \<Rightarrow> u32 list \<Rightarrow> tty \<Rightarrow> (u32 list \<times> tty) option" where
  "out_directive c args st =
     (if c = 37 then map_option (Pair args) (out_char 37 st)
      else if takes_arg c then
        case args of [] \<Rightarrow> None | arg # args \<Rightarrow> map_option (Pair args) (out_arg c arg st)
      else Some (args, st))"

partial_function (option) printf :: "u32 \<Rightarrow> u32 list \<Rightarrow> tty \<Rightarrow> tty option" where
  "printf fmt args st =
     (if tty_mem st fmt = 0 then Some st
      else if tty_mem st fmt = 37 then do {
        r \<leftarrow> out_directive (tty_mem st (fmt + 1)) args st;
        printf (fmt + 2) (fst r) (snd r)
      }
      else do {
        st' \<leftarrow> out_char (tty_mem st fmt) st;
        printf (fmt + 1) args st'
      })"

section \<open>The screen\<close>

text \<open>
  The abstract terminal: the cells row by row and the cursor.  A character goes into the
  cell at the cursor; leaving the last row scrolls all rows up by one.
\<close>

type_synonym screen = "(u8 \<times> u8) list \<times> nat"

definition term_move :: "nat \<Rightarrow> nat \<Rightarrow> u8 \<Rightarrow> nat \<Rightarrow> (u8 \<times> u8) list \<Rightarrow> screen" where
  "term_move w h attr pos cells =
     (if pos < w * h then (cells, pos)
      else (drop w cells @ replicate w (32, attr), (h - 1) * w))"

definition term_put :: "nat \<Rightarrow> nat \<Rightarrow> u8 \<Rightarrow> u8 \<Rightarrow> screen \<Rightarrow> screen" where
  "term_put w h attr c s =
     (if c = 10 then term_move w h attr ((snd s div w + 1) * w) (fst s)
      else term_move w h attr (snd s + 1) ((fst s)[snd s := (c, attr)]))"

definition cell_at :: "tty \<Rightarrow> nat \<Rightarrow> u8 \<times> u8" where
  "cell_at st i = (tty_mem st (tty_buffer st + of_nat (2 * i)), tty_mem st (tty_buffer st + of_nat (2 * i + 1)))"

abbreviation "W st \<equiv> unat (tty_width st)"
abbreviation "H st \<equiv> unat (tty_height st)"

definition screen_of :: "tty \<Rightarrow> screen" where
  "screen_of st = (map (cell_at st) [0..<W st * H st], unat (cursor st))"

text \<open>The buffer and one row more do not wrap around memory; rows have an even length.\<close>

definition dims_ok :: "tty \<Rightarrow> bool" where
  "dims_ok st \<longleftrightarrow> 0 < W st \<and> even (W st) \<and> 0 < H st \<and> 2 * (W st * H st + W st) < 2 ^ 32"

definition tty_ok :: "tty \<Rightarrow> bool" where
  "tty_ok st \<longleftrightarrow> dims_ok st \<and> unat (cursor st) < W st * H st"

text \<open>The byte at \<open>x\<close> is not part of the screen.\<close>

definition off_screen :: "tty \<Rightarrow> u32 \<Rightarrow> bool" where
  "off_screen st x \<longleftrightarrow> 2 * (W st * H st) \<le> unat (x - tty_buffer st)"

lemma blank_cell_or: "blank_cell a = push_bit 8 (ucast a) OR 32"
  unfolding blank_cell_def
proof (rule disjunctive_add)
  fix n
  show "\<not> bit (push_bit 8 (ucast a) :: u16) n \<or> \<not> bit (32 :: u16) n"
  proof (cases "n < 8")
    case True
    then show ?thesis by (simp add: bit_push_bit_iff)
  next
    case False
    then have "n \<noteq> 5" by simp
    moreover have "(32 :: u16) = push_bit 5 1" by simp
    ultimately show ?thesis by (simp only: bit_push_bit_iff bit_1_iff) auto
  qed
qed

lemma bit_32: "bit (32 :: 'a::len word) n \<longleftrightarrow> n = 5 \<and> 5 < LENGTH('a)"
proof -
  have "(32 :: 'a word) = push_bit 5 1" by simp
  then show ?thesis by (simp only: bit_push_bit_iff bit_1_iff) (auto simp: possible_bit_word)
qed

lemma bit_32_int: "bit (32 :: int) n \<longleftrightarrow> n = 5"
proof -
  have "(32 :: int) = push_bit 5 1" by simp
  then show ?thesis by (simp only: bit_push_bit_iff bit_1_iff) auto
qed

lemma blank_bytes:
  assumes "j < 4"
  shows "dword_byte j (ucast (blank_cell a) OR push_bit 16 (ucast (blank_cell a))) =
    (if even j then 32 else a)"
proof (rule bit_word_eqI)
  fix i
  assume i: "i < LENGTH(8)"
  have hi: "\<not> bit a n" if "8 \<le> n" for n using that bit_imp_le_length [of a n] by auto
  have "j = 0 \<or> j = 1 \<or> j = 2 \<or> j = 3" using assms by auto
  then show "bit (dword_byte j (ucast (blank_cell a) OR push_bit 16 (ucast (blank_cell a)))) i =
      bit (if even j then 32 else a) i"
    unfolding dword_byte_def blank_cell_or
    by (elim disjE; simp only: bit_unsigned_iff bit_drop_bit_eq bit_or_iff bit_push_bit_iff bit_32 o_apply)
      (use i in \<open>auto simp: possible_bit_word hi bit_32 bit_32_int bit_unsigned_iff\<close>)
qed

lemma unat_div_2: "unat (drop_bit 1 (w :: u32)) = unat w div 2"
  by (simp add: drop_bit_eq_div unat_div)

text \<open>\<^verbatim>\<open>memset_word\<close> of blank cells, for an even number of cells.\<close>

lemma memset_blank:
  assumes "even (unat n)" and "2 * unat n < 2 ^ 32"
  shows "memset_word a (blank_cell attr) n m =
    (\<lambda>x. if unat (x - a) < 2 * unat n then if even (unat (x - a)) then 32 else attr else m x)"
proof -
  have e: "4 * (unat n div 2) = 2 * unat n" using assms(1) by auto
  have "even (k mod 4) = even k" for k :: nat by presburger
  then show ?thesis
    unfolding memset_word_def Let_def unat_div_2
    using assms(2) e by (subst rep_stosl_eq) (auto simp: blank_bytes fun_eq_iff)
qed

lemma memset_blank_at:
  assumes "even (unat n)" and "even A" and "A + 2 * unat n < 2 ^ 32"
  shows "memset_word (buf + of_nat A) (blank_cell attr) n m =
    (\<lambda>x. if A \<le> unat (x - buf) \<and> unat (x - buf) < A + 2 * unat n
      then if even (unat (x - buf)) then 32 else attr else m x)"
proof -
  have sh: "unat (x - (buf + of_nat A)) = (if A \<le> unat (x - buf) then unat (x - buf) - A
      else 2 ^ 32 + unat (x - buf) - A)" for x
    using assms(3) by (intro offset_shift) simp
  have "2 * unat n < 2 ^ 32" using assms(3) by simp
  then show ?thesis
    using assms offset_less by (subst memset_blank) (auto simp: fun_eq_iff sh)
qed

text \<open>Scrolling in closed form, by the offset of a byte in the buffer.\<close>

lemma scroll_bytes:
  assumes ok: "0 < w" "even (unat w)" "0 < h" "2 * (unat w * unat h + unat w) < 2 ^ 32"
  shows "memset_word (buf + w * (h - 1) * 2) (blank_cell attr) w
      (snd (memcpy buf (buf + w * 2) (w * h * 2) m)) =
    (\<lambda>x. let k = unat (x - buf)
      in if k < 2 * (unat w * (unat h - 1)) then m (x + of_nat (2 * unat w))
         else if k < 2 * (unat w * unat h) then if even k then 32 else attr else m x)"
proof -
  define W H where W: "W = unat w" and H: "H = unat h"
  have w: "w = of_nat W" and h: "h = of_nat H" by (simp_all add: W H)
  have pos: "0 < W" "0 < H" using ok(1,3) by (simp_all add: W H unat_gt_0)
  have lim: "2 * (W * H + W) < 2 ^ 32" using ok(4) by (simp add: W H)
  obtain H' where H': "H = Suc H'" using pos(2) by (cases H) auto
  have e1: "w * h * 2 = of_nat (2 * (W * H))" "w * 2 = of_nat (2 * W)" "w * (h - 1) * 2 = of_nat (2 * (W * (H - 1)))"
    by (simp_all add: w h H' algebra_simps)
  have l2: "2 * (W * H) < 2 ^ 32" "2 * W < 2 ^ 32" by - (rule le_less_trans [OF _ lim], simp)+
  have l3: "2 * (W * (H - 1)) < 2 ^ 32" by (rule le_less_trans [OF _ l2(1)]) simp
  have u: "unat (of_nat (2 * (W * H)) :: u32) = 2 * (W * H)" "unat (of_nat (2 * W) :: u32) = 2 * W"
    by (simp_all only: unat_of_nat32 l2)
  have k: "unat (buf - (buf + of_nat (2 * W))) = 2 ^ 32 - 2 * W"
    using offset_shift [of "2 * W" buf buf] lim pos by simp
  have cp: "snd (memcpy buf (buf + w * 2) (w * h * 2) m) =
      (\<lambda>x. if unat (x - buf) < 2 * (W * H) then m (x + of_nat (2 * W)) else m x)"
    unfolding memcpy_def snd_conv e1 u(1)
    using lim pos k by (subst memcpy_loop_eq [OF refl]) (auto simp: fun_eq_iff algebra_simps)
  have A: "2 * (W * (H - 1)) + 2 * W = 2 * (W * H)" using H' by simp
  have m2: "memset_word (buf + w * (h - 1) * 2) (blank_cell attr) w mm =
      (\<lambda>x. if 2 * (W * (H - 1)) \<le> unat (x - buf) \<and> unat (x - buf) < 2 * (W * H)
        then if even (unat (x - buf)) then 32 else attr else mm x)" for mm
    using memset_blank_at [OF ok(2), of "2 * (W * (H - 1))" buf attr mm] l2 A unfolding e1 W [symmetric]
    by simp
  show ?thesis unfolding cp m2 W [symmetric] H [symmetric]
    using H' by (auto simp: fun_eq_iff Let_def)
qed


subsection \<open>Moving the cursor\<close>

text \<open>The geometry: what no operation of the terminal changes once it is set up.\<close>

definition same_tty :: "tty \<Rightarrow> tty \<Rightarrow> bool" where
  "same_tty st st' \<longleftrightarrow> tty_width st' = tty_width st \<and> tty_height st' = tty_height st \<and>
     tty_buffer st' = tty_buffer st \<and> num_buffer st' = num_buffer st \<and> tty_io_port st' = tty_io_port st"

lemma same_tty_refl [simp]: "same_tty st st"
  by (simp add: same_tty_def)

lemma same_tty_trans: "same_tty a b \<Longrightarrow> same_tty b c \<Longrightarrow> same_tty a c"
  by (simp add: same_tty_def)

lemma same_ttyD:
  "same_tty st st' \<Longrightarrow> dims_ok st' = dims_ok st" "same_tty st st' \<Longrightarrow> off_screen st' = off_screen st"
  by (auto simp: same_tty_def dims_ok_def off_screen_def fun_eq_iff)

lemma outportb_simps [simp]:
  "tty_mem (outportb p v st) = tty_mem st" "tty_width (outportb p v st) = tty_width st"
  "tty_height (outportb p v st) = tty_height st" "cursor (outportb p v st) = cursor st"
  "text_attr (outportb p v st) = text_attr st" "tty_buffer (outportb p v st) = tty_buffer st"
  "num_buffer (outportb p v st) = num_buffer st" "tty_io_port (outportb p v st) = tty_io_port st"
  "port_writes (outportb p v st) = port_writes st @ [(p, v)]"
  by (simp_all add: outportb_def)

lemma dims_size:
  assumes "dims_ok st"
  shows "unat (tty_width st * tty_height st) = W st * H st"
    "unat ((tty_height st - 1) * tty_width st) = (H st - 1) * W st"
    "(H st - 1) * W st < W st * H st" "(H st - 1) * W st + W st = W st * H st"
    "2 * (W st * H st) < 2 ^ 32" "0 < tty_width st" "0 < tty_height st"
proof -
  let ?W = "W st" and ?H = "H st"
  have pos: "0 < ?W" "0 < ?H" and lim: "2 * (?W * ?H + ?W) < 2 ^ 32"
    using assms by (auto simp: dims_ok_def)
  show l2: "2 * (?W * ?H) < 2 ^ 32" by (rule le_less_trans [OF _ lim]) simp
  have lt: "?W * ?H < 2 ^ 32" by (rule le_less_trans [OF _ l2]) simp
  show sum: "(?H - 1) * ?W + ?W = ?W * ?H" using pos by (cases "?H") (auto simp: algebra_simps)
  then show less: "(?H - 1) * ?W < ?W * ?H" using pos by simp
  have lt': "(?H - 1) * ?W < 2 ^ 32" using less lt by (rule less_trans)
  have h1: "tty_height st - 1 = of_nat (?H - 1)" using pos(2) by (simp add: of_nat_diff)
  show "unat (tty_width st * tty_height st) = ?W * ?H"
    using unat_of_nat32 [OF lt] by simp
  show "unat ((tty_height st - 1) * tty_width st) = (?H - 1) * ?W"
    using unat_of_nat32 [OF lt'] unfolding of_nat_mult h1 [symmetric] by simp
  show "0 < tty_width st" "0 < tty_height st" using pos by (simp_all add: word_less_nat_alt)
qed

lemma move_cursor_same [simp]: "same_tty st (move_cursor pos st)"
  by (simp add: move_cursor_def Let_def same_tty_def)

lemma move_cursor_attr [simp]: "text_attr (move_cursor pos st) = text_attr st"
  by (simp add: move_cursor_def Let_def)

lemma move_cursor_state:
  assumes "dims_ok st"
  shows "unat (cursor (move_cursor pos st)) = (if unat pos < W st * H st then unat pos else (H st - 1) * W st)"
    and "tty_mem (move_cursor pos st) = (if unat pos < W st * H st then tty_mem st else
      (\<lambda>x. let k = unat (x - tty_buffer st)
        in if k < 2 * ((H st - 1) * W st) then tty_mem st (x + of_nat (2 * W st))
           else if k < 2 * (W st * H st) then if even k then 32 else text_attr st else tty_mem st x))"
proof -
  note d = dims_size [OF assms]
  have c: "tty_width st * tty_height st \<le> pos \<longleftrightarrow> \<not> unat pos < W st * H st"
    by (simp add: word_le_nat_alt d(1) not_less)
  have m: "memset_word (tty_buffer st + tty_width st * (tty_height st - 1) * 2) (blank_cell (text_attr st))
      (tty_width st) (snd (memcpy (tty_buffer st) (tty_buffer st + tty_width st * 2)
        (tty_width st * tty_height st * 2) (tty_mem st))) =
    (\<lambda>x. let k = unat (x - tty_buffer st)
        in if k < 2 * ((H st - 1) * W st) then tty_mem st (x + of_nat (2 * W st))
           else if k < 2 * (W st * H st) then if even k then 32 else text_attr st else tty_mem st x)"
    using assms d(6,7) unfolding mult.commute [of "H st - 1"] by (intro scroll_bytes) (auto simp: dims_ok_def)
  show "unat (cursor (move_cursor pos st)) = (if unat pos < W st * H st then unat pos else (H st - 1) * W st)"
    using d(2) by (simp add: move_cursor_def Let_def c)
  show "tty_mem (move_cursor pos st) = (if unat pos < W st * H st then tty_mem st else
      (\<lambda>x. let k = unat (x - tty_buffer st)
        in if k < 2 * ((H st - 1) * W st) then tty_mem st (x + of_nat (2 * W st))
           else if k < 2 * (W st * H st) then if even k then 32 else text_attr st else tty_mem st x))"
    unfolding m [symmetric] by (simp add: move_cursor_def Let_def c)
qed

lemma move_cursor_ok:
  assumes "dims_ok st"
  shows "tty_ok (move_cursor pos st)"
    and "off_screen st x \<Longrightarrow> tty_mem (move_cursor pos st) x = tty_mem st x"
proof -
  note d = dims_size [OF assms] and m = move_cursor_state [OF assms]
  have s: "W (move_cursor pos st) = W st" "H (move_cursor pos st) = H st"
    using move_cursor_same [of st pos] by (simp_all add: same_tty_def)
  show "tty_ok (move_cursor pos st)"
    using assms d(3) same_ttyD(1) [OF move_cursor_same] unfolding tty_ok_def s m(1) by auto
  show "tty_mem (move_cursor pos st) x = tty_mem st x" if "off_screen st x"
  proof -
    have "\<not> unat (x - tty_buffer st) < 2 * ((H st - 1) * W st)"
      using that d(3) unfolding off_screen_def by linarith
    then show ?thesis using that by (simp add: m(2) off_screen_def Let_def)
  qed
qed

lemma offset_of_nat: "k < 2 ^ 32 \<Longrightarrow> unat ((b :: u32) + of_nat k - b) = k"
  by (simp add: unat_of_nat32)

text \<open>Moving past the last row scrolls.\<close>

lemma move_cursor_screen:
  assumes "dims_ok st"
  shows "screen_of (move_cursor pos st) =
    term_move (W st) (H st) (text_attr st) (unat pos) (fst (screen_of st))"
proof -
  let ?t = "move_cursor pos st" and ?b = "tty_buffer st"
  note d = dims_size [OF assms] and m = move_cursor_state [OF assms, of pos]
  have s: "W ?t = W st" "H ?t = H st" "tty_buffer ?t = ?b"
    using move_cursor_same [of st pos] by (simp_all add: same_tty_def)
  show ?thesis
  proof (cases "unat pos < W st * H st")
    case True
    then have "cell_at ?t = cell_at st" using m(2) s by (simp add: cell_at_def fun_eq_iff)
    then show ?thesis using True m(1) s by (simp add: screen_of_def term_move_def)
  next
    case False
    have off: "unat (?b + of_nat k - ?b) = k" if "k < 2 * (W st * H st)" for k
      by (rule offset_of_nat) (rule less_trans [OF that d(5)])
    have byte: "tty_mem ?t (?b + of_nat k) = (if k < 2 * ((H st - 1) * W st)
        then tty_mem st (?b + of_nat k + of_nat (2 * W st)) else if even k then 32 else text_attr st)"
      if "k < 2 * (W st * H st)" for k
      using False that off [OF that] unfolding m(2) Let_def by (simp only: if_False if_True)
    have up: "cell_at ?t i = cell_at st (i + W st)" if i: "i < (H st - 1) * W st" for i
    proof -
      have "i < W st * H st" using i d(3) by (rule less_trans)
      then have "2 * i < 2 * (W st * H st)" "2 * i + 1 < 2 * (W st * H st)" by simp_all
      note o = this [THEN byte]
      have e: "?b + of_nat (2 * i) + of_nat (2 * W st) = ?b + of_nat (2 * (i + W st))"
        "?b + of_nat (2 * i + 1) + of_nat (2 * W st) = ?b + of_nat (2 * (i + W st) + 1)"
        by (simp_all add: algebra_simps)
      have k: "2 * i < 2 * ((H st - 1) * W st)" "2 * i + 1 < 2 * ((H st - 1) * W st)"
        using i by linarith+
      show ?thesis unfolding cell_at_def s(3) o by (simp only: k if_True e)
    qed
    have blank: "cell_at ?t i = (32, text_attr st)" if i: "(H st - 1) * W st \<le> i" "i < W st * H st" for i
    proof -
      have "2 * i < 2 * (W st * H st)" "2 * i + 1 < 2 * (W st * H st)" using i by simp_all
      note o = this [THEN byte]
      have k: "\<not> 2 * i < 2 * ((H st - 1) * W st)" "\<not> 2 * i + 1 < 2 * ((H st - 1) * W st)"
        using i by linarith+
      show ?thesis unfolding cell_at_def s(3) o by (simp only: k if_False) simp
    qed
    have "map (cell_at ?t) [0..<W st * H st] =
        drop (W st) (map (cell_at st) [0..<W st * H st]) @ replicate (W st) (32, text_attr st)"
      using d(4) by (intro nth_equalityI) (auto simp: drop_map nth_append up blank add.commute not_less)
    then show ?thesis using False m(1) s by (simp add: screen_of_def term_move_def)
  qed
qed


subsection \<open>Writing characters\<close>

text \<open>
  What writing the characters \<open>cs\<close> does: the screen is the one the abstract terminal
  shows, and no byte off the screen changes, but for those of \<open>B\<close>.
\<close>

definition wrote :: "u32 set \<Rightarrow> u8 list \<Rightarrow> tty \<Rightarrow> tty \<Rightarrow> bool" where
  "wrote B cs st st' \<longleftrightarrow> tty_ok st' \<and> same_tty st st' \<and> text_attr st' = text_attr st \<and>
     screen_of st' = fold (term_put (W st) (H st) (text_attr st)) cs (screen_of st) \<and>
     (\<forall>x. off_screen st x \<and> x \<notin> B \<longrightarrow> tty_mem st' x = tty_mem st x)"

lemma wrote_nil [simp]: "tty_ok st \<Longrightarrow> wrote B [] st st"
  by (simp add: wrote_def)

lemma wrote_append:
  assumes "wrote B cs a b" and "wrote B ds b c"
  shows "wrote B (cs @ ds) a c"
  using assms same_tty_trans [of a b c] same_ttyD(2) [of a b] by (auto simp: wrote_def same_tty_def)

lemma wrote_mono: "wrote A cs a b \<Longrightarrow> A \<subseteq> B \<Longrightarrow> wrote B cs a b"
  by (auto simp: wrote_def)

lemma store_cell:
  assumes ok: "tty_ok st" and a: "a = tty_buffer st + cursor st * 2"
    and t: "t = st\<lparr>tty_mem := (tty_mem st)(a := c, a + 1 := text_attr st)\<rparr>"
  shows "screen_of t = ((fst (screen_of st))[unat (cursor st) := (c, text_attr st)], unat (cursor st))"
    and "off_screen st x \<Longrightarrow> tty_mem t x = tty_mem st x"
proof -
  let ?b = "tty_buffer st" and ?n = "unat (cursor st)"
  have d: "dims_ok st" and n: "?n < W st * H st" using ok by (simp_all add: tty_ok_def)
  note l = dims_size(5) [OF d]
  have e: "a = ?b + of_nat (2 * ?n)" "a + 1 = ?b + of_nat (2 * ?n + 1)"
    by (simp_all add: a algebra_simps)
  have off: "unat (?b + of_nat k - ?b) = k" if "k < 2 * (W st * H st)" for k
    by (rule offset_of_nat) (rule less_trans [OF that l])
  have eq: "?b + of_nat j = ?b + of_nat k \<longleftrightarrow> j = k"
    if "j < 2 * (W st * H st)" "k < 2 * (W st * H st)" for j k
    using off [OF that(1)] off [OF that(2)] by metis
  have n2: "2 * ?n < 2 * (W st * H st)" "2 * ?n + 1 < 2 * (W st * H st)" using n by simp_all
  have tm: "tty_mem t = (tty_mem st)(?b + of_nat (2 * ?n) := c, ?b + of_nat (2 * ?n + 1) := text_attr st)"
    unfolding e [symmetric] by (simp add: t)
  have mem: "tty_mem t (?b + of_nat k) = (if k = 2 * ?n then c else if k = 2 * ?n + 1 then text_attr st
      else tty_mem st (?b + of_nat k))" if "k < 2 * (W st * H st)" for k
    unfolding tm fun_upd_apply eq [OF that n2(1)] eq [OF that n2(2)] by simp
  have cell: "cell_at t i = (if i = ?n then (c, text_attr st) else cell_at st i)"
    if i: "i < W st * H st" for i
  proof -
    have "2 * i < 2 * (W st * H st)" "2 * i + 1 < 2 * (W st * H st)" using i by simp_all
    note m = this [THEN mem]
    have tb: "tty_buffer t = ?b" by (simp add: t)
    show ?thesis unfolding cell_at_def tb m by (auto simp: cell_at_def)
  qed
  have s: "tty_width t = tty_width st" "tty_height t = tty_height st" "cursor t = cursor st"
    by (simp_all add: t)
  show "screen_of t = ((fst (screen_of st))[?n := (c, text_attr st)], ?n)"
    unfolding screen_of_def s fst_conv prod.inject
    using cell by (intro conjI nth_equalityI) (auto simp: nth_list_update)
  show "tty_mem t x = tty_mem st x" if "off_screen st x"
  proof -
    have "unat (a - ?b) = 2 * ?n" unfolding e(1) by (rule off [OF n2(1)])
    moreover have "unat (a + 1 - ?b) = 2 * ?n + 1" unfolding e(2) by (rule off [OF n2(2)])
    ultimately have "x \<noteq> a" "x \<noteq> a + 1"
      using that n2 unfolding off_screen_def by (metis not_le)+
    then show ?thesis by (simp add: t)
  qed
qed

lemma out_char_wrote:
  assumes ok: "tty_ok st"
  shows "\<exists>st'. out_char c st = Some st' \<and> wrote {} [c] st st'"
proof -
  have d: "dims_ok st" and n: "unat (cursor st) < W st * H st" using ok by (simp_all add: tty_ok_def)
  note z = dims_size [OF d]
  have lt: "W st * H st < 2 ^ 32" by (rule le_less_trans [OF _ z(5)]) simp
  show ?thesis
  proof (cases "c = 10")
    case True
    have w: "0 < W st" using d by (simp add: dims_ok_def)
    have "unat (cursor st) div W st < H st"
      using n w by (simp add: less_mult_imp_div_less mult.commute)
    then have "(unat (cursor st) div W st + 1) * W st \<le> H st * W st" by (intro mult_le_mono1) simp
    then have "(unat (cursor st) div W st + 1) * W st < 2 ^ 32"
      using lt unfolding mult.commute [of "H st"] by (rule le_less_trans)
    then have u: "unat ((cursor st div tty_width st + 1) * tty_width st) = (unat (cursor st) div W st + 1) * W st"
      using unat_of_nat32 [of "(unat (cursor st) div W st + 1) * W st"]
      by (simp add: unat_div [symmetric] algebra_simps)
    show ?thesis
      using True z(6) d move_cursor_ok [OF d] move_cursor_screen [OF d] u
      by (auto simp: out_char_def wrote_def term_put_def screen_of_def)
  next
    case False
    define a where "a = tty_buffer st + cursor st * 2"
    define t where "t = st\<lparr>tty_mem := (tty_mem st)(a := c, a + 1 := text_attr st)\<rparr>"
    note s = store_cell [OF ok a_def t_def]
    have f: "same_tty st t" "text_attr t = text_attr st" "cursor t = cursor st"
      by (simp_all add: t_def same_tty_def)
    have dt: "dims_ok t" using d same_ttyD(1) [OF f(1)] by simp
    have wh: "W t = W st" "H t = H st" using f(1) by (simp_all add: same_tty_def)
    have u: "unat (cursor st + 1) = unat (cursor st) + 1"
      using n lt by (subst unat_Suc_word) auto
    have o: "out_char c st = Some (move_cursor (cursor st + 1) t)"
      using False by (simp add: out_char_def Let_def t_def a_def)
    have "wrote {} [c] st (move_cursor (cursor st + 1) t)"
      unfolding wrote_def
      using False f same_tty_trans [OF f(1) move_cursor_same] move_cursor_ok [OF dt] s
        same_ttyD(2) [OF f(1)] move_cursor_screen [OF dt, of "cursor st + 1"] u wh
      by (auto simp: term_put_def screen_of_def)
    then show ?thesis using o by blast
  qed
qed

text \<open>Strings off the screen are not disturbed by writing.\<close>

definition readable :: "u32 set \<Rightarrow> tty \<Rightarrow> u32 \<Rightarrow> bool" where
  "readable B st x \<longleftrightarrow> off_screen st x \<and> x \<notin> B"

definition string_at :: "u32 set \<Rightarrow> tty \<Rightarrow> u32 \<Rightarrow> u8 list \<Rightarrow> bool" where
  "string_at B st a s \<longleftrightarrow> cstr (tty_mem st) a s \<and> (\<forall>i \<le> length s. readable B st (a + of_nat i))"

lemma readable_wrote: "wrote B cs st st' \<Longrightarrow> readable B st' = readable B st"
  using same_ttyD(2) [of st st'] by (auto simp: readable_def wrote_def fun_eq_iff)

lemma string_at_Cons:
  "string_at B st a (c # s) \<longleftrightarrow> tty_mem st a = c \<and> c \<noteq> 0 \<and> readable B st a \<and> string_at B st (a + 1) s"
proof -
  have "(\<forall>i \<le> Suc n. P i) \<longleftrightarrow> P 0 \<and> (\<forall>i \<le> n. P (Suc i))" for P n
    by (metis Suc_le_mono le0 not0_implies_Suc)
  then have "(\<forall>i \<le> Suc (length s). readable B st (a + of_nat i)) \<longleftrightarrow>
      readable B st a \<and> (\<forall>i \<le> length s. readable B st (a + 1 + of_nat i))"
    by (simp add: add.assoc)
  then show ?thesis by (auto simp: string_at_def)
qed

lemma string_at_wrote:
  assumes "wrote B cs st st'" and "string_at B st a s"
  shows "string_at B st' a s"
proof -
  have "tty_mem st' (a + of_nat i) = tty_mem st (a + of_nat i)" if "i \<le> length s" for i
    using assms that by (auto simp: wrote_def string_at_def readable_def)
  then show ?thesis
    using assms(2) unfolding string_at_def cstr_nth readable_wrote [OF assms(1)] by auto
qed

lemma out_string_wrote:
  assumes "tty_ok st" and "string_at B st a s"
  shows "\<exists>st'. out_string a st = Some st' \<and> wrote B s st st'"
  using assms
proof (induction s arbitrary: a st)
  case Nil
  then show ?case by (subst out_string.simps) (simp add: string_at_def)
next
  case (Cons c s)
  obtain t where t: "out_char c st = Some t" "wrote B [c] st t"
    using out_char_wrote [OF Cons.prems(1)] wrote_mono by blast
  have "string_at B st (a + 1) s" and c: "tty_mem st a = c" "c \<noteq> 0"
    using Cons.prems(2) by (simp_all add: string_at_Cons)
  then have st: "string_at B t (a + 1) s" using string_at_wrote t(2) by blast
  have "tty_ok t" using t(2) by (simp add: wrote_def)
  from Cons.IH [OF this st] obtain u where u: "out_string (a + 1) t = Some u" "wrote B s t u" by blast
  have "out_string a st = Some u" by (subst out_string.simps) (simp add: c t u)
  moreover have "wrote B (c # s) st u" using wrote_append [OF t(2) u(2)] by simp
  ultimately show ?case by blast
qed

text \<open>C19: \<^verbatim>\<open>out_string\<close> on a string that is not on the screen returns, and shows what the
  abstract terminal shows: characters fill the cells from the cursor on, a newline goes
  to the next row, leaving the last row scrolls.  It leaves all other memory alone.  (The
  copy that scrolls reads a row beyond the buffer; the cells it fills from there are the
  ones then blanked.)\<close>

theorem out_string_refines:
  assumes "tty_ok st" and "cstr (tty_mem st) a s" and "\<forall>i \<le> length s. off_screen st (a + of_nat i)"
  shows "\<exists>st'. out_string a st = Some st' \<and> tty_ok st' \<and>
    screen_of st' = fold (term_put (W st) (H st) (text_attr st)) s (screen_of st) \<and>
    (\<forall>x. off_screen st x \<longrightarrow> tty_mem st' x = tty_mem st x)"
proof -
  have "string_at {} st a s" using assms by (simp add: string_at_def readable_def)
  from out_string_wrote [OF assms(1) this] show ?thesis by (auto simp: wrote_def)
qed


section \<open>Numbers as strings\<close>

text \<open>The digits of \<open>n\<close> in base \<open>b\<close>, the most significant first, and the value they denote.\<close>

function num_str :: "nat \<Rightarrow> nat \<Rightarrow> u8 list" where
  "num_str b n = (if b < 2 \<or> n < b then [digits ! n] else num_str b (n div b) @ [digits ! (n mod b)])"
  by auto
termination by (relation "measure snd") auto

declare num_str.simps [simp del]

lemma num_str_neq [simp]: "num_str b n \<noteq> []"
  by (subst num_str.simps) simp

lemma num_str_length:
  assumes "2 \<le> b" and "n < 2 ^ k" and "0 < k"
  shows "length (num_str b n) \<le> k"
  using assms(2,3)
proof (induction k arbitrary: n)
  case 0
  then show ?case by simp
next
  case (Suc k)
  show ?case
  proof (cases "n < b")
    case True
    then show ?thesis by (subst num_str.simps) simp
  next
    case False
    have "n div b \<le> n div 2" using assms(1) by (intro div_le_mono2) auto
    moreover have "n div 2 < 2 ^ k" using Suc.prems(1) by auto
    ultimately have "n div b < 2 ^ k" by (rule le_less_trans)
    moreover have "0 < k"
    proof (rule ccontr)
      assume "\<not> 0 < k"
      then show False using Suc.prems(1) False assms(1) by simp
    qed
    ultimately have "length (num_str b (n div b)) \<le> k" by (rule Suc.IH)
    then show ?thesis using False assms(1) by (subst num_str.simps) simp
  qed
qed

lemma digits_nonzero: "d < 16 \<Longrightarrow> digits ! d \<noteq> 0"
proof -
  have "\<forall>d \<in> set [0..<16]. digits ! d \<noteq> 0" by (simp add: digits_def upt_rec)
  then show "d < 16 \<Longrightarrow> digits ! d \<noteq> 0" by auto
qed

lemma num_str_no_nul: "2 \<le> b \<Longrightarrow> b \<le> 16 \<Longrightarrow> 0 \<notin> set (num_str b n)"
proof (induction b n rule: num_str.induct)
  case (1 b n)
  show ?case
  proof (cases "n < b")
    case True
    then show ?thesis using 1 digits_nonzero [of n] by (subst num_str.simps) auto
  next
    case False
    have "n mod b < 16" using 1 mod_less_divisor [of b n] by linarith
    then have "digits ! (n mod b) \<noteq> 0" by (rule digits_nonzero)
    then show ?thesis using 1 False by (subst num_str.simps) auto
  qed
qed

text \<open>
  The loop writes the digits downward from index \<open>i\<close>.
\<close>

definition num_written :: "tty \<Rightarrow> nat \<Rightarrow> u8 list \<Rightarrow> mem \<Rightarrow> bool" where
  "num_written st i ds m \<longleftrightarrow>
     (\<forall>k < length ds. m (num_buffer st + of_nat (i + 1 - length ds + k)) = ds ! k) \<and>
     (\<forall>x. i < unat (x - num_buffer st) \<or> unat (x - num_buffer st) + length ds < i + 1 \<longrightarrow>
        m x = tty_mem st x)"

lemma to_str_loop_run:
  assumes "2 \<le> unat base" and "unat base \<le> 16" and "length (num_str (unat base) (unat v)) \<le> i"
    and "i < 64"
  shows "\<exists>m. to_str_loop base v (of_nat i) st = Some (num_buffer st +
      of_nat (i + 1 - length (num_str (unat base) (unat v))), st\<lparr>tty_mem := m\<rparr>) \<and>
    num_written st i (num_str (unat base) (unat v)) m"
  using assms(3,4)
proof (induction "unat v" arbitrary: v i st rule: less_induct)
  case less
  let ?b = "unat base" and ?nb = "num_buffer st"
  let ?d = "digits ! unat (v mod base)"
  have b0: "base \<noteq> 0" and md: "unat (v mod base) = unat v mod ?b" and dv: "unat (v div base) = unat v div ?b"
    using assms(1) by (auto simp: unat_mod unat_div)
  have "unat v mod ?b < ?b" using assms(1) by simp
  then have lt: "\<not> length digits \<le> unat (v mod base)" using assms(2) md by (simp add: digits_def)
  define t where "t = st\<lparr>tty_mem := (tty_mem st)(?nb + of_nat i := ?d)\<rparr>"
  have nt: "num_buffer t = ?nb" by (simp add: t_def)
  have i1: "(of_nat i :: u32) - 1 = of_nat (i - 1)" if "0 < i" using that by (simp add: of_nat_diff)
  have z: "v div base = 0 \<longleftrightarrow> unat v < ?b"
    using assms(1) dv by (metis div_eq_0_iff not_numeral_le_zero unat_eq_zero)
  have off: "unat (?nb + of_nat k - ?nb) = k" if "k \<le> i" for k
    using that less.prems(2) by (intro offset_of_nat) simp
  show ?case
  proof (cases "unat v < ?b")
    case True
    have n: "num_str ?b (unat v) = [?d]" using True md by (subst num_str.simps) simp
    have i: "0 < i" using less.prems(1) n by simp
    have "to_str_loop base v (of_nat i) st = Some (?nb + of_nat i, t)"
      using b0 lt True z i by (subst to_str_loop.simps) (simp add: Let_def t_def of_nat_diff)
    moreover have "num_written st i [?d] (tty_mem t)"
      using off [of i] by (auto simp: num_written_def t_def)
    ultimately show ?thesis unfolding n t_def by auto
  next
    case False
    let ?ds = "num_str ?b (unat v div ?b)"
    have n: "num_str ?b (unat v) = ?ds @ [?d]" using False assms(1) md by (subst num_str.simps) simp
    have i: "0 < i" "length ?ds \<le> i - 1" "i - 1 < 64" using less.prems n by auto
    have "unat v div ?b < unat v" using False assms(1) by simp
    from less.hyps [of "v div base", unfolded dv, OF this i(2,3), of t]
    obtain m where m: "to_str_loop base (v div base) (of_nat (i - 1)) t =
        Some (?nb + of_nat (i - length ?ds), t\<lparr>tty_mem := m\<rparr>)" "num_written t (i - 1) ?ds m"
      using i(1) by (auto simp: nt)
    have "to_str_loop base v (of_nat i) st = to_str_loop base (v div base) (of_nat i - 1) t"
      using b0 lt False z by (subst to_str_loop.simps) (simp add: Let_def t_def)
    also have "\<dots> = Some (?nb + of_nat (i + 1 - length (?ds @ [?d])), t\<lparr>tty_mem := m\<rparr>)"
      unfolding i1 [OF i(1)] m(1) by simp
    finally have "to_str_loop base v (of_nat i) st =
      Some (?nb + of_nat (i + 1 - length (?ds @ [?d])), t\<lparr>tty_mem := m\<rparr>)" .
    moreover have "num_written st i (?ds @ [?d]) m"
    proof -
      have 1: "m (?nb + of_nat (i - length ?ds + k)) = ?ds ! k" if "k < length ?ds" for k
        using m(2) that i(1) by (simp add: num_written_def nt)
      have 2: "m x = tty_mem t x" if "i - 1 < unat (x - ?nb) \<or> unat (x - ?nb) + length ?ds < i" for x
        using m(2) that i(1) by (auto simp: num_written_def nt)
      have 3: "m (?nb + of_nat i) = ?d"
        using 2 [of "?nb + of_nat i"] off [of i] i(1) by (simp add: t_def)
      have 4: "tty_mem t x = tty_mem st x" if "unat (x - ?nb) \<noteq> i" for x
        using that off [of i] by (auto simp: t_def)
      have "m (?nb + of_nat (i + 1 - length (?ds @ [?d]) + k)) = (?ds @ [?d]) ! k"
        if k: "k < length (?ds @ [?d])" for k
      proof (cases "k < length ?ds")
        case True
        then show ?thesis using 1 [of k] by (simp add: nth_append)
      next
        case False
        then have "k = length ?ds" using k by simp
        moreover have "i + 1 - length (?ds @ [?d]) + length ?ds = i" using i by simp
        ultimately show ?thesis using 3 by (simp only: nth_append_length)
      qed
      moreover have "m x = tty_mem st x"
        if x: "i < unat (x - ?nb) \<or> unat (x - ?nb) + length (?ds @ [?d]) < i + 1" for x
      proof -
        have "i - 1 < unat (x - ?nb) \<or> unat (x - ?nb) + length ?ds < i" "unat (x - ?nb) \<noteq> i"
          using x by auto
        then show ?thesis using 2 4 by simp
      qed
      ultimately show ?thesis unfolding num_written_def by blast
    qed
    ultimately show ?thesis unfolding n t_def by auto
  qed
qed


text \<open>The result of \<^verbatim>\<open>int_to_str\<close>: a string inside \<^verbatim>\<open>num_buffer\<close>, nothing else written.\<close>

definition num_bytes :: "tty \<Rightarrow> u32 set" where
  "num_bytes st = {x. unat (x - num_buffer st) < 65}"

lemma int_to_str_run:
  fixes v :: u32
  assumes "2 \<le> unat base" and "unat base \<le> 16"
  defines "ds \<equiv> num_str (unat base) (unat v)"
  shows "\<exists>m. int_to_str v base st = Some (num_buffer st + of_nat (64 - length ds), st\<lparr>tty_mem := m\<rparr>) \<and>
    length ds \<le> 32 \<and> cstr m (num_buffer st + of_nat (64 - length ds)) ds \<and>
    (\<forall>x. unat (x - num_buffer st) < 64 - length ds \<or> 64 < unat (x - num_buffer st) \<longrightarrow>
      m x = tty_mem st x)"
proof -
  let ?nb = "num_buffer st"
  define t where "t = st\<lparr>tty_mem := (tty_mem st)(?nb + 64 := 0)\<rparr>"
  have b: "unat (ucast base :: u32) = unat base"
    using assms(2) by (simp add: unsigned_ucast_eq take_bit_nat_eq_self)
  have len: "length ds \<le> 32"
    unfolding ds_def using assms(1) u32_less by (rule num_str_length) simp
  then have "length (num_str (unat (ucast base :: u32)) (unat v)) \<le> 63" by (simp add: b ds_def)
  from to_str_loop_run [OF _ _ this, of t, unfolded b, folded ds_def] assms(1,2)
  obtain m where m: "to_str_loop (ucast base) v 63 t =
      Some (num_buffer t + of_nat (64 - length ds), t\<lparr>tty_mem := m\<rparr>)" "num_written t 63 ds m"
    by auto
  have off: "unat (?nb + of_nat k - ?nb) = k" if "k \<le> 64" for k
    using that by (intro offset_of_nat) simp
  have nt: "num_buffer t = ?nb" by (simp add: t_def)
  have w: "\<forall>k < length ds. m (?nb + of_nat (64 - length ds + k)) = ds ! k"
    "\<And>x. 63 < unat (x - ?nb) \<or> unat (x - ?nb) < 64 - length ds \<Longrightarrow> m x = tty_mem t x"
    using m(2) len by (auto simp: num_written_def nt)
  have "m (?nb + of_nat 64) = 0"
    using w(2) [of "?nb + of_nat 64"] off [of 64] by (simp add: t_def)
  moreover have "64 - length ds + length ds = 64" using len by simp
  ultimately have "m (?nb + of_nat (64 - length ds) + of_nat (length ds)) = 0"
    unfolding add.assoc of_nat_add [symmetric] by simp
  then have "cstr m (?nb + of_nat (64 - length ds)) ds"
    unfolding cstr_nth using w(1) num_str_no_nul [OF assms(1,2)]
    by (simp add: add.assoc of_nat_add [symmetric] ds_def del: of_nat_add)
  moreover have "m x = tty_mem st x"
    if "unat (x - ?nb) < 64 - length ds \<or> 64 < unat (x - ?nb)" for x
  proof -
    have "unat (x - ?nb) \<noteq> 64" using that by auto
    then have "x \<noteq> ?nb + 64" using off [of 64] by auto
    then show ?thesis using w(2) [of x] that by (auto simp: t_def)
  qed
  ultimately show ?thesis
    using m(1) len by (intro exI [of _ m]) (auto simp: int_to_str_def t_def)
qed

text \<open>C22: For every value and every base from 2 to 16, \<^verbatim>\<open>int_to_str\<close> returns, points into
  \<^verbatim>\<open>num_buffer\<close>, needs at most 32 of its 64 places and writes no byte outside it.\<close>

theorem int_to_str_bounds:
  assumes "2 \<le> unat base" and "unat base \<le> 16"
  shows "\<exists>p st'. int_to_str v base st = Some (p, st') \<and>
    32 \<le> unat (p - num_buffer st) \<and> unat (p - num_buffer st) < 64 \<and>
    (\<forall>x. unat (x - num_buffer st) < 32 \<or> 64 < unat (x - num_buffer st) \<longrightarrow>
      tty_mem st' x = tty_mem st x)"
proof -
  let ?l = "length (num_str (unat base) (unat v))"
  obtain m where m: "int_to_str v base st = Some (num_buffer st + of_nat (64 - ?l), st\<lparr>tty_mem := m\<rparr>)"
    "?l \<le> 32" "\<forall>x. unat (x - num_buffer st) < 64 - ?l \<or> 64 < unat (x - num_buffer st) \<longrightarrow>
      m x = tty_mem st x"
    using int_to_str_run [OF assms, of v st] by blast
  have "unat (num_buffer st + of_nat (64 - ?l) - num_buffer st) = 64 - ?l" by (intro offset_of_nat) simp
  moreover have "0 < ?l" by simp
  ultimately show ?thesis using m
    by (intro exI [of _ "num_buffer st + of_nat (64 - ?l)"] exI [of _ "st\<lparr>tty_mem := m\<rparr>"]) auto
qed

text \<open>Decimal digits read back.\<close>

lemma digit_sint: "d < 10 \<Longrightarrow> sint (digits ! d) = int d + 48"
proof -
  have "\<forall>d \<in> set [0..<10]. sint (digits ! d) = int d + 48" by (simp add: digits_def upt_rec)
  then show "d < 10 \<Longrightarrow> sint (digits ! d) = int d + 48" by auto
qed

lemma dec_value_append: "dec_value n (xs @ ys) = dec_value (dec_value n xs) ys"
  by (induction n xs rule: dec_value.induct) simp_all

lemma num_str_dec:
  "dec_value 0 (num_str 10 n) = int n \<and> list_all (\<lambda>d. isdigit (scast d)) (num_str 10 n)"
proof (induction "10 :: nat" n rule: num_str.induct)
  case (1 n)
  have m: "sint (digits ! (n mod 10)) = int (n mod 10) + 48" by (rule digit_sint) simp
  show ?case
  proof (cases "n < 10")
    case True
    then show ?thesis using digit_sint [of n] by (subst (1 2) num_str.simps) (simp add: isdigit_char)
  next
    case False
    have "int n = 10 * int (n div 10) + int (n mod 10)" by (simp add: zdiv_int zmod_int)
    moreover have "int (n mod 10) \<le> 9" "0 \<le> int (n mod 10)"
      using mod_less_divisor [of 10 n] by linarith+
    ultimately show ?thesis using 1 False m
      by (subst (1 2) num_str.simps) (simp add: dec_value_append isdigit_char)
  qed
qed

text \<open>Round trip: \<^verbatim>\<open>atoi\<close> reads back every number that \<^verbatim>\<open>int_to_str\<close> prints in decimal.\<close>

theorem int_to_str_atoi:
  "\<exists>p st'. int_to_str v 10 st = Some (p, st') \<and> atoi (tty_mem st') p = Some v"
proof -
  let ?ds = "num_str 10 (unat v)"
  obtain m p where m: "int_to_str v 10 st = Some (p, st\<lparr>tty_mem := m\<rparr>)" "cstr m p ?ds"
    using int_to_str_run [of 10 v st] by auto
  obtain d ds where d: "?ds = d # ds" using num_str_neq by (cases ?ds) blast+
  have "list_all (\<lambda>d. isdigit (scast d)) (d # ds)" and v: "dec_value 0 ?ds = int (unat v)"
    using num_str_dec [of "unat v"] d by simp_all
  then have dig: "isdigit (scast d)" by simp
  have "atoi_spaces m p = Some p"
    using atoi_spaces_run [of m p "[]" ?ds] m(2) d isdigit_not_space [OF dig] by simp
  moreover have "m p \<noteq> 45" "m p \<noteq> 43" using m(2) d dig sign_not_digit by auto
  moreover have "atoi_digits m p 0 = Some (- of_int (int (unat v)))"
    using atoi_digits_run [of m p ?ds "[]" 0] m(2) num_str_dec v by simp
  ultimately have "atoi m p = Some v" by (simp add: atoi_def)
  then show ?thesis using m(1) by auto
qed


section \<open>Formatted output\<close>

text \<open>
  What a format prints: \<open>renders R fmt args out\<close>, where \<open>R p s\<close> says that there is a
  string \<open>s\<close> at \<open>p\<close>.  A directive that is not known prints nothing and takes no argument.  A
  format that ends in a single percent sign prints nothing defined.
\<close>

definition base_of :: "u8 \<Rightarrow> u8 option" where
  "base_of c = (if c = 98 then Some 2 else if c = 111 then Some 8
     else if c = 100 \<or> c = 117 then Some 10 else if c = 120 then Some 16 else None)"

inductive renders :: "(u32 \<Rightarrow> u8 list \<Rightarrow> bool) \<Rightarrow> u8 list \<Rightarrow> u32 list \<Rightarrow> u8 list \<Rightarrow> bool"
  for R :: "u32 \<Rightarrow> u8 list \<Rightarrow> bool" where
  empty: "renders R [] args []"
| plain: "c \<noteq> 37 \<Longrightarrow> renders R fmt args out \<Longrightarrow> renders R (c # fmt) args (c # out)"
| percent: "renders R fmt args out \<Longrightarrow> renders R (37 # 37 # fmt) args (37 # out)"
| char: "renders R fmt args out \<Longrightarrow> renders R (37 # 99 # fmt) (a # args) (ucast a # out)"
| str: "R a s \<Longrightarrow> renders R fmt args out \<Longrightarrow> renders R (37 # 115 # fmt) (a # args) (s @ out)"
| num: "base_of c = Some b \<Longrightarrow> renders R fmt args out \<Longrightarrow>
    renders R (37 # c # fmt) (a # args) (num_str (unat b) (unat a) @ out)"
| unknown: "c \<noteq> 37 \<Longrightarrow> \<not> takes_arg c \<Longrightarrow> renders R fmt args out \<Longrightarrow> renders R (37 # c # fmt) args out"

lemma uint32_to_str_same: "uint32_to_str = int_to_str"
  by (simp add: uint32_to_str_def int_to_str_def fun_eq_iff)

lemma screen_byte:
  assumes "dims_ok st" and "k < 2 * (W st * H st)"
  shows "\<not> off_screen st (tty_buffer st + of_nat k)"
proof -
  have "k < 2 ^ 32" using assms(2) dims_size(5) [OF assms(1)] by (rule less_trans)
  from offset_of_nat [OF this, of "tty_buffer st"] assms(2) show ?thesis
    by (simp add: off_screen_def)
qed

text \<open>Changing memory off the screen writes nothing.\<close>

lemma wrote_off_screen:
  assumes ok: "tty_ok st" and off: "\<forall>x \<in> B. off_screen st x"
    and m: "\<forall>x. x \<notin> B \<longrightarrow> m x = tty_mem st x"
  shows "wrote B [] st (st\<lparr>tty_mem := m\<rparr>)"
proof -
  have d: "dims_ok st" using ok by (simp add: tty_ok_def)
  have "m (tty_buffer st + of_nat k) = tty_mem st (tty_buffer st + of_nat k)"
    if "k < 2 * (W st * H st)" for k
    using m off screen_byte [OF d that] by blast
  then have "cell_at (st\<lparr>tty_mem := m\<rparr>) i = cell_at st i" if "i < W st * H st" for i
    using that by (simp add: cell_at_def del: of_nat_add of_nat_mult of_nat_Suc)
  then have "screen_of (st\<lparr>tty_mem := m\<rparr>) = screen_of st" by (simp add: screen_of_def)
  then show ?thesis using ok m by (simp add: wrote_def tty_ok_def dims_ok_def same_tty_def)
qed

lemma out_number_wrote:
  assumes ok: "tty_ok st" and off: "\<forall>x \<in> num_bytes st. off_screen st x"
    and b: "2 \<le> unat b" "unat b \<le> 16"
  shows "\<exists>st'. out_number b a st = Some st' \<and> wrote (num_bytes st) (num_str (unat b) (unat a)) st st'"
proof -
  let ?ds = "num_str (unat b) (unat a)" and ?nb = "num_buffer st"
  let ?p = "?nb + of_nat (64 - length ?ds)"
  obtain m where m: "int_to_str a b st = Some (?p, st\<lparr>tty_mem := m\<rparr>)" "length ?ds \<le> 32"
    "cstr m ?p ?ds" "\<forall>x. unat (x - ?nb) < 64 - length ?ds \<or> 64 < unat (x - ?nb) \<longrightarrow> m x = tty_mem st x"
    using int_to_str_run [OF b, of a st] by blast
  let ?t = "st\<lparr>tty_mem := m\<rparr>"
  have "m x = tty_mem st x" if "x \<notin> num_bytes st" for x
    using m(4) that by (simp add: num_bytes_def)
  then have t: "wrote (num_bytes st) [] st ?t" by (intro wrote_off_screen [OF ok off]) simp
  have in_num: "?p + of_nat i \<in> num_bytes st" if "i \<le> length ?ds" for i
  proof -
    have "64 - length ?ds + i \<le> 64" using that m(2) by simp
    moreover have "?p + of_nat i = ?nb + of_nat (64 - length ?ds + i)" by (simp add: add.assoc)
    ultimately show ?thesis
      unfolding num_bytes_def using offset_of_nat [of "64 - length ?ds + i" ?nb] by simp
  qed
  have "off_screen ?t = off_screen st" by (simp add: off_screen_def fun_eq_iff)
  then have "string_at {} ?t ?p ?ds"
    using m(3) in_num off by (auto simp: string_at_def readable_def)
  moreover have "tty_ok ?t" using t by (simp add: wrote_def)
  ultimately obtain u where u: "out_string ?p ?t = Some u" "wrote {} ?ds ?t u"
    using out_string_wrote by blast
  have "out_number b a st = Some u" using m(1) u(1) by (simp add: out_number_def)
  moreover have "wrote (num_bytes st) ?ds st u"
    using wrote_append [OF t wrote_mono [OF u(2)]] by simp
  ultimately show ?thesis by blast
qed

lemma base_of_bounds: "base_of c = Some b \<Longrightarrow> 2 \<le> unat b \<and> unat b \<le> 16"
  by (auto simp: base_of_def split: if_splits)

lemma out_arg_num:
  assumes "base_of c = Some b"
  shows "takes_arg c \<and> c \<noteq> 37 \<and> c \<noteq> 0 \<and> out_arg c a st = out_number b a st"
  using assms by (auto simp: base_of_def takes_arg_def out_arg_def out_number_def
    uint32_to_str_same split: if_splits)

text \<open>One directive and the rest of the format.\<close>

lemma printf_directive:
  assumes "string_at B st fmt (37 # c # f)" and "out_directive c args st = Some (args', t)"
  shows "printf fmt args st = printf (fmt + 2) args' t"
proof -
  have "tty_mem st fmt = 37" "tty_mem st (fmt + 1) = c"
    using assms(1) by (simp_all add: string_at_Cons)
  then show ?thesis using assms(2) by (subst printf.simps) simp
qed

text \<open>The strings of the state a print starts in are the ones it prints.\<close>

lemma printf_run:
  assumes "renders (string_at (num_bytes st0) st0) f args out"
    and off: "\<forall>x \<in> num_bytes st0. off_screen st0 x"
  shows "tty_ok st \<Longrightarrow> wrote (num_bytes st0) pre st0 st \<Longrightarrow> string_at (num_bytes st0) st0 fmt f \<Longrightarrow>
    \<exists>st'. printf fmt args st = Some st' \<and> wrote (num_bytes st0) out st st'"
  using assms(1)
proof (induction arbitrary: pre st fmt rule: renders.induct)
  case (empty args)
  then have "string_at (num_bytes st0) st fmt []" using string_at_wrote by blast
  then show ?case using empty by (subst printf.simps) (simp add: string_at_def)
next
  let ?B = "num_bytes st0"
  have goal: "\<exists>st'. printf fmt args st = Some st' \<and> wrote ?B (cs @ out) st st'"
    if IH: "\<And>pre st fmt. tty_ok st \<Longrightarrow> wrote ?B pre st0 st \<Longrightarrow> string_at ?B st0 fmt f \<Longrightarrow>
        \<exists>st'. printf fmt args' st = Some st' \<and> wrote ?B out st st'"
      and w: "wrote ?B pre st0 st" "wrote ?B cs st t" and s: "string_at ?B st0 fmt' f"
      and p: "printf fmt args st = printf fmt' args' t" for f args args' out pre st t cs fmt fmt'
  proof -
    have "tty_ok t" using w(2) by (simp add: wrote_def)
    from IH [OF this wrote_append [OF w] s] obtain u where
      "printf fmt' args' t = Some u" "wrote ?B out t u" by blast
    then show ?thesis using p wrote_append [OF w(2)] by auto
  qed
  have dir: "\<exists>st'. printf fmt args st = Some st' \<and> wrote ?B (cs @ out) st st'"
    if IH: "\<And>pre st fmt. tty_ok st \<Longrightarrow> wrote ?B pre st0 st \<Longrightarrow> string_at ?B st0 fmt f \<Longrightarrow>
        \<exists>st'. printf fmt args' st = Some st' \<and> wrote ?B out st st'"
      and w: "wrote ?B pre st0 st" and s: "string_at ?B st0 fmt (37 # c # f)"
      and t: "out_directive c args st = Some (args', t)" "wrote ?B cs st t"
    for c f args args' out pre st t cs fmt
  proof -
    have "string_at ?B st0 (fmt + 2) f" using s by (simp add: string_at_Cons add.assoc)
    from goal [OF IH w t(2) this printf_directive [OF string_at_wrote [OF w s] t(1)]]
    show ?thesis .
  qed
  {
    case (plain c f args out)
    obtain t where t: "out_char c st = Some t" "wrote ?B [c] st t"
      using out_char_wrote [OF plain.prems(1)] wrote_mono by blast
    have s: "string_at ?B st fmt (c # f)" using string_at_wrote plain.prems(2,3) by blast
    have "printf fmt args st = printf (fmt + 1) args t"
      using s plain.hyps t(1) by (subst printf.simps) (simp add: string_at_Cons)
    from goal [OF plain.IH plain.prems(2) t(2) _ this] plain.prems(3) show ?case
      by (simp add: string_at_Cons)
  next
    case (percent f args out)
    obtain t where t: "out_char 37 st = Some t" "wrote ?B [37] st t"
      using out_char_wrote [OF percent.prems(1)] wrote_mono by blast
    then have "out_directive 37 args st = Some (args, t)" by (simp add: out_directive_def)
    from dir [OF percent.IH percent.prems(2,3) this t(2)] show ?case by simp
  next
    case (char f args out a)
    obtain t where t: "out_char (ucast a) st = Some t" "wrote ?B [ucast a] st t"
      using out_char_wrote [OF char.prems(1)] wrote_mono by blast
    then have "out_directive 99 (a # args) st = Some (args, t)"
      by (simp add: out_directive_def takes_arg_def out_arg_def)
    from dir [OF char.IH char.prems(2,3) this t(2)] show ?case by simp
  next
    case (str a s f args out)
    obtain t where t: "out_string a st = Some t" "wrote ?B s st t"
      using out_string_wrote [OF str.prems(1) string_at_wrote [OF str.prems(2) str.hyps(1)]] by blast
    then have "out_directive 115 (a # args) st = Some (args, t)"
      by (simp add: out_directive_def takes_arg_def out_arg_def)
    from dir [OF str.IH str.prems(2,3) this t(2)] show ?case .
  next
    case (num c b f args out a)
    have same: "same_tty st0 st" using num.prems(2) by (simp add: wrote_def)
    then have n: "num_bytes st = ?B" "off_screen st = off_screen st0"
      using same_ttyD(2) [OF same] by (simp_all add: same_tty_def num_bytes_def)
    obtain t where t: "out_number b a st = Some t" "wrote ?B (num_str (unat b) (unat a)) st t"
      using out_number_wrote [OF num.prems(1), unfolded n, OF off, of b a] base_of_bounds [OF num.hyps(1)]
      by blast
    then have "out_directive c (a # args) st = Some (args, t)"
      using out_arg_num [OF num.hyps(1)] by (simp add: out_directive_def)
    from dir [OF num.IH num.prems(2,3) this t(2)] show ?case .
  next
    case (unknown c f args out)
    then have "out_directive c args st = Some (args, st)" by (simp add: out_directive_def)
    from dir [OF unknown.IH unknown.prems(2,3) this wrote_nil [OF unknown.prems(1)]] show ?case by simp
  }
qed

text \<open>C20: \<^verbatim>\<open>printf\<close> prints what its format says: with the format and the strings it refers
  to outside the screen and \<^verbatim>\<open>num_buffer\<close>, it returns, the screen shows the rendered text,
  and only \<^verbatim>\<open>num_buffer\<close> and the screen are written.\<close>

theorem printf_output:
  assumes "tty_ok st" and "\<forall>x \<in> num_bytes st. off_screen st x"
    and "string_at (num_bytes st) st fmt f" and "renders (string_at (num_bytes st) st) f args out"
  shows "\<exists>st'. printf fmt args st = Some st' \<and> tty_ok st' \<and>
    screen_of st' = fold (term_put (W st) (H st) (text_attr st)) out (screen_of st) \<and>
    (\<forall>x. off_screen st x \<and> x \<notin> num_bytes st \<longrightarrow> tty_mem st' x = tty_mem st x)"
  using printf_run [OF assms(4,2,1) wrote_nil [OF assms(1)] assms(3)] by (auto simp: wrote_def)

text \<open>A format that ends in a percent sign is not the end for \<^verbatim>\<open>printf\<close>: it steps over
  the terminator and goes on with the bytes behind the string.\<close>

theorem printf_runs_on:
  assumes "tty_mem st fmt = 37" and "tty_mem st (fmt + 1) = 0"
  shows "printf fmt args st = printf (fmt + 2) args st"
  using assms by (subst printf.simps) (simp add: out_directive_def takes_arg_def)


section \<open>The hardware cursor\<close>

text \<open>
  The display controller behind the port: a write to it selects a register, a write to the
  next port sets the selected one.  The cursor is in the registers \<open>0x0E\<close> and \<open>0x0F\<close>.
\<close>

fun crtc_step :: "u16 \<Rightarrow> u16 \<times> u8 \<Rightarrow> u8 \<times> (u8 \<Rightarrow> u8) \<Rightarrow> u8 \<times> (u8 \<Rightarrow> u8)" where
  "crtc_step base (port, v) (index, regs) =
     (if port = base then (v, regs)
      else if port = base + 1 then (index, regs(index := v)) else (index, regs))"

definition hw_cursor :: "tty \<Rightarrow> u32" where
  "hw_cursor st =
     (let regs = snd (fold (crtc_step (tty_io_port st)) (port_writes st) (0, \<lambda>_. 0))
      in push_bit 8 (ucast (regs 0x0E)) OR ucast (regs 0x0F))"

text \<open>The operations of the terminal, in any order.\<close>

datatype tty_op = Put u8 | Clear | Attr u8 | Move u32

fun run_op :: "tty_op \<Rightarrow> tty \<Rightarrow> tty option" where
  "run_op (Put c) st = out_char c st"
| "run_op Clear st = Some (clear_screen st)"
| "run_op (Attr a) st = Some (set_text_attr a st)"
| "run_op (Move pos) st = Some (move_cursor pos st)"

fun run_ops :: "tty_op list \<Rightarrow> tty \<Rightarrow> tty option" where
  "run_ops [] st = Some st"
| "run_ops (op # ops) st = do { st \<leftarrow> run_op op st; run_ops ops st }"

definition tty_inv :: "tty \<Rightarrow> bool" where
  "tty_inv st \<longleftrightarrow> tty_ok st \<and> hw_cursor st = take_bit 16 (cursor st)"

lemma cursor_bytes:
  "push_bit 8 (ucast (ucast (drop_bit 8 c) :: u8)) OR ucast (ucast (c AND 0xFF) :: u8) = take_bit 16 (c :: u32)"
proof -
  have "c AND 0xFF = take_bit 8 c" by (simp add: take_bit_eq_mask mask_eq_exp_minus_1)
  moreover have "push_bit 8 (ucast (ucast (drop_bit 8 c) :: u8)) OR ucast (ucast (take_bit 8 c) :: u8) =
      take_bit 16 c"
    by (rule bit_word_eqI)
      (auto simp: bit_or_iff bit_push_bit_iff bit_unsigned_iff bit_drop_bit_eq bit_take_bit_iff
        possible_bit_word not_le)
  ultimately show ?thesis by simp
qed

lemma move_cursor_hw: "hw_cursor (move_cursor pos st) = take_bit 16 (cursor (move_cursor pos st))"
proof -
  have port: "tty_io_port (move_cursor pos st) = tty_io_port st"
    using move_cursor_same [of st pos] by (simp add: same_tty_def)
  obtain c where c: "cursor (move_cursor pos st) = c" "port_writes (move_cursor pos st) = port_writes st @
      [(tty_io_port st, 0x0E), (tty_io_port st + 1, ucast (drop_bit 8 c)),
       (tty_io_port st, 0x0F), (tty_io_port st + 1, ucast (c AND 0xFF))]"
    by (simp add: move_cursor_def Let_def)
  obtain i r where f: "fold (crtc_step (tty_io_port st)) (port_writes st) (0, \<lambda>_. 0) = (i, r)"
    by (cases "fold (crtc_step (tty_io_port st)) (port_writes st) (0, \<lambda>_. 0)")
  show ?thesis unfolding hw_cursor_def port c by (simp add: Let_def f cursor_bytes [symmetric])
qed

lemma clear_screen_ok:
  assumes "dims_ok st"
  shows "tty_ok (clear_screen st)" and "same_tty st (clear_screen st)"
    and "off_screen st x \<Longrightarrow> tty_mem (clear_screen st) x = tty_mem st x"
proof -
  let ?n = "tty_width st * tty_height st"
  define t where "t = st\<lparr>tty_mem := memset_word (tty_buffer st) (blank_cell (text_attr st)) ?n (tty_mem st)\<rparr>"
  have c: "clear_screen st = move_cursor 0 t" by (simp add: clear_screen_def t_def Let_def)
  have same: "same_tty st t" by (simp add: t_def same_tty_def)
  have d: "dims_ok t" using assms same_ttyD(1) [OF same] by simp
  note z = dims_size [OF assms]
  have "even (unat ?n)" "2 * unat ?n < 2 ^ 32" using assms z(5) unfolding z(1) by (simp_all add: dims_ok_def)
  from memset_blank [OF this, of "tty_buffer st" "text_attr st" "tty_mem st"]
  have m: "off_screen st x \<Longrightarrow> tty_mem t x = tty_mem st x"
    unfolding z(1) by (simp add: t_def off_screen_def)
  show "tty_ok (clear_screen st)" unfolding c by (rule move_cursor_ok(1) [OF d])
  show "same_tty st (clear_screen st)" unfolding c by (rule same_tty_trans [OF same]) simp
  show "off_screen st x \<Longrightarrow> tty_mem (clear_screen st) x = tty_mem st x"
    unfolding c using move_cursor_ok(2) [OF d] m same_ttyD(2) [OF same] by simp
qed

lemma out_char_moves: "out_char c st = Some st' \<Longrightarrow> \<exists>pos t. st' = move_cursor pos t"
  by (auto simp: out_char_def Let_def split: if_splits)

lemma run_op_inv:
  assumes "tty_inv st"
  shows "\<exists>st'. run_op op st = Some st' \<and> tty_inv st' \<and> same_tty st st' \<and>
    (\<forall>x. off_screen st x \<longrightarrow> tty_mem st' x = tty_mem st x)"
proof -
  have ok: "tty_ok st" and d: "dims_ok st" using assms by (auto simp: tty_inv_def tty_ok_def)
  show ?thesis
  proof (cases op)
    case (Put c)
    obtain t where t: "out_char c st = Some t" "wrote {} [c] st t"
      using out_char_wrote [OF ok] by blast
    moreover have "hw_cursor t = take_bit 16 (cursor t)"
      using out_char_moves [OF t(1)] move_cursor_hw by blast
    ultimately show ?thesis using Put by (auto simp: wrote_def tty_inv_def)
  next
    case Clear
    have "hw_cursor (clear_screen st) = take_bit 16 (cursor (clear_screen st))"
      unfolding clear_screen_def Let_def by (rule move_cursor_hw)
    then show ?thesis using Clear clear_screen_ok [OF d] by (auto simp: tty_inv_def)
  next
    case (Attr a)
    then show ?thesis using assms
      by (simp add: set_text_attr_def tty_inv_def tty_ok_def dims_ok_def same_tty_def hw_cursor_def)
  next
    case (Move pos)
    then show ?thesis using move_cursor_ok [OF d] move_cursor_hw by (auto simp: tty_inv_def)
  qed
qed

lemma run_ops_inv:
  assumes "tty_inv st"
  shows "\<exists>st'. run_ops ops st = Some st' \<and> tty_inv st' \<and> same_tty st st' \<and>
    (\<forall>x. off_screen st x \<longrightarrow> tty_mem st' x = tty_mem st x)"
  using assms
proof (induction ops arbitrary: st)
  case Nil
  then show ?case by simp
next
  case (Cons op ops)
  obtain t where t: "run_op op st = Some t" "tty_inv t" "same_tty st t"
    "\<forall>x. off_screen st x \<longrightarrow> tty_mem t x = tty_mem st x"
    using run_op_inv [OF Cons.prems] by blast
  obtain u where u: "run_ops ops t = Some u" "tty_inv u" "same_tty t u"
    "\<forall>x. off_screen t x \<longrightarrow> tty_mem u x = tty_mem t x"
    using Cons.IH [OF t(2)] by blast
  have "off_screen t = off_screen st" using t(3) by (rule same_ttyD(2))
  then show ?case using t u same_tty_trans [OF t(3) u(3)] by auto
qed

text \<open>C21: Whatever is done to the terminal, its cursor stays on the screen, the hardware cursor
  is where the terminal's cursor is, and no memory off the screen is written.\<close>

theorem terminal_invariant:
  assumes "tty_inv st"
  shows "\<exists>st'. run_ops ops st = Some st' \<and> tty_inv st' \<and>
    (\<forall>x. off_screen st x \<longrightarrow> tty_mem st' x = tty_mem st x)"
  using run_ops_inv [OF assms] by blast

section \<open>Concrete terminals\<close>

text \<open>
  A screen of 80 by 25 at \<open>0xB8000\<close>, \<^verbatim>\<open>num_buffer\<close> at \<open>0x5000\<close> and the given bytes at \<open>0x4000\<close>.
\<close>

definition demo_tty :: "u8 list \<Rightarrow> tty" where
  "demo_tty bs = \<lparr>tty_mem = bytes_at 0x4000 bs (\<lambda>_. 0), tty_width = 80, tty_height = 25, cursor = 0,
     text_attr = 7, tty_buffer = 0xB8000, tty_io_port = 0x3D4, num_buffer = 0x5000, port_writes = []\<rparr>"

lemma demo_tty_simps:
  "tty_width (demo_tty bs) = 80" "tty_height (demo_tty bs) = 25" "cursor (demo_tty bs) = 0"
  "tty_buffer (demo_tty bs) = 0xB8000" "num_buffer (demo_tty bs) = 0x5000" "text_attr (demo_tty bs) = 7"
  "tty_mem (demo_tty bs) = bytes_at 0x4000 bs (\<lambda>_. 0)"
  "screen_of (demo_tty bs) = (map (cell_at (demo_tty bs)) [0..<2000], 0)"
  by (simp_all add: demo_tty_def screen_of_def)

lemma demo_tty_ok: "tty_ok (demo_tty bs)" "tty_inv (demo_tty bs)"
  by (simp_all add: demo_tty_simps tty_ok_def dims_ok_def tty_inv_def hw_cursor_def, simp add: demo_tty_def)

lemma demo_off: "off_screen (demo_tty bs) x \<longleftrightarrow> 4000 \<le> unat (x - 0xB8000)"
  by (simp add: off_screen_def demo_tty_simps)

lemma demo_num_off: "\<forall>x \<in> num_bytes (demo_tty bs). off_screen (demo_tty bs) x"
proof
  fix x assume "x \<in> num_bytes (demo_tty bs)"
  then have n: "unat (x - 0x5000) < 65" by (simp add: num_bytes_def demo_tty_simps)
  have "unat (x - (0x5000 + of_nat 0xB3000)) = (if 0xB3000 \<le> unat (x - 0x5000)
      then unat (x - 0x5000) - 0xB3000 else 2 ^ 32 + unat (x - 0x5000) - 0xB3000)"
    by (rule offset_shift) simp
  then show "off_screen (demo_tty bs) x" using n by (simp add: demo_off)
qed

theorem out_string_refines_witness:
  "\<exists>st'. out_string 0x4000 (demo_tty [72, 10]) = Some st' \<and>
     screen_of st' = ((map (cell_at (demo_tty [72, 10])) [0..<2000])[0 := (72, 7)], 80)"
proof -
  have "\<forall>i \<le> length [72 :: u8, 10]. off_screen (demo_tty [72, 10]) (0x4000 + of_nat i)"
    by (simp add: demo_off All_less_Suc less_Suc_eq_le [symmetric])
  from out_string_refines [OF demo_tty_ok(1) _ this] show ?thesis
    by (auto simp: demo_tty_simps term_put_def term_move_def)
qed

theorem int_to_str_bounds_witness:
  "\<exists>p st'. int_to_str 255 2 (demo_tty []) = Some (p, st') \<and> 32 \<le> unat (p - 0x5000)"
  using int_to_str_bounds [of 2 255 "demo_tty []"] by (auto simp: demo_tty_simps)

theorem printf_output_witness:
  "\<exists>st'. printf 0x4000 [12] (demo_tty [61, 37, 100]) = Some st' \<and>
     screen_of st' = fold (term_put 80 25 7) [61, 49, 50] (screen_of (demo_tty [61, 37, 100]))"
proof -
  let ?d = "demo_tty [61, 37, 100]"
  have "\<forall>i \<le> length [61 :: u8, 37, 100]. readable (num_bytes ?d) ?d (0x4000 + of_nat i)"
    by (simp add: readable_def num_bytes_def demo_tty_simps demo_off All_less_Suc less_Suc_eq_le [symmetric])
  then have s: "string_at (num_bytes ?d) ?d 0x4000 [61, 37, 100]"
    by (simp add: string_at_def demo_tty_simps)
  have n: "num_str (unat (10 :: u8)) (unat (12 :: u32)) = [49, 50]"
    by (simp add: num_str.simps [of 10] digits_def)
  have "renders R [61, 37, 100] [12] (61 # num_str (unat (10 :: u8)) (unat (12 :: u32)) @ [])" for R
    by (intro renders.plain renders.num renders.empty) (simp_all add: base_of_def)
  from printf_output [OF demo_tty_ok(1) demo_num_off s this] show ?thesis
    unfolding n by (auto simp: demo_tty_simps)
qed

theorem printf_runs_on_witness:
  "\<exists>st'. printf 0x4000 [] (demo_tty [37, 0, 72]) = Some st' \<and> st' \<noteq> demo_tty [37, 0, 72]"
proof -
  let ?d = "demo_tty [37, 0, 72]"
  have e: "printf 0x4000 [] ?d = printf (0x4000 + 2) [] ?d"
    by (rule printf_runs_on) (simp_all add: demo_tty_simps)
  obtain t where t: "out_char 72 ?d = Some t" "wrote {} [72] ?d t"
    using out_char_wrote [OF demo_tty_ok(1)] by blast
  have "off_screen ?d 0x4003" by (simp add: demo_off)
  then have z: "tty_mem t 0x4003 = 0" using t(2) by (simp add: wrote_def demo_tty_simps)
  have "tty_mem ?d 0x4002 = 72" by (simp add: demo_tty_simps)
  then have "printf 0x4002 [] ?d = printf 0x4003 [] t"
    using t(1) by (subst printf.simps) simp
  also have "\<dots> = Some t" using z by (subst printf.simps) simp
  finally have "printf 0x4000 [] ?d = Some t" using e by simp
  moreover have "snd (screen_of t) = 1"
    using t(2) by (simp add: wrote_def demo_tty_simps term_put_def term_move_def)
  ultimately show ?thesis by (auto simp: demo_tty_simps)
qed

theorem terminal_invariant_witness:
  "\<exists>st'. run_ops [Attr 4, Clear, Put 72, Move 1999, Put 73, Put 10] (demo_tty []) = Some st' \<and> tty_inv st'"
  using terminal_invariant [OF demo_tty_ok(2)] by blast

end
