(* ===== verification/Keyboard.thy ===== *)
theory Keyboard
  imports Tty
begin

text \<open>
  The keyboard half of \<^verbatim>\<open>src/drivers/tty.c\<close>: the buffer the interrupt fills, the decoding
  of scan codes and the reading of a line.  While \<^verbatim>\<open>in_char\<close> waits, interrupts arrive: a
  schedule gives, for each turn of its loop, the codes that arrive before the buffer is
  looked at.  A schedule that ends while the loop waits, and a code behind the end of the
  two tables, have no result.
\<close>

section \<open>Queues\<close>

text \<open>
  What the reader of a queue relies on: \<open>holds s q\<close> relates a state of it to its contents;
  below the capacity entering works, and taking from an empty queue gives \<open>none\<close>.
\<close>

locale fifo =
  fixes holds :: "'s \<Rightarrow> 'a list \<Rightarrow> bool"
    and push :: "'a \<Rightarrow> 's \<Rightarrow> 's"
    and pop :: "'s \<Rightarrow> 'a \<times> 's"
    and cap :: nat
    and none :: 'a
  assumes push_holds: "holds s q \<Longrightarrow> length q < cap \<Longrightarrow> holds (push x s) (q @ [x])"
    and pop_none: "holds s [] \<Longrightarrow> pop s = (none, s)"
    and pop_some: "holds s (x # q) \<Longrightarrow> fst (pop s) = x \<and> holds (snd (pop s)) q"
begin

lemma pushes_hold: "holds s q \<Longrightarrow> length (q @ xs) \<le> cap \<Longrightarrow> holds (fold push xs s) (q @ xs)"
proof (induction xs arbitrary: s q)
  case Nil
  then show ?case by simp
next
  case (Cons x xs)
  then show ?case using Cons.IH [OF push_holds, of s q x] by simp
qed

end

text \<open>
  A schedule at work on a queue and on its contents: before each taking, some elements
  enter.  \<open>fits\<close> says that the queue never holds more than its capacity.
\<close>

fun polls :: "('a \<Rightarrow> 's \<Rightarrow> 's) \<Rightarrow> ('s \<Rightarrow> 'a \<times> 's) \<Rightarrow> 'a list list \<Rightarrow> 's \<Rightarrow> 'a list" where
  "polls push pop [] s = []"
| "polls push pop (xs # sched) s =
     (let (x, s) = pop (fold push xs s) in x # polls push pop sched s)"

fun polled :: "'a \<Rightarrow> 'a list \<Rightarrow> 'a list list \<Rightarrow> 'a list" where
  "polled none q [] = []"
| "polled none q (xs # sched) =
     (case q @ xs of [] \<Rightarrow> none # polled none [] sched | x # q \<Rightarrow> x # polled none q sched)"

fun fits :: "nat \<Rightarrow> 'a list \<Rightarrow> 'a list list \<Rightarrow> bool" where
  "fits cap q [] = True"
| "fits cap q (xs # sched) = (length (q @ xs) \<le> cap \<and> fits cap (tl (q @ xs)) sched)"

context fifo
begin

lemma poll_step:
  assumes "holds s q" and "fits cap q (xs # sched)"
  shows "\<exists>x s'. pop (fold push xs s) = (x, s') \<and> holds s' (tl (q @ xs)) \<and>
    fits cap (tl (q @ xs)) sched \<and> polled none q (xs # sched) = x # polled none (tl (q @ xs)) sched"
proof -
  have h: "holds (fold push xs s) (q @ xs)" using assms by (intro pushes_hold) auto
  show ?thesis
  proof (cases "q @ xs")
    case Nil
    then show ?thesis using assms(2) h pop_none by auto
  next
    case (Cons x q')
    then show ?thesis using assms(2) h pop_some [of "fold push xs s" x q']
      by (cases "pop (fold push xs s)") auto
  qed
qed

lemma polls_polled: "holds s q \<Longrightarrow> fits cap q sched \<Longrightarrow> polls push pop sched s = polled none q sched"
proof (induction sched arbitrary: s q)
  case Nil
  then show ?case by simp
next
  case (Cons xs sched)
  from poll_step [OF Cons.prems] obtain x s' where p: "pop (fold push xs s) = (x, s')"
    "holds s' (tl (q @ xs))" "fits cap (tl (q @ xs)) sched"
    "polled none q (xs # sched) = x # polled none (tl (q @ xs)) sched"
    by (elim exE conjE) (rule that)
  show ?case unfolding p(4) using p(1) Cons.IH [OF p(2,3)] by simp
qed

end

text \<open>First in, first out: what is taken, but for \<open>none\<close>, is what entered, in order.\<close>

lemma polled_order:
  "none \<notin> set q \<union> set (concat sched) \<Longrightarrow>
    \<exists>rest. q @ concat sched = filter (\<lambda>x. x \<noteq> none) (polled none q sched) @ rest"
proof (induction sched arbitrary: q)
  case Nil
  then show ?case by simp
next
  case (Cons xs sched)
  show ?case
  proof (cases "q @ xs")
    case Nil
    then show ?thesis using Cons.IH [of "[]"] Cons.prems by auto
  next
    case (Cons x q')
    have n: "none \<notin> set (x # q') \<union> set (concat sched)"
      using Cons.prems unfolding Cons [symmetric] by auto
    have e: "q @ concat (xs # sched) = x # q' @ concat sched" using Cons by simp
    obtain rest where "q' @ concat sched = filter (\<lambda>x. x \<noteq> none) (polled none q' sched) @ rest"
      using n Cons.IH [of q'] by auto
    then show ?thesis unfolding e using Cons n by auto
  qed
qed

section \<open>Definitions\<close>

record keyboard =
  key_buffer :: "u8 list"
  key_buffer_head :: u32
  key_buffer_tail :: u32
  shift :: bool

abbreviation (input) KEY_BUFFER_SIZE :: u32 where "KEY_BUFFER_SIZE \<equiv> 16"

text \<open>The interrupt: \<open>key_code\<close> and \<open>status\<close> are what the ports \<open>0x60\<close> and \<open>0x61\<close> give.\<close>

definition put_key :: "u8 \<Rightarrow> keyboard \<Rightarrow> keyboard" where
  "put_key key_code kb =
     (let kb = (if KEY_BUFFER_SIZE \<le> key_buffer_tail kb then kb\<lparr>key_buffer_tail := 0\<rparr> else kb);
          kb = kb\<lparr>key_buffer_tail := key_buffer_tail kb + 1\<rparr>
      in kb\<lparr>key_buffer := (key_buffer kb)[unat (key_buffer_tail kb - 1) := key_code]\<rparr>)"

definition keyboard_interrupt :: "u8 \<Rightarrow> u8 \<Rightarrow> keyboard \<times> tty \<Rightarrow> keyboard \<times> tty" where
  "keyboard_interrupt key_code status s = (put_key key_code (fst s), outportb 0x61 (status OR 1) (snd s))"

definition in_scancode :: "keyboard \<Rightarrow> u8 \<times> keyboard" where
  "in_scancode kb =
     (if key_buffer_head kb \<noteq> key_buffer_tail kb then
        let kb = (if KEY_BUFFER_SIZE \<le> key_buffer_head kb then kb\<lparr>key_buffer_head := 0\<rparr> else kb)
        in (key_buffer kb ! unat (key_buffer_head kb), kb\<lparr>key_buffer_head := key_buffer_head kb + 1\<rparr>)
      else (0, kb))"

definition scancodes :: "u8 list" where
  "scancodes = [0, 0] @ map (of_nat \<circ> of_char) ''1234567890-='' @ [8, 9] @
     map (of_nat \<circ> of_char) ''qwertyuiop[]'' @ [10, 0] @ map (of_nat \<circ> of_char) ''asdfghjkl;'' @ [39, 96, 0, 92] @
     map (of_nat \<circ> of_char) ''zxcvbnm,./'' @ [0, 42, 0, 32] @ replicate 16 0 @ [45, 0, 0, 0, 43] @ replicate 30 0"

definition scancodes_shifted :: "u8 list" where
  "scancodes_shifted = [0, 0] @ map (of_nat \<circ> of_char) ''!@#$%^&*()_+'' @ [8, 9] @
     map (of_nat \<circ> of_char) ''QWERTYUIOP{}'' @ [10, 0] @ map (of_nat \<circ> of_char) ''ASDFGHJKL:'' @ [34, 126, 0, 124] @
     map (of_nat \<circ> of_char) ''ZXCVBNM<>?'' @ [0, 42, 0, 32] @ replicate 16 0 @ [45, 0, 0, 0, 43] @ replicate 30 0"

definition scancode :: "bool \<Rightarrow> u8 \<Rightarrow> u8 option" where
  "scancode shifted code =
     (let table = (if shifted then scancodes_shifted else scancodes)
      in if unat code < length table then Some (table ! unat code) else None)"

definition note_shift :: "u8 \<Rightarrow> bool \<Rightarrow> bool" where
  "note_shift code shifted =
     (if code = 0x2A \<or> code = 0x36 then True
      else if code = 0x2A + 0x80 \<or> code = 0x36 + 0x80 then False else shifted)"

fun in_char :: "bool \<Rightarrow> u8 list list \<Rightarrow> keyboard \<Rightarrow> (u8 \<times> u8 list list \<times> keyboard) option" where
  "in_char wait [] kb = None"
| "in_char wait (codes # sched) kb =
     (let (chr, kb) = in_scancode (fold put_key codes kb);
          kb = kb\<lparr>shift := note_shift chr (shift kb)\<rparr>;
          chr = (if chr AND 0x80 \<noteq> 0 then 0 else chr)
      in do {
        chr \<leftarrow> scancode (shift kb) chr;
        if wait \<and> chr = 0 then in_char wait sched kb else Some (chr, sched, kb)
      })"

text \<open>One character of a line: the new position, the terminal, and whether the line ended.\<close>

definition line_char :: "u32 \<Rightarrow> u32 \<Rightarrow> u8 \<Rightarrow> u32 \<Rightarrow> tty \<Rightarrow> (u32 \<times> tty) option" where
  "line_char buffer buffer_size chr position st =
     (if chr = 0 then Some (position, st)
      else if chr = 8 then
        if 0 < position then map_option (Pair (position - 1)) (out_char 8 st)
        else Some (position, st)
      else if chr = 10 then map_option (Pair position) (out_char 10 st)
      else if position < buffer_size - 1 then
        let st = st\<lparr>tty_mem := (tty_mem st)(buffer + position := chr)\<rparr>
        in map_option (Pair (position + 1)) (out_char chr st)
      else Some (position, st))"

partial_function (option) in_string_loop ::
  "u32 \<Rightarrow> u32 \<Rightarrow> u32 \<Rightarrow> u8 list list \<Rightarrow> keyboard \<Rightarrow> tty \<Rightarrow> (u32 \<times> u8 list list \<times> keyboard \<times> tty) option" where
  "in_string_loop buffer buffer_size position sched kb st = do {
     (chr, sched, kb) \<leftarrow> in_char True sched kb;
     (position, st) \<leftarrow> line_char buffer buffer_size chr position st;
     if chr \<noteq> 10 then in_string_loop buffer buffer_size position sched kb st
     else Some (position, sched, kb, st)
   }"

definition in_string ::
  "u32 \<Rightarrow> u32 \<Rightarrow> u8 list list \<Rightarrow> keyboard \<Rightarrow> tty \<Rightarrow> (u8 list list \<times> keyboard \<times> tty) option" where
  "in_string buffer buffer_size sched kb st = do {
     (position, sched, kb, st) \<leftarrow> in_string_loop buffer buffer_size 0 sched kb st;
     Some (sched, kb, st\<lparr>tty_mem := (tty_mem st)(buffer + position := 0)\<rparr>)
   }"

section \<open>The key buffer is a queue\<close>

text \<open>
  The contents are the codes from the head on, around the buffer, up to the tail; both
  counters stay between 0 and 16, and are 0 only before their first use.
\<close>

definition kb_holds :: "keyboard \<Rightarrow> u8 list \<Rightarrow> bool" where
  "kb_holds kb q \<longleftrightarrow>
     (let h = unat (key_buffer_head kb); t = unat (key_buffer_tail kb)
      in length (key_buffer kb) = 16 \<and> h \<le> 16 \<and> t \<le> 16 \<and> length q \<le> 15 \<and>
         (h + length q) mod 16 = t mod 16 \<and> (q = [] \<longrightarrow> h = t) \<and> (t = 0 \<longrightarrow> q = []) \<and>
         (\<forall>k < length q. key_buffer kb ! ((h + k) mod 16) = q ! k))"

lemma put_key_eq:
  assumes "unat (key_buffer_tail kb) \<le> 16"
  shows "key_buffer (put_key c kb) = (key_buffer kb)[unat (key_buffer_tail kb) mod 16 := c]"
    "unat (key_buffer_tail (put_key c kb)) = unat (key_buffer_tail kb) mod 16 + 1"
    "key_buffer_head (put_key c kb) = key_buffer_head kb" "shift (put_key c kb) = shift kb"
proof -
  let ?t = "key_buffer_tail kb"
  have le: "16 \<le> ?t \<longleftrightarrow> 16 \<le> unat ?t" by (simp add: word_le_nat_alt)
  have "unat (?t + 1) = Suc (unat ?t)" if "unat ?t < 16" using that by (intro unat_Suc_word) auto
  then show "key_buffer (put_key c kb) = (key_buffer kb)[unat ?t mod 16 := c]"
    "unat (key_buffer_tail (put_key c kb)) = unat ?t mod 16 + 1"
    "key_buffer_head (put_key c kb) = key_buffer_head kb" "shift (put_key c kb) = shift kb"
    using assms by (auto simp: put_key_def Let_def le)
qed

lemma in_scancode_eq:
  assumes "unat (key_buffer_head kb) \<le> 16" and "key_buffer_head kb \<noteq> key_buffer_tail kb"
  shows "fst (in_scancode kb) = key_buffer kb ! (unat (key_buffer_head kb) mod 16)"
    "unat (key_buffer_head (snd (in_scancode kb))) = unat (key_buffer_head kb) mod 16 + 1"
    "key_buffer (snd (in_scancode kb)) = key_buffer kb"
    "key_buffer_tail (snd (in_scancode kb)) = key_buffer_tail kb"
proof -
  let ?h = "key_buffer_head kb"
  have le: "16 \<le> ?h \<longleftrightarrow> 16 \<le> unat ?h" by (simp add: word_le_nat_alt)
  have "unat (?h + 1) = Suc (unat ?h)" if "unat ?h < 16" using that by (intro unat_Suc_word) auto
  then show "fst (in_scancode kb) = key_buffer kb ! (unat ?h mod 16)"
    "unat (key_buffer_head (snd (in_scancode kb))) = unat ?h mod 16 + 1"
    "key_buffer (snd (in_scancode kb)) = key_buffer kb"
    "key_buffer_tail (snd (in_scancode kb)) = key_buffer_tail kb"
    using assms by (auto simp: in_scancode_def Let_def le)
qed

lemma in_scancode_shift [simp]: "shift (snd (in_scancode kb)) = shift kb"
  by (simp add: in_scancode_def Let_def)

lemma mod16_neq: "k < n \<Longrightarrow> n - k < 16 \<Longrightarrow> (h + k) mod 16 \<noteq> (h + n) mod (16 :: nat)"
proof
  assume k: "k < n" "n - k < 16" and "(h + k) mod 16 = (h + n) mod (16 :: nat)"
  then have "16 dvd (h + n) - (h + k)" by (metis add_le_cancel_left less_imp_le mod_eq_dvd_iff_nat)
  then have "16 dvd n - k" by simp
  then show False using k by (auto dest: dvd_imp_le)
qed

lemma mod16_pos:
  assumes "0 < t" and "t \<le> 16" and "Suc h mod 16 = t mod (16 :: nat)"
  shows "h mod 16 + 1 = t"
proof (cases "t = 16")
  case True
  then show ?thesis using assms by (auto simp: mod_Suc split: if_splits)
next
  case False
  then show ?thesis using assms by (auto simp: mod_Suc split: if_splits)
qed

lemma put_key_holds:
  assumes "kb_holds kb q" and "length q < 15"
  shows "kb_holds (put_key c kb) (q @ [c])"
proof -
  define h t n where "h = unat (key_buffer_head kb)" and "t = unat (key_buffer_tail kb)" and "n = length q"
  have kb: "length (key_buffer kb) = 16" "h \<le> 16" "t \<le> 16" "(h + n) mod 16 = t mod 16" "n < 15"
    "\<forall>k < n. key_buffer kb ! ((h + k) mod 16) = q ! k"
    using assms by (simp_all add: kb_holds_def Let_def h_def t_def n_def)
  note p = put_key_eq [of kb c, folded t_def, OF kb(3)]
  have m: "(h + Suc n) mod 16 = (t mod 16 + 1) mod 16"
    using mod_Suc_eq [of "h + n" 16] kb(4) by simp
  have apart: "(h + k) mod 16 \<noteq> t mod 16" if "k < n" for k
    using mod16_neq [OF that, of h] that kb(4,5) by simp
  have "(key_buffer kb)[t mod 16 := c] ! ((h + k) mod 16) = (q @ [c]) ! k" if "k < Suc n" for k
  proof (cases "k < n")
    case True
    then show ?thesis using apart [OF True] kb(6) by (simp add: nth_append n_def)
  next
    case False
    then have "k = n" using that by simp
    then show ?thesis using kb(1,4) by (simp add: n_def)
  qed
  moreover have "t mod 16 + 1 \<le> 16" by simp
  ultimately show ?thesis
    using kb m unfolding kb_holds_def Let_def p h_def [symmetric] by (simp add: n_def)
qed

lemma in_scancode_holds:
  assumes "kb_holds kb (c # q)"
  shows "fst (in_scancode kb) = c \<and> kb_holds (snd (in_scancode kb)) q"
proof -
  define h t n where "h = unat (key_buffer_head kb)" and "t = unat (key_buffer_tail kb)" and "n = length q"
  have kb: "length (key_buffer kb) = 16" "h \<le> 16" "t \<le> 16" "(h + Suc n) mod 16 = t mod 16" "n \<le> 14" "t \<noteq> 0"
    "\<forall>k < Suc n. key_buffer kb ! ((h + k) mod 16) = (c # q) ! k"
    using assms by (simp_all add: kb_holds_def Let_def h_def t_def n_def)
  have "h mod 16 \<noteq> t mod 16" using mod16_neq [of 0 "Suc n" h] kb(4,5) by simp
  then have ne: "key_buffer_head kb \<noteq> key_buffer_tail kb" by (auto simp: h_def t_def)
  note p = in_scancode_eq [OF kb(2) [unfolded h_def] ne, folded h_def]
  have e: "(h mod 16 + 1 + k) mod 16 = (h + Suc k) mod 16" for k
    using mod_add_left_eq [of h 16 "Suc k"] by simp
  have "h mod 16 + 1 = t" if "n = 0" using that kb(3,4,6) by (intro mod16_pos) auto
  moreover have "key_buffer kb ! ((h + Suc k) mod 16) = q ! k" if "k < n" for k
    using kb(7) [rule_format, of "Suc k"] that by simp
  moreover have "fst (in_scancode kb) = c" using kb(7) p(1) by auto
  moreover have "h mod 16 + 1 \<le> 16" by simp
  ultimately show ?thesis
    using kb(1,3-6) unfolding kb_holds_def Let_def p t_def [symmetric] e by (simp add: n_def)
qed

lemma in_scancode_empty: "kb_holds kb [] \<Longrightarrow> in_scancode kb = (0, kb)"
  by (auto simp: kb_holds_def in_scancode_def Let_def word_unat_eq_iff)

interpretation keys: fifo kb_holds put_key in_scancode 15 0
  by unfold_locales (auto simp: put_key_holds in_scancode_holds in_scancode_empty)

text \<open>C23: As long as at most 15 codes are waiting, the key buffer is a queue: what is read
  between the interrupts is what arrived, in order.\<close>

theorem key_buffer_fifo:
  assumes "kb_holds kb q" and "fits 15 q sched"
  shows "polls put_key in_scancode sched kb = polled 0 q sched"
  using assms by (rule keys.polls_polled)

text \<open>The sixteenth waiting code empties the buffer: once a code has been read, an
  interrupt with 15 codes waiting makes the head equal the tail, and all sixteen are lost.\<close>

theorem key_buffer_overflow:
  assumes "kb_holds kb q" and "length q = 15" and "key_buffer_head kb \<noteq> 0"
  shows "in_scancode (put_key c kb) = (0, put_key c kb)"
proof -
  define h t where "h = unat (key_buffer_head kb)" and "t = unat (key_buffer_tail kb)"
  have kb: "h \<le> 16" "t \<le> 16" "(h + 15) mod 16 = t mod 16" "h \<noteq> 0"
    using assms by (simp_all add: kb_holds_def Let_def h_def t_def unat_eq_zero)
  obtain k where k: "h = Suc k" using kb(4) by (cases h) auto
  then have "(h + 15) mod 16 = k" using kb(1) mod_add_self2 [of k 16] by simp
  then have "t mod 16 + 1 = h" using kb(3) k by simp
  then have "unat (key_buffer_tail (put_key c kb)) = unat (key_buffer_head (put_key c kb))"
    using put_key_eq(2,3) [of kb c] kb(2) by (simp add: h_def t_def)
  then show ?thesis by (simp add: in_scancode_def word_unat_eq_iff)
qed


section \<open>Reading a line\<close>

text \<open>The characters a sequence of codes types, and the line that editing makes of them.\<close>

definition press :: "u8 \<Rightarrow> u8" where
  "press code = (if code AND 0x80 \<noteq> 0 then 0 else code)"

fun typed :: "bool \<Rightarrow> u8 list \<Rightarrow> u8 list" where
  "typed shifted [] = []"
| "typed shifted (code # codes) =
     (let shifted = note_shift code shifted;
          c = the (scancode shifted (press code))
      in if c = 0 then typed shifted codes else c # typed shifted codes)"

fun edit :: "nat \<Rightarrow> u8 list \<Rightarrow> u8 list \<Rightarrow> u8 list option" where
  "edit room line [] = None"
| "edit room line (c # cs) =
     (if c = 10 then Some line
      else if c = 8 then edit room (butlast line) cs
      else edit room (if length line < room then line @ [c] else line) cs)"

text \<open>The code is in the tables.\<close>

definition known :: "u8 \<Rightarrow> bool" where
  "known code \<longleftrightarrow> unat (press code) < 109"

lemma table_length: "length scancodes = 109" "length scancodes_shifted = 109"
  by (simp_all add: scancodes_def scancodes_shifted_def)

lemma scancode_known: "known code \<Longrightarrow> \<exists>c. scancode shifted (press code) = Some c"
  by (simp add: known_def scancode_def table_length)

lemma known_0: "known 0"
  by (simp add: known_def press_def)

lemma fold_put_key_shift [simp]: "shift (fold put_key codes kb) = shift kb"
  by (induction codes arbitrary: kb) (simp_all add: put_key_def Let_def)

text \<open>One call of \<^verbatim>\<open>in_char\<close> gives the first character typed and leaves the rest.\<close>

lemma in_char_typed:
  assumes "kb_holds kb q" and "fits 15 q sched" and "\<forall>code \<in> set (polled 0 q sched). known code"
    and "typed (shift kb) (polled 0 q sched) = c # cs"
  shows "\<exists>sched' kb' q'. in_char True sched kb = Some (c, sched', kb') \<and> c \<noteq> 0 \<and> kb_holds kb' q' \<and>
    fits 15 q' sched' \<and> (\<forall>code \<in> set (polled 0 q' sched'). known code) \<and>
    typed (shift kb') (polled 0 q' sched') = cs"
  using assms
proof (induction sched arbitrary: kb q)
  case Nil
  then show ?case by simp
next
  case (Cons codes sched)
  obtain code kb1 where p: "in_scancode (fold put_key codes kb) = (code, kb1)"
    "kb_holds kb1 (tl (q @ codes))" "fits 15 (tl (q @ codes)) sched"
    "polled 0 q (codes # sched) = code # polled 0 (tl (q @ codes)) sched"
    using keys.poll_step [OF Cons.prems(1,2)] by (elim exE conjE) (rule that)
  define sh where "sh = note_shift code (shift kb)"
  have "shift kb1 = shift kb" using p(1) in_scancode_shift [of "fold put_key codes kb"] by simp
  then have sh: "note_shift code (shift kb1) = sh" by (simp add: sh_def)
  have known: "known code" "\<forall>code \<in> set (polled 0 (tl (q @ codes)) sched). known code"
    using Cons.prems(3) p(4) by simp_all
  obtain d where d: "scancode sh (press code) = Some d" using scancode_known [OF known(1)] by blast
  let ?kb = "kb1\<lparr>shift := sh\<rparr>"
  have kb: "kb_holds ?kb (tl (q @ codes))" using p(2) by (simp add: kb_holds_def)
  have step: "in_char True (codes # sched) kb =
      (if d = 0 then in_char True sched ?kb else Some (d, sched, ?kb))"
    using p(1) sh d by (simp add: press_def [symmetric])
  have ty: "typed (shift kb) (polled 0 q (codes # sched)) =
      (if d = 0 then typed sh (polled 0 (tl (q @ codes)) sched)
       else d # typed sh (polled 0 (tl (q @ codes)) sched))"
    unfolding p(4) using d by (simp add: Let_def sh_def [symmetric])
  show ?case
  proof (cases "d = 0")
    case True
    then show ?thesis using Cons.IH [OF kb p(3) known(2)] Cons.prems(4) step ty by simp
  next
    case False
    then have "c = d" "cs = typed sh (polled 0 (tl (q @ codes)) sched)"
      using Cons.prems(4) ty by simp_all
    then show ?thesis using False step kb p(3) known(2)
      by (intro exI [of _ sched] exI [of _ ?kb] exI [of _ "tl (q @ codes)"]) simp
  qed
qed

text \<open>The line so far is in the buffer.\<close>

definition line_at :: "u32 \<Rightarrow> u32 \<Rightarrow> u8 list \<Rightarrow> u32 \<Rightarrow> tty \<Rightarrow> bool" where
  "line_at buf sz line pos st \<longleftrightarrow> tty_ok st \<and> length line = unat pos \<and> unat pos < unat sz \<and>
     0 \<notin> set line \<and> (\<forall>k < length line. tty_mem st (buf + of_nat k) = line ! k) \<and>
     (\<forall>k < unat sz. off_screen st (buf + of_nat k))"

lemma line_at_wrote:
  assumes "line_at buf sz line pos st" and "wrote {} cs st st'"
  shows "line_at buf sz line pos st'"
proof -
  have "off_screen st' = off_screen st" using assms(2) same_ttyD(2) by (simp add: wrote_def)
  then show ?thesis using assms by (auto simp: line_at_def wrote_def)
qed

text \<open>One character edits the line; memory off the screen and outside the buffer stays.\<close>

definition buf_bytes :: "u32 \<Rightarrow> u32 \<Rightarrow> u32 set" where
  "buf_bytes buf sz = {x. unat (x - buf) < unat sz}"

lemma line_char_edit:
  assumes "line_at buf sz line pos st" and "c \<noteq> 0"
  shows "\<exists>pos' st' line'. line_char buf sz c pos st = Some (pos', st') \<and>
    line_at buf sz line' pos' st' \<and> same_tty st st' \<and>
    (\<forall>x. off_screen st x \<and> x \<notin> buf_bytes buf sz \<longrightarrow> tty_mem st' x = tty_mem st x) \<and>
    line' = (if c = 10 then line else if c = 8 then butlast line
      else if length line < unat sz - 1 then line @ [c] else line)"
proof -
  have ok: "tty_ok st" and len: "length line = unat pos" "unat pos < unat sz"
    and off: "\<forall>k < unat sz. off_screen st (buf + of_nat k)"
    using assms(1) by (simp_all add: line_at_def)
  obtain t where t: "out_char c st = Some t" "wrote {} [c] st t" using out_char_wrote [OF ok] by blast
  have lt: "line_at buf sz line pos t" by (rule line_at_wrote [OF assms(1) t(2)])
  have mt: "same_tty st t" "\<forall>x. off_screen st x \<longrightarrow> tty_mem t x = tty_mem st x"
    using t(2) by (simp_all add: wrote_def)
  have sz: "unat (sz - 1) = unat sz - 1" using len(2) by (cases "sz = 0") (auto simp: unat_minus_one)
  have p0: "0 < pos \<longleftrightarrow> line \<noteq> []" 
    using len(1) by (metis length_greater_0_conv unat_0 word_less_nat_alt)
  consider "c = 10" | "c = 8" "line = []" | "c = 8" "line \<noteq> []"
    | "c \<noteq> 10" "c \<noteq> 8" "\<not> length line < unat sz - 1" | "c \<noteq> 10" "c \<noteq> 8" "length line < unat sz - 1"
    by blast
  then show ?thesis
  proof cases
    case 1
    then show ?thesis using t(1) lt mt by (simp add: line_char_def)
  next
    case 2
    then show ?thesis using assms(1) p0 by (simp add: line_char_def)
  next
    case 3
    have "unat (pos - 1) = unat pos - 1" using 3(2) p0 by (subst unat_minus_one) auto
    then have "line_at buf sz (butlast line) (pos - 1) t"
      using lt by (auto simp: line_at_def nth_butlast dest: in_set_butlastD)
    then show ?thesis using 3 t(1) mt p0 by (auto simp: line_char_def)
  next
    case 4
    then show ?thesis using assms len(1) sz by (simp add: line_char_def word_less_nat_alt)
  next
    case 5
    define u where "u = st\<lparr>tty_mem := (tty_mem st)(buf + pos := c)\<rparr>"
    have bp: "buf + pos = buf + of_nat (length line)" by (simp add: len(1))
    have "off_screen st (buf + pos)"
      using off [rule_format, of "length line"] len unfolding bp by simp
    then have "wrote {buf + pos} [] st u" unfolding u_def by (intro wrote_off_screen [OF ok]) auto
    then have u: "tty_ok u" "same_tty st u" by (simp_all add: wrote_def)
    obtain v where v: "out_char c u = Some v" "wrote {} [c] u v" using out_char_wrote [OF u(1)] by blast
    have ou: "off_screen u = off_screen st" using u(2) by (rule same_ttyD(2))
    have lim: "length line < 2 ^ 32" using len(1) u32_less by simp
    have pos: "unat (pos + 1) = Suc (length line)"
      using 5(3) len u32_less [of sz] by (subst unat_Suc_word) auto
    have ne: "buf + of_nat k \<noteq> buf + pos" if "k < length line" for k
      using offset_of_nat [of k buf] offset_of_nat [of "length line" buf] that lim unfolding bp by auto
    have at: "tty_mem u (buf + of_nat k) = (line @ [c]) ! k" if "k < length (line @ [c])" for k
    proof (cases "k < length line")
      case True
      then show ?thesis using ne [OF True] assms(1) by (simp add: u_def nth_append line_at_def)
    next
      case False
      then have "k = length line" using that by simp
      then show ?thesis using bp by (simp only: nth_append_length) (simp add: u_def)
    qed
    have "0 \<notin> set (line @ [c])" using assms by (simp add: line_at_def)
    then have "line_at buf sz (line @ [c]) (pos + 1) u"
      using u(1) 5(3) at off ou unfolding line_at_def pos by simp
    then have "line_at buf sz (line @ [c]) (pos + 1) v" using v(2) by (rule line_at_wrote)
    moreover have "line_char buf sz c pos st = Some (pos + 1, v)"
      using 5 assms(2) v(1) len(1) sz by (simp add: line_char_def u_def Let_def word_less_nat_alt)
    moreover have "same_tty st v" using v(2) u(2) same_tty_trans by (auto simp: wrote_def)
    moreover have "tty_mem v x = tty_mem st x" if "off_screen st x" "x \<notin> buf_bytes buf sz" for x
    proof -
      have "unat (buf + pos - buf) < unat sz" using len(2) by simp
      then have "x \<noteq> buf + pos" using that(2) by (auto simp: buf_bytes_def)
      then show ?thesis using v(2) ou that(1) by (simp add: wrote_def u_def)
    qed
    ultimately show ?thesis using 5 by auto
  qed
qed

lemma in_string_run:
  assumes "kb_holds kb q" and "fits 15 q sched" and "\<forall>code \<in> set (polled 0 q sched). known code"
    and "edit (unat sz - 1) line (typed (shift kb) (polled 0 q sched)) = Some final"
    and "line_at buf sz line pos st"
  shows "\<exists>pos' sched' kb' st'. in_string_loop buf sz pos sched kb st = Some (pos', sched', kb', st') \<and>
    line_at buf sz final pos' st' \<and> same_tty st st' \<and>
    (\<forall>x. off_screen st x \<and> x \<notin> buf_bytes buf sz \<longrightarrow> tty_mem st' x = tty_mem st x)"
  using assms
proof (induction "typed (shift kb) (polled 0 q sched)" arbitrary: kb q sched line pos st)
  case Nil
  then show ?case by (simp flip: Nil.hyps)
next
  case (Cons c cs)
  obtain sched' kb' q' where 1: "in_char True sched kb = Some (c, sched', kb')" "c \<noteq> 0"
    "kb_holds kb' q'" "fits 15 q' sched'" "\<forall>code \<in> set (polled 0 q' sched'). known code"
    "typed (shift kb') (polled 0 q' sched') = cs"
    using in_char_typed [OF Cons.prems(1-3) Cons.hyps(2) [symmetric]] by blast
  obtain pos' u line' where 2: "line_char buf sz c pos st = Some (pos', u)"
    "line_at buf sz line' pos' u" "same_tty st u"
    "\<forall>x. off_screen st x \<and> x \<notin> buf_bytes buf sz \<longrightarrow> tty_mem u x = tty_mem st x"
    "line' = (if c = 10 then line else if c = 8 then butlast line
      else if length line < unat sz - 1 then line @ [c] else line)"
    using line_char_edit [OF Cons.prems(5) 1(2)] by blast
  have ed: "edit (unat sz - 1) line (c # cs) = Some final" using Cons.prems(4) Cons.hyps(2) by simp
  show ?case
  proof (cases "c = 10")
    case True
    then have "in_string_loop buf sz pos sched kb st = Some (pos', sched', kb', u)"
      using 1(1) 2(1) by (subst in_string_loop.simps) simp
    then show ?thesis using 2 ed True by auto
  next
    case False
    have "edit (unat sz - 1) line' (typed (shift kb') (polled 0 q' sched')) = Some final"
      using ed False 2(5) 1(6) by (simp split: if_splits)
    from Cons.hyps(1) [OF 1(6) [symmetric] 1(3-5) this 2(2)] obtain pos2 sched2 kb2 v where 3:
      "in_string_loop buf sz pos' sched' kb' u = Some (pos2, sched2, kb2, v)"
      "line_at buf sz final pos2 v" "same_tty u v"
      "\<forall>x. off_screen u x \<and> x \<notin> buf_bytes buf sz \<longrightarrow> tty_mem v x = tty_mem u x"
      by (elim exE conjE) (rule that)
    have "in_string_loop buf sz pos sched kb st = Some (pos2, sched2, kb2, v)"
      using 1(1) 2(1) False 3(1) by (subst in_string_loop.simps) simp
    moreover have "\<forall>x. off_screen st x \<and> x \<notin> buf_bytes buf sz \<longrightarrow> tty_mem v x = tty_mem st x"
      using 2(4) 3(4) same_ttyD(2) [OF 2(3)] by simp
    ultimately show ?thesis using 3(2) same_tty_trans [OF 2(3) 3(3)] by blast
  qed
qed

lemma in_string_line:
  assumes "kb_holds kb q" and "fits 15 q sched" and "\<forall>code \<in> set (polled 0 q sched). known code"
    and "edit (unat sz - 1) [] (typed (shift kb) (polled 0 q sched)) = Some final"
    and "tty_ok st" and "0 < sz" and "\<forall>k < unat sz. off_screen st (buf + of_nat k)"
  shows "\<exists>sched' kb' st'. in_string buf sz sched kb st = Some (sched', kb', st') \<and>
    cstr (tty_mem st') buf final \<and> length final < unat sz \<and> tty_ok st' \<and> same_tty st st' \<and>
    (\<forall>x. off_screen st x \<and> unat sz \<le> unat (x - buf) \<longrightarrow> tty_mem st' x = tty_mem st x)"
proof -
  have "line_at buf sz [] 0 st" using assms(5,6,7) by (simp add: line_at_def word_less_nat_alt)
  from in_string_run [OF assms(1-4) this] obtain pos sched' kb' u where r:
    "in_string_loop buf sz 0 sched kb st = Some (pos, sched', kb', u)" "line_at buf sz final pos u"
    "same_tty st u" "\<forall>x. off_screen st x \<and> x \<notin> buf_bytes buf sz \<longrightarrow> tty_mem u x = tty_mem st x"
    by blast
  define v where "v = u\<lparr>tty_mem := (tty_mem u)(buf + pos := 0)\<rparr>"
  have l: "length final = unat pos" "unat pos < unat sz" using r(2) by (simp_all add: line_at_def)
  have bp: "buf + pos = buf + of_nat (length final)" by (simp add: l(1))
  have lim: "length final < 2 ^ 32" using l(1) u32_less by simp
  have ne: "buf + of_nat k \<noteq> buf + pos" if "k < length final" for k
    using offset_of_nat [of k buf] offset_of_nat [of "length final" buf] that lim unfolding bp by auto
  have "tty_mem v (buf + of_nat k) = final ! k" if "k < length final" for k
    using r(2) ne [OF that] that by (simp add: line_at_def v_def)
  moreover have "tty_mem v (buf + of_nat (length final)) = 0"
    unfolding bp [symmetric] by (simp add: v_def)
  moreover have "0 \<notin> set final" using r(2) by (simp add: line_at_def)
  ultimately have "cstr (tty_mem v) buf final" unfolding cstr_nth by blast
  moreover have "tty_mem v x = tty_mem st x" if "off_screen st x" "unat sz \<le> unat (x - buf)" for x
  proof -
    have "unat (buf + pos - buf) < unat sz" using l(2) by simp
    then have "x \<noteq> buf + pos" using that(2) by auto
    then show ?thesis using r(4) that by (simp add: v_def buf_bytes_def)
  qed
  moreover have "tty_ok v" "same_tty st v"
  proof -
    have "off_screen u (buf + of_nat (unat pos))" using r(2) l(2) by (simp only: line_at_def simp_thms)
    then have "off_screen u (buf + pos)" by simp
    then have "wrote {buf + pos} [] u v"
      using r(2) unfolding v_def by (intro wrote_off_screen) (auto simp: line_at_def)
    then show "tty_ok v" "same_tty st v" using same_tty_trans [OF r(3)] by (auto simp: wrote_def)
  qed
  ultimately show ?thesis using r(1) l by (auto simp: in_string_def v_def)
qed

text \<open>C24: \<^verbatim>\<open>in_string\<close> reads a line: when the codes read type a line that ends with Enter, it
  returns with the edited line, cut to the buffer and terminated, in the buffer; it writes
  no byte but those of the buffer and the screen.\<close>

theorem in_string_reads:
  assumes "kb_holds kb q" and "fits 15 q sched" and "\<forall>code \<in> set (polled 0 q sched). known code"
    and "edit (unat sz - 1) [] (typed (shift kb) (polled 0 q sched)) = Some final"
    and "tty_ok st" and "0 < sz" and "\<forall>k < unat sz. off_screen st (buf + of_nat k)"
  shows "\<exists>sched' kb' st'. in_string buf sz sched kb st = Some (sched', kb', st') \<and>
    cstr (tty_mem st') buf final \<and> length final < unat sz \<and>
    (\<forall>x. off_screen st x \<and> unat sz \<le> unat (x - buf) \<longrightarrow> tty_mem st' x = tty_mem st x)"
  using in_string_line [OF assms] by blast

section \<open>A concrete keyboard\<close>

definition demo_keys :: keyboard where
  "demo_keys = \<lparr>key_buffer = replicate 16 0, key_buffer_head = 1, key_buffer_tail = 1, shift = False\<rparr>"

lemma demo_keys_empty: "kb_holds demo_keys []"
  by (simp add: demo_keys_def kb_holds_def)

theorem key_buffer_fifo_witness:
  "polls put_key in_scancode [[30, 48], [], []] demo_keys = [30, 48, 0]"
  using key_buffer_fifo [OF demo_keys_empty, of "[[30, 48], [], []]"] by simp

theorem key_buffer_overflow_witness:
  "in_scancode (put_key 30 (fold put_key (replicate 15 48) demo_keys)) =
     (0, put_key 30 (fold put_key (replicate 15 48) demo_keys))"
proof -
  have "kb_holds (fold put_key (replicate 15 48) demo_keys) (replicate 15 48)"
    using keys.pushes_hold [OF demo_keys_empty, of "replicate 15 48"] by simp
  moreover have "key_buffer_head (fold put_key xs demo_keys) = 1" for xs
  proof -
    have "key_buffer_head (fold put_key xs kb) = key_buffer_head kb" for kb
      by (induction xs arbitrary: kb) (simp_all add: put_key_def Let_def)
    then show ?thesis by (simp add: demo_keys_def)
  qed
  moreover have "key_buffer_head (fold put_key (replicate 15 48) demo_keys) \<noteq> 0"
    using calculation(2) [of "replicate 15 48"] by (simp only: one_neq_zero not_False_eq_True)
  ultimately show ?thesis by (intro key_buffer_overflow [of _ "replicate 15 48"]) (assumption | simp)+
qed

text \<open>Typed with shift held for the first letter: H, i, a wrong letter taken back, Enter.\<close>

theorem in_string_reads_witness:
  "\<exists>sched' kb' st'. in_string 0x3000 10 [[0x2A, 0x23], [0xAA], [0x17], [], [0x2D, 0x0E], [0x1C], [], []]
     demo_keys (demo_tty []) = Some (sched', kb', st') \<and> cstr (tty_mem st') 0x3000 [72, 105]"
proof -
  let ?s = "[[0x2A, 0x23], [0xAA], [0x17], [], [0x2D, 0x0E], [0x1C], [], []] :: u8 list list"
  have p: "polled 0 [] ?s = [0x2A, 0x23, 0xAA, 0x17, 0x2D, 0x0E, 0x1C, 0]" by simp
  have ty: "typed (shift demo_keys) (polled 0 [] ?s) = [72, 105, 120, 8, 10]"
    unfolding p by (simp add: demo_keys_def note_shift_def press_def scancode_def scancodes_def scancodes_shifted_def)
  have kn: "\<forall>code \<in> set (polled 0 [] ?s). known code" unfolding p by (simp add: known_def press_def)
  have "\<forall>k \<in> set [0..<10]. off_screen (demo_tty []) (0x3000 + of_nat k)"
    by (simp add: demo_off upt_rec)
  then have off: "\<forall>k < unat (10 :: u32). off_screen (demo_tty []) (0x3000 + of_nat k)" by auto
  have ed: "edit (unat (10 :: u32) - 1) [] (typed (shift demo_keys) (polled 0 [] ?s)) = Some [72, 105]"
    unfolding ty by simp
  show ?thesis
    using in_string_reads [OF demo_keys_empty _ kn ed demo_tty_ok(1) _ off] by auto
qed

end
