(* ===== verification/Kernel_List.thy ===== *)
theory Kernel_List
  imports Ring_Store Kernel_Mutex
begin

text \<open>
  The \<^verbatim>\<open>List\<close>/\<^verbatim>\<open>ListItem\<close> rings of \<^verbatim>\<open>src/lib/stdlib.c\<close>, which hold the kernel's
  processes and threads.  Objects live in two typed stores indexed by address; an
  address that was never initialised holds an arbitrary record, as uninitialised
  memory does.  The null pointer is address 0.
\<close>

section \<open>Definitions\<close>

record list_item =
  item_next :: u32
  item_prev :: u32
  item_list :: u32

record klist =
  list_first :: u32
  list_count :: u32
  list_mutex :: bool

record list_store =
  items :: "u32 \<Rightarrow> list_item"
  lists :: "u32 \<Rightarrow> klist"

abbreviation upd_item :: "u32 \<Rightarrow> (list_item \<Rightarrow> list_item) \<Rightarrow> list_store \<Rightarrow> list_store" where
  "upd_item a f s \<equiv> s\<lparr>items := (items s)(a := f (items s a))\<rparr>"

abbreviation upd_list :: "u32 \<Rightarrow> (klist \<Rightarrow> klist) \<Rightarrow> list_store \<Rightarrow> list_store" where
  "upd_list l f s \<equiv> s\<lparr>lists := (lists s)(l := f (lists s l))\<rparr>"

definition get_next :: "list_store \<Rightarrow> u32 \<Rightarrow> u32" where
  "get_next s a = item_next (items s a)"

definition get_prev :: "list_store \<Rightarrow> u32 \<Rightarrow> u32" where
  "get_prev s a = item_prev (items s a)"

definition set_next :: "u32 \<Rightarrow> u32 \<Rightarrow> list_store \<Rightarrow> list_store" where
  "set_next a b = upd_item a (\<lambda>i. i\<lparr>item_next := b\<rparr>)"

definition set_prev :: "u32 \<Rightarrow> u32 \<Rightarrow> list_store \<Rightarrow> list_store" where
  "set_prev a b = upd_item a (\<lambda>i. i\<lparr>item_prev := b\<rparr>)"

definition set_owner :: "u32 \<Rightarrow> u32 \<Rightarrow> list_store \<Rightarrow> list_store" where
  "set_owner a l = upd_item a (\<lambda>i. i\<lparr>item_list := l\<rparr>)"

definition set_first :: "u32 \<Rightarrow> u32 \<Rightarrow> list_store \<Rightarrow> list_store" where
  "set_first l a = upd_list l (\<lambda>k. k\<lparr>list_first := a\<rparr>)"

definition lock_list :: "u32 \<Rightarrow> list_store \<Rightarrow> list_store option" where
  "lock_list l s = map_option (\<lambda>(m, ok). upd_list l (\<lambda>k. k\<lparr>list_mutex := m\<rparr>) s)
     (mutex_get (list_mutex (lists s l)) True)"

definition unlock_list :: "u32 \<Rightarrow> list_store \<Rightarrow> list_store" where
  "unlock_list l s = upd_list l (\<lambda>k. k\<lparr>list_mutex := mutex_release (list_mutex k)\<rparr>) s"

definition list_init :: "u32 \<Rightarrow> list_store \<Rightarrow> list_store" where
  "list_init l = upd_list l (\<lambda>k. k\<lparr>list_first := 0, list_count := 0, list_mutex := False\<rparr>)"

definition list_append :: "u32 \<Rightarrow> u32 \<Rightarrow> list_store \<Rightarrow> list_store option" where
  "list_append l item s =
     (if item_list (items s item) = 0 then do {
        s \<leftarrow> lock_list l s;
        let s = (if list_first (lists s l) \<noteq> 0 then
                   (let s = set_owner item l s;
                        s = set_next item (list_first (lists s l)) s;
                        s = set_prev item (get_prev s (list_first (lists s l))) s;
                        s = set_next (get_prev s item) item s
                    in set_prev (get_next s item) item s)
                 else
                   (let s = set_next item item s;
                        s = set_prev item item s
                    in set_first l item s));
        let s = upd_list l (\<lambda>k. k\<lparr>list_count := list_count k + 1\<rparr>) s;
        Some (unlock_list l s)
      } else Some s)"

definition list_remove :: "u32 \<Rightarrow> list_store \<Rightarrow> list_store option" where
  "list_remove item s = do {
     s \<leftarrow> lock_list (item_list (items s item)) s;
     let l = item_list (items s item);
     let s = (if list_first (lists s l) = item then
                (let s = set_first l (get_next s item) s
                 in if list_first (lists s l) = item then set_first l 0 s else s)
              else s);
     let s = set_prev (get_next s item) (get_prev s item) s;
     let s = set_next (get_prev s item) (get_next s item) s;
     let s = upd_list l (\<lambda>k. k\<lparr>list_count := list_count k - 1\<rparr>) s;
     Some (unlock_list l s)
   }"

text \<open>
  \<open>list_holds s l xs\<close>: the list object at \<open>l\<close> is unlocked and holds the items \<open>xs\<close>,
  in ring order from \<^verbatim>\<open>first\<close>.
\<close>

definition list_holds :: "list_store \<Rightarrow> u32 \<Rightarrow> u32 list \<Rightarrow> bool" where
  "list_holds s l xs \<longleftrightarrow>
     \<not> list_mutex (lists s l) \<and> 0 \<notin> set xs \<and>
     list_first (lists s l) = (if xs = [] then 0 else hd xs) \<and>
     list_count (lists s l) = of_nat (length xs) \<and>
     ring (get_next s) (get_prev s) xs"

section \<open>The item store provides the link interface\<close>

lemmas item_store_defs = get_next_def get_prev_def set_next_def set_prev_def set_owner_def
  set_first_def

interpretation item_ring: dlist_store get_next get_prev set_next set_prev "\<lambda>a. a \<noteq> 0"
  by unfold_locales (auto simp: item_store_defs)

lemma lock_list_free:
  "\<not> list_mutex (lists s l) \<Longrightarrow> lock_list l s = Some (upd_list l (\<lambda>k. k\<lparr>list_mutex := True\<rparr>) s)"
  by (simp add: lock_list_def)

lemma ring_Nil [simp]: "ring n p []"
  by (simp add: ring_def)

lemma get_link_frame [simp]:
  "get_next (s\<lparr>lists := k\<rparr>) = get_next s" "get_prev (s\<lparr>lists := k\<rparr>) = get_prev s"
  "get_next (set_owner a l s) = get_next s" "get_prev (set_owner a l s) = get_prev s"
  "get_next (set_first l a s) = get_next s" "get_prev (set_first l a s) = get_prev s"
  by (auto simp: item_store_defs fun_eq_iff)

lemma lists_link_frame [simp]:
  "lists (set_next a b s) = lists s" "lists (set_prev a b s) = lists s"
  "lists (set_owner a l s) = lists s" "items (set_first l a s) = items s"
  by (simp_all add: item_store_defs)

lemma set_link_lists [simp]:
  "set_next a b (s\<lparr>lists := k\<rparr>) = (set_next a b s)\<lparr>lists := k\<rparr>"
  "set_prev a b (s\<lparr>lists := k\<rparr>) = (set_prev a b s)\<lparr>lists := k\<rparr>"
  "set_owner a l (s\<lparr>lists := k\<rparr>) = (set_owner a l s)\<lparr>lists := k\<rparr>"
  by (simp_all add: item_store_defs)

lemma get_next_set_next [simp]: "get_next (set_next a b s) = (get_next s)(a := b)"
  and get_next_set_prev [simp]: "get_next (set_prev a b s) = get_next s"
  and get_prev_set_prev [simp]: "get_prev (set_prev a b s) = (get_prev s)(a := b)"
  and get_prev_set_next [simp]: "get_prev (set_next a b s) = get_prev s"
  by (auto simp: item_store_defs fun_eq_iff)

lemma owner_frame [simp]:
  "item_list (items (set_next a b s) c) = item_list (items s c)"
  "item_list (items (set_prev a b s) c) = item_list (items s c)"
  "item_list (items (set_owner a l s) c) = (if c = a then l else item_list (items s c))"
  by (simp_all add: item_store_defs)

lemma item_frame:
  "c \<noteq> a \<Longrightarrow> items (set_next a b s) c = items s c"
  "c \<noteq> a \<Longrightarrow> items (set_prev a b s) c = items s c"
  "c \<noteq> a \<Longrightarrow> items (set_owner a l s) c = items s c"
  by (simp_all add: item_store_defs)

section \<open>Appending\<close>

text \<open>What \<^verbatim>\<open>list_append\<close> does to an unlocked list, its two branches written out.\<close>

lemma list_append_nonempty:
  assumes "list_holds s l xs" and "xs \<noteq> []" and "item_list (items s item) = 0" and "item \<notin> set xs"
  shows "list_append l item s = Some (upd_list l (\<lambda>k. k\<lparr>list_count := list_count k + 1, list_mutex := False\<rparr>)
     (set_prev (hd xs) item (set_next (last xs) item
       (set_prev item (last xs) (set_next item (hd xs) (set_owner item l s))))))"
proof -
  have "0 \<notin> set xs" using assms(1) by (simp add: list_holds_def)
  then have "hd xs \<noteq> 0" using hd_in_set [OF assms(2)] by metis
  then have h: "list_first (lists s l) = hd xs" "hd xs \<noteq> 0" "\<not> list_mutex (lists s l)"
    using assms(1,2) by (auto simp: list_holds_def)
  have "get_prev s (hd xs) = last xs"
    using assms(1,2) by (auto simp: list_holds_def ring_head_prev)
  moreover have "item \<noteq> hd xs" "item \<noteq> last xs" using assms(2,4) by auto
  ultimately show ?thesis
    using assms(3) h
    by (simp add: list_append_def lock_list_free unlock_list_def Let_def)
qed

lemma list_append_empty:
  assumes "list_holds s l []" and "item_list (items s item) = 0"
  shows "list_append l item s = Some (upd_list l (\<lambda>k. k\<lparr>list_count := list_count k + 1, list_mutex := False\<rparr>)
     (set_first l item (set_prev item item (set_next item item s))))"
  using assms
  by (simp add: list_append_def list_holds_def lock_list_free unlock_list_def Let_def item_store_defs)

lemma list_append_run:
  assumes "list_holds s l xs" and "item \<noteq> 0" and "item \<notin> set xs"
    and "item_list (items s item) = 0"
  shows "\<exists>s'. list_append l item s = Some s' \<and> list_holds s' l (xs @ [item]) \<and>
    item_list (items s' item) = (if xs = [] then 0 else l) \<and>
    (\<forall>a. a \<notin> set xs \<longrightarrow> a \<noteq> item \<longrightarrow> items s' a = items s a) \<and>
    (\<forall>k. k \<noteq> l \<longrightarrow> lists s' k = lists s k)"
proof (cases "xs = []")
  case True
  with assms show ?thesis
    by (simp add: list_append_empty) (auto simp: list_holds_def item_store_defs)
next
  case False
  let ?s = "set_owner item l s"
  let ?t = "set_prev (hd xs) item (set_next (last xs) item
       (set_prev item (last xs) (set_next item (hd xs) ?s)))"
  have r: "ring (get_next ?s) (get_prev ?s) xs" and nz: "\<forall>x \<in> set xs. x \<noteq> 0"
    using assms(1) by (auto simp: list_holds_def)
  have "get_prev ?s (hd xs) = last xs" using r False by (simp add: ring_head_prev)
  then have "ring (get_next ?t) (get_prev ?t) (xs @ [item])"
    using item_ring.ring_append [OF r False nz assms(2,3) refl refl] by simp
  then have "list_holds (upd_list l (\<lambda>k. k\<lparr>list_count := list_count k + 1, list_mutex := False\<rparr>) ?t)
      l (xs @ [item])"
    using assms(1,2) False by (auto simp: list_holds_def)
  moreover have "items ?t a = items s a" if "a \<notin> set xs" "a \<noteq> item" for a
  proof -
    have "a \<noteq> hd xs" "a \<noteq> last xs" using that False by auto
    then show ?thesis using that by (simp add: item_frame)
  qed
  ultimately show ?thesis
    using False by (simp add: list_append_nonempty [OF assms(1) False assms(4,3)])
qed

lemma list_holds_cong:
  assumes "\<forall>x \<in> set xs. items t x = items s x" and "lists t l = lists s l"
  shows "list_holds t l xs = list_holds s l xs"
proof -
  have "ring (get_next t) (get_prev t) xs = ring (get_next s) (get_prev s) xs"
    using assms(1) by (intro ring_cong) (simp_all add: get_next_def get_prev_def)
  then show ?thesis using assms(2) by (simp add: list_holds_def)
qed

text \<open>C8: appending an unowned item to a list puts it last in ring order and counts it,
  and touches no other list and no item outside the list; but an item appended to an
  empty list is not marked as belonging to it (its \<^verbatim>\<open>list\<close> stays null).\<close>

theorem list_append_correct:
  assumes "list_holds s l xs" and "item \<noteq> 0" and "item \<notin> set xs"
    and "item_list (items s item) = 0"
  shows "\<exists>s'. list_append l item s = Some s' \<and> list_holds s' l (xs @ [item]) \<and>
    item_list (items s' item) = (if xs = [] then 0 else l) \<and>
    (\<forall>a. a \<notin> set xs \<longrightarrow> a \<noteq> item \<longrightarrow> items s' a = items s a) \<and>
    (\<forall>k. k \<noteq> l \<longrightarrow> lists s' k = lists s k)"
  using list_append_run [OF assms] .

section \<open>Removing\<close>

lemma remove1_split: "x \<in> set xs \<Longrightarrow> \<exists>as bs. xs = as @ x # bs \<and> remove1 x xs = as @ bs"
  by (metis remove1_append split_list_first remove1.simps(2))

lemma list_remove_eq:
  assumes "\<not> list_mutex (lists s l)" and "item_list (items s x) = l"
    and "n = get_next s x" and "p = get_prev s x"
  shows "list_remove x s = Some ((set_next p n (set_prev n p s))
    \<lparr>lists := (lists s)(l := (lists s l)
      \<lparr>list_first := (if list_first (lists s l) \<noteq> x then list_first (lists s l)
                      else if n = x then 0 else n),
       list_count := list_count (lists s l) - 1, list_mutex := False\<rparr>)\<rparr>)"
proof -
  have "get_prev (set_prev n p s) x = p" by (simp add: assms(4))
  then show ?thesis
    using assms by (simp add: list_remove_def lock_list_free unlock_list_def Let_def set_first_def)
qed

text \<open>C9: removing an item that is marked as belonging to the list takes exactly that item
  out of the ring, moves \<^verbatim>\<open>first\<close> on where it was first (to null where it was alone),
  lowers the count, and touches no other list and no item outside the list.\<close>

theorem list_remove_correct:
  assumes holds: "list_holds s l xs" and x: "x \<in> set xs" and own: "item_list (items s x) = l"
  shows "\<exists>s'. list_remove x s = Some s' \<and> list_holds s' l (remove1 x xs) \<and>
    (\<forall>a. a \<notin> set xs \<longrightarrow> items s' a = items s a) \<and>
    (\<forall>k. k \<noteq> l \<longrightarrow> lists s' k = lists s k)"
proof -
  obtain as bs where xs: "xs = as @ x # bs" and rem: "remove1 x xs = as @ bs"
    using remove1_split [OF x] by blast
  have r: "ring (get_next s) (get_prev s) xs" and nz: "\<forall>x \<in> set xs. x \<noteq> 0"
    and unl: "\<not> list_mutex (lists s l)" and cnt: "list_count (lists s l) = of_nat (length xs)"
    and first: "list_first (lists s l) = hd xs" and x0: "x \<noteq> 0"
    using holds x by (auto simp: list_holds_def)
  have n: "get_next s x \<in> set xs" and p: "get_prev s x \<in> set xs"
    using r x by (rule ring_next_in, rule ring_prev_in)
  let ?t = "set_next (get_prev s x) (get_next s x) (set_prev (get_next s x) (get_prev s x) s)"
  have frame: "items ?t a = items s a" if "a \<notin> set xs" for a
    using that n p by (auto simp: item_store_defs)
  have s': "list_remove x s = Some (?t
    \<lparr>lists := (lists s)(l := (lists s l)
      \<lparr>list_first := (if hd xs \<noteq> x then hd xs else if get_next s x = x then 0 else get_next s x),
       list_count := of_nat (length xs) - 1, list_mutex := False\<rparr>)\<rparr>)"
    using list_remove_eq [OF unl own refl refl] by (simp only: first cnt)
  have nx: "get_next s x = hd (bs @ as @ [x])"
    using ring_split_next [OF r [unfolded xs]] .
  have d: "x \<notin> set as" "x \<notin> set bs" using ring_distinct [OF r] xs by auto
  have hd: "(if hd xs \<noteq> x then hd xs else if get_next s x = x then 0 else get_next s x) =
      (if as @ bs = [] then 0 else hd (as @ bs))"
    using d nx xs by (cases as; cases bs) auto
  have "ring (get_next ?t) (get_prev ?t) (as @ bs)"
    using item_ring.ring_remove [OF r [unfolded xs] _ nz [unfolded xs] refl refl]
    by (cases "as @ bs = []") auto
  moreover have "of_nat (length xs) - 1 = (of_nat (length (as @ bs)) :: u32)"
    by (simp add: xs)
  moreover have "0 \<notin> set (as @ bs)" using nz xs by auto
  ultimately show ?thesis
    unfolding s' hd rem list_holds_def using frame by simp
qed

text \<open>The first item of a list cannot be removed from it.  After appending to an empty
  list, \<^verbatim>\<open>list_remove\<close> works on the list object at the null address: it lowers that
  object's count, and the item stays in its list.\<close>

theorem list_remove_misses_first_item:
  assumes "list_holds s l []" and "l \<noteq> 0" and "item \<noteq> 0"
    and "item_list (items s item) = 0" and "\<not> list_mutex (lists s 0)"
  shows "\<exists>s1 s2. list_append l item s = Some s1 \<and> list_remove item s1 = Some s2 \<and>
    list_holds s1 l [item] \<and> list_holds s2 l [item] \<and>
    list_count (lists s2 0) = list_count (lists s 0) - 1"
proof -
  obtain s1 where s1: "list_append l item s = Some s1" "list_holds s1 l [item]"
    "item_list (items s1 item) = 0" "lists s1 0 = lists s 0"
    using list_append_correct [OF assms(1,3) _ assms(4)] assms(2) by auto
  then have link: "get_next s1 item = item" "get_prev s1 item = item"
    by (auto simp: list_holds_def)
  have "\<not> list_mutex (lists s1 0)" using s1(4) assms(5) by simp
  from list_remove_eq [OF this s1(3) link [symmetric]] show ?thesis
    using s1 link assms(2) by (auto simp: list_holds_def)
qed

section \<open>Instances\<close>

text \<open>A store with an empty list object at 100 and one with the item 200 appended.\<close>

definition demo_store :: list_store where
  "demo_store = list_init 100 \<lparr>items = (\<lambda>_. \<lparr>item_next = 0, item_prev = 0, item_list = 0\<rparr>),
     lists = (\<lambda>_. \<lparr>list_first = 0, list_count = 5, list_mutex = False\<rparr>)\<rparr>"

lemma demo_store_empty: "list_holds demo_store 100 []" "item_list (items demo_store a) = 0"
    "\<not> list_mutex (lists demo_store 0)"
  by (simp_all add: demo_store_def list_init_def list_holds_def)

lemma list_append_correct_witness:
  "\<exists>s'. list_append 100 200 demo_store = Some s' \<and> list_holds s' 100 [200]"
  using list_append_correct [OF demo_store_empty(1), of 200] demo_store_empty by auto

text \<open>Two items, the second owned by the list.\<close>

definition demo_store2 :: list_store where
  "demo_store2 = \<lparr>items = (\<lambda>a. if a = 200 then \<lparr>item_next = 300, item_prev = 300, item_list = 0\<rparr>
       else \<lparr>item_next = 200, item_prev = 200, item_list = 100\<rparr>),
     lists = (\<lambda>_. \<lparr>list_first = 200, list_count = 2, list_mutex = False\<rparr>)\<rparr>"

lemma demo_store2_holds: "list_holds demo_store2 100 [200, 300]"
  by (simp add: demo_store2_def list_holds_def ring_def get_next_def get_prev_def)

lemma list_remove_correct_witness:
  "\<exists>s'. list_remove 300 demo_store2 = Some s' \<and> list_holds s' 100 [200]"
  using list_remove_correct [OF demo_store2_holds, of 300] by (auto simp: demo_store2_def)

lemma list_remove_misses_first_item_witness:
  "\<exists>s1 s2. list_append 100 200 demo_store = Some s1 \<and> list_remove 200 s1 = Some s2 \<and>
    list_holds s1 100 [200] \<and> list_holds s2 100 [200] \<and>
    list_count (lists s2 0) = list_count (lists demo_store 0) - 1"
  by (rule list_remove_misses_first_item) (simp_all add: demo_store_empty)

end
