(* ===== verification/Multitasking.thy ===== *)
theory Multitasking
  imports Virt_Memory Kernel_List
begin

text \<open>
  Processes, threads and the scheduler of \<^verbatim>\<open>src/kernel/multitasking.c\<close>.  A thread and a
  process are named by their address; the \<^verbatim>\<open>ListItem\<close> at the start of each is the item
  of that address in the list store, the \<^verbatim>\<open>AddressSpace\<close> in a process is the space
  \<open>Space_At\<close> of its address, and the other fields are in two typed stores.  What a page
  fresh from the allocator holds is whatever the stores hold at its address.
\<close>

section \<open>Definitions\<close>

text \<open>\<^verbatim>\<open>Registers\<close>, in the order the interrupt stubs push them.\<close>

record registers =
  r_gs :: u32
  r_fs :: u32
  r_es :: u32
  r_ds :: u32
  r_ebp :: u32
  r_edi :: u32
  r_esi :: u32
  r_edx :: u32
  r_ecx :: u32
  r_ebx :: u32
  r_eax :: u32
  r_eip :: u32
  r_cs :: u32
  r_eflags :: u32
  r_esp :: u32
  r_ss :: u32

definition zero_registers :: registers where
  "zero_registers = \<lparr>r_gs = 0, r_fs = 0, r_es = 0, r_ds = 0, r_ebp = 0, r_edi = 0, r_esi = 0,
     r_edx = 0, r_ecx = 0, r_ebx = 0, r_eax = 0, r_eip = 0, r_cs = 0, r_eflags = 0, r_esp = 0,
     r_ss = 0\<rparr>"

text \<open>\<^verbatim>\<open>Process\<close> and \<^verbatim>\<open>Thread\<close>; the name is the string \<^verbatim>\<open>strncpy\<close> leaves in 256 bytes.\<close>

record process =
  p_suspend :: bool
  thread_count :: u32
  p_name :: "u8 list"

record thread =
  t_process :: u32
  t_suspend :: bool
  stack_base :: u32
  stack_size :: u32
  t_state :: registers

record task_state =
  vm :: vm_state
  rings :: list_store
  processes :: "u32 \<Rightarrow> process"
  threads :: "u32 \<Rightarrow> thread"
  current_process :: u32
  current_thread :: u32
  kernel_process :: u32
  kernel_thread :: u32
  kernel_page_dir :: u32
  multitasking_enabled :: bool
  cr3 :: u32
  switch_mark :: u8

text \<open>The two static lists, by the addresses of their objects.\<close>

definition process_list :: u32 where "process_list = 1"
definition thread_list :: u32 where "thread_list = 2"

abbreviation (input) PAGE_USER :: u32 where "PAGE_USER \<equiv> 4"
abbreviation (input) PAGE_GLOBAL :: u32 where "PAGE_GLOBAL \<equiv> 0x100"
abbreviation (input) PROCESS_NAME_SIZE :: nat where "PROCESS_NAME_SIZE \<equiv> 256"
abbreviation (input) USER_PROGRAM_BASE :: u32 where "USER_PROGRAM_BASE \<equiv> 0x100000"

text \<open>The lower components, acting on their field of the state.\<close>

definition task_alloc_virt ::
  "space_ref \<Rightarrow> u32 \<Rightarrow> u32 \<Rightarrow> u32 \<Rightarrow> task_state \<Rightarrow> (u32 \<times> task_state) option" where
  "task_alloc_virt sp vaddr count flags st =
     map_option (\<lambda>(v, m). (v, st\<lparr>vm := m\<rparr>)) (alloc_virt_pages sp vaddr (- 1) count flags (vm st))"

definition task_alloc_phys :: "u32 \<Rightarrow> task_state \<Rightarrow> (u32 \<times> task_state) option" where
  "task_alloc_phys count st = map_option (\<lambda>(r, m). (r, st\<lparr>vm := m\<rparr>)) (phys_alloc count (vm st))"

definition task_list_append :: "u32 \<Rightarrow> u32 \<Rightarrow> task_state \<Rightarrow> task_state option" where
  "task_list_append l item st = map_option (\<lambda>r. st\<lparr>rings := r\<rparr>) (list_append l item (rings st))"

definition task_map :: "u32 \<Rightarrow> task_state \<Rightarrow> task_state" where
  "task_map addr st = st\<lparr>vm := (vm st)\<lparr>phys := temp_map_page addr (phys (vm st))\<rparr>\<rparr>"

definition task_rd :: "nat \<Rightarrow> task_state \<Rightarrow> u32" where
  "task_rd i st = temp_rd i (phys (vm st))"

definition task_wr :: "nat \<Rightarrow> u32 \<Rightarrow> task_state \<Rightarrow> task_state" where
  "task_wr i v st = st\<lparr>vm := (vm st)\<lparr>phys := temp_wr i v (phys (vm st))\<rparr>\<rparr>"

abbreviation upd_process :: "u32 \<Rightarrow> (process \<Rightarrow> process) \<Rightarrow> task_state \<Rightarrow> task_state" where
  "upd_process p f st \<equiv> st\<lparr>processes := (processes st)(p := f (processes st p))\<rparr>"

abbreviation upd_thread :: "u32 \<Rightarrow> (thread \<Rightarrow> thread) \<Rightarrow> task_state \<Rightarrow> task_state" where
  "upd_thread t f st \<equiv> st\<lparr>threads := (threads st)(t := f (threads st t))\<rparr>"

abbreviation set_space :: "space_ref \<Rightarrow> (address_space \<Rightarrow> address_space) \<Rightarrow> task_state \<Rightarrow> task_state" where
  "set_space sp f st \<equiv> st\<lparr>vm := upd_space sp f (vm st)\<rparr>"

subsection \<open>The scheduler\<close>

text \<open>The task state segment: in the page \<open>0x7FFFD000\<close> of the current address space.\<close>

definition tss_set_stack :: "u32 \<Rightarrow> u32 \<Rightarrow> task_state \<Rightarrow> task_state" where
  "tss_set_stack ss esp st =
     (let p = phys (vm st);
          frame = page_of (lookup p (cr3 st) 0x7FFFD000)
      in st\<lparr>vm := (vm st)\<lparr>phys := p\<lparr>ram := (ram p)(frame := (ram p frame)(2 := ss, 1 := esp))\<rparr>\<rparr>\<rparr>)"

definition runnable :: "task_state \<Rightarrow> u32 \<Rightarrow> bool" where
  "runnable st t \<longleftrightarrow> \<not> (t_suspend (threads st t) \<or> p_suspend (processes st (t_process (threads st t))))"

partial_function (option) next_thread :: "task_state \<Rightarrow> u32 \<Rightarrow> u32 option" where
  "next_thread st t =
     (let t' = get_next (rings st) t
      in if runnable st t' then Some t' else next_thread st t')"

text \<open>The registers to return to and the state; \<open>None\<close> where the loop finds no thread.\<close>

definition switch_task :: "registers \<Rightarrow> u32 \<Rightarrow> task_state \<Rightarrow> (registers \<times> task_state) option" where
  "switch_task regs esp st =
     (if multitasking_enabled st then do {
        let st = st\<lparr>switch_mark := switch_mark st + 1\<rparr>;
        let st = upd_thread (current_thread st) (\<lambda>t. t\<lparr>t_state := regs\<rparr>) st;
        t \<leftarrow> next_thread st (current_thread st);
        let st = st\<lparr>current_thread := t, current_process := t_process (threads st t)\<rparr>;
        let dir = page_dir (spaces (vm st) (Space_At (current_process st)));
        let st = st\<lparr>cr3 := dir\<rparr>;
        let regs = t_state (threads st t);
        Some (regs, if dir \<noteq> 0x1000 then tss_set_stack 0x10 (esp + 17 * 4) st else st)
      }
      else Some (regs, st))"

subsection \<open>Address spaces and threads\<close>

definition init_kernel_address_space :: "space_ref \<Rightarrow> u32 \<Rightarrow> task_state \<Rightarrow> task_state option" where
  "init_kernel_address_space sp dir st = do {
     let st = set_space sp (\<lambda>a. a\<lparr>page_dir := dir, as_start := KERNEL_MEMORY_START,
                as_end := KERNEL_MEMORY_END, block_table_size := PAGE_SIZE div VMB_SIZE\<rparr>) st;
     (t, st) \<leftarrow> task_alloc_virt Kernel_Space 0 1 (PAGE_PRESENT OR PAGE_WRITABLE OR PAGE_GLOBAL) st;
     Some (set_space sp (\<lambda>a. a\<lparr>blocks := t, block_count := 0\<rparr>) st)
   }"

definition init_address_space :: "space_ref \<Rightarrow> u32 \<Rightarrow> task_state \<Rightarrow> task_state option" where
  "init_address_space sp dir st = do {
     let st = set_space sp (\<lambda>a. a\<lparr>page_dir := dir, as_start := USER_MEMORY_START,
                as_end := USER_MEMORY_END, block_table_size := PAGE_SIZE div VMB_SIZE\<rparr>) st;
     (t, st) \<leftarrow> task_alloc_virt Kernel_Space 0 1 (PAGE_PRESENT OR PAGE_WRITABLE OR PAGE_GLOBAL) st;
     Some (set_space sp (\<lambda>a. a\<lparr>blocks := t, block_count := 0\<rparr>) st)
   }"

definition first_state :: "u32 \<Rightarrow> bool \<Rightarrow> u32 \<Rightarrow> registers" where
  "first_state entry_point in_kernel stack_top =
     (let data_selector = (if in_kernel then 16 else 35);
          code_selector = (if in_kernel then 8 else 27)
      in zero_registers\<lparr>r_eflags := 0x202, r_cs := code_selector, r_eip := entry_point,
           r_ss := data_selector, r_esp := stack_top, r_ds := data_selector, r_es := data_selector,
           r_fs := data_selector, r_gs := data_selector\<rparr>)"

definition create_thread ::
  "u32 \<Rightarrow> u32 \<Rightarrow> u32 \<Rightarrow> bool \<Rightarrow> bool \<Rightarrow> task_state \<Rightarrow> (u32 \<times> task_state) option" where
  "create_thread proc entry_point stack_pages in_kernel suspend st = do {
     (t, st) \<leftarrow> task_alloc_virt Kernel_Space 0 1 (PAGE_PRESENT OR PAGE_WRITABLE) st;
     let st = upd_thread t (\<lambda>x. x\<lparr>t_process := proc, t_suspend := suspend,
                stack_size := push_bit PAGE_OFFSET_BITS stack_pages\<rparr>) st;
     (base, st) \<leftarrow> task_alloc_virt (Space_At proc) 0x200000 stack_pages
                    (PAGE_PRESENT OR PAGE_WRITABLE OR (if in_kernel then 0 else PAGE_USER)) st;
     let st = upd_thread t (\<lambda>x. x\<lparr>stack_base := base,
                t_state := first_state entry_point in_kernel (base + stack_size x)\<rparr>) st;
     st \<leftarrow> task_list_append thread_list t st;
     Some (t, upd_process proc (\<lambda>p. p\<lparr>thread_count := thread_count p + 1\<rparr>) st)
   }"

definition init_multitasking :: "task_state \<Rightarrow> task_state option" where
  "init_multitasking st = do {
     let st = st\<lparr>rings := list_init thread_list (list_init process_list (rings st))\<rparr>;
     (p, st) \<leftarrow> task_alloc_virt Kernel_Space 0 1 (PAGE_PRESENT OR PAGE_WRITABLE) st;
     let st = st\<lparr>kernel_process := p\<rparr>;
     st \<leftarrow> init_kernel_address_space (Space_At p) (kernel_page_dir st) st;
     st \<leftarrow> init_address_space User_Space (kernel_page_dir st) st;
     let st = upd_process p (\<lambda>x. x\<lparr>p_suspend := False, thread_count := 1,
                p_name := map (of_nat \<circ> of_char) ''kernel''\<rparr>) st;
     st \<leftarrow> task_list_append process_list p st;
     (t, st) \<leftarrow> task_alloc_virt Kernel_Space 0 1 (PAGE_PRESENT OR PAGE_WRITABLE) st;
     let st = st\<lparr>kernel_thread := t\<rparr>;
     let st = upd_thread t (\<lambda>x. x\<lparr>t_process := p, t_suspend := False, stack_size := PAGE_SIZE\<rparr>) st;
     st \<leftarrow> task_list_append thread_list t st;
     Some (st\<lparr>current_process := p, current_thread := t, multitasking_enabled := True\<rparr>)
   }"

subsection \<open>Starting a program\<close>

definition get_kernel_page_table_addr :: "task_state \<Rightarrow> u32 \<times> task_state" where
  "get_kernel_page_table_addr st =
     (let st = task_map (kernel_page_dir st) st in (task_rd 1022 st, st))"

definition get_last_page_table_addr :: "task_state \<Rightarrow> u32 \<times> task_state" where
  "get_last_page_table_addr st =
     (let st = task_map (kernel_page_dir st) st in (task_rd 1023 st, st))"

text \<open>The two filling loops: entries \<open>i\<close> to \<open>i + n - 1\<close> get consecutive frames.\<close>

fun fill_entries :: "nat \<Rightarrow> nat \<Rightarrow> u32 \<Rightarrow> task_state \<Rightarrow> task_state" where
  "fill_entries 0 i entry_value st = st"
| "fill_entries (Suc n) i entry_value st =
     fill_entries n (i + 1) (entry_value + 0x1000) (task_wr i entry_value st)"

definition init_page_tables :: "u32 \<Rightarrow> task_state \<Rightarrow> (u32 \<times> task_state) option" where
  "init_page_tables memory_location_start st = do {
     let kernel_pte_settings = PAGE_PRESENT OR PAGE_WRITABLE;
     let user_mode_pte_settings = PAGE_PRESENT OR PAGE_WRITABLE OR PAGE_USER;
     (first_page_table, st) \<leftarrow> task_alloc_phys 1 st;
     (tss_page_table, st) \<leftarrow> task_alloc_phys 1 st;
     let (kernel_page_table, st) = get_kernel_page_table_addr st;
     let (last_page_table, st) = get_last_page_table_addr st;
     (dir, st) \<leftarrow> task_alloc_phys 1 st;
     let st = task_map dir st;
     let st = task_wr 0 (first_page_table OR user_mode_pte_settings) st;
     let st = task_wr 511 (tss_page_table OR kernel_pte_settings) st;
     let st = task_wr 1022 kernel_page_table st;
     let st = task_wr 1023 last_page_table st;
     let st = task_map first_page_table st;
     let st = fill_entries 256 0 (0 OR user_mode_pte_settings) st;
     let st = fill_entries 768 256 (memory_location_start OR user_mode_pte_settings) st;
     (page_for_tss, st) \<leftarrow> task_alloc_phys 1 st;
     let st = task_map tss_page_table st;
     Some (dir, task_wr 1021 (page_for_tss OR kernel_pte_settings) st)
   }"

definition run_image :: "u32 \<Rightarrow> u8 list \<Rightarrow> task_state \<Rightarrow> task_state option" where
  "run_image proc_image_start file_name st = do {
     (dir, st) \<leftarrow> init_page_tables proc_image_start st;
     (p, st) \<leftarrow> task_alloc_virt Kernel_Space 0 1 (PAGE_PRESENT OR PAGE_WRITABLE) st;
     st \<leftarrow> init_address_space (Space_At p) dir st;
     let st = upd_process p (\<lambda>x. x\<lparr>p_suspend := False, thread_count := 0,
                p_name := take (PROCESS_NAME_SIZE - 1) file_name\<rparr>) st;
     st \<leftarrow> task_list_append process_list p st;
     (_, st) \<leftarrow> create_thread p USER_PROGRAM_BASE 1 False False st;
     Some st
   }"


section \<open>The scheduler\<close>

text \<open>
  With the threads \<open>ts\<close> in the ring, the search from thread \<open>k\<close> goes through
  \<open>k + 1\<close>, \<open>k + 2\<close>, \<open>\<dots>\<close> modulo their number.
\<close>

definition nth_after :: "u32 list \<Rightarrow> nat \<Rightarrow> nat \<Rightarrow> u32" where
  "nth_after ts k d = ts ! ((k + d) mod length ts)"

lemma nth_after_next:
  assumes "ring (get_next s) p ts" and "ts \<noteq> []"
  shows "get_next s (nth_after ts k d) = nth_after ts k (Suc d)"
  using ring_nth_next [OF assms(1), of "(k + d) mod length ts"] assms(2)
  by (simp add: nth_after_def mod_Suc_eq)

lemma next_thread_finds:
  assumes r: "ring (get_next (rings st)) p ts" and ne: "ts \<noteq> []"
    and hit: "runnable st (nth_after ts k (e + Suc d))"
    and miss: "\<forall>j. e < j \<longrightarrow> j < e + Suc d \<longrightarrow> \<not> runnable st (nth_after ts k j)"
  shows "next_thread st (nth_after ts k e) = Some (nth_after ts k (e + Suc d))"
  using hit miss
proof (induction d arbitrary: e)
  case 0
  then show ?case
    by (subst next_thread.simps) (simp add: nth_after_next [OF r ne])
next
  case (Suc d)
  have "next_thread st (nth_after ts k (Suc e)) = Some (nth_after ts k (Suc e + Suc d))"
    using Suc.prems by (intro Suc.IH) auto
  moreover have "\<not> runnable st (nth_after ts k (Suc e))" using Suc.prems(2) by simp
  ultimately show ?case
    by (subst next_thread.simps) (simp add: nth_after_next [OF r ne])
qed

lemma next_thread_none:
  assumes r: "ring (get_next (rings st)) p ts" and dead: "\<forall>t \<in> set ts. \<not> runnable st t"
    and t: "t \<in> set ts"
  shows "next_thread st t = None"
proof -
  have "\<not> (s = st \<and> u \<in> set ts)" if "next_thread s u = Some x" for s u x
  proof (rule next_thread.raw_induct [where P = "\<lambda>s u x. \<not> (s = st \<and> u \<in> set ts)", OF _ that])
    fix f s u x
    assume IH: "\<And>s u x. f s u = Some x \<Longrightarrow> \<not> (s = st \<and> u \<in> set ts)"
      and eq: "(let t' = get_next (rings s) u in if runnable s t' then Some t' else f s t') = Some x"
    show "\<not> (s = st \<and> u \<in> set ts)"
      using eq IH [of s "get_next (rings s) u" x] ring_next_in [OF r, of u] dead
      by (auto simp: Let_def split: if_splits)
  qed
  then show ?thesis using t by (cases "next_thread st t") auto
qed

text \<open>The thread chosen from position \<open>k\<close>: the first runnable one after it.\<close>

definition chosen :: "task_state \<Rightarrow> u32 list \<Rightarrow> nat \<Rightarrow> nat \<Rightarrow> bool" where
  "chosen st ts k d \<longleftrightarrow> 0 < d \<and> d \<le> length ts \<and> runnable st (nth_after ts k d) \<and>
     (\<forall>j. 0 < j \<longrightarrow> j < d \<longrightarrow> \<not> runnable st (nth_after ts k j))"

lemma index_after:
  assumes "k < length ts" and "t \<in> set ts"
  shows "\<exists>d. 0 < d \<and> d \<le> length ts \<and> nth_after ts k d = t"
proof -
  obtain i where i: "i < length ts" "t = ts ! i" using assms(2) by (auto simp: in_set_conv_nth)
  define d where "d = (if k < i then i - k else i + length ts - k)"
  have "0 < d" "d \<le> length ts" "(k + d) mod length ts = i"
    using assms(1) i(1) by (auto simp: d_def)
  then show ?thesis using i by (auto simp: nth_after_def)
qed

lemma chosen_exists:
  assumes k: "k < length ts" and t: "t \<in> set ts" "runnable st t"
  shows "\<exists>d. chosen st ts k d"
proof -
  let ?P = "\<lambda>d. 0 < d \<and> runnable st (nth_after ts k d)"
  obtain e where e: "?P e" "e \<le> length ts" using index_after [OF k t(1)] t(2) by auto
  have "?P (LEAST d. ?P d)" using e(1) by (rule LeastI)
  moreover have "(LEAST d. ?P d) \<le> e" using e(1) by (rule Least_le)
  moreover have "\<not> ?P j" if "j < (LEAST d. ?P d)" for j using that by (rule not_less_Least)
  ultimately show ?thesis using e(2) unfolding chosen_def by (meson le_trans)
qed

lemma runnable_save [simp]:
  "runnable (st\<lparr>switch_mark := m\<rparr>) = runnable st"
  "runnable (upd_thread a (\<lambda>t. t\<lparr>t_state := regs\<rparr>) st) = runnable st"
  "runnable (st\<lparr>switch_mark := m, threads := (threads st)(a := (threads st a)\<lparr>t_state := regs\<rparr>)\<rparr>) =
     runnable st"
  by (auto simp: runnable_def fun_eq_iff)

lemma tss_fields [simp]:
  "threads (tss_set_stack ss esp st) = threads st" "rings (tss_set_stack ss esp st) = rings st"
  "processes (tss_set_stack ss esp st) = processes st"
  "current_thread (tss_set_stack ss esp st) = current_thread st"
  "current_process (tss_set_stack ss esp st) = current_process st"
  "cr3 (tss_set_stack ss esp st) = cr3 st"
  "multitasking_enabled (tss_set_stack ss esp st) = multitasking_enabled st"
  "spaces (vm (tss_set_stack ss esp st)) = spaces (vm st)"
  by (simp_all add: tss_set_stack_def Let_def)

lemma runnable_cong:
  "threads s = threads t \<Longrightarrow> processes s = processes t \<Longrightarrow> runnable s = runnable t"
  by (simp add: runnable_def fun_eq_iff)

text \<open>What one switch does, given what the search finds.\<close>

lemma switch_task_found:
  assumes en: "multitasking_enabled st" and a: "a = current_thread st"
    and nt: "next_thread (upd_thread a (\<lambda>t. t\<lparr>t_state := regs\<rparr>)
      (st\<lparr>switch_mark := switch_mark st + 1\<rparr>)) a = Some b"
  shows "\<exists>st'. switch_task regs esp st =
      Some (if b = a then regs else t_state (threads st b), st') \<and>
    current_thread st' = b \<and> current_process st' = t_process (threads st b) \<and>
    cr3 st' = page_dir (spaces (vm st) (Space_At (t_process (threads st b)))) \<and>
    threads st' = (threads st)(a := (threads st a)\<lparr>t_state := regs\<rparr>) \<and>
    processes st' = processes st \<and> rings st' = rings st \<and> multitasking_enabled st' \<and>
    spaces (vm st') = spaces (vm st)"
  using assms by (simp add: switch_task_def Let_def)

lemma round_robin:
  assumes en: "multitasking_enabled st" and ts: "list_holds (rings st) thread_list ts"
    and k: "k < length ts" "current_thread st = ts ! k"
    and run: "\<exists>t \<in> set ts. runnable st t"
  shows "\<exists>d regs' st'. chosen st ts k d \<and> switch_task regs esp st = Some (regs', st') \<and>
    current_thread st' = nth_after ts k d \<and>
    regs' = (if nth_after ts k d = ts ! k then regs else t_state (threads st (nth_after ts k d))) \<and>
    cr3 st' = page_dir (spaces (vm st) (Space_At (t_process (threads st (nth_after ts k d))))) \<and>
    threads st' = (threads st)(ts ! k := (threads st (ts ! k))\<lparr>t_state := regs\<rparr>) \<and>
    processes st' = processes st \<and> rings st' = rings st \<and> multitasking_enabled st'"
proof -
  have r: "ring (get_next (rings st)) (get_prev (rings st)) ts" and ne: "ts \<noteq> []"
    using ts k(1) by (auto simp: list_holds_def)
  obtain d where d: "chosen st ts k d" using chosen_exists [OF k(1)] run by blast
  let ?u = "upd_thread (ts ! k) (\<lambda>t. t\<lparr>t_state := regs\<rparr>) (st\<lparr>switch_mark := switch_mark st + 1\<rparr>)"
  have at: "nth_after ts k 0 = ts ! k" using k(1) by (simp add: nth_after_def)
  have "next_thread ?u (ts ! k) = Some (nth_after ts k d)"
    using next_thread_finds [of ?u _ ts k 0 "d - 1"] r ne d at by (simp add: chosen_def)
  from switch_task_found [OF en k(2) [symmetric], of regs, unfolded this, OF refl, of esp] d
  show ?thesis by blast
qed

text \<open>C15: A switch saves the registers of the current thread and resumes the first runnable
  thread after it in the ring, with the registers it was saved with and in the address
  space of its process; everything else about threads, processes and the ring stays.\<close>

theorem switch_task_round_robin:
  assumes en: "multitasking_enabled st" and ts: "list_holds (rings st) thread_list ts"
    and k: "k < length ts" "current_thread st = ts ! k"
    and run: "\<exists>t \<in> set ts. runnable st t"
  shows "\<exists>d regs' st'. chosen st ts k d \<and> switch_task regs esp st = Some (regs', st') \<and>
    current_thread st' = nth_after ts k d \<and>
    regs' = (if nth_after ts k d = ts ! k then regs else t_state (threads st (nth_after ts k d))) \<and>
    cr3 st' = page_dir (spaces (vm st) (Space_At (t_process (threads st (nth_after ts k d))))) \<and>
    threads st' = (threads st)(ts ! k := (threads st (ts ! k))\<lparr>t_state := regs\<rparr>) \<and>
    processes st' = processes st \<and> rings st' = rings st \<and> multitasking_enabled st'"
  using round_robin [OF assms] .

text \<open>Where every thread in the ring is suspended, or its process is, a switch never
  returns.\<close>

theorem switch_task_hangs:
  assumes en: "multitasking_enabled st" and ts: "list_holds (rings st) thread_list ts"
    and cur: "current_thread st \<in> set ts" and dead: "\<forall>t \<in> set ts. \<not> runnable st t"
  shows "switch_task regs esp st = None"
proof -
  let ?u = "upd_thread (current_thread st) (\<lambda>t. t\<lparr>t_state := regs\<rparr>)
    (st\<lparr>switch_mark := switch_mark st + 1\<rparr>)"
  have "next_thread ?u (current_thread st) = None"
    using ts cur dead by (intro next_thread_none [of _ "get_prev (rings st)" ts]) (auto simp: list_holds_def)
  then show ?thesis using en by (simp add: switch_task_def Let_def)
qed

section \<open>Many switches\<close>

text \<open>
  Timer interrupts one after another: the registers each interrupted, and for each the
  registers it returns to and the thread then current.
\<close>

fun switches :: "(registers \<times> u32) list \<Rightarrow> task_state \<Rightarrow> ((registers \<times> u32) list \<times> task_state) option" where
  "switches [] st = Some ([], st)"
| "switches ((regs, esp) # irqs) st = do {
     (r, st) \<leftarrow> switch_task regs esp st;
     (outs, st') \<leftarrow> switches irqs st;
     Some ((r, current_thread st) # outs, st')
   }"

lemma switch_task_cases:
  assumes "switch_task regs esp st = Some (r, st')" and "multitasking_enabled st"
  shows "r = (if current_thread st' = current_thread st then regs
      else t_state (threads st (current_thread st')))"
    and "threads st' = (threads st)(current_thread st :=
      (threads st (current_thread st))\<lparr>t_state := regs\<rparr>)"
    and "multitasking_enabled st'"
proof -
  let ?a = "current_thread st"
  obtain b where b: "next_thread (upd_thread ?a (\<lambda>t. t\<lparr>t_state := regs\<rparr>)
      (st\<lparr>switch_mark := switch_mark st + 1\<rparr>)) ?a = Some b"
    using assms by (auto simp: switch_task_def Let_def split: Option.bind_splits)
  note f = switch_task_found [OF assms(2) refl b, of esp]
  show "r = (if current_thread st' = ?a then regs else t_state (threads st (current_thread st')))"
    "threads st' = (threads st)(?a := (threads st ?a)\<lparr>t_state := regs\<rparr>)" "multitasking_enabled st'"
    using f assms(1) by auto
qed

text \<open>While a thread is not current, what it was saved with stays, and is what it resumes with.\<close>

lemma switches_keep:
  assumes "switches irqs st = Some (pre @ (r, a) # post, st')" and "multitasking_enabled st"
    and "current_thread st \<noteq> a" and "a \<notin> snd ` set pre"
  shows "r = t_state (threads st a)"
  using assms
proof (induction irqs arbitrary: st pre)
  case Nil
  then show ?case by simp
next
  case (Cons irq irqs)
  obtain regs esp where irq: "irq = (regs, esp)" by (cases irq)
  obtain q u outs where q: "switch_task regs esp st = Some (q, u)" "switches irqs u = Some (outs, st')"
    "pre @ (r, a) # post = (q, current_thread u) # outs"
    using Cons.prems(1) irq by (auto split: Option.bind_splits)
  note c = switch_task_cases [OF q(1) Cons.prems(2)]
  show ?case
  proof (cases pre)
    case Nil
    then show ?thesis using q(3) c(1) Cons.prems(3) by auto
  next
    case (Cons p pre')
    then have "r = t_state (threads u a)"
      using q c(3) Cons.prems(4) by (intro Cons.IH [of u pre']) auto
    then show ?thesis using c(2) Cons.prems(3) by simp
  qed
qed

text \<open>C16: A thread that is interrupted, switched away from and later resumed for the first
  time gets back exactly the registers it was interrupted with, whatever the switches in
  between.\<close>

theorem context_preserved:
  assumes "switches ((regs, esp) # irqs) st = Some (pre @ (r, a) # post, st')"
    and "multitasking_enabled st" and "current_thread st = a" and "a \<notin> snd ` set pre"
  shows "r = regs"
proof -
  obtain q u outs where q: "switch_task regs esp st = Some (q, u)" "switches irqs u = Some (outs, st')"
    "pre @ (r, a) # post = (q, current_thread u) # outs"
    using assms(1) by (auto split: Option.bind_splits)
  note c = switch_task_cases [OF q(1) assms(2)]
  show ?thesis
  proof (cases pre)
    case Nil
    then show ?thesis using q(3) c(1) assms(3) by auto
  next
    case (Cons p pre')
    then have "r = t_state (threads u a)"
      using q c(3) assms(4) by (intro switches_keep [of irqs u pre' r a post]) auto
    then show ?thesis using c(2) assms(3) by simp
  qed
qed


text \<open>One switch after another in the ring: each brings a waiting thread closer.\<close>

lemma nth_after_add: "nth_after ts ((k + d) mod length ts) e = nth_after ts k (d + e)"
  by (simp add: nth_after_def mod_add_left_eq add.assoc)

lemma switches_reach:
  assumes "multitasking_enabled st" and "list_holds (rings st) thread_list ts"
    and "k < length ts" and "current_thread st = ts ! k" and "t \<in> set ts" and "runnable st t"
  shows "\<exists>outs st'. switches irqs st = Some (outs, st') \<and>
    ((\<exists>d. 0 < d \<and> d \<le> length irqs \<and> nth_after ts k d = t) \<longrightarrow> t \<in> snd ` set outs)"
  using assms
proof (induction irqs arbitrary: st k)
  case Nil
  then show ?case by simp
next
  case (Cons irq irqs)
  obtain regs esp where irq: "irq = (regs, esp)" by (cases irq)
  obtain d r u where d: "chosen st ts k d" and u: "switch_task regs esp st = Some (r, u)"
    "current_thread u = nth_after ts k d"
    "threads u = (threads st)(ts ! k := (threads st (ts ! k))\<lparr>t_state := regs\<rparr>)"
    "processes u = processes st" "rings u = rings st" "multitasking_enabled u"
    using round_robin [OF Cons.prems(1-4)] Cons.prems(5,6) by blast
  have n: "0 < length ts" using Cons.prems(3) by (cases ts) auto
  let ?k = "(k + d) mod length ts"
  have "runnable u = runnable st" using u(3,4) by (auto simp: runnable_def fun_eq_iff)
  then obtain outs v where v: "switches irqs u = Some (outs, v)"
    "(\<exists>e. 0 < e \<and> e \<le> length irqs \<and> nth_after ts ?k e = t) \<longrightarrow> t \<in> snd ` set outs"
    using Cons.IH [of u ?k] Cons.prems u n by (auto simp: nth_after_def)
  have "t \<in> insert (current_thread u) (snd ` set outs)"
    if e: "0 < e" "e \<le> Suc (length irqs)" "nth_after ts k e = t" for e
  proof (cases "e = d")
    case False
    have "runnable st (nth_after ts k e)" using e(3) Cons.prems(6) by simp
    then have "\<not> e < d" using d e(1) unfolding chosen_def by blast
    then have "d < e" using False by simp
    then have "nth_after ts ?k (e - d) = t" using e by (simp add: nth_after_add)
    moreover have "0 < e - d" "e - d \<le> length irqs" using \<open>d < e\<close> e d by (auto simp: chosen_def)
    ultimately show ?thesis using v(2) by blast
  qed (use u(2) e in simp)
  then show ?case using irq u(1) v(1) by auto
qed

text \<open>C17: No starvation: in a ring of \<open>n\<close> threads, every thread that can run is current after
  at most \<open>n\<close> switches, and all of them return.\<close>

theorem switches_fair:
  assumes "multitasking_enabled st" and "list_holds (rings st) thread_list ts"
    and "current_thread st \<in> set ts" and "t \<in> set ts" and "runnable st t"
    and "length irqs = length ts"
  shows "\<exists>outs st'. switches irqs st = Some (outs, st') \<and> t \<in> snd ` set outs"
proof -
  obtain k where k: "k < length ts" "current_thread st = ts ! k"
    using assms(3) by (auto simp: in_set_conv_nth)
  show ?thesis
    using switches_reach [OF assms(1,2) k assms(4,5), of irqs] index_after [OF k(1) assms(4)] assms(6)
    by auto
qed


section \<open>The page tables of a new program\<close>

abbreviation ph :: "task_state \<Rightarrow> phys_mem" where "ph st \<equiv> phys (vm st)"

lemma task_alloc_frame:
  assumes "free_list (ph st) bs" and "0 < (\<Sum>b \<leftarrow> bs. unat (snd b))"
  shows "\<exists>r st' bs'. task_alloc_phys 1 st = Some (r, st') \<and> free_list (ph st') bs' \<and>
    free_pages bs' \<subseteq> free_pages bs \<and> (\<forall>a. in_use bs a \<longrightarrow> ram (ph st') a = ram (ph st) a) \<and>
    in_use bs' r \<and> \<not> in_use bs r \<and>
    (\<Sum>b \<leftarrow> bs. unat (snd b)) = (\<Sum>b \<leftarrow> bs'. unat (snd b)) + 1 \<and>
    kernel_page_dir st' = kernel_page_dir st \<and>
    (\<forall>p i. 3 \<le> i \<longrightarrow> ram (ph st') p i = ram (ph st) p i)"
proof -
  obtain r t bs' where t: "alloc_phys_pages 1 (ph st) = Some (r, t)" "free_list t bs'"
    "free_pages bs' \<subseteq> free_pages bs" "\<forall>a. in_use bs a \<longrightarrow> ram t a = ram (ph st) a"
    "in_use bs' r" "\<not> in_use bs r"
    "(\<Sum>b \<leftarrow> bs. unat (snd b)) = (\<Sum>b \<leftarrow> bs'. unat (snd b)) + 1"
    using alloc_frame [OF assms] by blast
  then show ?thesis using alloc_phys_high [OF t(1)]
    by (auto simp: task_alloc_phys_def phys_alloc_def)
qed

lemma task_mem [simp]:
  "ram (ph (task_map a st)) = ram (ph st)" "kernel_page_dir (task_map a st) = kernel_page_dir st"
  "kernel_page_dir (task_wr i v st) = kernel_page_dir st"
  "temp_pte (ph (task_wr i v st)) = temp_pte (ph st)"
  "page_of (temp_pte (ph (task_map a st))) = page_of a"
  "ram (ph (task_wr i v st)) = (ram (ph st))(page_of (temp_pte (ph st)) :=
     (ram (ph st) (page_of (temp_pte (ph st))))(i := v))"
  "free_list (ph (task_map a st)) bs = free_list (ph st) bs"
  "task_rd i (task_map a st) = ram (ph st) (page_of a) i"
  by (simp_all add: task_map_def task_wr_def task_rd_def temp_rd_ram)

lemma fill_entries_result:
  "temp_pte (ph (fill_entries n i v st)) = temp_pte (ph st)"
  "kernel_page_dir (fill_entries n i v st) = kernel_page_dir st"
  "ram (ph (fill_entries n i v st)) = (ram (ph st))(page_of (temp_pte (ph st)) :=
     (\<lambda>j. if i \<le> j \<and> j < i + n then v + of_nat (j - i) * 0x1000
       else ram (ph st) (page_of (temp_pte (ph st))) j))"
proof (induction n arbitrary: i v st)
  case 0
  case 1 show ?case by simp
  case 2 show ?case by simp
  case 3 show ?case by (auto simp: fun_eq_iff)
next
  case (Suc n)
  case 1 show ?case by (simp add: Suc)
  case 2 show ?case by (simp add: Suc)
  case 3
  have "v + 0x1000 + of_nat (j - Suc i) * 0x1000 = v + of_nat (j - i) * 0x1000" if "Suc i \<le> j" for j
  proof -
    have "j - i = Suc (j - Suc i)" using that by simp
    then show ?thesis by (simp add: algebra_simps)
  qed
  then show ?case by (auto simp: Suc fun_eq_iff)
qed

text \<open>Writing to a frame in use keeps the free list.\<close>

lemma free_list_in_use:
  assumes "free_list (ph st) bs" and "in_use bs a" and "\<forall>p. p \<noteq> a \<longrightarrow> ram (ph st') p = ram (ph st) p"
    and "free_ptr (ph st') = free_ptr (ph st)" and "free_page_count (ph st') = free_page_count (ph st)"
    and "phys_mutex (ph st') = phys_mutex (ph st)"
  shows "free_list (ph st') bs"
  using assms in_use_not_header [OF assms(1,2)] by (intro free_list_frame [OF assms(1)]) auto

lemma task_ptrs [simp]:
  "free_ptr (ph (task_map a st)) = free_ptr (ph st)" "free_ptr (ph (task_wr i v st)) = free_ptr (ph st)"
  "free_page_count (ph (task_map a st)) = free_page_count (ph st)"
  "free_page_count (ph (task_wr i v st)) = free_page_count (ph st)"
  "phys_mutex (ph (task_map a st)) = phys_mutex (ph st)"
  "phys_mutex (ph (task_wr i v st)) = phys_mutex (ph st)"
  "free_ptr (ph (fill_entries n k w st)) = free_ptr (ph st)"
  "free_page_count (ph (fill_entries n k w st)) = free_page_count (ph st)"
  "phys_mutex (ph (fill_entries n k w st)) = phys_mutex (ph st)"
proof -
  show "free_ptr (ph (task_map a st)) = free_ptr (ph st)" "free_ptr (ph (task_wr i v st)) = free_ptr (ph st)"
    "free_page_count (ph (task_map a st)) = free_page_count (ph st)"
    "free_page_count (ph (task_wr i v st)) = free_page_count (ph st)"
    "phys_mutex (ph (task_map a st)) = phys_mutex (ph st)"
    "phys_mutex (ph (task_wr i v st)) = phys_mutex (ph st)" for a i v st
    by (simp_all add: task_map_def task_wr_def)
  then show "free_ptr (ph (fill_entries n k w st)) = free_ptr (ph st)"
    "free_page_count (ph (fill_entries n k w st)) = free_page_count (ph st)"
    "phys_mutex (ph (fill_entries n k w st)) = phys_mutex (ph st)"
    by (induction n arbitrary: k w st) simp_all
qed

text \<open>The two steps between the allocations, as updates of memory.\<close>

definition write_dir :: "u32 \<Rightarrow> u32 \<Rightarrow> u32 \<Rightarrow> u32 \<Rightarrow> u32 \<Rightarrow> u32 \<Rightarrow> task_state \<Rightarrow> task_state" where
  "write_dir start dir f t k l st =
     fill_entries 768 256 (start OR 7) (fill_entries 256 0 7 (task_map f
       (task_wr 1023 l (task_wr 1022 k (task_wr 511 (t OR 3) (task_wr 0 (f OR 7) (task_map dir st)))))))"

lemma write_dir_ram:
  assumes "page_of dir = dir" and "page_of f = f" and "dir \<noteq> f"
  shows "ram (ph (write_dir start dir f t k l st)) = (ram (ph st))
    (dir := (ram (ph st) dir)(0 := f OR 7, 511 := t OR 3, 1022 := k, 1023 := l),
     f := (\<lambda>i. if i < 256 then 7 + of_nat i * 0x1000
       else if i < 1024 then (start OR 7) + of_nat (i - 256) * 0x1000 else ram (ph st) f i))"
    and "kernel_page_dir (write_dir start dir f t k l st) = kernel_page_dir st"
  using assms by (auto simp: write_dir_def fill_entries_result fun_eq_iff)

lemma init_page_tables_eq:
  "init_page_tables start st = do {
     (f, st) \<leftarrow> task_alloc_phys 1 st;
     (t, st) \<leftarrow> task_alloc_phys 1 st;
     let k = ram (ph st) (page_of (kernel_page_dir st)) 1022;
     let l = ram (ph st) (page_of (kernel_page_dir st)) 1023;
     (dir, st) \<leftarrow> task_alloc_phys 1 (task_map (kernel_page_dir st) (task_map (kernel_page_dir st) st));
     (p, st) \<leftarrow> task_alloc_phys 1 (write_dir start dir f t k l st);
     Some (dir, task_wr 1021 (p OR 3) (task_map t st))
   }"
  by (simp add: init_page_tables_def get_kernel_page_table_addr_def get_last_page_table_addr_def
    Let_def write_dir_def or.assoc)


lemma write_dir_list:
  assumes "free_list (ph st) bs" and "in_use bs dir" and "in_use bs f"
  shows "free_list (ph (write_dir start dir f t k l st)) bs"
proof -
  have "free_list (ph (task_map f (task_wr 1023 l (task_wr 1022 k (task_wr 511 (t OR 3)
      (task_wr 0 (f OR 7) (task_map dir st))))))) bs"
    by (rule free_list_in_use [OF assms(1,2)]) (use in_use_page [OF assms(2)] in auto)
  then show ?thesis unfolding write_dir_def
    by (rule free_list_in_use [OF _ assms(3)])
      (use in_use_page [OF assms(3)] in \<open>auto simp: fill_entries_result\<close>)
qed

text \<open>The first three allocations give three fresh frames.\<close>

lemma three_frames:
  assumes fl: "free_list (ph st) bs" and n: "4 \<le> (\<Sum>b \<leftarrow> bs. unat (snd b))"
    and kd: "in_use bs (kernel_page_dir st)"
  shows "\<exists>f s1 t s2 dir s3 b3. task_alloc_phys 1 st = Some (f, s1) \<and>
    task_alloc_phys 1 s1 = Some (t, s2) \<and> kernel_page_dir s2 = kernel_page_dir st \<and>
    ram (ph s2) (kernel_page_dir st) = ram (ph st) (kernel_page_dir st) \<and>
    task_alloc_phys 1 (task_map (kernel_page_dir s2) (task_map (kernel_page_dir s2) s2)) = Some (dir, s3) \<and>
    free_list (ph s3) b3 \<and> (\<Sum>b \<leftarrow> bs. unat (snd b)) = (\<Sum>b \<leftarrow> b3. unat (snd b)) + 3 \<and> free_pages b3 \<subseteq> free_pages bs \<and>
    distinct [dir, f, t] \<and> (\<forall>a \<in> {dir, f, t}. in_use b3 a \<and> \<not> in_use bs a) \<and>
    (\<forall>a. in_use bs a \<longrightarrow> ram (ph s3) a = ram (ph st) a) \<and>
    (\<forall>a i. 3 \<le> i \<longrightarrow> ram (ph s3) a i = ram (ph st) a i)"
proof -
  let ?sum = "\<lambda>bs. \<Sum>b \<leftarrow> (bs :: block list). unat (snd b)"
  have n0: "0 < ?sum bs" using n by simp
  obtain f s1 b1 where 1: "task_alloc_phys 1 st = Some (f, s1)" "free_list (ph s1) b1"
    "free_pages b1 \<subseteq> free_pages bs" "\<forall>a. in_use bs a \<longrightarrow> ram (ph s1) a = ram (ph st) a"
    "in_use b1 f" "\<not> in_use bs f" "?sum bs = ?sum b1 + 1" "kernel_page_dir s1 = kernel_page_dir st"
    "\<forall>p i. 3 \<le> i \<longrightarrow> ram (ph s1) p i = ram (ph st) p i"
    using task_alloc_frame [OF fl n0] by (elim exE conjE) (rule that)
  have n1: "0 < ?sum b1" using n 1(7) by simp
  obtain t s2 b2 where 2: "task_alloc_phys 1 s1 = Some (t, s2)" "free_list (ph s2) b2"
    "free_pages b2 \<subseteq> free_pages b1" "\<forall>a. in_use b1 a \<longrightarrow> ram (ph s2) a = ram (ph s1) a"
    "in_use b2 t" "\<not> in_use b1 t" "?sum b1 = ?sum b2 + 1" "kernel_page_dir s2 = kernel_page_dir s1"
    "\<forall>p i. 3 \<le> i \<longrightarrow> ram (ph s2) p i = ram (ph s1) p i"
    using task_alloc_frame [OF 1(2) n1] by (elim exE conjE) (rule that)
  let ?m = "task_map (kernel_page_dir s2) (task_map (kernel_page_dir s2) s2)"
  have m: "free_list (ph ?m) b2" "0 < ?sum b2" "ram (ph ?m) = ram (ph s2)"
    using 2(2,7) n 1(7) by simp_all
  obtain dir s3 b3 where 3: "task_alloc_phys 1 ?m = Some (dir, s3)" "free_list (ph s3) b3"
    "free_pages b3 \<subseteq> free_pages b2" "\<forall>a. in_use b2 a \<longrightarrow> ram (ph s3) a = ram (ph ?m) a"
    "in_use b3 dir" "\<not> in_use b2 dir" "?sum b2 = ?sum b3 + 1" "kernel_page_dir s3 = kernel_page_dir ?m"
    "\<forall>p i. 3 \<le> i \<longrightarrow> ram (ph s3) p i = ram (ph ?m) p i"
    using task_alloc_frame [OF m(1,2)] by (elim exE conjE) (rule that)
  have use: "in_use b1 a" "in_use b2 a" if "in_use bs a" for a
    using that in_use_mono 1(3) 2(3) by blast+
  have fu: "in_use b2 f" "in_use b3 f" "in_use b3 t" using 1(5) 2(5) in_use_mono 2(3) 3(3) by blast+
  have c1: "distinct [dir, f, t]" using 1(5) 2(5,6) 3(6) fu by auto
  have c2: "\<forall>a \<in> {dir, f, t}. in_use b3 a \<and> \<not> in_use bs a" using 1(6) 2(6) 3(5,6) fu use by blast
  have c3: "\<forall>a. in_use bs a \<longrightarrow> ram (ph s3) a = ram (ph st) a" using 1(4) 2(4) 3(4) use m(3) by metis
  have c4: "\<forall>a i. 3 \<le> i \<longrightarrow> ram (ph s3) a i = ram (ph st) a i" using 1(9) 2(9) 3(9) m(3) by metis
  have c5: "kernel_page_dir s2 = kernel_page_dir st" using 1(8) 2(8) by simp
  have c6: "ram (ph s2) (kernel_page_dir st) = ram (ph st) (kernel_page_dir st)"
    using 1(4) 2(4) kd use(1) by metis
  have c7: "?sum bs = ?sum b3 + 3" using 3(7) 2(7) 1(7) by simp
  have c8: "free_pages b3 \<subseteq> free_pages bs" using 1(3) 2(3) 3(3) by blast
  show ?thesis
    by (intro exI [of _ f] exI [of _ s1] exI [of _ t] exI [of _ s2] exI [of _ dir] exI [of _ s3]
      exI [of _ b3] conjI 1(1) 2(1) c5 c6 3(1,2) c7 c8 c1 c2 c3 c4)
qed

lemma init_page_tables_run:
  assumes fl: "free_list (ph st) bs" and n: "4 \<le> (\<Sum>b \<leftarrow> bs. unat (snd b))"
    and kd: "in_use bs (kernel_page_dir st)"
  shows "\<exists>dir f t p st' bs'. init_page_tables start st = Some (dir, st') \<and> free_list (ph st') bs' \<and>
    free_pages bs' \<subseteq> free_pages bs \<and> (\<Sum>b \<leftarrow> bs. unat (snd b)) = (\<Sum>b \<leftarrow> bs'. unat (snd b)) + 4 \<and>
    distinct [dir, f, t, p] \<and>
    (\<forall>a \<in> {dir, f, t, p}. in_use bs' a \<and> \<not> in_use bs a) \<and>
    (\<forall>a. in_use bs a \<longrightarrow> ram (ph st') a = ram (ph st) a) \<and>
    ram (ph st') dir 0 = f OR 7 \<and> ram (ph st') dir 511 = t OR 3 \<and>
    (\<forall>i \<in> {1022, 1023}. ram (ph st') dir i = ram (ph st) (kernel_page_dir st) i) \<and>
    (\<forall>i < 256. ram (ph st') f i = 7 + of_nat i * 0x1000) \<and>
    (\<forall>i. 256 \<le> i \<and> i < 1024 \<longrightarrow> ram (ph st') f i = (start OR 7) + of_nat (i - 256) * 0x1000) \<and>
    ram (ph st') t 1021 = p OR 3 \<and>
    (\<forall>i \<ge> 3. i \<notin> {511, 1022, 1023} \<longrightarrow> ram (ph st') dir i = ram (ph st) dir i) \<and>
    (\<forall>i \<ge> 3. i \<noteq> 1021 \<longrightarrow> ram (ph st') t i = ram (ph st) t i)"
proof -
  obtain f s1 t s2 dir s3 b3 where a: "task_alloc_phys 1 st = Some (f, s1)"
    "task_alloc_phys 1 s1 = Some (t, s2)" "kernel_page_dir s2 = kernel_page_dir st"
    "ram (ph s2) (kernel_page_dir st) = ram (ph st) (kernel_page_dir st)"
    "task_alloc_phys 1 (task_map (kernel_page_dir s2) (task_map (kernel_page_dir s2) s2)) = Some (dir, s3)"
    "free_list (ph s3) b3" "(\<Sum>b \<leftarrow> bs. unat (snd b)) = (\<Sum>b \<leftarrow> b3. unat (snd b)) + 3" "free_pages b3 \<subseteq> free_pages bs"
    "distinct [dir, f, t]" "\<forall>a \<in> {dir, f, t}. in_use b3 a \<and> \<not> in_use bs a"
    "\<forall>a. in_use bs a \<longrightarrow> ram (ph s3) a = ram (ph st) a"
    "\<forall>a i. 3 \<le> i \<longrightarrow> ram (ph s3) a i = ram (ph st) a i"
    using three_frames [OF fl n kd] by (elim exE conjE) (rule that)
  let ?k = "ram (ph st) (kernel_page_dir st)"
  let ?w = "write_dir start dir f t (?k 1022) (?k 1023) s3"
  have use: "in_use b3 dir" "in_use b3 f" "in_use b3 t" and ne: "dir \<noteq> f" "dir \<noteq> t" "f \<noteq> t"
    using a(9,10) by auto
  note w = write_dir_ram [OF in_use_page [OF use(1)] in_use_page [OF use(2)] ne(1)]
  have fw: "free_list (ph ?w) b3" using write_dir_list [OF a(6) use(1,2)] .
  have n3: "0 < (\<Sum>b \<leftarrow> b3. unat (snd b))" using a(7) n by simp
  have n4: "free_pages b4 \<subseteq> free_pages bs" if "free_pages b4 \<subseteq> free_pages b3" for b4 using that a(8) by blast
  obtain p s4 b4 where 4: "task_alloc_phys 1 ?w = Some (p, s4)" "free_list (ph s4) b4"
    "free_pages b4 \<subseteq> free_pages b3" "\<forall>a. in_use b3 a \<longrightarrow> ram (ph s4) a = ram (ph ?w) a"
    "in_use b4 p" "\<not> in_use b3 p" "(\<Sum>b \<leftarrow> b3. unat (snd b)) = (\<Sum>b \<leftarrow> b4. unat (snd b)) + 1"
    using task_alloc_frame [OF fw n3] by (elim exE conjE) (rule that)
  define e where "e = task_wr 1021 (p OR 3) (task_map t s4)"
  have u4: "in_use b4 dir" "in_use b4 f" "in_use b4 t" using use in_use_mono 4(3) by blast+
  have pt: "page_of t = t" using use(3) by (rule in_use_page)
  have pk: "page_of (kernel_page_dir st) = kernel_page_dir st" using kd by (rule in_use_page)
  have c1: "init_page_tables start st = Some (dir, e)"
    unfolding init_page_tables_eq e_def using a(1,2,3,4,5) 4(1) pk by simp
  have c2: "free_list (ph e) b4" unfolding e_def
    by (rule free_list_in_use [OF 4(2) u4(3)]) (use pt in auto)
  have re: "ram (ph e) = (ram (ph s4))(t := (ram (ph s4) t)(1021 := p OR 3))"
    using pt by (simp add: e_def)
  have rd: "ram (ph e) dir = (ram (ph s3) dir)(0 := f OR 7, 511 := t OR 3, 1022 := ?k 1022, 1023 := ?k 1023)"
    using 4(4) use(1) ne w(1) by (simp add: re)
  have rf: "ram (ph e) f = (\<lambda>i. if i < 256 then 7 + of_nat i * 0x1000
      else if i < 1024 then (start OR 7) + of_nat (i - 256) * 0x1000 else ram (ph s3) f i)"
    using 4(4) use(2) ne w(1) by (simp add: re)
  have rt: "ram (ph e) t = (ram (ph s3) t)(1021 := p OR 3)"
    using 4(4) use(3) ne w(1) by (simp add: re)
  have c3: "distinct [dir, f, t, p]" using a(9) use 4(6) by auto
  have bs3: "in_use b3 a" if "in_use bs a" for a using that a(8) by (rule in_use_mono)
  have c4: "\<forall>a \<in> {dir, f, t, p}. in_use b4 a \<and> \<not> in_use bs a"
    using u4 4(5,6) a(10) bs3 by blast
  have c5: "\<forall>a. in_use bs a \<longrightarrow> ram (ph e) a = ram (ph st) a"
  proof (intro allI impI)
    fix x assume x: "in_use bs x"
    then have "x \<noteq> dir" "x \<noteq> f" "x \<noteq> t" using a(10) by auto
    then show "ram (ph e) x = ram (ph st) x"
      using 4(4) bs3 [OF x] a(11) x w(1) by (simp add: re)
  qed
  have c6: "(\<Sum>b \<leftarrow> bs. unat (snd b)) = (\<Sum>b \<leftarrow> b4. unat (snd b)) + 4" using a(7) 4(7) by simp
  show ?thesis
    by (intro exI [of _ dir] exI [of _ f] exI [of _ t] exI [of _ p] exI [of _ e] exI [of _ b4]
      conjI c1 c2 n4 [OF 4(3)] c6 c3 c4 c5) (simp_all add: rd rf rt a(12))
qed


text \<open>C18: With four free pages, \<^verbatim>\<open>init_page_tables\<close> builds an address space in fresh frames:
  the first megabyte is mapped to itself and the next three to the program's image, all
  open to user mode; the page of the task state segment is mapped for the kernel alone;
  the two topmost directory entries are the kernel's.  No memory in use is written.  The
  directory and the tables are not cleared: every other entry from the fourth on is what
  the frame held before.\<close>

theorem init_page_tables_builds:
  assumes fl: "free_list (ph st) bs" and n: "4 \<le> (\<Sum>b \<leftarrow> bs. unat (snd b))"
    and kd: "in_use bs (kernel_page_dir st)"
  shows "\<exists>dir f t p st' bs'. init_page_tables start st = Some (dir, st') \<and> free_list (ph st') bs' \<and>
    distinct [dir, f, t, p] \<and>
    (\<forall>a \<in> {dir, f, t, p}. in_use bs' a \<and> \<not> in_use bs a) \<and>
    (\<forall>a. in_use bs a \<longrightarrow> ram (ph st') a = ram (ph st) a) \<and>
    ram (ph st') dir 0 = f OR 7 \<and> ram (ph st') dir 511 = t OR 3 \<and>
    (\<forall>i \<in> {1022, 1023}. ram (ph st') dir i = ram (ph st) (kernel_page_dir st) i) \<and>
    (\<forall>i < 256. ram (ph st') f i = 7 + of_nat i * 0x1000) \<and>
    (\<forall>i. 256 \<le> i \<and> i < 1024 \<longrightarrow> ram (ph st') f i = (start OR 7) + of_nat (i - 256) * 0x1000) \<and>
    ram (ph st') t 1021 = p OR 3 \<and>
    (\<forall>i \<ge> 3. i \<notin> {511, 1022, 1023} \<longrightarrow> ram (ph st') dir i = ram (ph st) dir i) \<and>
    (\<forall>i \<ge> 3. i \<noteq> 1021 \<longrightarrow> ram (ph st') t i = ram (ph st) t i)"
  using init_page_tables_run [OF assms, of start]
  by (elim exE conjE) ((rule exI)+, (rule conjI | assumption)+)

section \<open>Concrete states\<close>

text \<open>Two threads in the ring, of which the given ones are suspended; five free pages.\<close>

definition demo_task :: "u32 set \<Rightarrow> task_state" where
  "demo_task sus = \<lparr>vm = demo_vm (demo_mem [(0x2000, 0x2000, 0x2000, 5)] 5 0x2000),
     rings = demo_store2, processes = (\<lambda>_. \<lparr>p_suspend = False, thread_count = 1, p_name = []\<rparr>),
     threads = (\<lambda>t. \<lparr>t_process = 7, t_suspend = t \<in> sus, stack_base = 0, stack_size = 0,
       t_state = zero_registers\<lparr>r_eip := t\<rparr>\<rparr>),
     current_process = 7, current_thread = 200, kernel_process = 7, kernel_thread = 200,
     kernel_page_dir = 0x1000, multitasking_enabled = True, cr3 = 0x1000, switch_mark = 0\<rparr>"

lemma demo_task_simps [simp]:
  "multitasking_enabled (demo_task sus)" "current_thread (demo_task sus) = 200"
  "kernel_page_dir (demo_task sus) = 0x1000"
  "t_state (threads (demo_task sus) t) = zero_registers\<lparr>r_eip := t\<rparr>"
  "runnable (demo_task sus) t \<longleftrightarrow> t \<notin> sus"
  by (simp_all add: demo_task_def runnable_def)

lemma demo_task_ring: "list_holds (rings (demo_task sus)) thread_list [200, 300]"
  by (simp add: demo_task_def demo_store2_def list_holds_def ring_def get_next_def get_prev_def)

lemma demo_task_free: "free_list (ph (demo_task sus)) [(0x2000, 5)]"
  by (simp add: demo_task_def demo_vm_def demo_simps)

theorem switch_task_round_robin_witness:
  "\<exists>st'. switch_task zero_registers 0 (demo_task {}) = Some (zero_registers\<lparr>r_eip := 300\<rparr>, st') \<and>
     current_thread st' = 300"
proof -
  obtain d regs' st' where d: "chosen (demo_task {}) [200, 300] 0 d"
    "switch_task zero_registers 0 (demo_task {}) = Some (regs', st')"
    "current_thread st' = nth_after [200, 300] 0 d"
    "regs' = (if nth_after [200, 300] 0 d = [200, 300] ! 0 then zero_registers
       else t_state (threads (demo_task {}) (nth_after [200, 300] 0 d)))"
    using switch_task_round_robin [OF _ demo_task_ring, of "{}" 0 zero_registers 0] by auto
  have "\<not> 1 < d" using d(1) by (auto simp: chosen_def)
  then have "d = 1" using d(1) by (simp add: chosen_def)
  then show ?thesis using d by (simp add: nth_after_def)
qed

theorem switch_task_hangs_witness:
  "switch_task zero_registers 0 (demo_task {200, 300}) = None"
  by (rule switch_task_hangs [OF _ demo_task_ring]) simp_all

theorem context_preserved_witness:
  "\<exists>outs st'. switches [(zero_registers\<lparr>r_eax := 5\<rparr>, 0), (zero_registers, 0)] (demo_task {}) =
     Some (outs, st') \<and> fst (last outs) = zero_registers\<lparr>r_eax := 5\<rparr>"
proof -
  let ?a = "zero_registers\<lparr>r_eax := 5\<rparr>"
  have nt: "next_thread s t = Some (get_next (rings s) t)"
    if "runnable s (get_next (rings s) t)" for s t
    using that by (subst next_thread.simps) simp
  have ring: "get_next (rings (demo_task {})) 200 = 300" "get_next (rings (demo_task {})) 300 = 200"
    by (simp_all add: demo_task_def demo_store2_def get_next_def)
  obtain r u where u: "switch_task ?a 0 (demo_task {}) = Some (r, u)" "current_thread u = 300"
    "multitasking_enabled u" "rings u = rings (demo_task {})" "processes u = processes (demo_task {})"
    "threads u = (threads (demo_task {}))(200 := (threads (demo_task {}) 200)\<lparr>t_state := ?a\<rparr>)"
    using switch_task_found [of "demo_task {}" 200 ?a 300 0] nt ring by auto
  have ru: "runnable u t" for t
    using u(5,6) by (simp add: runnable_def demo_task_def)
  obtain q v where v: "switch_task zero_registers 0 u = Some (q, v)" "current_thread v = 200"
    using switch_task_found [of u 300 zero_registers 200 0] nt ring u(2,3,4) ru by auto
  have sw: "switches [(?a, 0), (zero_registers, 0)] (demo_task {}) = Some ([(r, 300)] @ (q, 200) # [], v)"
    using u(1,2) v by simp
  have "q = ?a" by (rule context_preserved [OF sw]) simp_all
  then show ?thesis using sw by simp
qed

theorem switches_fair_witness:
  "\<exists>outs st'. switches [(zero_registers, 0), (zero_registers, 0)] (demo_task {200}) = Some (outs, st') \<and>
     300 \<in> snd ` set outs"
  by (rule switches_fair [OF _ demo_task_ring]) simp_all

theorem init_page_tables_builds_witness:
  "\<exists>dir f st'. init_page_tables 0x100000 (demo_task {}) = Some (dir, st') \<and>
     ram (ph st') dir 0 = f OR 7 \<and> ram (ph st') f 0 = 7 \<and> ram (ph st') f 256 = 0x100007"
proof -
  have "in_use [(0x2000, 5)] 0x1000"
    by (simp add: in_use_def free_pages_def pages_def aligned_def page_of_def)
  from init_page_tables_builds [OF demo_task_free, of "{}" "0x100000"] this
  obtain dir f st' where *: "init_page_tables 0x100000 (demo_task {}) = Some (dir, st')"
    "ram (ph st') dir 0 = f OR 7" "\<forall>i < 256. ram (ph st') f i = 7 + of_nat i * 0x1000"
    "\<forall>i. 256 \<le> i \<and> i < 1024 \<longrightarrow> ram (ph st') f i = (0x100000 OR 7) + of_nat (i - 256) * 0x1000"
    by auto
  then show ?thesis using *(3) [rule_format, of 0] *(4) [rule_format, of 256]
    by (intro exI [of _ dir] exI [of _ f] exI [of _ st']) simp
qed

end
