(* ===== verification/Interrupts.thy ===== *)
theory Interrupts
  imports Floppy Keyboard Multitasking
begin

text \<open>
  Interrupts and system calls, \<^verbatim>\<open>src/kernel/interrupts.c\<close> and \<^verbatim>\<open>src/kernel/syscall.c\<close>: the
  descriptor table, the set-up of the interrupt controllers, the dispatcher that calls the
  other components, and the one system call.  The addresses of the assembly stubs are a
  parameter, and so is what EAX holds when \<^verbatim>\<open>printf\<close> returns.
\<close>

section \<open>Definitions\<close>

record int_desc =
  address_0_15 :: u16
  selector :: u16
  reserved :: u8
  gate_type :: u8
  address_16_31 :: u16

definition zero_desc :: int_desc where
  "zero_desc = \<lparr>address_0_15 = 0, selector = 0, reserved = 0, gate_type = 0, address_16_31 = 0\<rparr>"

record kernel_state = floppy +
  idt :: "u8 \<Rightarrow> int_desc"
  idt_limit :: u16
  idt_base :: u32
  irq_base :: u8
  irq_count :: u8
  tasks :: task_state
  keys :: keyboard
  terminal :: tty

definition set_int_handler :: "u8 \<Rightarrow> u32 \<Rightarrow> u8 \<Rightarrow> kernel_state \<Rightarrow> kernel_state" where
  "set_int_handler index handler type st =
     st\<lparr>idt := (idt st)(index := (idt st index)\<lparr>selector := 8,
       address_0_15 := ucast (handler AND 0xFFFF), address_16_31 := ucast (drop_bit 16 handler),
       gate_type := type, reserved := 0\<rparr>)\<rparr>"

text \<open>The loop over the handlers of the interrupt requests, \<open>n\<close> of them from the \<open>i\<close>-th.\<close>

fun set_irq_handlers :: "nat \<Rightarrow> nat \<Rightarrow> (nat \<Rightarrow> u32) \<Rightarrow> kernel_state \<Rightarrow> kernel_state" where
  "set_irq_handlers 0 i irq_handlers st = st"
| "set_irq_handlers (Suc n) i irq_handlers st =
     set_irq_handlers n (i + 1) irq_handlers (set_int_handler (irq_base st + of_nat i) (irq_handlers i) 0x8E st)"

definition init_interrupts :: "(nat \<Rightarrow> u32) \<Rightarrow> kernel_state \<Rightarrow> kernel_state option" where
  "init_interrupts irq_handlers st = do {
     (a, t) \<leftarrow> task_alloc_virt Kernel_Space 0 1 (PAGE_PRESENT OR PAGE_WRITABLE OR PAGE_GLOBAL) (tasks st);
     let st = st\<lparr>tasks := t, idt := (\<lambda>_. zero_desc), idt_limit := 256 * 8, idt_base := a,
                irq_base := 0x20, irq_count := 16\<rparr>;
     let st = outb 0x20 0x11 st;
     let st = outb 0x21 (irq_base st) st;
     let st = outb 0x21 4 st;
     let st = outb 0x21 1 st;
     let st = outb 0xA0 0x11 st;
     let st = outb 0xA1 (irq_base st + 8) st;
     let st = outb 0xA1 2 st;
     let st = outb 0xA1 1 st;
     let st = set_irq_handlers 16 0 irq_handlers st;
     Some (set_int_handler (irq_base st + 16) (irq_handlers 16) 0xEE st)
   }"

text \<open>
  The system call pushes EDI, ESI, EDX, ECX and EBX: to the function called they are its
  arguments, EBX the first.  The table has one entry, \<^verbatim>\<open>printf\<close>.
\<close>

abbreviation (input) num_syscalls :: u32 where "num_syscalls \<equiv> 1"

definition syscall_handler :: "u32 \<Rightarrow> registers \<Rightarrow> tty \<Rightarrow> (registers \<times> tty) option" where
  "syscall_handler ret regs t =
     (if num_syscalls \<le> r_eax regs then Some (regs, t)
      else do {
        t \<leftarrow> printf (r_ebx regs) [r_ecx regs, r_edx regs, r_esi regs, r_edi regs] t;
        Some (regs\<lparr>r_eax := ret\<rparr>, t)
      })"

definition irq_handler ::
  "hardware \<Rightarrow> u32 \<Rightarrow> u32 \<Rightarrow> u32 \<Rightarrow> registers \<Rightarrow> kernel_state \<Rightarrow> (registers \<times> kernel_state) option" where
  "irq_handler hw ret esp index regs st =
     (if index = 0 then do {
        let st = inc_pit_ticks st;
        (regs, t) \<leftarrow> switch_task regs esp (tasks st);
        Some (regs, st\<lparr>tasks := t\<rparr>)
      }
      else if index = 1 then
        let (key_code, st) = inb hw 0x60 st;
            (status, st) = inb hw 0x61 st;
            (k, t) = keyboard_interrupt key_code status (keys st, terminal st)
        in Some (regs, st\<lparr>keys := k, terminal := t\<rparr>)
      else if index = 6 then Some (regs, i86_flpy_irq st)
      else if index = 16 then do {
        (regs, t) \<leftarrow> syscall_handler ret regs (terminal st);
        Some (regs, st\<lparr>terminal := t\<rparr>)
      }
      else Some (regs, st))"

section \<open>The descriptor table\<close>

text \<open>Where a gate leads.\<close>

definition gate_target :: "int_desc \<Rightarrow> u32" where
  "gate_target d = ucast (address_0_15 d) OR push_bit 16 (ucast (address_16_31 d))"

lemma split_address: "ucast (ucast (h AND 0xFFFF) :: u16) OR push_bit 16 (ucast (ucast (drop_bit 16 h) :: u16)) = (h :: u32)"
proof -
  have "h AND 0xFFFF = take_bit 16 h" by (simp add: take_bit_eq_mask mask_eq_exp_minus_1)
  moreover have "ucast (ucast (take_bit 16 h) :: u16) OR push_bit 16 (ucast (ucast (drop_bit 16 h) :: u16)) = h"
  proof (rule bit_word_eqI)
    fix n assume "n < LENGTH(32)"
    then show "bit (ucast (ucast (take_bit 16 h) :: u16) OR push_bit 16 (ucast (ucast (drop_bit 16 h) :: u16)) :: u32) n = bit h n"
      by (cases "n < 16") (auto simp: bit_or_iff bit_push_bit_iff bit_unsigned_iff bit_drop_bit_eq
        bit_take_bit_iff possible_bit_word)
  qed
  ultimately show ?thesis by simp
qed

text \<open>A gate is written whole.\<close>

definition gate :: "u32 \<Rightarrow> u8 \<Rightarrow> int_desc" where
  "gate h ty = \<lparr>address_0_15 = ucast (h AND 0xFFFF), selector = 8, reserved = 0, gate_type = ty,
     address_16_31 = ucast (drop_bit 16 h)\<rparr>"

lemma set_int_handler_eq: "set_int_handler i h ty st = st\<lparr>idt := (idt st)(i := gate h ty)\<rparr>"
  by (cases "idt st i") (simp add: set_int_handler_def gate_def)

lemma gate_round_trip: "gate_target (gate h ty) = h"
  by (simp add: gate_target_def gate_def split_address)

text \<open>Round trip through a gate: the entry that \<^verbatim>\<open>set_int_handler\<close> writes leads to the handler it
  was given, in the kernel's code segment and with the given type; other entries stay.\<close>

theorem set_int_handler_roundtrip:
  "gate_target (idt (set_int_handler i h ty st) i) = h \<and> selector (idt (set_int_handler i h ty st) i) = 8 \<and>
   gate_type (idt (set_int_handler i h ty st) i) = ty \<and>
   (\<forall>j. j \<noteq> i \<longrightarrow> idt (set_int_handler i h ty st) j = idt st j)"
  by (simp add: set_int_handler_eq gate_round_trip) (simp add: gate_def)

lemma vector_eq:
  assumes "i < 16"
  shows "j = 0x20 + of_nat i \<longleftrightarrow> unat (j - 0x20 :: u8) = i"
proof -
  have "unat (of_nat i :: u8) = i" using assms by (simp add: unsigned_of_nat take_bit_nat_eq_self)
  then have "unat (j - 0x20) = i \<longleftrightarrow> j - 0x20 = of_nat i" by (metis word_unat_eq_iff)
  then show ?thesis by (auto simp: algebra_simps)
qed

lemma set_irq_handlers_idt:
  assumes "irq_base st = 0x20" and "i + n \<le> 16"
  shows "idt (set_irq_handlers n i hs st) = (\<lambda>j. let k = unat (j - 0x20)
      in if i \<le> k \<and> k < i + n then gate (hs k) 0x8E else idt st j) \<and>
    irq_base (set_irq_handlers n i hs st) = 0x20 \<and> io_log (set_irq_handlers n i hs st) = io_log st \<and>
    tasks (set_irq_handlers n i hs st) = tasks st"
  using assms
proof (induction n arbitrary: i st)
  case 0
  then show ?case by (auto simp: fun_eq_iff Let_def)
next
  case (Suc n)
  have i: "i < 16" using Suc.prems by simp
  let ?s = "set_int_handler (0x20 + of_nat i) (hs i) 0x8E st"
  have s: "irq_base ?s = 0x20" "io_log ?s = io_log st" "tasks ?s = tasks st"
    "idt ?s = (idt st)(0x20 + of_nat i := gate (hs i) 0x8E)"
    using Suc.prems by (simp_all add: set_int_handler_eq)
  have "Suc i + n \<le> 16" using Suc.prems by simp
  note IH = Suc.IH [OF s(1) this]
  have "idt ?s j = (if unat (j - 0x20) = i then gate (hs i) 0x8E else idt st j)" for j
    using vector_eq [OF i, of j] by (simp add: s(4))
  then show ?case using IH s Suc.prems(1) by (auto simp: fun_eq_iff Let_def)
qed

section \<open>The interrupt controllers\<close>

text \<open>
  One controller behind its two ports.  A command with bit 4 starts the initialisation; the
  data that follow are the base vector, the cascade wiring and the mode.
\<close>

record pic =
  expects :: nat
  vector_base :: u8
  cascade :: u8
  pic_mode :: u8
  pic_mask :: u8

fun pic_step :: "u16 \<Rightarrow> io_event \<Rightarrow> pic \<Rightarrow> pic" where
  "pic_step base (In p v) c = c"
| "pic_step base (Out p v) c =
     (if p = base then (if v AND 0x10 \<noteq> 0 then c\<lparr>expects := 2, pic_mask := 0\<rparr> else c)
      else if p = base + 1 then
        (if expects c = 2 then c\<lparr>vector_base := v, expects := 3\<rparr>
         else if expects c = 3 then c\<lparr>cascade := v, expects := 4\<rparr>
         else if expects c = 4 then c\<lparr>pic_mode := v, expects := 0\<rparr>
         else c\<lparr>pic_mask := v\<rparr>)
      else c)"

text \<open>
  Both controllers are set: they raise the vectors from \<open>0x20\<close> and \<open>0x28\<close> on, the second through the line 2 of
  the first, and let every request through.  Both read only the writes to their own two ports.
\<close>

definition controllers_set :: "io_event list \<Rightarrow> bool" where
  "controllers_set es \<longleftrightarrow> (\<forall>c. let m = fold (pic_step 0x20) es c; s = fold (pic_step 0xA0) es c
      in vector_base m = 0x20 \<and> vector_base s = 0x28 \<and> cascade m = 4 \<and> cascade s = 2 \<and>
         pic_mode m = 1 \<and> pic_mode s = 1 \<and> pic_mask m = 0 \<and> pic_mask s = 0)"

definition pic_writes :: "(u16 \<times> u8) list" where
  "pic_writes = [(0x20, 0x11), (0x21, 0x20), (0x21, 4), (0x21, 1), (0xA0, 0x11), (0xA1, 0x28), (0xA1, 2), (0xA1, 1)]"

definition pic_told :: "u16 \<Rightarrow> u16 \<times> u8 \<Rightarrow> pic \<Rightarrow> pic" where
  "pic_told base w = pic_step base (Out (fst w) (snd w))"

lemma pic_fold: "base \<in> P \<Longrightarrow> base + 1 \<in> P \<Longrightarrow> fold (pic_step base) es c = fold (pic_told base) (writes_to P es) c"
proof (induction es arbitrary: c)
  case (Cons e es)
  then show ?case by (cases e) (auto simp: pic_told_def)
qed simp

text \<open>Writes to other ports behind those leave the controllers as they are.\<close>

lemma controllers_told:
  assumes "writes_to device_ports es = pic_writes @ ws" and "\<forall>w \<in> set ws. fst w \<notin> {0x20, 0x21, 0xA0, 0xA1}"
  shows "controllers_set es"
proof -
  have o: "fold (pic_told base) ws c = c" if "base = 0x20 \<or> base = 0xA0" for base c
    using assms(2) that by (induction ws) (auto simp: pic_told_def)
  have "fold (pic_step 0x20) es c = fold (pic_told 0x20) pic_writes c" "fold (pic_step 0xA0) es c = fold (pic_told 0xA0) pic_writes c" for c
    using pic_fold [of "0x20" device_ports es c] pic_fold [of "0xA0" device_ports es c] o by (simp_all add: assms(1))
  then show ?thesis by (simp add: controllers_set_def Let_def pic_writes_def pic_told_def)
qed

text \<open>The table: gate \<open>0x20 + n\<close> leads to handler \<open>n\<close>, gate \<open>0x30\<close> to that of system calls, and the others are empty.\<close>

definition gates_set :: "(nat \<Rightarrow> u32) \<Rightarrow> (u8 \<Rightarrow> int_desc) \<Rightarrow> bool" where
  "gates_set hs d \<longleftrightarrow> (\<forall>n < 16. d (0x20 + of_nat n) = gate (hs n) 0x8E \<and> gate_target (d (0x20 + of_nat n)) = hs n) \<and>
     d 0x30 = gate (hs 16) 0xEE \<and> gate_target (d 0x30) = hs 16 \<and> (\<forall>j. 16 < unat (j - 0x20) \<longrightarrow> d j = zero_desc)"

lemma set_irq_handlers_frame:
  "\<exists>d. set_irq_handlers n i hs st = st\<lparr>idt := d\<rparr>"
proof (induction n arbitrary: i st)
  case 0
  then show ?case by (intro exI [of _ "idt st"]) simp
next
  case (Suc n)
  obtain d where "set_irq_handlers n (i + 1) hs (st\<lparr>idt := (idt st)(irq_base st + of_nat i := gate (hs i) 0x8E)\<rparr>) =
      st\<lparr>idt := (idt st)(irq_base st + of_nat i := gate (hs i) 0x8E)\<rparr>\<lparr>idt := d\<rparr>" using Suc.IH by blast
  then show ?case by (intro exI [of _ d]) (simp add: set_int_handler_eq)
qed

lemma init_interrupts_run:
  assumes "task_alloc_virt Kernel_Space 0 1 (PAGE_PRESENT OR PAGE_WRITABLE OR PAGE_GLOBAL) (tasks st) = Some (a, t)"
  shows "\<exists>d es. init_interrupts hs st = Some (st\<lparr>tasks := t, io_log := io_log st @ es, idt := d, idt_limit := 256 * 8,
      idt_base := a, irq_base := 0x20, irq_count := 16\<rparr>) \<and> writes_to device_ports es = pic_writes \<and> gates_set hs d"
proof -
  define s0 where "s0 = st\<lparr>tasks := t, idt := (\<lambda>_. zero_desc), idt_limit := 256 * 8, idt_base := a,
                irq_base := 0x20, irq_count := 16\<rparr>"
  let ?es = "[Out 0x20 0x11, Out 0x21 0x20, Out 0x21 4, Out 0x21 1,
    Out 0xA0 0x11, Out 0xA1 0x28, Out 0xA1 2, Out 0xA1 1]"
  define s1 where "s1 = s0\<lparr>io_log := io_log s0 @ ?es\<rparr>"
  define s2 where "s2 = set_irq_handlers 16 0 hs s1"
  obtain d2 where d2: "s2 = s1\<lparr>idt := d2\<rparr>" using set_irq_handlers_frame [of 16 0 hs s1] unfolding s2_def by blast
  have "irq_base s1 = 0x20" "idt s1 = (\<lambda>_. zero_desc)" by (simp_all add: s1_def s0_def)
  from set_irq_handlers_idt [OF this(1), of 0 16 hs] this(2)
  have s2: "d2 = (\<lambda>j. if unat (j - 0x20) < 16 then gate (hs (unat (j - 0x20))) 0x8E else zero_desc)"
    using d2 by (simp add: s2_def Let_def fun_eq_iff)
  define d where "d = d2(0x30 := gate (hs 16) 0xEE)"
  have "init_interrupts hs st = Some (set_int_handler 0x30 (hs 16) 0xEE s2)"
    using assms d2 by (simp add: init_interrupts_def Let_def outb_def s2_def s1_def s0_def)
  also have "set_int_handler 0x30 (hs 16) 0xEE s2 = st\<lparr>tasks := t, io_log := io_log st @ ?es, idt := d, idt_limit := 256 * 8,
      idt_base := a, irq_base := 0x20, irq_count := 16\<rparr>"
    unfolding set_int_handler_eq d2 by (simp add: s1_def s0_def d_def)
  finally have "init_interrupts hs st = Some (st\<lparr>tasks := t, io_log := io_log st @ ?es, idt := d, idt_limit := 256 * 8,
      idt_base := a, irq_base := 0x20, irq_count := 16\<rparr>)" .
  moreover have "d (0x20 + of_nat n) = gate (hs n) 0x8E" if "n < 16" for n
  proof -
    have u: "unat (0x20 + of_nat n - 0x20 :: u8) = n" using vector_eq [OF that] by blast
    then have "0x20 + of_nat n \<noteq> (0x30 :: u8)" using that by auto
    then show ?thesis using u that by (simp add: d_def s2)
  qed
  moreover have "d j = zero_desc" if "16 < unat (j - 0x20)" for j
    using that by (auto simp: d_def s2)
  moreover have "d 0x30 = gate (hs 16) 0xEE" by (simp add: d_def)
  ultimately show ?thesis
    by (intro exI [of _ d] exI [of _ ?es]) (simp add: gates_set_def gate_round_trip pic_writes_def)
qed

text \<open>C28: After \<^verbatim>\<open>init_interrupts\<close>, if its page is allocated, the two controllers raise the
  vectors from \<open>0x20\<close> and \<open>0x28\<close> on, so that request \<open>n\<close> of the sixteen leads through gate
  \<open>0x20 + n\<close> to handler \<open>n\<close>, which user programs cannot call; gate \<open>0x30\<close> leads to the system
  call handler, which they can; every other entry of the table is empty.\<close>

theorem init_interrupts_routes:
  assumes "task_alloc_virt Kernel_Space 0 1 (PAGE_PRESENT OR PAGE_WRITABLE OR PAGE_GLOBAL) (tasks st) = Some (a, t)"
  shows "\<exists>st' es. init_interrupts hs st = Some st' \<and> io_log st' = io_log st @ es \<and>
    (\<forall>c. let m = fold (pic_step 0x20) es c; s = fold (pic_step 0xA0) es c
      in vector_base m = 0x20 \<and> vector_base s = 0x28 \<and> cascade m = 4 \<and> cascade s = 2 \<and>
         pic_mode m = 1 \<and> pic_mode s = 1 \<and> pic_mask m = 0 \<and> pic_mask s = 0) \<and>
    (\<forall>n < 16. idt st' (0x20 + of_nat n) = gate (hs n) 0x8E \<and> gate_target (idt st' (0x20 + of_nat n)) = hs n) \<and>
    idt st' 0x30 = gate (hs 16) 0xEE \<and> gate_target (idt st' 0x30) = hs 16 \<and>
    (\<forall>j. 16 < unat (j - 0x20) \<longrightarrow> idt st' j = zero_desc)"
proof -
  from init_interrupts_run [OF assms, of hs] obtain d es where
    1: "init_interrupts hs st = Some (st\<lparr>tasks := t, io_log := io_log st @ es, idt := d, idt_limit := 256 * 8,
      idt_base := a, irq_base := 0x20, irq_count := 16\<rparr>)" "writes_to device_ports es = pic_writes" "gates_set hs d" by blast
  have "controllers_set es" using controllers_told [of es "[]"] 1(2) by simp
  then show ?thesis using 1(1,3) unfolding controllers_set_def gates_set_def by fastforce
qed

section \<open>Dispatch\<close>

text \<open>A system call with a valid number prints through the terminal: with the format and
  its strings outside the screen and \<^verbatim>\<open>num_buffer\<close>, the screen shows what the format says of ECX, EDX,
  ESI and EDI, only EAX of the caller's registers changes, and no task is touched.  A call
  with any other number changes nothing.\<close>

theorem syscall_prints:
  assumes "r_eax regs = 0" and "tty_ok (terminal st)" and "\<forall>x \<in> num_bytes (terminal st). off_screen (terminal st) x"
    and "string_at (num_bytes (terminal st)) (terminal st) (r_ebx regs) f"
    and "renders (string_at (num_bytes (terminal st)) (terminal st)) f [r_ecx regs, r_edx regs, r_esi regs, r_edi regs] out"
  shows "(\<exists>t. irq_handler hw ret esp 16 regs st = Some (regs\<lparr>r_eax := ret\<rparr>, st\<lparr>terminal := t\<rparr>) \<and> tty_ok t \<and>
      screen_of t = fold (term_put (W (terminal st)) (H (terminal st)) (text_attr (terminal st))) out
        (screen_of (terminal st))) \<and>
    (\<forall>n. n \<noteq> 0 \<longrightarrow> irq_handler hw ret esp 16 (regs\<lparr>r_eax := n\<rparr>) st = Some (regs\<lparr>r_eax := n\<rparr>, st))"
proof -
  obtain t where t: "printf (r_ebx regs) [r_ecx regs, r_edx regs, r_esi regs, r_edi regs] (terminal st) = Some t"
    "wrote (num_bytes (terminal st)) out (terminal st) t"
    using printf_run [OF assms(5,3,2) wrote_nil [OF assms(2)] assms(4)] by blast
  have "irq_handler hw ret esp 16 regs st = Some (regs\<lparr>r_eax := ret\<rparr>, st\<lparr>terminal := t\<rparr>)"
    using t(1) assms(1) by (simp add: irq_handler_def syscall_handler_def)
  moreover have "1 \<le> n" if "n \<noteq> 0" for n :: u32
    using that by (simp add: word_le_nat_alt Suc_le_eq unat_gt_0)
  ultimately show ?thesis
    using t(2) by (auto simp: wrote_def irq_handler_def syscall_handler_def)
qed


section \<open>A concrete kernel\<close>

lemma demo_alloc:
  "\<exists>st'. alloc_virt_pages Kernel_Space 0 (- 1) 1 flags (demo_vm demo_phys) = Some (0x7FE000, st')"
proof -
  have tabs: "\<forall>w. page_no 0x7FE000 \<le> page_no w \<and> page_no w < page_no 0x7FE000 + unat (1 :: u32) \<longrightarrow>
      present (dir_entry demo_phys 0x1000 (page_index 22 w))"
  proof (intro allI impI)
    fix w assume "page_no 0x7FE000 \<le> page_no w \<and> page_no w < page_no 0x7FE000 + unat (1 :: u32)"
    then have "page_no w = page_no 0x7FE000" by simp
    moreover have "page_no 0x7FE000 = 2046" by (simp add: page_no_def)
    ultimately show "present (dir_entry demo_phys 0x1000 (page_index 22 w))"
      using demo_present by (simp add: page_index_22)
  qed
  have "page_no 0x7FE000 + unat (1 :: u32) \<le> 2 ^ 20" by (simp add: page_no_def)
  then show ?thesis
    using alloc_virt_run [of "demo_vm demo_phys" Kernel_Space 0 1 "0x7FE000" 1 "[(0x2000, 3)]" flags]
      demo_choose demo_phys_ok tabs by (auto simp: demo_vm_simps)
qed

definition demo_kernel :: "u8 list \<Rightarrow> kernel_state" where
  "demo_kernel bs = \<lparr>io_log = [], pit_ticks = 0, current_drive = 0, irq_received = False, DMA_BUFFER = 0,
     idt = (\<lambda>_. zero_desc), idt_limit = 0, idt_base = 0, irq_base = 0, irq_count = 0,
     tasks = (demo_task {})\<lparr>vm := demo_vm demo_phys\<rparr>, keys = demo_keys, terminal = demo_tty bs\<rparr>"

theorem set_int_handler_roundtrip_witness:
  "gate_target (idt (set_int_handler 0x21 0xFFC01234 0x8E (demo_kernel [])) 0x21) = 0xFFC01234 \<and>
   idt (set_int_handler 0x21 0xFFC01234 0x8E (demo_kernel [])) 0x20 = zero_desc"
  using set_int_handler_roundtrip [of "0x21" "0xFFC01234" "0x8E" "demo_kernel []"]
  by (simp add: demo_kernel_def)

theorem init_interrupts_routes_witness:
  "\<exists>st'. init_interrupts (\<lambda>n. 0xFFC00000 + of_nat n) (demo_kernel []) = Some st' \<and>
     gate_target (idt st' 0x21) = 0xFFC00001 \<and> idt st' 0x31 = zero_desc"
proof -
  obtain v where "alloc_virt_pages Kernel_Space 0 (- 1) 1 (PAGE_PRESENT OR PAGE_WRITABLE OR PAGE_GLOBAL)
      (demo_vm demo_phys) = Some (0x7FE000, v)"
    using demo_alloc by blast
  then have "task_alloc_virt Kernel_Space 0 1 (PAGE_PRESENT OR PAGE_WRITABLE OR PAGE_GLOBAL)
      (tasks (demo_kernel [])) = Some (0x7FE000, (tasks (demo_kernel []))\<lparr>vm := v\<rparr>)"
    by (simp add: task_alloc_virt_def demo_kernel_def)
  from init_interrupts_routes [OF this, of "\<lambda>n. 0xFFC00000 + of_nat n"] obtain st' where
    st': "init_interrupts (\<lambda>n. 0xFFC00000 + of_nat n) (demo_kernel []) = Some st'"
    "\<forall>n < 16. gate_target (idt st' (0x20 + of_nat n)) = 0xFFC00000 + of_nat n"
    "\<forall>j. 16 < unat (j - 0x20) \<longrightarrow> idt st' j = zero_desc"
    by blast
  show ?thesis using st'(1) st'(2) [rule_format, of 1] st'(3) [rule_format, of "0x31"] by simp
qed

theorem syscall_prints_witness:
  "\<exists>t. irq_handler (demo_hw 0) 7 0 16 (zero_registers\<lparr>r_ebx := 0x4000, r_ecx := 12\<rparr>) (demo_kernel [61, 37, 100]) =
       Some (zero_registers\<lparr>r_ebx := 0x4000, r_ecx := 12, r_eax := 7\<rparr>, (demo_kernel [61, 37, 100])\<lparr>terminal := t\<rparr>) \<and>
     screen_of t = fold (term_put 80 25 7) [61, 49, 50] (screen_of (demo_tty [61, 37, 100]))"
proof -
  let ?d = "demo_tty [61, 37, 100]"
  have k: "terminal (demo_kernel [61, 37, 100]) = ?d" by (simp add: demo_kernel_def)
  have "\<forall>i \<le> length [61 :: u8, 37, 100]. readable (num_bytes ?d) ?d (0x4000 + of_nat i)"
    by (simp add: readable_def num_bytes_def demo_tty_simps demo_off All_less_Suc less_Suc_eq_le [symmetric])
  then have s: "string_at (num_bytes ?d) ?d 0x4000 [61, 37, 100]"
    by (simp add: string_at_def demo_tty_simps)
  have n: "num_str (unat (10 :: u8)) (unat (12 :: u32)) = [49, 50]"
    by (simp add: num_str.simps [of 10] digits_def)
  have "renders R [61, 37, 100] [12, 0, 0, 0] (61 # num_str (unat (10 :: u8)) (unat (12 :: u32)) @ [])" for R
    by (intro renders.plain renders.num renders.empty) (simp_all add: base_of_def)
  then have r: "renders R [61, 37, 100] [12, 0, 0, 0] [61, 49, 50]" for R unfolding n by simp
  show ?thesis
    using syscall_prints [of "zero_registers\<lparr>r_ebx := 0x4000, r_ecx := 12\<rparr>" "demo_kernel [61, 37, 100]"
      "[61, 37, 100]" "[61, 49, 50]" "demo_hw 0" 7 0] demo_tty_ok(1) demo_num_off s r
    by (auto simp: k zero_registers_def demo_tty_simps(1,2,6))
qed

end
