(* ===== verification/Listfs.thy ===== *)
theory Listfs
  imports Interrupts Listfs_Format
begin

text \<open>
  The file system as the kernel reads it: \<^verbatim>\<open>src/kernel/listfs.c\<close> and the functions of
  \<^verbatim>\<open>src/kernel/kernel.c\<close> that look for a file.  They read a diskette through the floppy driver: a
  drive is added to the hardware that carries out the commands the driver sends, and puts
  sectors where the DMA controller is programmed to.
\<close>

section \<open>The drive\<close>

text \<open>
  A command to the drive is complete when all its bytes have come; a command that is not
  known has one byte.
\<close>

record controllers = dmac +
  fifo :: "u8 list"

definition command_length :: "u8 \<Rightarrow> nat" where
  "command_length v =
     (let c = v AND 0x1F
      in if c = 3 then 3 else if c = 6 then 9 else if c = 7 then 2 else if c = 0x0f then 3 else 1)"

text \<open>
  Reading sectors: the bytes from the cylinder, head and sector of the command on go to the
  address in the page and address registers, the latter counting within 64 KB, until the
  count is used up.
\<close>

definition transfer :: "(nat \<Rightarrow> u8) \<Rightarrow> u8 list \<Rightarrow> controllers \<Rightarrow> mem \<Rightarrow> mem" where
  "transfer img cmd d m =
     (if masked2 d \<or> mode2 d AND 0x0C \<noteq> 4 then m
      else
        let lba = (unat (cmd ! 2) * 2 + unat (cmd ! 3)) * 18 + (unat (cmd ! 4) - 1)
        in (\<lambda>x. let k = ucast x - addr2 d
                in if drop_bit 16 x = ucast (page2 d) \<and> k \<le> count2 d then img (512 * lba + unat k) else m x))"

definition device_write :: "(nat \<Rightarrow> u8) \<Rightarrow> u16 \<times> u8 \<Rightarrow> controllers \<times> mem \<Rightarrow> controllers \<times> mem" where
  "device_write img w s =
     (let (p, v) = w; (d, m) = s
      in if p = 0x3f5 then
           let cmd = fifo d @ [v]
           in if length cmd < command_length (hd cmd) then (d\<lparr>fifo := cmd\<rparr>, m)
              else (d\<lparr>fifo := []\<rparr>, if hd cmd AND 0x1F = 6 then transfer img cmd d m else m)
         else if p = 0x3f2 then (if v AND 4 = 0 then d\<lparr>fifo := []\<rparr> else d, m)
         else (dmac.extend (dmac_step (Out p v) (dmac.truncate d)) (dmac.more d), m))"

fun device_step :: "(nat \<Rightarrow> u8) \<Rightarrow> io_event \<Rightarrow> controllers \<times> mem \<Rightarrow> controllers \<times> mem" where
  "device_step img (In p v) s = s"
| "device_step img (Out p v) s = device_write img (p, v) s"

text \<open>
  The machine: the hardware that answers the driver, the diskette, and what the compiler
  chooses for the kernel, the addresses of its string literals and of local arrays.
\<close>

record machine =
  board :: hardware
  diskette :: "nat \<Rightarrow> u8"
  literal :: "string \<Rightarrow> u32"
  line_buffer :: u32
  number_buffer :: u32
  pause_buffer :: u32

record machine_state = kernel_state +
  devices :: controllers

definition on_floppy :: "(floppy \<Rightarrow> floppy) \<Rightarrow> machine_state \<Rightarrow> machine_state" where
  "on_floppy f st = floppy.extend (f (floppy.truncate st)) (floppy.more st)"

text \<open>The driver has gone on to \<open>f\<close>: the devices act on what it has written since.\<close>

definition drive_acts :: "machine \<Rightarrow> floppy \<Rightarrow> machine_state \<Rightarrow> machine_state" where
  "drive_acts mc f st =
     (let es = drop (length (io_log st)) (io_log f);
          (d, m) = fold (device_step (diskette mc)) es (devices st, tty_mem (terminal st));
          st = on_floppy (\<lambda>_. f) st
      in st\<lparr>devices := d, terminal := (terminal st)\<lparr>tty_mem := m\<rparr>\<rparr>)"

definition read_sector :: "machine \<Rightarrow> u32 \<Rightarrow> machine_state \<Rightarrow> (u32 \<times> machine_state) option" where
  "read_sector mc lba st = do {
     (p, f) \<leftarrow> flpydsk_read_sector (board mc) lba (floppy.truncate st);
     Some (p, drive_acts mc f st)
   }"

section \<open>Files\<close>

text \<open>The objects a pointer leads to.\<close>

definition file_header_in :: "mem \<Rightarrow> u32 \<Rightarrow> listfs_file_header" where
  "file_header_in m p = file_header_of (map (\<lambda>k. m (p + of_nat k)) [0..<328])"

definition uint64_in :: "mem \<Rightarrow> u32 \<Rightarrow> u64" where
  "uint64_in m p = le_word (map (\<lambda>k. m (p + of_nat k)) [0..<8])"

abbreviation "memory_of st \<equiv> tty_mem (terminal st)"
abbreviation "header_at st p \<equiv> file_header_in (memory_of st) p"

definition get_file_info_by :: "machine \<Rightarrow> u32 \<Rightarrow> machine_state \<Rightarrow> (u32 \<times> machine_state) option" where
  "get_file_info_by mc sector_number st =
     read_sector mc sector_number (on_floppy (flpydsk_set_dma 0x20000) st)"

text \<open>The loop of \<^verbatim>\<open>get_file_data_pointer\<close>, from the list entry at \<open>p\<close> on.\<close>

partial_function (option) last_entry :: "mem \<Rightarrow> u32 \<Rightarrow> u32 \<Rightarrow> u32 option" where
  "last_entry m p result =
     (if uint64_in m p = - 1 then Some result else last_entry m (p + 8) (ucast (uint64_in m p)))"

definition get_file_data_pointer :: "machine \<Rightarrow> u32 \<Rightarrow> machine_state \<Rightarrow> (u32 \<times> machine_state) option" where
  "get_file_data_pointer mc n st = do {
     (sector_list, st) \<leftarrow> read_sector mc n st;
     r \<leftarrow> last_entry (memory_of st) sector_list (- 1);
     Some (r, st)
   }"

text \<open>The name is the first member of a header, so a header's address is its name's.\<close>

partial_function (option) find_file ::
  "machine \<Rightarrow> u32 \<Rightarrow> u32 \<Rightarrow> machine_state \<Rightarrow> (u32 \<times> machine_state) option" where
  "find_file mc n file_name st = do {
     (file_header, st) \<leftarrow> get_file_info_by mc n st;
     c \<leftarrow> strcmp (memory_of st) file_name file_header;
     if c = 0 then get_file_data_pointer mc (ucast (fh_data (header_at st file_header))) st
     else if fh_next (header_at st file_header) = - 1 then Some (- 1, st)
     else find_file mc (ucast (fh_next (header_at st file_header))) file_name st
   }"

definition is_there_exe :: "machine \<Rightarrow> u32 \<Rightarrow> u32 \<Rightarrow> machine_state \<Rightarrow> (bool \<times> machine_state) option" where
  "is_there_exe mc n file_name st = do {
     (r, st) \<leftarrow> find_file mc n file_name st;
     Some (r \<noteq> - 1, st)
   }"

definition alloc_dma_buffer :: "machine_state \<Rightarrow> u32 \<times> machine_state" where
  "alloc_dma_buffer st = (0x20000, on_floppy (flpydsk_set_dma 0x20000) st)"

section \<open>What a read does\<close>

lemma dmac_extend [simp]: "dmac.extend (dmac.truncate a) (dmac.more a) = a"
  by (cases a) (simp add: dmac.defs)

lemma dmac_extend_fields [simp]:
  "addr2 (dmac.extend d r) = addr2 d" "count2 (dmac.extend d r) = count2 d" "mode2 (dmac.extend d r) = mode2 d"
  "masked2 (dmac.extend d r) = masked2 d" "page2 (dmac.extend d r) = page2 d"
  "dmac.truncate (dmac.extend d r) = d" "dmac.more (dmac.extend d r) = r"
  by (cases d; simp add: dmac.defs)+

lemma fifo_extend [simp]: "fifo (dmac.extend d (dmac.more c)) = fifo c"
  by (cases c) (simp add: dmac.defs)

lemma floppy_extend [simp]: "floppy.extend (floppy.truncate a) (floppy.more a) = a"
  by (cases a) (simp add: floppy.defs)

lemma device_step_fold:
  "fold (device_step img) es s = fold (device_write img) (writes_to device_ports es) s"
proof (induction es arbitrary: s)
  case Nil
  then show ?case by simp
next
  case (Cons e es)
  show ?case
  proof (cases e)
    case (In p v)
    then show ?thesis using Cons by simp
  next
    case (Out p v)
    have "device_write img (p, v) s = s" if p: "p \<notin> device_ports"
    proof -
      have "\<not> p < 0x10" using p by (simp add: device_ports_def)
      then have "16 \<le> unat p" by (simp add: word_less_nat_alt)
      moreover have "unat p \<noteq> unat (0x81 :: u16)" using p by (metis word_unat_eq_iff device_ports_simps(3))
      ultimately have "dmac_step (Out p v) d = d" for d
        unfolding dmac_step.simps word_less_nat_alt word_unat_eq_iff [where 'a = 16] by simp
      moreover have "p \<noteq> 0x3f5" "p \<noteq> 0x3f2" using p by auto
      ultimately show ?thesis by (cases s) (simp add: device_write_def del: dmac_step.simps)
    qed
    then show ?thesis using Cons Out by simp
  qed
qed

text \<open>Programming the DMA controller writes no memory.\<close>

lemma device_step_dma:
  assumes "\<forall>e \<in> set es. \<forall>v. e \<noteq> Out 0x3f5 v \<and> e \<noteq> Out 0x3f2 v"
  shows "fold (device_step img) es (d, m) = (dmac.extend (fold dmac_step es (dmac.truncate d)) (dmac.more d), m)"
  using assms
proof (induction es arbitrary: d)
  case Nil
  then show ?case by simp
next
  case (Cons e es)
  then show ?case by (cases e) (auto simp: device_write_def simp del: dmac_step.simps(2))
qed

lemma frame_nat:
  assumes "r + 511 < 65536" and "Y < 65536" and "65536 * P + r \<le> 65536 * X + Y"
    and "65536 * X + Y - (65536 * P + r) < (512 :: nat)"
  shows "X = P \<and> r \<le> Y \<and> Y - r \<le> 511"
proof -
  have "\<not> Suc X \<le> P"
  proof
    assume "Suc X \<le> P"
    then have "65536 * Suc X \<le> 65536 * P" by (rule mult_le_mono2)
    then show False using assms(2,3) by simp
  qed
  moreover have "\<not> Suc P \<le> X"
  proof
    assume "Suc P \<le> X"
    then have "65536 * Suc P \<le> 65536 * X" by (rule mult_le_mono2)
    then show False using assms(1,4) by simp
  qed
  ultimately have "X = P" by simp
  then show ?thesis using assms by simp
qed

lemma u16_diff:
  assumes "unat a + 512 \<le> 2 ^ 24" and "unat a div 65536 = (unat a + 511) div 65536"
    and p: "65536 * unat (p :: u8) + unat (r :: u16) = unat (a :: u32)"
  shows "drop_bit 16 x = ucast p \<and> ucast x - r \<le> 511 \<longleftrightarrow> unat (x - a) < 512"
    and "drop_bit 16 x = ucast p \<Longrightarrow> ucast x - r \<le> 511 \<Longrightarrow> unat (ucast x - r) = unat (x - a)"
proof -
  define X Y where X: "X = unat x div 65536" and Y: "Y = unat x mod 65536"
  have x: "unat x = 65536 * X + Y" "Y < 65536" by (simp_all add: X Y)
  have r: "unat r < 65536" using unsigned_less [of r] by simp
  have "(unat a + 511) div 65536 = unat p"
    using assms(2) p r by (metis add.commute div_mult_self4 div_less add.right_neutral zero_neq_numeral)
  moreover have "unat a + 511 = 65536 * unat p + (unat r + 511)" using p by simp
  ultimately have "(unat r + 511) div 65536 = 0" by (metis add_eq_self_zero div_mult_self4 zero_neq_numeral)
  then have rr: "unat r + 511 < 65536" by (simp add: div_eq_0_iff)
  have ux: "unat (ucast x :: u16) = Y" by (simp add: Y unsigned_ucast_eq take_bit_eq_mod unat_mod)
  have d: "drop_bit 16 x = ucast p \<longleftrightarrow> X = unat p"
  proof -
    have "unat (drop_bit 16 x) = X" by (simp add: X drop_bit_eq_div unat_div)
    moreover have "unat (ucast p :: u32) = unat p"
      using u8_less [of p] by (simp only: unsigned_ucast_eq) (simp add: take_bit_nat_eq_self)
    ultimately show ?thesis by (metis word_unat_eq_iff)
  qed
  have s: "unat (ucast x - r) = (if unat r \<le> Y then Y - unat r else 65536 + Y - unat r)"
    using x(2) r by (simp add: unat_sub_if' ux) (simp add: add.commute)
  have t: "unat (x - a) = (if unat a \<le> unat x then unat x - unat a else 2 ^ 32 + unat x - unat a)"
    by (simp add: unat_sub_if') (simp add: add.commute)
  have le: "ucast x - r \<le> 511 \<longleftrightarrow> unat (ucast x - r) \<le> 511" by (simp add: word_le_nat_alt)
  have a: "unat a = 65536 * unat p + unat r" using p by simp
  show "drop_bit 16 x = ucast p \<and> ucast x - r \<le> 511 \<longleftrightarrow> unat (x - a) < 512"
    unfolding d le s t using x rr assms(1) a frame_nat [OF rr x(2), of "unat p" X] by auto
  show "drop_bit 16 x = ucast p \<Longrightarrow> ucast x - r \<le> 511 \<Longrightarrow> unat (ucast x - r) = unat (x - a)"
    unfolding d le s t using x rr a by auto
qed

text \<open>The memory with sector \<open>n\<close> at the address \<open>a\<close>.\<close>

definition load_sector :: "(nat \<Rightarrow> u8) \<Rightarrow> nat \<Rightarrow> u32 \<Rightarrow> mem \<Rightarrow> mem" where
  "load_sector img n a m = (\<lambda>x. if unat (x - a) < 512 then img (512 * n + unat (x - a)) else m x)"

lemma transfer_sector:
  assumes a: "dma_range a 512"
    and d: "65536 * unat (page2 d) + unat (addr2 d) = unat a" "unat (count2 d) + 1 = unat (512 :: u32)"
      "mode2 d = 0x46" "\<not> masked2 d"
    and n: "n = (unat (cmd ! 2) * 2 + unat (cmd ! 3)) * 18 + (unat (cmd ! 4) - 1)"
  shows "transfer img cmd d m = load_sector img n a m"
proof -
  have c: "count2 d = 511"
  proof -
    have "unat (count2 d) = unat (511 :: u16)" using d(2) by simp
    then show ?thesis by (simp only: word_unat_eq_iff)
  qed
  have "unat a + 512 \<le> 2 ^ 24" "unat a div 65536 = (unat a + 511) div 65536"
    using a by (simp_all add: dma_range_def)
  note u = u16_diff [OF this d(1)]
  show ?thesis
  proof (rule ext)
    fix x
    show "transfer img cmd d m x = load_sector img n a m x"
      using d(3,4) u(1) [of x] u(2) [of x] by (cases "unat (x - a) < 512") (auto simp: transfer_def n c load_sector_def Let_def)
  qed
qed

lemma transfer_fifo [simp]: "transfer img cmd (d\<lparr>fifo := f\<rparr>) m = transfer img cmd d m"
  by (simp add: transfer_def)

lemma seek_devices:
  "fifo d = [] \<Longrightarrow> fold (device_write img) ((0x3f2, v) # seek_commands drive cyl head) (d, m) = (d, m)"
  by (simp add: device_write_def seek_commands_def commands_def command_length_def)

lemma read_devices:
  assumes "fifo d = []"
  shows "fold (device_write img) (read_commands drive head track sector @ (0x3f2, 4) # reset_commands) (d, m) =
    (d, transfer img [0xE6, push_bit 2 head OR drive, track, head, sector, 2,
       if 18 \<le> uint sector + 1 then 18 else sector + 1, 27, 0xff] d m)"
proof -
  define e where "e = (if 18 \<le> uint sector + 1 then 18 else sector + 1)"
  show ?thesis unfolding read_commands_def e_def [symmetric]
    using assms by (simp add: device_write_def reset_commands_def commands_def command_length_def)
qed

lemma dma_devices:
  assumes "dma_range a 512"
  obtains d' where "fold (device_write img) (dma_writes a) (d, m) = (d', m)" "fifo d' = fifo d"
    "65536 * unat (page2 d') + unat (addr2 d') = unat a" "unat (count2 d') + 1 = unat (512 :: u32)"
    "mode2 d' = 0x46" "\<not> masked2 d'"
proof -
  let ?d = "fold dmac_step (dma_events a 511) (dmac.truncate d)"
  have "fold (device_write img) (dma_writes a) (d, m) = fold (device_step img) (dma_events a 511) (d, m)"
    using assms by (simp add: dma_writes_def device_step_fold)
  also have "\<dots> = (dmac.extend ?d (dmac.more d), m)"
    by (rule device_step_dma) (simp add: dma_events_def)
  finally have 1: "fold (device_write img) (dma_writes a) (d, m) = (dmac.extend ?d (dmac.more d), m)" .
  show thesis
    using dma_events_program [OF assms, of "dmac.truncate d"] by (intro that [OF 1]) (simp_all add: Let_def)
qed

lemma session_devices:
  assumes a: "dma_range a 512" "DMA_BUFFER st = a" and f: "fifo d = []"
    and chs: "0 \<le> lba" "lba < 2880" "flpydsk_lba_to_chs lba = (head, track, sector)"
  shows "\<exists>d'. fold (device_write img) (read_session st head track sector) (d, m) = (d', load_sector img (nat lba) a m) \<and>
    fifo d' = []"
proof -
  let ?v = "motor_on (current_drive st)" and ?c = "current_drive st"
  let ?cmd = "[0xE6, push_bit 2 (of_int head) OR ?c, of_int track, of_int head, of_int sector, 2,
       if 18 \<le> uint (of_int sector :: u8) + 1 then 18 else of_int sector + 1, 27, 0xff] :: u8 list"
  obtain d' where d': "fold (device_write img) (dma_writes a) (d, m) = (d', m)" "fifo d' = fifo d"
    "65536 * unat (page2 d') + unat (addr2 d') = unat a" "unat (count2 d') + 1 = unat (512 :: u32)"
    "mode2 d' = 0x46" "\<not> masked2 d'"
    using dma_devices [OF a(1)] .
  have e: "read_session st head track sector =
    ((0x3f2, ?v) # seek_commands ?c (of_int track) (of_int head)) @ dma_writes a @
      (read_commands ?c (of_int head) (of_int track) (of_int sector) @ (0x3f2, 4) # reset_commands)"
    by (simp add: read_session_def a(2))
  note c = chs_facts [OF chs]
  have u: "unat (of_int track :: u8) = nat track" "unat (of_int head :: u8) = nat head" "unat (of_int sector :: u8) = nat sector"
    using c by (simp_all only: unsigned_eq_0_iff flip: nat_uint_eq)
  have "transfer img ?cmd d' m = load_sector img (nat lba) a m"
  proof (rule transfer_sector [OF a(1) d'(3-6)])
    have "int (nat lba) = lba" "int (nat track) = track" "int (nat head) = head" "int (nat sector) = sector"
      using chs(1) c by auto
    moreover have "1 \<le> nat sector" using c by linarith
    ultimately have "int (nat lba) = int ((nat track * 2 + nat head) * 18 + (nat sector - 1))"
      using c by (simp add: of_nat_diff)
    then have "nat lba = (nat track * 2 + nat head) * 18 + (nat sector - 1)" by (simp only: of_nat_eq_iff)
    then show "nat lba = (unat (?cmd ! 2) * 2 + unat (?cmd ! 3)) * 18 + (unat (?cmd ! 4) - 1)"
      by (simp add: u)
  qed
  moreover have "fold (device_write img) (xs @ ys @ zs) s =
      fold (device_write img) zs (fold (device_write img) ys (fold (device_write img) xs s))" for xs ys zs s
    by simp
  ultimately show ?thesis
    unfolding e by (simp only: seek_devices [OF f] d'(1) read_devices [OF d'(2) [unfolded f]])
      (simp add: d'(2) f)
qed

text \<open>
  The drive finds every cylinder it is sent to.  The driver is at rest, and the timer has
  room for the ticks of \<open>n\<close> reads.
\<close>

definition follows :: "hardware \<Rightarrow> bool" where
  "follows hw \<longleftrightarrow> (\<forall>cyl. reports hw cyl cyl)"

definition ready :: "nat \<Rightarrow> machine_state \<Rightarrow> bool" where
  "ready n st \<longleftrightarrow> current_drive st < 4 \<and> \<not> irq_received st \<and> fifo (devices st) = [] \<and>
     unat (pit_ticks st) + 40 * n < 2 ^ 32"

text \<open>From \<open>st\<close> to \<open>st'\<close> only the driver and the memory change.\<close>

definition loaded :: "mem \<Rightarrow> machine_state \<Rightarrow> machine_state \<Rightarrow> bool" where
  "loaded m st st' \<longleftrightarrow> terminal st' = (terminal st)\<lparr>tty_mem := m\<rparr> \<and> tasks st' = tasks st \<and> keys st' = keys st"

lemma floppy_truncate_fields [simp]:
  "current_drive (floppy.truncate st) = current_drive st" "irq_received (floppy.truncate st) = irq_received st"
  "DMA_BUFFER (floppy.truncate st) = DMA_BUFFER st" "io_log (floppy.truncate st) = io_log st"
  "pit_ticks (floppy.truncate st) = pit_ticks st"
  by (cases st; simp add: floppy.defs)+

lemma floppy_extend_fields [simp]:
  "current_drive (floppy.extend f r) = current_drive f" "irq_received (floppy.extend f r) = irq_received f"
  "DMA_BUFFER (floppy.extend f r) = DMA_BUFFER f" "pit_ticks (floppy.extend f r) = pit_ticks f"
  by (cases f; simp add: floppy.defs)+

lemma on_floppy_fields [simp]:
  "current_drive (on_floppy g st) = current_drive (g (floppy.truncate st))"
  "irq_received (on_floppy g st) = irq_received (g (floppy.truncate st))"
  "DMA_BUFFER (on_floppy g st) = DMA_BUFFER (g (floppy.truncate st))"
  "pit_ticks (on_floppy g st) = pit_ticks (g (floppy.truncate st))"
  "terminal (on_floppy g st) = terminal st" "tasks (on_floppy g st) = tasks st" "keys (on_floppy g st) = keys st"
  "devices (on_floppy g st) = devices st"
  by (cases st; simp add: on_floppy_def floppy.defs)+

lemma ready_set_dma [simp]: "ready n (on_floppy (flpydsk_set_dma a) st) = ready n st"
  by (simp add: ready_def flpydsk_set_dma_def)

lemma sint_small: "unat (x :: u32) < 2 ^ 31 \<Longrightarrow> sint x = int (unat x)"
proof -
  have "sint (of_nat k :: u32) = int k" if "k < 2 ^ 31" for k
    using that by (simp add: signed_of_nat signed_take_bit_int_eq_self)
  from this [of "unat x"] show "unat x < 2 ^ 31 \<Longrightarrow> sint x = int (unat x)" by (simp only: word_of_unat)
qed

lemma read_run:
  assumes hw: "responsive (board mc)" "follows (board mc)" and r: "ready (Suc n) st"
    and a: "dma_range (DMA_BUFFER st) 512" and lba: "unat lba < 2880"
  shows "\<exists>st'. read_sector mc lba st = Some (DMA_BUFFER st, st') \<and> ready n st' \<and>
    DMA_BUFFER st' = DMA_BUFFER st \<and>
    loaded (load_sector (diskette mc) (unat lba) (DMA_BUFFER st) (memory_of st)) st st'"
proof -
  let ?f = "floppy.truncate st"
  have s: "sint lba = int (unat lba)" using lba by (intro sint_small) simp
  obtain head track sector where chs: "flpydsk_lba_to_chs (sint lba) = (head, track, sector)"
    by (cases "flpydsk_lba_to_chs (sint lba)")
  have rep: "reports (board mc) (of_int track) (of_int track)" using hw(2) by (simp add: follows_def)
  have d: "current_drive ?f < 4" "\<not> irq_received ?f" "unat (pit_ticks ?f) + 40 < 2 ^ 32" "fifo (devices st) = []"
    using r by (simp_all add: ready_def)
  obtain f where f: "flpydsk_read_sector (board mc) lba ?f = Some (DMA_BUFFER ?f, f)"
    "step_to (read_session ?f head track sector) 40 ?f f"
    using read_sector_run [OF hw(1) chs rep d(1-3)] by blast
  obtain es where es: "io_log f = io_log st @ es" "writes_to device_ports es = read_session ?f head track sector"
    and g: "current_drive f = current_drive st" "DMA_BUFFER f = DMA_BUFFER st" "irq_received f = irq_received st"
      "unat (pit_ticks f) = unat (pit_ticks st) + 40"
    using f(2) d(3) by (auto simp: step_to_def)
  have "int (unat lba) < int 2880" using lba by (simp only: of_nat_less_iff)
  then have "0 \<le> sint lba" "sint lba < 2880" by (simp_all only: s of_nat_0_le_iff of_nat_numeral)
  from session_devices [OF a, of ?f, OF _ d(4) this chs] obtain d' where
    d': "fold (device_step (diskette mc)) es (devices st, memory_of st) =
      (d', load_sector (diskette mc) (unat lba) (DMA_BUFFER st) (memory_of st))" "fifo d' = []"
    unfolding device_step_fold es(2) s by auto
  have "read_sector mc lba st = Some (DMA_BUFFER st, (on_floppy (\<lambda>_. f) st)\<lparr>devices := d',
      terminal := (terminal st)\<lparr>tty_mem := load_sector (diskette mc) (unat lba) (DMA_BUFFER st) (memory_of st)\<rparr>\<rparr>)"
    using f(1) d'(1) by (simp add: read_sector_def drive_acts_def es(1))
  moreover have "ready n ((on_floppy (\<lambda>_. f) st)\<lparr>devices := d', terminal := t\<rparr>)" for t
    using r g d'(2) by (simp add: ready_def)
  ultimately show ?thesis using g(2) by (simp add: loaded_def)
qed

section \<open>Looking for a file\<close>

text \<open>The chain of headers from block \<open>i\<close> on, among the first \<open>lim\<close> sectors of a diskette.\<close>

fun headers_at :: "nat \<Rightarrow> (nat \<Rightarrow> u8) \<Rightarrow> u64 \<Rightarrow> listfs_file_header list \<Rightarrow> bool" where
  "headers_at lim img i [] \<longleftrightarrow> i = - 1"
| "headers_at lim img i (h # hs) \<longleftrightarrow>
     i \<noteq> - 1 \<and> unat i < lim \<and> file_header_at 512 img i = h \<and> headers_at lim img (fh_next h) hs"

definition stored_name :: "listfs_file_header \<Rightarrow> u8 list" where
  "stored_name h = takeWhile (\<lambda>c. c \<noteq> 0) (fh_name h)"

text \<open>The last data block of a block list, \<open>-1\<close> where it has none.\<close>

definition last_block :: "u64 list \<Rightarrow> u32" where
  "last_block ns = last (- 1 # map ucast (takeWhile (\<lambda>d. d \<noteq> - 1) ns))"

lemma sector_byte: "k < 512 \<Longrightarrow> load_sector img n a m (a + of_nat k) = img (512 * n + k)"
  using offset_of_nat [of k a] by (simp add: load_sector_def)

lemma block_nth: "k < bs \<Longrightarrow> block bs img n ! k = img (bs * n + k)"
  by (simp add: block_def)

lemma sector_bytes:
  "off + l \<le> 512 \<Longrightarrow> map (\<lambda>k. load_sector img n a m (a + of_nat off + of_nat k)) [0..<l] = take l (drop off (block 512 img n))"
proof (intro nth_equalityI)
  fix k
  assume "off + l \<le> 512" and "k < length (map (\<lambda>k. load_sector img n a m (a + of_nat off + of_nat k)) [0..<l])"
  then show "map (\<lambda>k. load_sector img n a m (a + of_nat off + of_nat k)) [0..<l] ! k =
      take l (drop off (block 512 img n)) ! k"
    using sector_byte [of "off + k" img n a m] by (simp add: block_nth add.assoc)
qed simp

lemma member_take: "off + l \<le> k \<Longrightarrow> member off l (take k b) = member off l b"
  by (simp add: member_def drop_take min_def)

lemma header_of_take: "file_header_of (take 328 b) = file_header_of b"
  by (simp add: file_header_of_def member_take)

lemma header_loaded: "file_header_in (load_sector img (unat i) a m) a = file_header_at 512 img i"
  using sector_bytes [of 0 328 img "unat i" a m]
  by (simp add: file_header_in_def file_header_at_def header_of_take)

lemma number_loaded:
  assumes "k < 64"
  shows "uint64_in (load_sector img n a m) (a + of_nat (8 * k)) = numbers (block 512 img n) ! k"
  using sector_bytes [of "8 * k" 8 img n a m] assms by (simp add: uint64_in_def numbers_def member_def)

lemma last_entry_run:
  assumes "\<forall>k < length ns. uint64_in m (p + of_nat (8 * k)) = ns ! k" and "- 1 \<in> set ns"
  shows "last_entry m p r = Some (last (r # map ucast (takeWhile (\<lambda>d. d \<noteq> - 1) ns)))"
  using assms
proof (induction ns arbitrary: p r)
  case Nil
  then show ?case by simp
next
  case (Cons d ns)
  have d: "uint64_in m p = d" using Cons.prems(1) [rule_format, of 0] by simp
  show ?case
  proof (cases "d = - 1")
    case True
    then show ?thesis using d by (subst last_entry.simps) simp
  next
    case False
    have "uint64_in m (p + 8 + of_nat (8 * k)) = ns ! k" if "k < length ns" for k
      using Cons.prems(1) [rule_format, of "Suc k"] that by (simp add: add.assoc)
    then have "last_entry m (p + 8) (ucast d) = Some (last (ucast d # map ucast (takeWhile (\<lambda>d. d \<noteq> - 1) ns)))"
      using Cons.prems(2) False by (intro Cons.IH) auto
    then show ?thesis using d False by (subst last_entry.simps) simp
  qed
qed

lemma name_loaded:
  assumes "file_header_at 512 img i = h" and "0 \<in> set (fh_name h)"
  shows "cstr (load_sector img (unat i) a m) a (stored_name h)"
proof -
  let ?s = "stored_name h"
  have len: "length ?s < length (fh_name h)" and nul: "fh_name h ! length ?s = 0"
  proof -
    have "takeWhile (\<lambda>c. c \<noteq> 0) (fh_name h) \<noteq> fh_name h" using assms(2) by (auto simp: takeWhile_eq_all_conv)
    then show "length ?s < length (fh_name h)" unfolding stored_name_def
      by (metis append_Nil2 length_append le_neq_implies_less length_takeWhile_le takeWhile_dropWhile_id append_eq_append_conv)
    then show "fh_name h ! length ?s = 0" using nth_length_takeWhile [of "\<lambda>c. c \<noteq> 0" "fh_name h"]
      by (simp add: stored_name_def)
  qed
  have l: "fh_name h = take 256 (block 512 img (unat i))"
    unfolding assms(1) [symmetric] by (simp add: file_header_at_def file_header_of_def)
  have b: "load_sector img (unat i) a m (a + of_nat k) = fh_name h ! k" if "k < length (fh_name h)" for k
    using that l sector_byte [of k img "unat i" a m] by (simp add: block_nth)
  have "?s ! k = fh_name h ! k" if "k < length ?s" for k
    using that by (simp add: stored_name_def takeWhile_nth)
  moreover have "0 \<notin> set ?s" by (auto simp: stored_name_def dest: set_takeWhileD)
  ultimately show ?thesis unfolding cstr_nth using b len nul by auto
qed

text \<open>A string that no read overwrites, and memory that differs in the DMA buffer only.\<close>

definition off_buffer :: "u32 \<Rightarrow> bool" where
  "off_buffer x \<longleftrightarrow> 512 \<le> unat (x - 0x20000)"

definition kept :: "mem \<Rightarrow> mem \<Rightarrow> bool" where
  "kept m m' \<longleftrightarrow> (\<forall>x. off_buffer x \<longrightarrow> m' x = m x)"

definition safe_string :: "mem \<Rightarrow> u32 \<Rightarrow> u8 list \<Rightarrow> bool" where
  "safe_string m a s \<longleftrightarrow> cstr m a s \<and> (\<forall>k \<le> length s. off_buffer (a + of_nat k))"

lemma kept_load: "kept m (load_sector img n 0x20000 m)"
  by (simp add: kept_def off_buffer_def load_sector_def)

lemma kept_trans: "kept a b \<Longrightarrow> kept b c \<Longrightarrow> kept a c"
  by (simp add: kept_def)

lemma safe_string_kept: "safe_string m a s \<Longrightarrow> kept m m' \<Longrightarrow> safe_string m' a s"
  unfolding safe_string_def kept_def cstr_nth by simp

lemma loaded_trans: "loaded m a b \<Longrightarrow> loaded m' b c \<Longrightarrow> loaded m' a c"
  by (simp add: loaded_def)

lemma ready_mono: "ready n st \<Longrightarrow> k \<le> n \<Longrightarrow> ready k st"
  by (simp add: ready_def)

lemma buffer_range [simp]: "dma_range 0x20000 512"
  by (simp add: dma_range_def)

lemma unat_sector: "unat (i :: u64) < 2880 \<Longrightarrow> unat (ucast i :: u32) = unat i"
  by (simp only: unsigned_ucast_eq) (simp add: take_bit_nat_eq_self)

text \<open>A read into the fixed buffer.\<close>

definition read_into ::
  "machine \<Rightarrow> nat \<Rightarrow> nat \<Rightarrow> machine_state \<Rightarrow> machine_state \<Rightarrow> bool" where
  "read_into mc n k st st' \<longleftrightarrow> ready n st' \<and> DMA_BUFFER st' = 0x20000 \<and>
     loaded (load_sector (diskette mc) k 0x20000 (memory_of st)) st st'"

lemma get_file_info_run:
  assumes "responsive (board mc)" "follows (board mc)" and "ready (Suc n) st" and "unat i < 2880"
  shows "\<exists>st'. get_file_info_by mc (ucast i) st = Some (0x20000, st') \<and> read_into mc n (unat (i :: u64)) st st'"
proof -
  let ?s = "on_floppy (flpydsk_set_dma 0x20000) st"
  have "DMA_BUFFER ?s = 0x20000" by (simp add: flpydsk_set_dma_def)
  then show ?thesis
    using read_run [OF assms(1,2), of n ?s "ucast i"] assms(3,4) unat_sector [OF assms(4)]
    by (simp add: get_file_info_by_def read_into_def loaded_def)
qed

lemma data_pointer_run:
  assumes "responsive (board mc)" "follows (board mc)" and "ready (Suc n) st" and "unat i < 2880"
    and "DMA_BUFFER st = 0x20000" and "- 1 \<in> set (numbers (block 512 (diskette mc) (unat i)))"
  shows "\<exists>st'. get_file_data_pointer mc (ucast i) st =
      Some (last_block (numbers (block 512 (diskette mc) (unat (i :: u64)))), st') \<and> read_into mc n (unat i) st st'"
proof -
  let ?ns = "numbers (block 512 (diskette mc) (unat i))"
  obtain st' where st': "read_sector mc (ucast i) st = Some (0x20000, st')" "read_into mc n (unat i) st st'"
    using read_run [OF assms(1-3), of "ucast i"] assms(4,5) unat_sector [OF assms(4)]
    by (auto simp: read_into_def)
  have "length ?ns = 64" by (simp add: numbers_def)
  then have "last_entry (load_sector (diskette mc) (unat i) 0x20000 (memory_of st)) 0x20000 (- 1) = Some (last_block ?ns)"
    unfolding last_block_def using assms(6) number_loaded by (intro last_entry_run) auto
  then show ?thesis using st' by (auto simp: get_file_data_pointer_def read_into_def loaded_def)
qed

text \<open>What \<^verbatim>\<open>find_file\<close> answers for a chain of headers.\<close>

definition data_sector :: "(nat \<Rightarrow> u8) \<Rightarrow> u8 list \<Rightarrow> listfs_file_header list \<Rightarrow> u32" where
  "data_sector img name hs =
     (case find (\<lambda>h. stored_name h = name) hs of
        None \<Rightarrow> - 1
      | Some h \<Rightarrow> last_block (numbers (block 512 img (unat (fh_data h)))))"

definition data_listed :: "(nat \<Rightarrow> u8) \<Rightarrow> u8 list \<Rightarrow> listfs_file_header list \<Rightarrow> bool" where
  "data_listed img name hs \<longleftrightarrow>
     (case find (\<lambda>h. stored_name h = name) hs of
        None \<Rightarrow> True
      | Some h \<Rightarrow> unat (fh_data h) < 2880 \<and> - 1 \<in> set (numbers (block 512 img (unat (fh_data h)))))"

lemma strcmp_zero_iff:
  assumes "cstr m a s" and "cstr m b t"
  shows "\<exists>r. strcmp m a b = Some r \<and> (r = 0 \<longleftrightarrow> s = t)"
proof -
  obtain r where r: "strcmp m a b = Some r" "sint r = str_diff s t" using strcmp_str_diff assms by blast
  have "r = 0 \<longleftrightarrow> sint r = 0" by (metis signed_0 signed_word_eqI)
  then show ?thesis using r str_diff_0_iff [OF cstr_no_nul [OF assms(1)] cstr_no_nul [OF assms(2)]] by auto
qed

lemma find_file_run:
  assumes hw: "responsive (board mc)" "follows (board mc)" and lim: "lim \<le> 2880"
  shows "headers_at lim (diskette mc) i hs \<Longrightarrow> hs \<noteq> [] \<Longrightarrow> \<forall>h \<in> set hs. 0 \<in> set (fh_name h) \<Longrightarrow>
    data_listed (diskette mc) s hs \<Longrightarrow> safe_string (memory_of st) name s \<Longrightarrow> ready (length hs + Suc n) st \<Longrightarrow>
    \<exists>st' m. find_file mc (ucast i) name st = Some (data_sector (diskette mc) s hs, st') \<and>
      ready n st' \<and> DMA_BUFFER st' = 0x20000 \<and> loaded m st st' \<and> kept (memory_of st) m"
proof (induction hs arbitrary: i st)
  case Nil
  then show ?case by simp
next
  case (Cons h hs)
  let ?img = "diskette mc" and ?m = "load_sector (diskette mc) (unat i) 0x20000 (memory_of st)"
  have h: "unat i < 2880" "file_header_at 512 ?img i = h" "headers_at lim ?img (fh_next h) hs"
    and nul: "0 \<in> set (fh_name h)" "\<forall>h \<in> set hs. 0 \<in> set (fh_name h)"
    and r: "ready (Suc (length hs + Suc n)) st"
    using Cons.prems lim by auto
  obtain t where t: "get_file_info_by mc (ucast i) st = Some (0x20000, t)" "ready (length hs + Suc n) t"
    "DMA_BUFFER t = 0x20000" "loaded ?m st t"
    using get_file_info_run [OF hw r h(1)] by (auto simp: read_into_def)
  have m: "memory_of t = ?m" using t(4) by (simp add: loaded_def)
  have hd: "header_at t 0x20000 = h" unfolding m header_loaded h(2) ..
  have ss: "safe_string ?m name s" using Cons.prems(5) kept_load by (rule safe_string_kept)
  then obtain c where c: "strcmp ?m name 0x20000 = Some c" "c = 0 \<longleftrightarrow> s = stored_name h"
    using strcmp_zero_iff [of ?m name s "0x20000" "stored_name h"] name_loaded [OF h(2) nul(1)] by (auto simp: safe_string_def)
  show ?case
  proof (cases "stored_name h = s")
    case True
    let ?ns = "numbers (block 512 ?img (unat (fh_data h)))"
    have f: "find (\<lambda>h. stored_name h = s) (h # hs) = Some h" using True by simp
    have d: "unat (fh_data h) < 2880" "- 1 \<in> set ?ns" using Cons.prems(4) by (simp_all only: data_listed_def f option.case)
    have "ready (Suc n) t" using t(2) by (rule ready_mono) simp
    from data_pointer_run [OF hw this d(1) t(3) d(2)] obtain u where
      u: "get_file_data_pointer mc (ucast (fh_data h)) t = Some (last_block ?ns, u)"
        "read_into mc n (unat (fh_data h)) t u" by blast
    have "find_file mc (ucast i) name st = Some (last_block ?ns, u)"
      using t(1) c True u(1) by (subst find_file.simps) (simp add: m hd [unfolded m])
    moreover have "loaded (load_sector ?img (unat (fh_data h)) 0x20000 ?m) st u" "ready n u" "DMA_BUFFER u = 0x20000"
      using u(2) loaded_trans [OF t(4)] by (simp_all add: read_into_def m)
    moreover have "data_sector ?img s (h # hs) = last_block ?ns" by (simp only: data_sector_def f option.case)
    ultimately show ?thesis using kept_trans [OF kept_load kept_load] by metis
  next
    case False
    then have ne: "c \<noteq> 0" using c by auto
    have f: "find (\<lambda>h. stored_name h = s) (h # hs) = find (\<lambda>h. stored_name h = s) hs" using False by simp
    show ?thesis
    proof (cases hs)
      case Nil
      then have "fh_next h = - 1" using h(3) by simp
      then have "find_file mc (ucast i) name st = Some (- 1, t)"
        using t(1) c(1) ne by (subst find_file.simps) (simp add: m hd [unfolded m])
      moreover have "data_sector ?img s (h # hs) = - 1" unfolding data_sector_def f by (simp add: Nil)
      ultimately show ?thesis using t(2-4) ready_mono [OF t(2), of n] kept_load by auto
    next
      case (Cons h' hs')
      then have nx: "fh_next h \<noteq> - 1" using h(3) by simp
      have e: "find_file mc (ucast i) name st = find_file mc (ucast (fh_next h)) name t"
        using t(1) c(1) ne nx by (subst find_file.simps) (simp add: m hd [unfolded m])
      have "data_listed ?img s hs" using Cons.prems(4) unfolding data_listed_def f .
      moreover have "safe_string (memory_of t) name s" using ss by (simp add: m)
      ultimately obtain u m' where u: "find_file mc (ucast (fh_next h)) name t = Some (data_sector ?img s hs, u)"
        "ready n u" "DMA_BUFFER u = 0x20000" "loaded m' t u" "kept (memory_of t) m'"
        using Cons.IH [OF h(3) _ nul(2), of t] Cons t(2) by auto
      have "data_sector ?img s (h # hs) = data_sector ?img s hs" unfolding data_sector_def f ..
      then show ?thesis unfolding e u(1)
        using u(2,3) loaded_trans [OF t(4) u(4)] kept_trans [OF kept_load u(5) [unfolded m]] by auto
    qed
  qed
qed

text \<open>C33: The driver, the DMA controller and the drive together: reading a sector of the diskette gives
  the address of the DMA buffer, with the sector's 512 bytes in memory there and every other
  byte as it was, for a controller that is ready and finds its cylinders, and a buffer that the
  DMA controller can reach.\<close>

theorem read_sector_loads:
  assumes "responsive (board mc)" and "follows (board mc)" and "ready 1 st"
    and "dma_range (DMA_BUFFER st) 512" and "unat lba < 2880"
  shows "\<exists>st'. read_sector mc lba st = Some (DMA_BUFFER st, st') \<and>
    (\<forall>k < 512. memory_of st' (DMA_BUFFER st + of_nat k) = diskette mc (512 * unat lba + k)) \<and>
    (\<forall>x. 512 \<le> unat (x - DMA_BUFFER st) \<longrightarrow> memory_of st' x = memory_of st x)"
proof -
  obtain st' where st': "read_sector mc lba st = Some (DMA_BUFFER st, st')"
    "memory_of st' = load_sector (diskette mc) (unat lba) (DMA_BUFFER st) (memory_of st)"
    using read_run [OF assms(1,2), of 0 st lba] assms(3-5) by (auto simp: loaded_def)
  moreover have "load_sector img n a m x = m x" if "512 \<le> unat (x - a)" for img n a m x
    using that by (simp add: load_sector_def)
  ultimately show ?thesis using sector_byte by auto
qed

text \<open>C34: \<^verbatim>\<open>find_file\<close> walks the chain of file headers from the given sector and answers for the first
  header with the name: with the number of the last data block in the block list that the
  header refers to (for a file of one sector its only block), and with \<open>-1\<close> where no header
  has the name.  It changes no memory but the DMA buffer.\<close>

theorem find_file_answers:
  assumes "responsive (board mc)" and "follows (board mc)"
    and "headers_at 2880 (diskette mc) i hs" and "hs \<noteq> []" and "\<forall>h \<in> set hs. 0 \<in> set (fh_name h)"
    and "data_listed (diskette mc) s hs" and "safe_string (memory_of st) name s" and "ready (length hs + 1) st"
  shows "\<exists>st'. find_file mc (ucast i) name st =
      Some (case find (\<lambda>h. stored_name h = s) hs of
          None \<Rightarrow> - 1
        | Some h \<Rightarrow> last_block (numbers (block 512 (diskette mc) (unat (fh_data h)))), st') \<and>
    (\<forall>x. 512 \<le> unat (x - 0x20000) \<longrightarrow> memory_of st' x = memory_of st x)"
proof -
  have "ready (length hs + Suc 0) st" using assms(8) by simp
  from find_file_run [OF assms(1,2) le_refl assms(3-7) this] show ?thesis
    by (auto simp: data_sector_def loaded_def kept_def off_buffer_def)
qed

section \<open>A concrete diskette\<close>

text \<open>A controller that reports the cylinder of the last seek.\<close>

definition demo_board :: hardware where
  "demo_board = \<lparr>port_value = (\<lambda>log port. if port = 0x3F4 then 0x80
       else (rev (map snd (writes_to {0x3f5} log)) @ [0, 0]) ! 1),
     raises_irq = (\<lambda>log. True), timer_ticks = (\<lambda>log k. 1)\<rparr>"

lemma demo_board_ok: "responsive demo_board" "follows demo_board"
  by (simp_all add: responsive_def follows_def reports_def says_cylinder_def demo_board_def)

text \<open>A diskette by its sectors: a file \<open>a\<close> of one block.\<close>

definition demo_header :: listfs_file_header where
  "demo_header = \<lparr>fh_name = 97 # replicate 255 0, fh_next = - 1, fh_prev = - 1, fh_parent = - 1, fh_flags = 0,
     fh_data = 3, fh_size = 2, create_time = 0, modify_time = 0, access_time = 0\<rparr>"

definition demo_sector :: "nat \<Rightarrow> u8 list" where
  "demo_sector n = (if n = 2 then file_header_bytes demo_header @ replicate 184 0
     else if n = 3 then number_bytes (4 # replicate 63 (- 1))
     else if n = 4 then [104, 105] @ replicate 510 0 else replicate 512 0)"

lemma length_demo_sector [simp]: "length (demo_sector n) = 512"
  by (simp add: demo_sector_def file_header_length demo_header_def)

definition demo_diskette :: "nat \<Rightarrow> u8" where
  "demo_diskette p = demo_sector (p div 512) ! (p mod 512)"

lemma demo_block: "block 512 demo_diskette n = demo_sector n"
  by (intro nth_equalityI) (simp_all add: block_nth demo_diskette_def)

definition demo_machine :: machine where
  "demo_machine = \<lparr>board = demo_board, diskette = demo_diskette, literal = (\<lambda>_. 0), line_buffer = 0,
     number_buffer = 0, pause_buffer = 0\<rparr>"

definition demo_state :: "u8 list \<Rightarrow> machine_state" where
  "demo_state bs = kernel_state.extend (demo_kernel bs) \<lparr>devices = \<lparr>flipflop = True, addr2 = 0, count2 = 0,
     mode2 = 0, masked2 = True, page2 = 0, fifo = []\<rparr>\<rparr>"

lemma demo_state_simps [simp]:
  "current_drive (demo_state bs) = 0" "irq_received (demo_state bs) = False" "pit_ticks (demo_state bs) = 0"
  "DMA_BUFFER (demo_state bs) = 0" "fifo (devices (demo_state bs)) = []" "terminal (demo_state bs) = demo_tty bs"
  by (simp_all add: demo_state_def demo_kernel_def kernel_state.defs)

lemma demo_header_at: "file_header_at 512 demo_diskette 2 = demo_header"
  by (simp add: file_header_at_def demo_block demo_sector_def file_header_round_trip demo_header_def)

lemma demo_headers: "headers_at 2880 demo_diskette 2 [demo_header]"
  using demo_header_at by (simp add: demo_header_def)

lemma demo_list: "numbers (block 512 demo_diskette 3) = 4 # replicate 63 (- 1)"
  using numbers_round_trip [of "[]" "4 # replicate 63 (- 1)"] by (simp add: demo_block demo_sector_def)

theorem read_sector_loads_witness:
  "\<exists>st'. read_sector demo_machine 4 (on_floppy (flpydsk_set_dma 0x20000) (demo_state [])) = Some (0x20000, st') \<and>
     memory_of st' 0x20000 = 104"
proof -
  let ?s = "on_floppy (flpydsk_set_dma 0x20000) (demo_state [])"
  have d: "DMA_BUFFER ?s = 0x20000" by (simp add: flpydsk_set_dma_def)
  have "responsive (board demo_machine)" "follows (board demo_machine)" "ready 1 ?s" "dma_range (DMA_BUFFER ?s) 512"
    "unat (4 :: u32) < 2880"
    using demo_board_ok by (simp_all add: demo_machine_def ready_def flpydsk_set_dma_def)
  from read_sector_loads [OF this] obtain st' where st': "read_sector demo_machine 4 ?s = Some (0x20000, st')"
    "\<forall>k < 512. memory_of st' (0x20000 + of_nat k) = diskette demo_machine (512 * unat (4 :: u32) + k)"
    unfolding d by blast
  have "memory_of st' 0x20000 = 104" using st'(2) [rule_format, of 0]
    by (simp add: demo_machine_def demo_diskette_def demo_sector_def)
  then show ?thesis using st'(1) by blast
qed

theorem find_file_answers_witness:
  "\<exists>st'. find_file demo_machine 2 0x4000 (demo_state [97]) = Some (4, st')"
proof -
  have n: "stored_name demo_header = [97]" by (simp add: stored_name_def demo_header_def)
  have l: "last_block (4 # replicate 63 (- 1)) = 4" by (simp add: last_block_def takeWhile_replicate)
  have s: "safe_string (memory_of (demo_state [97])) 0x4000 [97]"
    by (simp add: safe_string_def off_buffer_def demo_tty_simps All_less_Suc less_Suc_eq_le [symmetric])
  have "\<exists>st'. find_file demo_machine (ucast (2 :: u64)) 0x4000 (demo_state [97]) = Some (4, st')"
    using find_file_answers [of demo_machine 2 "[demo_header]" "[97]" "demo_state [97]" "0x4000"]
      demo_headers demo_board_ok n l s demo_list
    by (auto simp add: demo_machine_def data_listed_def ready_def demo_header_def)
  then show ?thesis by simp
qed

end
