(* ===== verification/Image_Build.thy ===== *)
theory Image_Build
  imports Image_Tree
begin

text \<open>
  The whole run of \<^verbatim>\<open>make_listfs\<close>: the boot loader, the map, the tree and the header in one image.
\<close>

section \<open>Writing at the start of the run\<close>

lemma write_block_fields [simp]:
  "block_size (write_block i d n st) = block_size st" "block_count (write_block i d n st) = block_count st"
  "fs_header (write_block i d n st) = fs_header st" "source_dir_name (write_block i d n st) = source_dir_name st"
  "boot_loader_extra_blocks (write_block i d n st) = boot_loader_extra_blocks st"
  "boot_code (write_block i d n st) = boot_code st"
  by (simp_all add: write_block_def fwrite_def fseek_def)

lemma block_fwrite:
  assumes "0 < b" and "length d = b * n"
  shows "block b (disk (fwrite d (st\<lparr>disk_pos := b * k\<rparr>))) j =
    (if k \<le> j \<and> j < k + n then take b (drop (b * (j - k)) d) else block b (disk st) j)"
proof (cases "k \<le> j \<and> j < k + n")
  case True
  then obtain i where i: "j = k + i" "i < n" by (auto simp: le_iff_add)
  have le: "b * i + b \<le> b * n" using i(2) mult_le_mono2 [of "Suc i" n b] by simp
  have "block b (disk (fwrite d (st\<lparr>disk_pos := b * k\<rparr>))) j = take b (drop (b * i) d)"
    using le assms(2) i(2) by (intro nth_equalityI) (auto simp: block_def fwrite_def i(1) distrib_left)
  then show ?thesis using True by (simp add: i(1))
next
  case False
  have "b * j + b \<le> b * k \<or> b * k + b * n \<le> b * j"
    using False mult_le_mono2 [of "Suc j" k b] mult_le_mono2 [of "k + n" j b] by (auto simp: distrib_left not_le)
  then show ?thesis using False assms(2) by (auto simp: block_def fwrite_def)
qed

lemma write_block_at:
  assumes "0 < block_size st" and "B st * unat i < 2 ^ 31"
  shows "write_block i d n st = fwrite (take (B st * n) d) (st\<lparr>disk_pos := B st * unat i\<rparr>)"
proof -
  have b: "(of_int (block_size st) :: u64) = of_nat (B st)" using assms(1) by simp
  have "of_nat (B st) * i = of_nat (B st * unat i)" by (simp only: of_nat_mult word_of_unat)
  then have "long (of_int (block_size st) * i) = int (B st * unat i)"
    unfolding b by (simp only: long_of_nat [OF assms(2)])
  then show ?thesis unfolding write_block_def by (simp only: fseek_nat)
qed

lemma block_write:
  assumes "0 < block_size st" and "B st * unat i < 2 ^ 31" and "length d = B st * n"
  shows "block (B st) (disk (write_block i d n st)) j =
    (if unat i \<le> j \<and> j < unat i + n then take (B st) (drop (B st * (j - unat i)) d)
     else block (B st) (disk st) j)"
  using block_fwrite [where b = "B st" and d = d and n = n and st = st and k = "unat i" and j = j] assms by (simp add: write_block_at)

section \<open>The boot loader\<close>

text \<open>What the loop over the rest of the loader does to the state.\<close>

lemma copy_boot_fields:
  "block_size (copy_boot i buf f st) = block_size st \<and> block_count (copy_boot i buf f st) = block_count st \<and>
   source_dir_name (copy_boot i buf f st) = source_dir_name st"
proof (induction i buf f st rule: copy_boot.induct)
  case (1 i buf f st)
  show ?case
  proof (cases "at_eof f \<or> block_size st < 1")
    case True
    then show ?thesis by (subst (1 2 3) copy_boot.simps) simp
  next
    case False
    from "1.IH" [OF False refl prod.collapse refl refl] show ?thesis
      using False by (subst (1 2 3) copy_boot.simps) (simp add: split_beta Let_def)
  qed
qed

definition boot_next :: "u64 \<Rightarrow> u8 list \<Rightarrow> infile \<Rightarrow> builder \<Rightarrow> builder" where
  "boot_next i buf f st =
     (write_block i (take (B st) (unread f) @ drop (length (take (B st) (unread f))) buf) 1 st)
       \<lparr>boot_loader_extra_blocks := boot_loader_extra_blocks st + 1\<rparr>"

lemma copy_boot_step:
  assumes "0 < block_size st" and "\<not> at_eof f"
  shows "copy_boot i buf f st = copy_boot (i + 1) (take (B st) (unread f) @ drop (length (take (B st) (unread f))) buf)
    \<lparr>unread = drop (B st) (unread f), at_eof = length (unread f) < B st\<rparr> (boot_next i buf f st)"
  using assms by (subst copy_boot.simps) (simp add: fread_def Let_def boot_next_def)

lemma boot_next_simps [simp]: "block_size (boot_next i buf f st) = block_size st"
    "boot_loader_extra_blocks (boot_next i buf f st) = boot_loader_extra_blocks st + 1"
    "disk (boot_next i buf f st) = disk (write_block i (take (B st) (unread f) @ drop (length (take (B st) (unread f))) buf) 1 st)"
  by (simp_all add: boot_next_def)

lemma copy_boot_extra:
  assumes "0 < block_size st" and "\<not> at_eof f"
  shows "boot_loader_extra_blocks (copy_boot i buf f st) =
    boot_loader_extra_blocks st + 1 + int (length (unread f) div B st)"
  using assms
proof (induction "length (unread f)" arbitrary: i buf f st rule: less_induct)
  case less
  show ?case
  proof (cases "length (unread f) < B st")
    case True
    then show ?thesis unfolding copy_boot_step [OF less.prems] by (subst copy_boot.simps) simp
  next
    case False
    let ?f = "\<lparr>unread = drop (B st) (unread f), at_eof = length (unread f) < B st\<rparr>"
    have "0 < B st" using less.prems(1) by simp
    then have "length (unread ?f) < length (unread f)" "length (unread f) div B st = Suc ((length (unread f) - B st) div B st)"
      using False by (auto simp: div_if)
    then show ?thesis
      unfolding copy_boot_step [OF less.prems, of i buf]
      using less.hyps [of ?f "boot_next i buf f st"] less.prems(1) False by simp
  qed
qed

text \<open>
  The whole blocks of a loader lie on the disk from block \<open>i\<close> on; one block more is written,
  with what is left of it.
\<close>

lemma copy_boot_blocks:
  assumes "0 < block_size st" and "\<not> at_eof f" and "length buf = B st" and "length (unread f) div B st = m"
    and "B st * (unat i + m) < 2 ^ 31"
  shows "block (B st) (disk (copy_boot i buf f st)) j =
    (if unat i \<le> j \<and> j < unat i + m then take (B st) (drop (B st * (j - unat i)) (unread f))
     else if j = unat i + m then block (B st) (disk (copy_boot i buf f st)) j
     else block (B st) (disk st) j)"
  using assms
proof (induction m arbitrary: i buf f st)
  case 0
  let ?d = "unread f @ drop (length (unread f)) buf"
  have short: "length (unread f) < B st" using "0.prems"(1,4) by (simp add: div_eq_0_iff)
  have w: "disk (copy_boot i buf f st) = disk (write_block i ?d 1 st)"
    using short unfolding copy_boot_step [OF "0.prems"(1,2)] by (subst copy_boot.simps) simp
  have l: "length ?d = B st * 1" using short "0.prems"(3) by simp
  show ?case
  proof (cases "j = unat i")
    case False
    then have "\<not> (unat i \<le> j \<and> j < unat i + 1)" by auto
    then have "block (B st) (disk (write_block i ?d 1 st)) j = block (B st) (disk st) j"
      using block_write [of st i ?d 1 j] "0.prems"(1,5) l by (simp only: if_False add_0_right)
    then show ?thesis using False by (auto simp: w)
  qed simp
next
  case (Suc m)
  let ?b = "B st" and ?f = "\<lparr>unread = drop (B st) (unread f), at_eof = length (unread f) < B st\<rparr>"
  let ?d = "take (B st) (unread f) @ drop (length (take (B st) (unread f))) buf"
  have b: "0 < ?b" using Suc.prems(1) by simp
  have long: "?b \<le> length (unread f)" and rest: "(length (unread f) - ?b) div ?b = m"
    using Suc.prems(4) b by (auto simp: div_if [of "length (unread f)"] split: if_splits)
  have d: "?d = take ?b (unread f)" using Suc.prems(3) long by simp
  have lim: "?b * (unat i + Suc m) < 2 ^ 31" using Suc.prems(5) .
  have "unat i + Suc m \<le> ?b * (unat i + Suc m)" using b by (cases ?b) simp_all
  then have i: "unat (i + 1) = Suc (unat i)" using lim by (intro unat_Suc_word) simp
  have "?b * unat i \<le> ?b * (unat i + Suc m)" by (intro mult_le_mono2) simp
  then have wi: "?b * unat i < 2 ^ 31" using lim by (rule le_less_trans)
  have c: "copy_boot i buf f st = copy_boot (i + 1) ?d ?f (boot_next i buf f st)"
    by (rule copy_boot_step [OF Suc.prems(1,2)])
  have ld: "length ?d = ?b" unfolding d using long by simp
  have IH: "block ?b (disk (copy_boot (i + 1) ?d ?f (boot_next i buf f st))) j =
    (if unat (i + 1) \<le> j \<and> j < unat (i + 1) + m then take ?b (drop (?b * (j - unat (i + 1))) (unread ?f))
     else if j = unat (i + 1) + m then block ?b (disk (copy_boot (i + 1) ?d ?f (boot_next i buf f st))) j
     else block ?b (disk (boot_next i buf f st)) j)"
    using Suc.IH [of "boot_next i buf f st" ?f ?d "i + 1"] Suc.prems(1) long rest ld lim i by simp
  have nx: "block ?b (disk (boot_next i buf f st)) j = (if j = unat i then take ?b (unread f) else block ?b (disk st) j)"
  proof -
    have l: "length (take ?b (unread f)) = ?b * 1" using long by simp
    have "j = unat i \<longleftrightarrow> unat i \<le> j \<and> j < unat i + 1" by auto
    then show ?thesis unfolding boot_next_simps(3) d using block_write [OF Suc.prems(1) wi l, of j] by simp
  qed
  have dr: "drop (?b * (j - Suc (unat i))) (drop ?b (unread f)) = drop (?b * (j - unat i)) (unread f)" if "Suc (unat i) \<le> j"
  proof -
    have "?b * (j - Suc (unat i)) + ?b = ?b * (j - unat i)" using that by (simp add: diff_mult_distrib2)
      (metis Suc_diff_Suc Suc_le_lessD add.commute mult_Suc_right diff_mult_distrib2)
    then show ?thesis by (simp add: add.commute)
  qed
  show ?case
  proof (cases "j = unat i")
    case True
    then show ?thesis unfolding c using IH nx by (simp add: i)
  next
    case False
    then show ?thesis unfolding c using IH nx dr by (auto simp: i)
  qed
qed

section \<open>The header\<close>

definition loader :: "host \<Rightarrow> builder \<Rightarrow> u8 list" where
  "loader hs st = (case Option.bind (boot_loader_file_name st) (host_files hs) of None \<Rightarrow> [] | Some bytes \<Rightarrow> bytes)"

text \<open>The first block as \<^verbatim>\<open>init_listfs_header\<close> fills it, before the fields of the header are set.\<close>

definition first_block :: "host \<Rightarrow> builder \<Rightarrow> u8 list" where
  "first_block hs st = take (B st) (loader hs st) @ replicate (B st - length (loader hs st)) 0"

lemma first_block_length: "length (first_block hs st) = B st"
  by (simp add: first_block_def)

lemma init_header_run:
  assumes "68 \<le> block_size st" and "boot_loader_extra_blocks st = 0"
  shows "\<exists>st'. init_listfs_header hs st = Inr st' \<and> block_size st' = block_size st \<and> block_count st' = block_count st \<and>
    source_dir_name st' = source_dir_name st \<and>
    boot_loader_extra_blocks st' = int (length (loader hs st) div B st) \<and>
    boot_code st' = drop 68 (first_block hs st) \<and> jump (fs_header st') = take 4 (first_block hs st) \<and>
    magic (fs_header st') = 0x84837376 \<and> version (fs_header st') = 1 \<and>
    h_size (fs_header st') = of_int (block_count st) \<and> h_block_size (fs_header st') = of_int (block_size st) \<and>
    first_file (fs_header st') = - 1 \<and>
    disk st' = (if length (loader hs st) < B st then disk st
      else disk (copy_boot 1 (replicate (B st) 0) \<lparr>unread = drop (B st) (loader hs st), at_eof = False\<rparr> st))"
proof -
  have b: "0 < block_size st" "0 < B st" "\<not> B st < 68" using assms(1) by auto
  show ?thesis
  proof (cases "Option.bind (boot_loader_file_name st) (host_files hs)")
    case None
    then show ?thesis
      using b assms(2) by (simp add: init_listfs_header_def Let_def loader_def first_block_def header_of_def)
  next
    case (Some bytes)
    have l: "loader hs st = bytes" by (simp add: loader_def Some)
    have f: "take (B st) bytes @ drop (length (take (B st) bytes)) (replicate (B st) 0) = first_block hs st"
      by (simp add: first_block_def l min_def)
    show ?thesis
    proof (cases "length bytes < B st")
      case True
      then show ?thesis
        using b assms(2) f by (simp add: init_listfs_header_def Let_def Some fread_def l header_of_def)
    next
      case False
      define g where "g = \<lparr>unread = drop (B st) bytes, at_eof = False\<rparr>"
      have "length bytes div B st = Suc ((length bytes - B st) div B st)"
        using False b(2) by (simp add: div_if [of "length bytes"])
      then have "boot_loader_extra_blocks (copy_boot 1 (replicate (B st) 0) g st) = int (length bytes div B st)"
        using copy_boot_extra [of st g 1 "replicate (B st) 0"] b assms(2) by (simp add: g_def)
      then show ?thesis
        using b f False copy_boot_fields [of 1 "replicate (B st) 0" g st]
        by (simp add: init_listfs_header_def Let_def Some fread_def l header_of_def g_def)
    qed
  qed
qed

section \<open>The map\<close>

lemma get_disk_blocks_run:
  assumes "unat i + n \<le> 8 * length (disk_map st)" and "unat i + n < 2 ^ 64"
  shows "\<exists>m. get_disk_blocks n i st = Inr (st\<lparr>disk_map := m\<rparr>) \<and> length m = length (disk_map st) \<and>
    taken m = taken (disk_map st) \<union> {unat i..<unat i + n}"
  using assms
proof (induction n arbitrary: i st)
  case 0
  then show ?case by (intro exI [of _ "disk_map st"]) simp
next
  case (Suc n)
  let ?st = "st\<lparr>disk_map := set_map_bit (disk_map st) i\<rparr>"
  have i: "unat i < 8 * length (disk_map st)" using Suc.prems by simp
  then have step: "get_disk_blocks (Suc n) i st = get_disk_blocks n (i + 1) ?st"
    by (simp add: get_disk_block_def map_bit_taken)
  have u: "unat (i + 1) = Suc (unat i)" using Suc.prems by (intro unat_Suc_word) simp
  obtain m where m: "get_disk_blocks n (i + 1) ?st = Inr (?st\<lparr>disk_map := m\<rparr>)" "length m = length (disk_map ?st)"
    "taken m = taken (disk_map ?st) \<union> {unat (i + 1)..<unat (i + 1) + n}"
    using Suc.IH [of "i + 1" ?st] Suc.prems u by auto
  have "taken m = insert (unat i) (taken (disk_map st)) \<union> {Suc (unat i)..<Suc (unat i) + n}"
    using m(3) taken_set [OF i] u by simp
  also have "\<dots> = taken (disk_map st) \<union> {unat i..<unat i + Suc n}" by auto
  finally show ?case using step m(1,2) by (intro exI [of _ m]) simp
qed

text \<open>The blocks of the map, for \<open>c\<close> blocks of \<open>b\<close> bytes, and when they have a bit for each.\<close>

definition map_blocks :: "nat \<Rightarrow> nat \<Rightarrow> nat" where
  "map_blocks b c = (if c div 8 mod b \<noteq> 0 then c div 8 + b else c div 8) div b"

lemma map_covers_iff:
  assumes "0 < b"
  shows "c \<le> 8 * (b * map_blocks b c) \<longleftrightarrow> c mod 8 = 0 \<or> c div 8 mod b \<noteq> 0"
proof -
  define n r where "n = c div 8" and "r = c mod 8"
  have c: "c = 8 * n + r" "r < 8" by (simp_all add: n_def r_def)
  define q m where "q = b * (n div b)" and "m = n mod b"
  have n: "n = q + m" "m < b" using assms by (simp_all add: q_def m_def)
  have "(n + b) div b = n div b + 1" using assms by (intro div_add_self2) simp
  then have "b * ((n + b) div b) = q + b" by (simp add: q_def)
  then have "b * map_blocks b c = (if m \<noteq> 0 then q + b else q)"
    by (simp add: map_blocks_def n_def [symmetric] m_def q_def)
  moreover have "c mod 8 = 0 \<or> c div 8 mod b \<noteq> 0 \<longleftrightarrow> r = 0 \<or> m \<noteq> 0" by (simp add: r_def m_def n_def)
  ultimately show ?thesis using c n by auto
qed

lemma map_blocks_word:
  assumes "n < 2 ^ 31" and "0 < b" and "b < 2 ^ 31"
  shows "unat (let m = of_nat n :: u64 in (if m mod of_nat b \<noteq> 0 then m + of_nat b else m) div of_nat b) =
    (if n mod b \<noteq> 0 then n + b else n) div b"
proof -
  have u: "unat (of_nat k :: u64) = k" if "k < 2 ^ 32" for k
    using that by (simp add: unsigned_of_nat take_bit_nat_eq_self)
  have "n < 2 ^ 32" "b < 2 ^ 32" "n + b < 2 ^ 32" using assms by simp_all
  note n = this [THEN u]
  have "(of_nat n :: u64) mod of_nat b = 0 \<longleftrightarrow> n mod b = 0"
    by (simp only: unat_eq_zero [symmetric] unat_mod n)
  then show ?thesis using n by (simp add: Let_def unat_div del: of_nat_add) (simp add: of_nat_add [symmetric] unat_div n del: of_nat_add)
qed

lemma init_map_run:
  assumes b: "0 < block_size st" and c: "8 \<le> block_count st" "block_size st * block_count st \<le> 2 ^ 31"
    and h: "h_size (fs_header st) = of_int (block_count st)"
    and e: "boot_loader_extra_blocks st = int ex" and fits: "ex + map_blocks (B st) (nat (block_count st)) \<le> nat (block_count st)"
    and covers: "block_count st mod 8 = 0 \<or> block_count st div 8 mod block_size st \<noteq> 0"
  shows "\<exists>m. init_disk_map st = Inr (st\<lparr>fs_header := (fs_header st)\<lparr>map_base := of_nat ex,
      map_size := of_nat (map_blocks (B st) (nat (block_count st)))\<rparr>, disk_map := m\<rparr>) \<and>
    length m = B st * map_blocks (B st) (nat (block_count st)) \<and> nat (block_count st) \<le> 8 * length m \<and>
    taken m = {..<ex + map_blocks (B st) (nat (block_count st))} \<and> 0 < map_blocks (B st) (nat (block_count st))"
proof -
  define b c where "b = B st" and "c = nat (block_count st)"
  define M where "M = map_blocks b c"
  have bi: "block_size st = int b" and ci: "block_count st = int c" using assms by (simp_all add: b_def c_def)
  have "int b * int c \<le> 2 ^ 31" using c(2) unfolding bi ci .
  then have lim: "b * c \<le> 2 ^ 31" by (simp flip: of_nat_mult)
  have b0: "0 < b" using b bi by simp
  have c8: "8 \<le> c" using c(1) ci by simp
  have "c \<le> b * c" "b * 8 \<le> b * c" using b0 c8 by simp_all
  then have cl: "c \<le> 2 ^ 31" "b * 8 \<le> 2 ^ 31" using lim by - (erule (1) le_trans)+
  then have small: "c div 8 < 2 ^ 31" "b < 2 ^ 31" by simp_all
  have Mu: "unat (let m = of_nat (c div 8) :: u64 in (if m mod of_nat b \<noteq> 0 then m + of_nat b else m) div of_nat b) = M"
    unfolding M_def map_blocks_def by (rule map_blocks_word [OF small(1) b0 small(2)])
  have M: "(let m = of_int (block_count st div 8) :: u64 in (if m mod of_int (block_size st) \<noteq> 0
      then m + of_int (block_size st) else m) div of_int (block_size st)) = of_nat M"
  proof -
    have "block_count st div 8 = int (c div 8)" by (simp add: ci zdiv_int)
    then have w: "(of_int (block_count st div 8) :: u64) = of_nat (c div 8)" "(of_int (block_size st) :: u64) = of_nat b"
      by (simp_all only: bi of_int_of_nat_eq)
    show ?thesis unfolding w Mu [symmetric] by (simp only: word_of_unat)
  qed
  have cov: "c \<le> 8 * (b * M)"
  proof -
    have i: "int c mod 8 = int (c mod 8)" "int c div 8 = int (c div 8)" by (simp_all add: zmod_int zdiv_int)
    show ?thesis unfolding M_def map_covers_iff [OF b0]
      using covers unfolding bi ci i zmod_int [symmetric] by simp
  qed
  then have M0: "0 < M" using c8 by (cases M) simp_all
  have fit: "ex + M \<le> c" using fits by (simp add: M_def b_def c_def)
  let ?st = "st\<lparr>fs_header := (fs_header st)\<lparr>map_base := of_nat ex, map_size := of_nat M\<rparr>, disk_map := replicate (b * M) 0\<rparr>"
  have Mw: "unat (of_nat M :: u64) = M" "unat (of_nat ex + of_nat M :: u64) = ex + M"
    using fit cl(1) by (simp_all add: unsigned_of_nat take_bit_nat_eq_self flip: of_nat_add)
  have "init_disk_map st = get_disk_blocks (ex + M) 0 ?st"
    unfolding init_disk_map_def using M by (simp add: Let_def e Mw b_def [symmetric])
  moreover obtain m where "get_disk_blocks (ex + M) 0 ?st = Inr (?st\<lparr>disk_map := m\<rparr>)" "length m = b * M" "taken m = {..<ex + M}"
    using get_disk_blocks_run [of 0 "ex + M" ?st] fit cov cl(1) by (auto simp: atLeast0LessThan)
  ultimately show ?thesis using cov M0 by (intro exI [of _ m]) (simp add: b_def c_def M_def)
qed

section \<open>The run\<close>

lemma options_extra: "boot_loader_extra_blocks (fold get_option args st) = boot_loader_extra_blocks st"
  by (induction args arbitrary: st) (simp_all add: get_option_def)

text \<open>
  The run gets to its end: the options name an output file that can be written and a disk within
  the reach of \<^verbatim>\<open>long\<close> whose map has a bit for each block, and the tree fits.
\<close>

definition reserved :: "host \<Rightarrow> builder \<Rightarrow> nat" where
  "reserved hs opts = length (loader hs opts) div B opts + map_blocks (B opts) (nat (block_count opts))"

definition image_fits :: "host \<Rightarrow> string list \<Rightarrow> builder \<Rightarrow> node list \<Rightarrow> bool" where
  "image_fits hs argv opts es \<longleftrightarrow>
     get_commandline_options argv initial_builder = (True, opts) \<and>
     can_create hs (the (output_file_name opts)) \<and> can_write hs \<and>
     512 \<le> block_size opts \<and> 8 \<le> block_count opts \<and> block_size opts * block_count opts \<le> 2 ^ 31 \<and>
     (block_count opts mod 8 = 0 \<or> block_count opts div 8 mod block_size opts \<noteq> 0) \<and>
     (\<exists>d. source_dir_name opts = Some d \<and> host_dirs hs d = Some es \<and> tree_ok (map of_char d) es) \<and>
     \<not> only_dots es \<and> reserved hs opts + entries_blocks (B opts) es \<le> nat (block_count opts)"

lemma grows_boot:
  assumes "grows A C st st'"
  shows "boot_code st' = boot_code st"
proof -
  have e: "st' = st\<lparr>disk := disk st', disk_len := disk_len st', disk_pos := disk_pos st', disk_map := disk_map st'\<rparr>"
    using assms by (simp add: grows_def)
  show ?thesis by (subst e) simp
qed

lemma build_run:
  assumes fits: "image_fits hs argv opts es"
  defines "b \<equiv> B opts" and "ex \<equiv> length (loader hs opts) div B opts"
    and "M \<equiv> map_blocks (B opts) (nat (block_count opts))"
  shows "\<exists>st h m s0 (s1 :: builder). main hs argv = Inr st \<and> block b (disk st) 0 = header_bytes h @ drop 68 (first_block hs opts) \<and>
    jump h = take 4 (first_block hs opts) \<and> magic h = 0x84837376 \<and> h_size h = of_int (block_count opts) \<and>
    h_block_size h = of_int (block_size opts) \<and> map_base h = of_nat ex \<and> map_size h = of_nat M \<and>
    dir_at (nat (block_count opts)) b (disk st) (- 1) (- 1) (first_file h) es \<and>
    b * ex < 2 ^ 31 \<and> length m = b * M \<and> {..<ex + M} \<subseteq> taken m \<and> card (taken m \<inter> {..<nat (block_count opts)}) = ex + M + entries_blocks b es \<and>
    (\<forall>j. 0 < j \<and> ex \<le> j \<and> j < ex + M \<longrightarrow> block b (disk st) j = take b (drop (b * (j - ex)) m)) \<and>
    (\<forall>j. 0 < j \<and> j < ex \<longrightarrow> block b (disk st) j = block b (disk s1) j) \<and>
    block_size s0 = block_size opts \<and>
    disk s1 = (if length (loader hs opts) < b then disk s0
      else disk (copy_boot 1 (replicate b 0) \<lparr>unread = drop b (loader hs opts), at_eof = False\<rparr> s0))"
proof -
  define c where "c = nat (block_count opts)"
  obtain d where o: "get_commandline_options argv initial_builder = (True, opts)"
    "can_create hs (the (output_file_name opts))" "can_write hs"
    "512 \<le> block_size opts" "8 \<le> block_count opts" "block_size opts * block_count opts \<le> 2 ^ 31"
    "block_count opts mod 8 = 0 \<or> block_count opts div 8 mod block_size opts \<noteq> 0"
    "source_dir_name opts = Some d" "host_dirs hs d = Some es" "tree_ok (map of_char d) es" "\<not> only_dots es"
    "ex + M + entries_blocks b es \<le> c"
    using fits unfolding image_fits_def reserved_def
    by (elim conjE exE, intro that) (assumption | simp only: b_def ex_def M_def c_def)+
  have oex: "boot_loader_extra_blocks opts = 0"
    using o(1) options_extra [of "tl argv" initial_builder]
    by (auto simp: get_commandline_options_def Let_def initial_builder_def)
  define s0 where "s0 = snd (open_output_file hs opts)"
  have s0: "open_output_file hs opts = (True, s0)" "block_size s0 = block_size opts" "block_count s0 = block_count opts"
    "source_dir_name s0 = source_dir_name opts" "boot_loader_extra_blocks s0 = 0" "loader hs s0 = loader hs opts"
    using o(2,3) oex by (simp_all add: s0_def open_output_file_def Let_def fwrite_def fseek_def loader_def)
  have fb: "first_block hs s0 = first_block hs opts" by (simp add: first_block_def s0)
  obtain s1 where s1: "init_listfs_header hs s0 = Inr s1" "block_size s1 = block_size opts"
    "block_count s1 = block_count opts" "source_dir_name s1 = Some d" "boot_loader_extra_blocks s1 = int ex"
    "boot_code s1 = drop 68 (first_block hs opts)" "jump (fs_header s1) = take 4 (first_block hs opts)"
    "magic (fs_header s1) = 0x84837376" "h_size (fs_header s1) = of_int (block_count opts)"
    "h_block_size (fs_header s1) = of_int (block_size opts)"
    "disk s1 = (if length (loader hs opts) < b then disk s0
      else disk (copy_boot 1 (replicate b 0) \<lparr>unread = drop b (loader hs opts), at_eof = False\<rparr> s0))"
    using init_header_run [of s0 hs] o(4,8) s0 fb by (auto simp: b_def ex_def)
  have pos: "0 < block_size opts" and fit: "ex + M \<le> c" using o(4,12) by simp_all
  obtain m where m: "init_disk_map s1 = Inr (s1\<lparr>fs_header := (fs_header s1)\<lparr>map_base := of_nat ex, map_size := of_nat M\<rparr>,
      disk_map := m\<rparr>)" "length m = b * M" "c \<le> 8 * length m" "taken m = {..<ex + M}" "0 < M"
    using init_map_run [of s1 ex, unfolded s1(2,3), folded M_def, folded b_def c_def, OF pos o(5,6) s1(9,5) fit o(7)]
    by (elim exE conjE) (rule that)
  define s2 where "s2 = s1\<lparr>fs_header := (fs_header s1)\<lparr>map_base := of_nat ex, map_size := of_nat M\<rparr>, disk_map := m\<rparr>"
  have b0: "512 \<le> b" using o(4) by (simp add: b_def)
  have "int b * int c \<le> 2 ^ 31" using o(4-6) by (simp add: b_def c_def)
  then have lim: "b * c \<le> 2 ^ 31" by (simp flip: of_nat_mult)
  have "c \<le> b * c" using b0 by simp
  then have c31: "c \<le> 2 ^ 31" using lim by (rule le_trans)
  have cN: "N s2 = c"
  proof -
    from c31 have u: "unat (of_nat c :: u64) = c" by (simp add: unsigned_of_nat take_bit_nat_eq_self)
    have "block_count opts = int c" using o(5) by (simp add: c_def)
    then have "(of_int (block_count opts) :: u64) = of_nat c" by (simp only: of_int_of_nat_eq)
    then have "h_size (fs_header s2) = of_nat c" by (simp add: s2_def s1(9))
    then show ?thesis by (simp only: u)
  qed
  have B2: "B s2 = b" "disk_map s2 = m" "disk s2 = disk s1" by (simp_all add: s2_def s1(2) b_def)
  have ok: "builder_ok s2" using b0 lim m(3) o(5) unfolding builder_ok_def cN B2 by (simp add: c_def)
  have free2: "free s2 = {ex + M..<c}" 
  proof -
    have "{..<8 * length m} \<inter> {..<c} = {..<c}" using m(3) by (intro Int_absorb1) simp
    moreover have "({..<8 * length m} - {..<ex + M}) \<inter> {..<c} = {..<8 * length m} \<inter> {..<c} - {..<ex + M}" by blast
    ultimately show ?thesis unfolding free_def clear_def B2 cN m(4) by (simp only:) (simp add: lessThan_minus_lessThan)
  qed
  have "entries_blocks (B s2) es \<le> card (free s2)" using o(12) by (simp add: free2 B2)
  then obtain i s3 A where r: "process_dir (fresh_byte hs) (- 1) (map of_char d) (Some es) s2 = Inr (i, s3)"
    "dir_stored (- 1) (Some es) s2 i s3 A"
    using process_run(1) [of s2 "Some es" "map of_char d" "fresh_byte hs" "- 1"] ok b0 o(10,11) by (auto simp: B2)
  have g: "grows A A s2 s3" and cA: "card A = entries_blocks b es" using r(2) by (simp_all add: dir_stored_def B2)
  note gf = grows_fields [OF g]
  define s4 where "s4 = s3\<lparr>fs_header := (fs_header s3)\<lparr>first_file := i\<rparr>\<rparr>"
  define h where "h = (fs_header s2)\<lparr>first_file := i\<rparr>"
  have s4: "block_size s4 = block_size opts" "fs_header s4 = h" "boot_code s4 = drop 68 (first_block hs opts)"
    "disk s4 = disk s3" "disk_map s4 = disk_map s3" "length (disk_map s4) = b * M"
    using gf(1,2,4) grows_boot [OF g] s1(2,6) m(2) by (simp_all add: s4_def h_def s2_def)
  have hf: "jump h = take 4 (first_block hs opts)" "magic h = 0x84837376" "h_size h = of_int (block_count opts)"
    "h_block_size h = of_int (block_size opts)" "map_base h = of_nat ex" "map_size h = of_nat M" "first_file h = i"
    by (simp_all add: h_def s2_def s1)
  have exb: "b * ex < 2 ^ 31"
  proof -
    have "ex < c" using fit m(5) by simp
    then have "b * ex < b * c" using b0 by simp
    then show ?thesis using lim by (rule less_le_trans)
  qed
  have u: "unat (of_nat ex :: u64) = ex" "unat (of_nat M :: u64) = M"
    using fit c31 by (simp_all add: unsigned_of_nat take_bit_nat_eq_self)
  define s5 where "s5 = store_disk_map s4"
  have B4: "B s4 = b" by (simp add: s4(1) b_def)
  have pos4: "0 < block_size s4" using s4(1) o(4) by simp
  have s5: "block b (disk s5) j = (if ex \<le> j \<and> j < ex + M then take b (drop (b * (j - ex)) (disk_map s4))
      else block b (disk s4) j)" for j
    using block_write [OF pos4, of "of_nat ex" "disk_map s4" M j] exb s4(6)
    by (simp add: s5_def store_disk_map_def s4(2) hf u B4)
  have f5: "block_size s5 = block_size opts" "fs_header s5 = h" "boot_code s5 = drop 68 (first_block hs opts)"
    by (simp_all add: s5_def store_disk_map_def s4)
  define s6 where "s6 = store_listfs_header s5"
  have len4: "length (jump h) = 4" using b0 by (simp add: hf first_block_length flip: b_def)
  have lb: "length (header_bytes h @ boot_code s5) = b * 1"
    using b0 by (simp add: header_length [OF len4] f5 first_block_length flip: b_def)
  have s6: "block b (disk s6) j = (if j = 0 then header_bytes h @ drop 68 (first_block hs opts) else block b (disk s5) j)" for j
    using block_write [of s5 0 "header_bytes h @ boot_code s5" 1 j] o(4) lb
    by (simp add: s6_def store_listfs_header_def f5 flip: b_def)
  have run: "main hs argv = Inr s6"
    using o(1,4,5,9) s0(1) s1(1) m(1) r(1) gf(1) by (simp add: main_def check_options_def s2_def s4_def [symmetric]
      s5_def [symmetric] s6_def [symmetric] s1(4) del: process_dir.simps)
  have out: "block b (disk s6) j = block b (disk s3) j" if "j \<in> A" for j
  proof -
    have "ex + M \<le> j" using that gf(6) free2 by auto
    then have "j \<noteq> 0" "\<not> (ex \<le> j \<and> j < ex + M)" using m(5) by auto
    then show ?thesis by (simp only: s6 s5 s4(4) if_False)
  qed
  then have tree: "dir_at (nat (block_count opts)) b (disk s6) (- 1) (- 1) i es" using r(2) by (simp add: dir_stored_def B2 agree_def cN c_def)
  have t3: "taken (disk_map s3) \<inter> {..<c} = {..<ex + M} \<union> A"
  proof -
    have "N s3 = c" "length (disk_map s3) = length m" using gf(2,4) cN by (simp_all add: B2)
    then have "j \<in> free s3 \<longleftrightarrow> j < c \<and> j \<notin> taken (disk_map s3)" for j
      using m(3) by (auto simp: free_def clear_def)
    then have "j < c \<Longrightarrow> j \<in> taken (disk_map s3) \<longleftrightarrow> j \<notin> {ex + M..<c} - A" for j
      using gf(5) free2 by auto
    moreover have "A \<subseteq> {ex + M..<c}" using gf(6) free2 by simp
    ultimately show ?thesis using fit by (auto simp: subset_iff)
  qed
  have "A \<subseteq> {ex + M..<c}" using gf(6) free2 by simp
  then have "finite A" "{..<ex + M} \<inter> A = {}" by (auto intro: finite_subset)
  then have cards: "card (taken (disk_map s3) \<inter> {..<c}) = ex + M + entries_blocks b es"
    unfolding t3 by (simp add: card_Un_disjoint cA)
  have boot: "block b (disk s6) j = block b (disk s1) j" if "0 < j" "j < ex" for j
  proof -
    have "j \<in> - A" using that gf(6) free2 by auto
    then have "block b (disk s3) j = block b (disk s1) j" using agreeD [OF gf(7)] by (simp add: B2)
    then show ?thesis using that by (simp add: s6 s5 s4(4))
  qed
  show ?thesis
  proof (rule exI [of _ s6], rule exI [of _ h], rule exI [of _ "disk_map s3"], rule exI [of _ s0], rule exI [of _ s1],
      intro conjI)
    show "block b (disk s6) 0 = header_bytes h @ drop 68 (first_block hs opts)" by (simp add: s6)
    show "dir_at (nat (block_count opts)) b (disk s6) (- 1) (- 1) (first_file h) es" unfolding hf(7) by (rule tree)
    show "{..<ex + M} \<subseteq> taken (disk_map s3)" using t3 by blast
    show "\<forall>j. 0 < j \<and> ex \<le> j \<and> j < ex + M \<longrightarrow> block b (disk s6) j = take b (drop (b * (j - ex)) (disk_map s3))"
      by (simp add: s6 s5 s4(5))
    show "length (disk_map s3) = b * M" using s4(5,6) by simp
    show "\<forall>j. 0 < j \<and> j < ex \<longrightarrow> block b (disk s6) j = block b (disk s1) j" using boot by blast
    show "card (taken (disk_map s3) \<inter> {..<nat (block_count opts)}) = ex + M + entries_blocks b es"
      using cards by (simp only: c_def)
  qed (rule run hf s0(2) s1(11) exb)+
qed

lemma chunks_join:
  "length m = b * n \<Longrightarrow> concat (map (\<lambda>j. take b (drop (b * (j - k)) m)) [k..<k + n]) = m"
proof (induction n arbitrary: m k)
  case 0
  then show ?case by simp
next
  case (Suc n)
  have tail: "map (\<lambda>j. take b (drop (b * (j - k)) m)) [Suc k..<Suc k + n] =
      map (\<lambda>j. take b (drop (b * (j - Suc k)) (drop b m))) [Suc k..<Suc k + n]"
  proof (rule map_cong [OF refl])
    fix j assume "j \<in> set [Suc k..<Suc k + n]"
    then obtain i where "j = Suc k + i" by (auto simp: le_iff_add)
    then show "take b (drop (b * (j - k)) m) = take b (drop (b * (j - Suc k)) (drop b m))"
      by (simp add: add.commute)
  qed
  have "length (drop b m) = b * n" using Suc.prems by simp
  note rest = Suc.IH [OF this, of "Suc k"]
  have "[k..<k + Suc n] = k # [Suc k..<Suc k + n]" by (simp add: upt_conv_Cons)
  then have "concat (map (\<lambda>j. take b (drop (b * (j - k)) m)) [k..<k + Suc n]) = take b m @ drop b m"
    by (simp only: list.map concat.simps tail rest diff_self_eq_0 mult_0_right drop_0)
  then show ?case by (simp only: append_take_drop_id)
qed

lemma built_image:
  assumes "image_fits hs argv opts es"
  shows "\<exists>st. main hs argv = Inr st \<and>
    (let h = header_of (block (B opts) (disk st) 0)
     in magic h = 0x84837376 \<and> h_size h = of_int (block_count opts) \<and> h_block_size h = of_int (block_size opts) \<and>
        dir_at (nat (block_count opts)) (B opts) (disk st) (- 1) (- 1) (first_file h) es)"
proof -
  obtain st h where r: "main hs argv = Inr st"
    "block (B opts) (disk st) 0 = header_bytes h @ drop 68 (first_block hs opts)"
    "jump h = take 4 (first_block hs opts)" "magic h = 0x84837376" "h_size h = of_int (block_count opts)"
    "h_block_size h = of_int (block_size opts)" "dir_at (nat (block_count opts)) (B opts) (disk st) (- 1) (- 1) (first_file h) es"
    using build_run [OF assms] by blast
  have "512 \<le> B opts" using assms by (auto simp: image_fits_def)
  then have "header_of (block (B opts) (disk st) 0) = h"
    unfolding r(2) using r(3) by (intro header_round_trip) (simp add: first_block_length)
  then show ?thesis using r by (simp add: Let_def)
qed

text \<open>C3: The image that \<^verbatim>\<open>make_listfs\<close> builds: with options that name a disk large enough for the tree, the
  program ends with code 0, the first block of the image is a header with the magic number and
  the sizes asked for, and from the first file it names the image holds the whole
  directory tree of the host.\<close>

theorem make_image_holds_tree:
  assumes "image_fits hs argv opts es"
  shows "\<exists>st. main hs argv = Inr st \<and>
    (let h = header_of (block (B opts) (disk st) 0)
     in magic h = 0x84837376 \<and> h_size h = of_int (block_count opts) \<and> h_block_size h = of_int (block_size opts) \<and>
        dir_at (nat (block_count opts)) (B opts) (disk st) (- 1) (- 1) (first_file h) es)"
  by (rule built_image [OF assms])

text \<open>Around the tree: the image keeps the jump at the start of the loader and its code behind the
  header, and of a loader that fills its first block all its whole blocks; the map lies
  behind those whole blocks, so over the rest of a loader that has one.  The map marks the
  loader's blocks, its own, and as many more as the tree takes.\<close>

theorem make_image_keeps_loader:
  assumes fits: "image_fits hs argv opts es" and full: "B opts \<le> length (loader hs opts)"
  defines "b \<equiv> B opts" and "n \<equiv> length (loader hs opts) div B opts"
    and "M \<equiv> map_blocks (B opts) (nat (block_count opts))"
  shows "\<exists>st. main hs argv = Inr st \<and> take 4 (block b (disk st) 0) = take 4 (loader hs opts) \<and>
    drop 68 (block b (disk st) 0) = drop 68 (take b (loader hs opts)) \<and>
    (\<forall>j. 0 < j \<and> j < n \<longrightarrow> block b (disk st) j = take b (drop (b * j) (loader hs opts))) \<and>
    (let m = concat (map (block b (disk st)) [n..<n + M])
     in {..<n + M} \<subseteq> taken m \<and> card (taken m \<inter> {..<nat (block_count opts)}) = n + M + entries_blocks b es)"
proof -
  obtain st h m s0 and s1 :: builder where r: "main hs argv = Inr st"
    "block b (disk st) 0 = header_bytes h @ drop 68 (first_block hs opts)" "jump h = take 4 (first_block hs opts)"
    "b * n < 2 ^ 31" "length m = b * M" "{..<n + M} \<subseteq> taken m"
    "card (taken m \<inter> {..<nat (block_count opts)}) = n + M + entries_blocks b es"
    "\<forall>j. 0 < j \<and> n \<le> j \<and> j < n + M \<longrightarrow> block b (disk st) j = take b (drop (b * (j - n)) m)"
    "\<forall>j. 0 < j \<and> j < n \<longrightarrow> block b (disk st) j = block b (disk s1) j" "block_size s0 = block_size opts"
    "disk s1 = (if length (loader hs opts) < b then disk s0
      else disk (copy_boot 1 (replicate b 0) \<lparr>unread = drop b (loader hs opts), at_eof = False\<rparr> s0))"
    using build_run [OF fits, folded b_def n_def M_def, folded b_def n_def] by (elim exE conjE) (rule that)
  have b: "512 \<le> b" using fits by (auto simp: image_fits_def b_def)
  have full': "b \<le> length (loader hs opts)" using full by (simp add: b_def)
  have fb: "first_block hs opts = take b (loader hs opts)" using full' by (simp add: first_block_def b_def)
  have j4: "length (jump h) = 4" using r(3) b full' by (simp add: fb)
  have n: "n = Suc ((length (loader hs opts) - b) div b)"
    using full' b unfolding n_def b_def [symmetric] by (simp add: div_if [of "length (loader hs opts)"])
  have head: "take 4 (block b (disk st) 0) = take 4 (loader hs opts)"
    using r(3) b full' by (simp add: r(2) header_bytes_def j4 fb)
  have code: "drop 68 (block b (disk st) 0) = drop 68 (take b (loader hs opts))"
    using header_length [OF j4] by (simp add: r(2) fb)
  have loaded: "block b (disk st) j = take b (drop (b * j) (loader hs opts))" if j: "0 < j" "j < n" for j
  proof -
    let ?f = "\<lparr>unread = drop b (loader hs opts), at_eof = False\<rparr>"
    have s0: "0 < block_size s0" "B s0 = b" using r(10) b by (simp_all add: b_def)
    have "length (unread ?f) div B s0 = n - 1" using n by (simp add: s0(2))
    moreover have "B s0 * (unat (1 :: u64) + (n - 1)) < 2 ^ 31" using r(4) n by (simp add: s0(2))
    ultimately have "block b (disk (copy_boot 1 (replicate b 0) ?f s0)) j =
        take b (drop (b * (j - 1)) (drop b (loader hs opts)))"
      using copy_boot_blocks [of s0 ?f "replicate b 0" "n - 1" 1 j] s0 j by simp
    moreover have "b * (j - 1) + b = b * j" using j(1) by (cases j) simp_all
    ultimately show ?thesis using r(9,11) j full' by simp
  qed
  have "map (block b (disk st)) [n..<n + M] = map (\<lambda>j. take b (drop (b * (j - n)) m)) [n..<n + M]"
    using r(8) n by (intro map_cong) auto
  then have "concat (map (block b (disk st)) [n..<n + M]) = m" by (simp only: chunks_join [OF r(5)])
  then show ?thesis using r(1,6,7) head code loaded by (simp add: Let_def)
qed

section \<open>A concrete image\<close>

definition demo_host :: host where
  "demo_host = \<lparr>host_files = [''boot.bin'' \<mapsto> replicate 512 0x90],
     host_dirs = [''disk'' \<mapsto> [Dir [46] \<lparr>st_size = 0, st_ctime = 0, st_mtime = 0, st_atime = 0\<rparr> None,
       File [97, 46, 98] \<lparr>st_size = 3, st_ctime = 1, st_mtime = 2, st_atime = 3\<rparr> (Some [7, 8, 9])]],
     can_create = (\<lambda>_. True), can_write = True, host_time = 0, host_rand = 0, fresh_byte = (\<lambda>_. 0)\<rparr>"

definition demo_args :: "string list" where
  "demo_args = [''make_listfs'', ''of=a.img'', ''size=64'', ''boot=boot.bin'', ''src=disk'']"

definition demo_options :: builder where
  "demo_options = initial_builder\<lparr>output_file_name := Some ''a.img'', boot_loader_file_name := Some ''boot.bin'',
     source_dir_name := Some ''disk'', block_count := 64\<rparr>"

lemma demo_run: "get_commandline_options demo_args initial_builder = (True, demo_options)"
  by (simp add: get_commandline_options_def demo_args_def get_option_def Let_def demo_options_def initial_builder_def
    atoi_of.simps atoi_digits_of.simps)

definition demo_tree :: "node list" where
  "demo_tree = the (host_dirs demo_host ''disk'')"

lemma demo_loader: "loader demo_host demo_options = replicate 512 0x90" "B demo_options = 512"
    "block_count demo_options = 64"
  by (simp_all add: loader_def demo_options_def demo_host_def initial_builder_def)

lemma demo_fits: "image_fits demo_host demo_args demo_options demo_tree"
proof -
  have "demo_tree = the (host_dirs demo_host ''disk'')" "host_dirs demo_host ''disk'' = Some demo_tree"
    by (simp_all add: demo_tree_def demo_host_def)
  moreover have "tree_ok (map of_char ''disk'') demo_tree" "\<not> only_dots demo_tree" "entries_blocks 512 demo_tree = 3"
    by (simp_all add: demo_tree_def demo_host_def dots_def file_blocks_def chunks_def)
  moreover have "reserved demo_host demo_options = 2" "block_size demo_options = 512"
    by (simp_all add: reserved_def demo_loader map_blocks_def) (simp add: demo_options_def initial_builder_def)
  moreover have "source_dir_name demo_options = Some ''disk''" "can_create demo_host n" "can_write demo_host" for n
    by (simp_all add: demo_options_def demo_host_def)
  ultimately show ?thesis using demo_run by (simp add: image_fits_def demo_loader)
qed

theorem make_image_holds_tree_witness:
  "\<exists>st. main demo_host demo_args = Inr st \<and> magic (header_of (block 512 (disk st) 0)) = 0x84837376"
  using make_image_holds_tree [OF demo_fits] by (auto simp: Let_def demo_loader)

theorem make_image_keeps_loader_witness:
  "\<exists>st. main demo_host demo_args = Inr st \<and> drop 68 (block 512 (disk st) 0) = replicate 444 0x90"
  using make_image_keeps_loader [OF demo_fits] by (auto simp: demo_loader Let_def)

end
