(* ===== verification/Image_Kernel.thy ===== *)
theory Image_Kernel
  imports Listfs Image_Build
begin

text \<open>
  The two halves of the file system meet: what \<^verbatim>\<open>make_listfs\<close> writes, the kernel finds.  An image of
  512-byte blocks is a diskette of the machine of \<open>Listfs\<close>.
\<close>

section \<open>Chains of headers\<close>

abbreviation "kept_entries es \<equiv> filter (\<lambda>e. \<not> dots (node_name e)) es"

lemma dir_headers:
  "dir_at lim 512 img parent prev i es \<Longrightarrow> \<exists>hs. headers_at lim img i hs \<and>
    list_all2 (\<lambda>e h. fh_name h = name_field (node_name e) \<and> (\<exists>j. node_at lim 512 img j h e)) (kept_entries es) hs"
proof (induction es arbitrary: prev i)
  case Nil
  then show ?case by (intro exI [of _ "[]"]) simp
next
  case (Cons e es)
  show ?case
  proof (cases "dots (node_name e)")
    case True
    then show ?thesis using Cons by simp
  next
    case False
    let ?h = "file_header_at 512 img i"
    have h: "i \<noteq> - 1" "unat i < lim" "fh_name ?h = name_field (node_name e)" "node_at lim 512 img i ?h e"
      "dir_at lim 512 img parent i (fh_next ?h) es"
      using Cons.prems False by (simp_all add: Let_def)
    from Cons.IH [OF h(5)] obtain hs where "headers_at lim img (fh_next ?h) hs"
      "list_all2 (\<lambda>e h. fh_name h = name_field (node_name e) \<and> (\<exists>j. node_at lim 512 img j h e)) (kept_entries es) hs"
      by blast
    then show ?thesis using h False by (intro exI [of _ "?h # hs"]) auto
  qed
qed

lemma name_field_terminated: "0 \<in> set (name_field name)"
  by (simp add: name_field_def)

lemma name_field_name: "length name \<le> 255 \<Longrightarrow> 0 \<notin> set name \<Longrightarrow> takeWhile (\<lambda>c. c \<noteq> 0) (name_field name) = name"
  by (simp add: name_field_def takeWhile_append2 takeWhile_replicate) (subst takeWhile_append2, auto simp: takeWhile_replicate)

section \<open>One block list\<close>

lemma length_concat_blocks: "length (concat (map (\<lambda>d. block bs img (f d)) ds)) = bs * length ds"
  by (induction ds) simp_all

lemma last_chunk:
  "ds \<noteq> [] \<Longrightarrow> block bs img (f (last ds)) =
    drop (length (concat (map (\<lambda>d. block bs img (f d)) ds)) - bs) (concat (map (\<lambda>d. block bs img (f d)) ds))"
proof -
  assume ds: "ds \<noteq> []"
  let ?c = "\<lambda>ds. concat (map (\<lambda>d. block bs img (f d)) ds)"
  have e: "?c ds = ?c (butlast ds) @ block bs img (f (last ds))"
    using arg_cong [OF append_butlast_last_id [OF ds], of ?c] by simp
  show ?thesis unfolding e by simp
qed

text \<open>
  Where the data of a file fit into one list with room to spare, the list has an end, and the
  kernel's scan stops at the last block.
\<close>

lemma one_list:
  assumes r: "read_file lim (Suc (Suc n)) 512 img i = Some data" and ne: "data \<noteq> []"
    and len: "length data < 63 * 512" and lim: "lim \<le> 2880"
  shows "unat i < lim \<and> - 1 \<in> set (numbers (block 512 img (unat i))) \<and>
    unat (last_block (numbers (block 512 img (unat i)))) < lim \<and>
    block 512 img (unat (last_block (numbers (block 512 img (unat i))))) = drop (length data - 512) data"
proof -
  define ns where "ns = numbers (block 512 img (unat i))"
  define ds where "ds = takeWhile (\<lambda>d. d \<noteq> - 1) (butlast ns)"
  have "i \<noteq> - 1" using r ne by auto
  then obtain rest where rd: "unat i < lim" "\<forall>d \<in> set ds. unat d < lim" "\<not> (length ds + 1 < length ns \<and> last ns \<noteq> - 1)"
    "data = concat (map (\<lambda>d. block 512 img (unat d)) ds) @ rest" "read_file lim (Suc n) 512 img (last ns) = Some rest"
    using r by (auto simp: Let_def ns_def ds_def split: if_splits simp del: read_file.simps(2))
       (auto simp: Let_def read_file.simps(2) [of lim "Suc n"] not_le split: if_splits)
  have l64: "length ns = 64" by (simp add: ns_def numbers_def)
  have "512 * length ds \<le> length data" using rd(4) length_concat_blocks [of 512 img unat ds] by simp
  then have l63: "length ds < 63" using len by simp
  then have last: "last ns = - 1" using rd(3) l64 by auto
  then have "rest = []" using rd(5) by simp
  then have data: "data = concat (map (\<lambda>d. block 512 img (unat d)) ds)" using rd(4) by simp
  have nn: "ns \<noteq> []" using l64 by auto
  have "takeWhile (\<lambda>d. d \<noteq> - 1) (butlast ns @ [last ns]) = ds"
  proof (cases "\<forall>d \<in> set (butlast ns). d \<noteq> - 1")
    case True
    then have "ds = butlast ns" unfolding ds_def by (simp add: takeWhile_eq_all_conv)
    then show ?thesis using True last by (simp add: takeWhile_append2)
  next
    case False
    then show ?thesis by (auto simp: ds_def takeWhile_append1)
  qed
  then have tw: "takeWhile (\<lambda>d. d \<noteq> - 1) ns = ds" using append_butlast_last_id [OF nn] by simp
  have dn: "ds \<noteq> []" using data ne by auto
  have lb: "last_block ns = ucast (last ds)" using dn by (simp add: last_block_def tw last_map)
  have "unat (last ds) < 2880" using rd(2) dn lim by (meson last_in_set less_le_trans)
  then have u: "unat (last_block ns) = unat (last ds)" unfolding lb by (rule unat_sector)
  have "- 1 \<in> set ns" using last nn by (metis last_in_set)
  moreover have "unat (last_block ns) < lim" unfolding u using rd(2) dn by simp
  moreover have "block 512 img (unat (last_block ns)) = drop (length data - 512) data"
    unfolding u data using last_chunk [OF dn, of 512 img unat] .
  ultimately show ?thesis using rd(1) by (simp add: ns_def)
qed

text \<open>An empty file has a list without a block.\<close>

lemma empty_list:
  assumes r: "read_file lim (Suc n) 512 img i = Some []" and i: "i \<noteq> - 1"
  shows "unat i < lim \<and> - 1 \<in> set (numbers (block 512 img (unat i))) \<and> last_block (numbers (block 512 img (unat i))) = - 1"
proof -
  define ns where "ns = numbers (block 512 img (unat i))"
  define ds where "ds = takeWhile (\<lambda>d. d \<noteq> - 1) (butlast ns)"
  have l64: "length ns = 64" by (simp add: ns_def numbers_def)
  obtain rest where rd: "unat i < lim" "concat (map (\<lambda>d. block 512 img (unat d)) ds) @ rest = []"
    using r i by (auto simp: Let_def ns_def ds_def not_le split: if_splits)
  have "512 * length ds = length (concat (map (\<lambda>d. block 512 img (unat d)) ds))" by (simp add: length_concat_blocks)
  also have "\<dots> = 0" using rd(2) by (simp only: append_is_Nil_conv list.size)
  finally have "ds = []" by simp
  moreover obtain a b xs where ns: "ns = a # b # xs" using l64 by (cases ns; cases "tl ns") auto
  ultimately have "a = - 1" by (auto simp: ds_def split: if_splits)
  then have "- 1 \<in> set ns" "last_block ns = - 1" using ns by (simp_all add: last_block_def)
  then show ?thesis using rd(1) by (simp add: ns_def)
qed

section \<open>From the host to the kernel\<close>

lemma pad_neq: "bytes \<noteq> [] \<Longrightarrow> pad bs bytes \<noteq> []"
  by (simp add: pad_def)

lemma pad_length_less:
  assumes "length bytes \<le> 62 * 512"
  shows "length (pad 512 bytes) < 63 * 512"
proof -
  have "(512 - length bytes mod 512) mod 512 < 512" by (rule mod_less_divisor) simp
  then show ?thesis using assms by (simp add: pad_def)
qed

text \<open>File names of the host: no longer than a directory entry holds, without NUL, and distinct.\<close>

definition good_names :: "node list \<Rightarrow> bool" where
  "good_names es \<longleftrightarrow> (\<forall>e \<in> set es. length (node_name e) \<le> 255 \<and> 0 \<notin> set (node_name e)) \<and> distinct (map node_name es)"

lemma find_header:
  assumes "list_all2 P es hs" and "e \<in> set es" and "\<forall>e h. P e h \<longrightarrow> e \<in> set es \<longrightarrow> stored_name h = node_name e"
    and "distinct (map node_name es)"
  shows "\<exists>h. find (\<lambda>h. stored_name h = node_name e) hs = Some h \<and> P e h"
  using assms
proof (induction rule: list_all2_induct)
  case Nil
  then show ?case by simp
next
  case (Cons x xs h hs)
  have x: "stored_name h = node_name x" using Cons by simp
  show ?case
  proof (cases "e = x")
    case True
    then show ?thesis using x Cons.hyps(1) by simp
  next
    case False
    then have "e \<in> set xs" "node_name x \<noteq> node_name e" using Cons.prems by auto
    then show ?thesis using x Cons.IH Cons.prems by auto
  qed
qed

lemma find_header_none:
  assumes "list_all2 P es hs" and "s \<notin> node_name ` set es" and "\<forall>e h. P e h \<longrightarrow> e \<in> set es \<longrightarrow> stored_name h = node_name e"
  shows "find (\<lambda>h. stored_name h = s) hs = None"
  using assms by (induction rule: list_all2_induct) auto

text \<open>C1: End to end: take a disk image of 512-byte blocks that \<^verbatim>\<open>make_listfs\<close> builds from a directory of the host
  whose names are distinct and of at most 255 characters, put it into the drive, and ask the kernel's
  \<^verbatim>\<open>find_file\<close> for a name.  For a file of the directory of 1 to 31744 bytes it answers the sector with the last 512
  bytes of the padded file (so for a program of one sector, the program), for an empty file \<open>-1\<close>, and for a name that no
  entry has \<open>-1\<close> too.  For a longer file, of more than one block list or a full one, and for the name of a sub-directory
  nothing is said.\<close>

theorem kernel_finds_built_files:
  assumes fits: "image_fits hs argv opts es" and size: "block_size opts = 512" "block_count opts \<le> 2880"
    and names: "good_names (kept_entries es)"
  shows "\<exists>img. main hs argv = Inr img \<and>
    (\<forall>mc st a s. responsive (board mc) \<and> follows (board mc) \<and> diskette mc = disk img \<and>
       ready (length (kept_entries es) + 1) st \<and> safe_string (memory_of st) a s \<longrightarrow>
       (let first = ucast (first_file (header_of (block 512 (disk img) 0)))
        in (s \<notin> node_name ` set (kept_entries es) \<longrightarrow> (\<exists>st'. find_file mc first a st = Some (- 1, st'))) \<and>
           (\<forall>info bytes. File s info (Some bytes) \<in> set (kept_entries es) \<and> length bytes \<le> 62 * 512 \<longrightarrow>
              (\<exists>d st'. find_file mc first a st = Some (d, st') \<and>
                 (if bytes = [] then d = - 1
                  else unat d < nat (block_count opts) \<and>
                    block 512 (disk img) (unat d) = drop (length (pad 512 bytes) - 512) (pad 512 bytes))))))"
proof -
  let ?ks = "kept_entries es" and ?lim = "nat (block_count opts)"
  obtain img where run: "main hs argv = Inr img"
    and dir: "dir_at ?lim 512 (disk img) (- 1) (- 1) (first_file (header_of (block 512 (disk img) 0))) es"
    using built_image [OF fits] size(1) by (auto simp: Let_def)
  have lim: "?lim \<le> 2880" using size(2) by simp
  define i where "i = first_file (header_of (block 512 (disk img) 0))"
  let ?P = "\<lambda>e h. fh_name h = name_field (node_name e) \<and> (\<exists>j. node_at ?lim 512 (disk img) j h e)"
  obtain hds where hds: "headers_at ?lim (disk img) i hds" "list_all2 ?P ?ks hds"
    using dir_headers [OF dir] by (auto simp: i_def)
  have len: "length hds = length ?ks" using hds(2) by (simp add: list_all2_lengthD)
  have "?ks \<noteq> []" using fits by (auto simp: image_fits_def only_dots_def filter_empty_conv)
  then have ne: "hds \<noteq> []" using len by auto
  have nul: "\<forall>h \<in> set hds. 0 \<in> set (fh_name h)"
    using hds(2) name_field_terminated by (fastforce simp: list_all2_conv_all_nth in_set_conv_nth)
  have stored: "\<forall>e h. ?P e h \<longrightarrow> e \<in> set ?ks \<longrightarrow> stored_name h = node_name e"
    using names by (auto simp: good_names_def stored_name_def name_field_name)
  have none: "find (\<lambda>h. stored_name h = s) hds = None" if "s \<notin> node_name ` set ?ks" for s
    using find_header_none [OF hds(2) that stored] .
  have some: "\<exists>h. find (\<lambda>h. stored_name h = s) hds = Some h \<and> unat (fh_data h) < 2880 \<and>
      (let ns = numbers (block 512 (disk img) (unat (fh_data h)))
       in - 1 \<in> set ns \<and> (if bytes = [] then last_block ns = - 1 else unat (last_block ns) < ?lim \<and>
          block 512 (disk img) (unat (last_block ns)) = drop (length (pad 512 bytes) - 512) (pad 512 bytes)))"
    if f: "File s info (Some bytes) \<in> set ?ks" "length bytes \<le> 62 * 512" for s info bytes
  proof -
    obtain h where h: "find (\<lambda>h. stored_name h = s) hds = Some h" "?P (File s info (Some bytes)) h"
      using find_header [OF hds(2) f(1) stored] names by (auto simp: good_names_def)
    then have r: "read_file ?lim (Suc (Suc (length bytes))) 512 (disk img) (fh_data h) = Some (pad 512 bytes)" "fh_data h \<noteq> - 1"
      by (simp_all del: read_file.simps)
    show ?thesis
    proof (cases "bytes = []")
      case True
      then have "read_file ?lim (Suc (Suc 0)) 512 (disk img) (fh_data h) = Some []" using r(1) by (simp add: pad_def del: read_file.simps)
      from empty_list [OF this r(2)] lim h(1) True show ?thesis by (simp add: Let_def)
    next
      case False
      from one_list [OF r(1) pad_neq [OF this] pad_length_less [OF f(2)] lim] lim h(1) False show ?thesis
        by (simp add: Let_def)
    qed
  qed
  have main: "(s \<notin> node_name ` set ?ks \<longrightarrow> (\<exists>st'. find_file mc (ucast i) a st = Some (- 1, st'))) \<and>
      (\<forall>info bytes. File s info (Some bytes) \<in> set ?ks \<and> length bytes \<le> 62 * 512 \<longrightarrow>
        (\<exists>d st'. find_file mc (ucast i) a st = Some (d, st') \<and> (if bytes = [] then d = - 1 else unat d < ?lim \<and>
           block 512 (disk img) (unat d) = drop (length (pad 512 bytes) - 512) (pad 512 bytes))))"
    if mc: "responsive (board mc)" "follows (board mc)" "diskette mc = disk img"
      "ready (length ?ks + 1) st" "safe_string (memory_of st) a s" for mc st a s
  proof (intro conjI impI allI)
    note find = find_file_run [OF mc(1,2) lim, unfolded mc(3), OF hds(1) ne nul _ mc(5), unfolded len, of 0]
    have r: "ready (length ?ks + Suc 0) st" using mc(4) by simp
    show "\<exists>st'. find_file mc (ucast i) a st = Some (- 1, st')" if "s \<notin> node_name ` set ?ks"
      using find r none [OF that] by (auto simp: data_listed_def data_sector_def)
    fix info bytes
    assume "File s info (Some bytes) \<in> set ?ks \<and> length bytes \<le> 62 * 512"
    then obtain h where h: "find (\<lambda>h. stored_name h = s) hds = Some h" "unat (fh_data h) < 2880"
      "let ns = numbers (block 512 (disk img) (unat (fh_data h)))
       in - 1 \<in> set ns \<and> (if bytes = [] then last_block ns = - 1 else unat (last_block ns) < ?lim \<and>
          block 512 (disk img) (unat (last_block ns)) = drop (length (pad 512 bytes) - 512) (pad 512 bytes))"
      using some by blast
    then show "\<exists>d st'. find_file mc (ucast i) a st = Some (d, st') \<and> (if bytes = [] then d = - 1 else unat d < ?lim \<and>
           block 512 (disk img) (unat d) = drop (length (pad 512 bytes) - 512) (pad 512 bytes))"
      using find r by (auto simp: data_listed_def data_sector_def Let_def split: if_splits)
  qed
  show ?thesis using run main unfolding i_def Let_def by blast
qed

theorem kernel_finds_built_files_witness:
  "\<exists>img d st'. main demo_host demo_args = Inr img \<and>
     find_file (demo_machine\<lparr>diskette := disk img\<rparr>) (ucast (first_file (header_of (block 512 (disk img) 0)))) 0x4000
       (demo_state [97, 46, 98]) = Some (d, st') \<and>
     block 512 (disk img) (unat d) = [7, 8, 9] @ replicate 509 0"
proof -
  let ?s = "[97 :: u8, 46, 98]"
  have size: "block_size demo_options = 512" "block_count demo_options \<le> 2880"
    by (simp_all add: demo_options_def initial_builder_def)
  have ks: "kept_entries demo_tree = [File ?s \<lparr>st_size = 3, st_ctime = 1, st_mtime = 2, st_atime = 3\<rparr> (Some [7, 8, 9])]"
    by (simp add: demo_tree_def demo_host_def dots_def)
  have names: "good_names (kept_entries demo_tree)" by (simp add: ks good_names_def)
  have p: "drop (length (pad 512 [7, 8, 9]) - 512) (pad 512 [7, 8, 9]) = [7, 8, 9] @ replicate 509 0"
    by (simp add: pad_def)
  have b: "responsive (board (demo_machine\<lparr>diskette := f\<rparr>)) \<and> follows (board (demo_machine\<lparr>diskette := f\<rparr>))" for f
    using demo_board_ok by (simp add: demo_machine_def)
  have r: "ready (length (kept_entries demo_tree) + 1) (demo_state ?s)" by (simp add: ready_def ks)
  have s: "safe_string (memory_of (demo_state ?s)) 0x4000 ?s"
    by (simp add: safe_string_def off_buffer_def demo_tty_simps All_less_Suc less_Suc_eq_le [symmetric])
  have m: "diskette (demo_machine\<lparr>diskette := f\<rparr>) = f" for f by simp
  obtain img where img: "main demo_host demo_args = Inr img"
    "\<forall>mc st a s. responsive (board mc) \<and> follows (board mc) \<and> diskette mc = disk img \<and>
       ready (length (kept_entries demo_tree) + 1) st \<and> safe_string (memory_of st) a s \<longrightarrow>
       (let first = ucast (first_file (header_of (block 512 (disk img) 0)))
        in (s \<notin> node_name ` set (kept_entries demo_tree) \<longrightarrow> (\<exists>st'. find_file mc first a st = Some (- 1, st'))) \<and>
           (\<forall>info bytes. File s info (Some bytes) \<in> set (kept_entries demo_tree) \<and> length bytes \<le> 62 * 512 \<longrightarrow>
              (\<exists>d st'. find_file mc first a st = Some (d, st') \<and>
                 (if bytes = [] then d = - 1
                  else unat d < nat (block_count demo_options) \<and>
                    block 512 (disk img) (unat d) = drop (length (pad 512 bytes) - 512) (pad 512 bytes)))))"
    using kernel_finds_built_files [OF demo_fits size names] by blast
  have "\<exists>d st'. find_file (demo_machine\<lparr>diskette := disk img\<rparr>) (ucast (first_file (header_of (block 512 (disk img) 0))))
      0x4000 (demo_state ?s) = Some (d, st') \<and> unat d < nat (block_count demo_options) \<and>
      block 512 (disk img) (unat d) = drop (length (pad 512 [7, 8, 9]) - 512) (pad 512 [7, 8, 9])"
    using img(2) [rule_format, of "demo_machine\<lparr>diskette := disk img\<rparr>" "demo_state ?s" "0x4000" ?s] b m r s
    by (simp add: Let_def ks)
  then show ?thesis using img(1) unfolding p by blast
qed

end
