(* ===== verification/Kernel_Heap.thy ===== *)
theory Kernel_Heap
  imports Virt_Memory
begin

text \<open>
  Kernel memory as the kernel itself uses it: it asks \<open>alloc_virt_pages\<close> for one page anywhere,
  again and again.  The pages it gets go down from the top of kernel memory, one after another,
  and its block table stays in order.
\<close>

section \<open>One page\<close>

abbreviation total_pages :: "block list \<Rightarrow> nat" where
  "total_pages bs \<equiv> \<Sum>b \<leftarrow> bs. unat (snd b)"

text \<open>The page table of the address \<open>v\<close> is the frame \<open>f\<close>, which is in use, as the directory is.\<close>

definition table_at :: "phys_mem \<Rightarrow> block list \<Rightarrow> u32 \<Rightarrow> nat \<Rightarrow> u32 \<Rightarrow> bool" where
  "table_at s bs dir i f \<longleftrightarrow> free_list s bs \<and> in_use bs dir \<and> in_use bs f \<and> f \<noteq> dir \<and>
     present (dir_entry s dir i) \<and> page_of (dir_entry s dir i) = f"

lemma map_in_table:
  assumes t: "table_at s bs dir (page_index 22 v) f"
  shows "\<exists>p. map_pages dir v r 1 flags s = Some (True, p) \<and> free_list p bs \<and>
    ram p = (ram s)(f := (ram s f)(page_index 12 v := entry_for r flags))"
proof -
  let ?e = "dir_entry s dir (page_index 22 v)"
  let ?p = "temp_wr (page_index 12 v) (entry_for r flags) (temp_map_page ?e (temp_map_page dir s))"
  have f: "free_list s bs" "in_use bs f" "present ?e" "page_of ?e = f" using t by (simp_all add: table_at_def)
  have "map_pages dir v r 1 flags s = Some (True, ?p)"
    using f(3) by (simp add: map_pages_def map_walk_top map_walk_leaf Let_def entry_for_def)
  moreover have "ram ?p = (ram s)(f := (ram s f)(page_index 12 v := entry_for r flags))"
    using f(4) by simp
  moreover have "free_list ?p bs"
    using f by (intro free_list_write) simp_all
  ultimately show ?thesis by blast
qed

lemma alloc_place:
  assumes unl: "\<not> as_mutex (spaces st sp)" and ch: "choose_vaddr sp v0 1 st = (v, i)" "v \<noteq> 0"
    and t: "table_at (phys st) bs (page_dir (spaces st sp)) (page_index 22 v) f" and n: "0 < total_pages bs"
    and room: "block_count (spaces st sp) \<noteq> block_table_size (spaces st sp)"
  shows "\<exists>r p bs'. alloc_virt_pages sp v0 (- 1) 1 flags st =
      Some (v, insert_block sp i \<lparr>vtype = VMB_MEMORY, vbase = v, vlength = 0x1000\<rparr> (st\<lparr>phys := p\<rparr>)) \<and>
    free_list p bs' \<and> free_pages bs' \<subseteq> free_pages bs \<and> total_pages bs = total_pages bs' + 1 \<and>
    in_use bs' r \<and> \<not> in_use bs r \<and> ram p f = (ram (phys st) f)(page_index 12 v := entry_for r flags) \<and>
    (\<forall>a. in_use bs a \<and> a \<noteq> f \<longrightarrow> ram p a = ram (phys st) a)"
proof -
  let ?dir = "page_dir (spaces st sp)"
  have fl: "free_list (phys st) bs" "in_use bs ?dir" "in_use bs f" using t by (simp_all add: table_at_def)
  obtain r q bs' where q: "alloc_phys_pages 1 (phys st) = Some (r, q)" "free_list q bs'"
    "free_pages bs' \<subseteq> free_pages bs" "\<forall>a. in_use bs a \<longrightarrow> ram q a = ram (phys st) a"
    "in_use bs' r" "\<not> in_use bs r" "total_pages bs = total_pages bs' + 1"
    using alloc_frame [OF fl(1) n] by blast
  have "dir_entry q ?dir = dir_entry (phys st) ?dir"
    using q(4) fl(2) in_use_page [OF fl(2)] by (simp add: dir_entry_def fun_eq_iff)
  then have "table_at q bs' ?dir (page_index 22 v) f"
    using t q(2) in_use_mono [OF _ q(3)] by (simp add: table_at_def)
  from map_in_table [OF this] obtain p where p: "map_pages ?dir v r 1 flags q = Some (True, p)" "free_list p bs'"
    "ram p = (ram q)(f := (ram q f)(page_index 12 v := entry_for r flags))" by blast
  have "r \<noteq> - 1" using q(5) by (auto simp: in_use_def aligned_def page_of_def)
  then have "alloc_virt_pages sp v0 (- 1) 1 flags st = Some (v, unlock_space sp
      (insert_block sp i \<lparr>vtype = VMB_MEMORY, vbase = v, vlength = push_bit 12 1\<rparr>
        ((upd_space sp (\<lambda>a. a\<lparr>as_mutex := True\<rparr>) st)\<lparr>phys := p\<rparr>)))"
    using unl ch q(1) p(1) room
    by (simp add: alloc_virt_pages_def alloc_virt_body_def lock_space_free phys_alloc_def phys_map_def grow_if_full_def)
  then have "alloc_virt_pages sp v0 (- 1) 1 flags st =
      Some (v, insert_block sp i \<lparr>vtype = VMB_MEMORY, vbase = v, vlength = 0x1000\<rparr> (st\<lparr>phys := p\<rparr>))"
    unfolding unlock_insert [OF unl] by simp
  moreover have "\<forall>a. in_use bs a \<and> a \<noteq> f \<longrightarrow> ram p a = ram (phys st) a" using q(4) p(3) by simp
  moreover have "ram p f = (ram (phys st) f)(page_index 12 v := entry_for r flags)" using q(4) fl(3) p(3) by simp
  ultimately show ?thesis using p(2) q(3,5-7) by blast
qed


section \<open>Page after page\<close>

definition heap_page :: "nat \<Rightarrow> u32" where
  "heap_page k = 0xFFBFF000 - of_nat k * 0x1000"

lemma heap_page_0 [simp]: "heap_page 0 = 0xFFBFF000"
  by (simp add: heap_page_def)

lemma heap_page_Suc: "heap_page (Suc k) = heap_page k - 0x1000"
  by (simp add: heap_page_def algebra_simps)

lemma unat_heap_page: "k \<le> 1000 \<Longrightarrow> unat (heap_page k) = 0xFFBFF000 - 4096 * k"
proof (induction k)
  case (Suc k)
  then show ?case by (simp add: heap_page_Suc unat_sub word_le_nat_alt)
qed simp

lemma heap_page_index: "k \<le> 340 \<Longrightarrow> page_index 22 (heap_page k) = 1022"
  by (simp add: page_index_22 page_no_def unat_heap_page)

text \<open>
  The table of kernel memory with \<open>k\<close> pages handed out: the pages from the top down, then the
  block of the table itself at the start of kernel memory.
\<close>

definition stacked :: "vm_state \<Rightarrow> nat \<Rightarrow> bool" where
  "stacked st k \<longleftrightarrow>
     (let a = spaces st Kernel_Space
      in \<not> as_mutex a \<and> as_end a = KERNEL_MEMORY_END \<and> block_table_size a = 341 \<and> block_count a = of_nat (k + 1) \<and>
         k \<le> 340 \<and> blocks a = KERNEL_MEMORY_START \<and> (\<forall>j < k. vbase (block_at st Kernel_Space j) = heap_page j \<and> vlength (block_at st Kernel_Space j) = 0x1000) \<and>
         vbase (block_at st Kernel_Space k) = KERNEL_MEMORY_START \<and> vlength (block_at st Kernel_Space k) = 0x1000)"

lemma search_heap:
  assumes "stacked st k" and "j + m = k + 1" and "k < 340"
  shows "j \<le> k \<Longrightarrow> search_down m j (block_at st Kernel_Space) 1 (heap_page j) = (heap_page k, k)"
  using assms(2)
proof (induction m arbitrary: j)
  case 0
  then show ?case by simp
next
  case (Suc m)
  have u: "unat (heap_page j) = 0xFFBFF000 - 4096 * j" using Suc.prems assms(3) by (intro unat_heap_page) simp
  show ?case
  proof (cases "j = k")
    case True
    then have b: "vbase (block_at st Kernel_Space j) = 0x80000000" "vlength (block_at st Kernel_Space j) = 0x1000"
      using assms(1) by (simp_all add: stacked_def Let_def)
    have "unat (heap_page j + 1) = unat (heap_page j) + 1"
      by (intro unat_Suc_word [THEN trans]) (use u in simp_all)
    moreover have "2147487744 \<le> unat (heap_page j)" using u Suc.prems(1) assms(3) by linarith
    ultimately have "\<not> is_blocks_overlapped 0x80000000 0x1000 (heap_page j) 1"
      by (simp add: is_blocks_overlapped_def word_le_nat_alt word_less_nat_alt)
    then show ?thesis using b True by simp
  next
    case False
    then have b: "vbase (block_at st Kernel_Space j) = heap_page j" "vlength (block_at st Kernel_Space j) = 0x1000"
      using assms(1) Suc.prems(1) by (simp_all add: stacked_def Let_def)
    have "unat (heap_page j + 1) = unat (heap_page j) + 1"
      by (intro unat_Suc_word [THEN trans]) (use u in simp_all)
    then have "is_blocks_overlapped (heap_page j) 0x1000 (heap_page j) 1"
      by (simp add: is_blocks_overlapped_def word_less_nat_alt)
    then show ?thesis using b False Suc.IH [of "Suc j"] Suc.prems by (simp add: heap_page_Suc)
  qed
qed

lemma choose_heap:
  assumes "stacked st k" and "k < 340"
  shows "choose_vaddr Kernel_Space 0 1 st = (heap_page k, k)"
proof -
  have "unat (of_nat (k + 1) :: u32) = k + 1" using assms(2) by (intro unat_of_nat32) simp
  then have "unat (block_count (spaces st Kernel_Space)) = k + 1" using assms(1) by (simp only: stacked_def Let_def)
  then show ?thesis
    using search_heap [OF assms(1), of 0 "k + 1"] assms by (simp add: choose_vaddr_def Let_def stacked_def)
qed

lemma heap_room:
  assumes "stacked st k" and "k < 340"
  shows "block_count (spaces st Kernel_Space) \<noteq> block_table_size (spaces st Kernel_Space)"
proof -
  have "unat (of_nat (k + 1) :: u32) = k + 1" using assms(2) by (intro unat_of_nat32) simp
  then have "unat (of_nat (k + 1) :: u32) \<noteq> unat (341 :: u32)" using assms(2) by (simp only:) simp
  then show ?thesis using assms(1) unfolding stacked_def Let_def by metis
qed

lemma stacked_insert:
  assumes s: "stacked st k" and k: "k < 340" and b: "vbase b = heap_page k" "vlength b = 0x1000"
  shows "stacked (insert_block Kernel_Space k b st) (k + 1)"
proof -
  let ?st = "insert_block Kernel_Space k b st" and ?bt = "block_table st Kernel_Space"
  have "unat (of_nat (k + 1) :: u32) = k + 1" using k by (intro unat_of_nat32) simp
  then have n: "unat (block_count (spaces st Kernel_Space)) = k + 1" using s by (simp only: stacked_def Let_def)
  have "block_table ?st Kernel_Space = take k ?bt @ b # replicate 1 (block_at st Kernel_Space k)"
    using insert_table [of k st Kernel_Space b] n k by simp
  moreover from this have "unat (block_count (spaces ?st Kernel_Space)) = k + 2"
    using n by (simp flip: block_table_length)
  ultimately have at: "block_at ?st Kernel_Space j =
      (if j < k then block_at st Kernel_Space j else if j = k then b else block_at st Kernel_Space k)" if "j < k + 2" for j
    using that n block_table_nth [of j ?st Kernel_Space] by (auto simp: nth_append nth_Cons')
  have "spaces ?st Kernel_Space = (spaces st Kernel_Space)\<lparr>block_count := block_count (spaces st Kernel_Space) + 1\<rparr>"
    by (simp add: insert_block_def put_block_def Let_def)
  then show ?thesis using s k at b unfolding stacked_def Let_def by (auto simp: less_Suc_eq add.commute)
qed

lemma block_at_phys: "block_at (st\<lparr>phys := p\<rparr>) sp i = block_at st sp i"
  by (simp add: block_at_def)

text \<open>Kernel memory with \<open>k\<close> pages handed out and the page table \<open>f\<close> of its upper end.\<close>

definition heap_ok :: "vm_state \<Rightarrow> nat \<Rightarrow> block list \<Rightarrow> u32 \<Rightarrow> bool" where
  "heap_ok st k bs f \<longleftrightarrow> stacked st k \<and> table_at (phys st) bs (page_dir (spaces st Kernel_Space)) 1022 f"

lemma heap_alloc:
  assumes h: "heap_ok st k bs f" and k: "k < 340" and n: "0 < total_pages bs"
  shows "\<exists>r st' bs'. alloc_virt_pages Kernel_Space 0 (- 1) 1 flags st = Some (heap_page k, st') \<and> heap_ok st' (k + 1) bs' f \<and>
    free_pages bs' \<subseteq> free_pages bs \<and> total_pages bs = total_pages bs' + 1 \<and> in_use bs' r \<and> \<not> in_use bs r \<and>
    ram (phys st') f = (ram (phys st) f)(page_index 12 (heap_page k) := entry_for r flags) \<and>
    (\<forall>a. in_use bs a \<and> a \<noteq> f \<longrightarrow> ram (phys st') a = ram (phys st) a) \<and>
    (\<forall>sp. sp \<noteq> Kernel_Space \<longrightarrow> spaces st' sp = spaces st sp) \<and>
    page_dir (spaces st' Kernel_Space) = page_dir (spaces st Kernel_Space)"
proof -
  let ?dir = "page_dir (spaces st Kernel_Space)"
  have s: "stacked st k" and t: "table_at (phys st) bs ?dir 1022 f" using h by (simp_all add: heap_ok_def)
  have u: "unat (heap_page k) = 0xFFBFF000 - 4096 * k" using k by (intro unat_heap_page) simp
  have nz: "heap_page k \<noteq> 0" using u k by auto
  note bc = heap_room [OF s k]
  have ti: "table_at (phys st) bs ?dir (page_index 22 (heap_page k)) f" using t heap_page_index [of k] k by simp
  have "\<not> as_mutex (spaces st Kernel_Space)" using s by (simp add: stacked_def Let_def)
  from alloc_place [OF this choose_heap [OF s k] nz ti n bc] obtain r p bs' where
    a: "alloc_virt_pages Kernel_Space 0 (- 1) 1 flags st = Some (heap_page k, insert_block Kernel_Space k
        \<lparr>vtype = VMB_MEMORY, vbase = heap_page k, vlength = 0x1000\<rparr> (st\<lparr>phys := p\<rparr>))"
    "free_list p bs'" "free_pages bs' \<subseteq> free_pages bs" "total_pages bs = total_pages bs' + 1" "in_use bs' r" "\<not> in_use bs r"
    "ram p f = (ram (phys st) f)(page_index 12 (heap_page k) := entry_for r flags)"
    "\<forall>a. in_use bs a \<and> a \<noteq> f \<longrightarrow> ram p a = ram (phys st) a"
    by blast
  let ?st = "insert_block Kernel_Space k \<lparr>vtype = VMB_MEMORY, vbase = heap_page k, vlength = 0x1000\<rparr> (st\<lparr>phys := p\<rparr>)"
  have "stacked (st\<lparr>phys := p\<rparr>) k" using s by (simp add: stacked_def Let_def block_at_phys)
  then have "stacked ?st (k + 1)" using k by (intro stacked_insert) simp_all
  moreover have f: "phys ?st = p" "page_dir (spaces ?st Kernel_Space) = ?dir"
    "\<forall>sp. sp \<noteq> Kernel_Space \<longrightarrow> spaces ?st sp = spaces st sp"
    by (simp_all add: insert_block_def put_block_def Let_def)
  moreover have "table_at p bs' ?dir 1022 f"
    using t a(2,8) in_use_mono [OF _ a(3)] by (auto simp: table_at_def dir_entry_def)
  ultimately show ?thesis using a by (auto simp: heap_ok_def)
qed


section \<open>Any number of pages\<close>

text \<open>Requests for one page each, with the given flags.\<close>

fun alloc_each :: "u32 list \<Rightarrow> vm_state \<Rightarrow> (u32 list \<times> vm_state) option" where
  "alloc_each [] st = Some ([], st)"
| "alloc_each (fl # fls) st = do {
     (v, st) \<leftarrow> alloc_virt_pages Kernel_Space 0 (- 1) 1 fl st;
     (vs, st) \<leftarrow> alloc_each fls st;
     Some (v # vs, st)
   }"

lemma heap_slot_inj:
  assumes "i \<le> 340" and "j \<le> 340" and "page_index 12 (heap_page i) = page_index 12 (heap_page j)"
  shows "i = j"
proof -
  have "page_no (heap_page n) = 1047551 - n" if "n \<le> 340" for n
  proof -
    have "0xFFBFF000 - 4096 * n = (1047551 - n) * 4096" using that by simp
    then have "unat (heap_page n) = (1047551 - n) * 4096" using unat_heap_page [of n] that by simp
    then show ?thesis by (simp add: page_no_def)
  qed
  moreover have "(1047551 - n) mod 1024 = 1023 - n" if "n \<le> 340" for n :: nat
  proof -
    have "1047551 - n = 1023 - n + 1022 * 1024" using that by simp
    then have "(1047551 - n) mod 1024 = (1023 - n) mod 1024" by (simp only: mod_mult_self1)
    then show ?thesis by simp
  qed
  ultimately have "page_index 12 (heap_page n) = 1023 - n" if "n \<le> 340" for n
    using that by (simp add: page_index_12)
  then show ?thesis using assms by simp
qed

lemma heap_allocs:
  assumes "heap_ok st k bs f" and "k + length fls \<le> 340" and "length fls \<le> total_pages bs"
  shows "\<exists>rs st' bs'. alloc_each fls st = Some (map heap_page [k..<k + length fls], st') \<and>
    heap_ok st' (k + length fls) bs' f \<and> free_pages bs' \<subseteq> free_pages bs \<and> total_pages bs = total_pages bs' + length fls \<and>
    length rs = length fls \<and> distinct rs \<and> (\<forall>r \<in> set rs. in_use bs' r \<and> \<not> in_use bs r) \<and>
    (\<forall>j < length fls. ram (phys st') f (page_index 12 (heap_page (k + j))) = entry_for (rs ! j) (fls ! j)) \<and>
    (\<forall>i. i \<notin> (\<lambda>j. page_index 12 (heap_page (k + j))) ` {..<length fls} \<longrightarrow> ram (phys st') f i = ram (phys st) f i) \<and>
    page_dir (spaces st' Kernel_Space) = page_dir (spaces st Kernel_Space)"
  using assms
proof (induction fls arbitrary: st k bs)
  case Nil
  then show ?case by (intro exI [of _ "[]"] exI [of _ st] exI [of _ bs]) simp
next
  case (Cons fl fls)
  have k: "k < 340" "0 < total_pages bs" using Cons.prems(2,3) by simp_all
  obtain r t b1 where a: "alloc_virt_pages Kernel_Space 0 (- 1) 1 fl st = Some (heap_page k, t)" "heap_ok t (k + 1) b1 f"
    "free_pages b1 \<subseteq> free_pages bs" "total_pages bs = total_pages b1 + 1" "in_use b1 r" "\<not> in_use bs r"
    "ram (phys t) f = (ram (phys st) f)(page_index 12 (heap_page k) := entry_for r fl)"
    "page_dir (spaces t Kernel_Space) = page_dir (spaces st Kernel_Space)"
    using heap_alloc [OF Cons.prems(1) k, of fl] by blast
  have l: "k + 1 + length fls \<le> 340" "length fls \<le> total_pages b1" using Cons.prems(2,3) a(4) by simp_all
  obtain rs u bs' where b: "alloc_each fls t = Some (map heap_page [k + 1..<k + 1 + length fls], u)"
    "heap_ok u (k + 1 + length fls) bs' f" "free_pages bs' \<subseteq> free_pages b1" "total_pages b1 = total_pages bs' + length fls"
    "length rs = length fls" "distinct rs" "\<forall>r \<in> set rs. in_use bs' r \<and> \<not> in_use b1 r"
    "\<forall>j < length fls. ram (phys u) f (page_index 12 (heap_page (k + 1 + j))) = entry_for (rs ! j) (fls ! j)"
    "\<forall>i. i \<notin> (\<lambda>j. page_index 12 (heap_page (k + 1 + j))) ` {..<length fls} \<longrightarrow> ram (phys u) f i = ram (phys t) f i"
    "page_dir (spaces u Kernel_Space) = page_dir (spaces t Kernel_Space)"
    using Cons.IH [OF a(2) l] by (elim exE conjE) (rule that)
  have "page_index 12 (heap_page k) \<noteq> page_index 12 (heap_page (k + 1 + j))" if "j < length fls" for j
    using heap_slot_inj [of k "k + 1 + j"] that l(1) by auto
  then have "page_index 12 (heap_page k) \<notin> (\<lambda>j. page_index 12 (heap_page (k + 1 + j))) ` {..<length fls}" by auto
  then have h: "ram (phys u) f (page_index 12 (heap_page k)) = entry_for r fl" using b(9) a(7) by simp
  have c1: "alloc_each (fl # fls) st = Some (map heap_page [k..<k + length (fl # fls)], u)"
  proof -
    have "[k..<k + length (fl # fls)] = k # [k + 1..<k + 1 + length fls]" by (simp add: upt_conv_Cons del: upt_Suc)
    then show ?thesis using a(1) b(1) by (simp del: upt_Suc)
  qed
  have c2: "heap_ok u (k + length (fl # fls)) bs' f" using b(2) by simp
  have c3: "free_pages bs' \<subseteq> free_pages bs" "total_pages bs = total_pages bs' + length (fl # fls)"
    "length (r # rs) = length (fl # fls)" using a(3,4) b(3,4,5) by auto
  have c4: "distinct (r # rs)" "\<forall>x \<in> set (r # rs). in_use bs' x \<and> \<not> in_use bs x"
    using a(5,6) b(6,7) in_use_mono [OF _ a(3)] in_use_mono [OF _ b(3)] by auto
  have c5: "\<forall>j < length (fl # fls). ram (phys u) f (page_index 12 (heap_page (k + j))) = entry_for ((r # rs) ! j) ((fl # fls) ! j)"
    using h b(8) by (auto simp: less_Suc_eq_0_disj)
  have c6: "\<forall>i. i \<notin> (\<lambda>j. page_index 12 (heap_page (k + j))) ` {..<length (fl # fls)} \<longrightarrow> ram (phys u) f i = ram (phys st) f i"
  proof (intro allI impI)
    fix i assume i: "i \<notin> (\<lambda>j. page_index 12 (heap_page (k + j))) ` {..<length (fl # fls)}"
    then have "i \<noteq> page_index 12 (heap_page k)" by force
    moreover have "i \<notin> (\<lambda>j. page_index 12 (heap_page (k + 1 + j))) ` {..<length fls}"
      using i by (auto simp: image_iff) (metis Suc_less_eq add_Suc_right lessThan_iff)
    ultimately show "ram (phys u) f i = ram (phys st) f i" using b(9) a(7) by simp
  qed
  have c7: "page_dir (spaces u Kernel_Space) = page_dir (spaces st Kernel_Space)" using a(8) b(10) by simp
  show ?case by (intro exI [of _ "r # rs"] exI [of _ u] exI [of _ bs'] conjI c1 c2 c3 c4 c5 c6 c7)
qed

lemma heap_lookup:
  assumes "heap_ok st k bs f" and "j \<le> 340"
  shows "lookup (phys st) (page_dir (spaces st Kernel_Space)) (heap_page j) = ram (phys st) f (page_index 12 (heap_page j))"
  using assms heap_page_index [of j] by (simp add: heap_ok_def table_at_def lookup_def Let_def)

text \<open>C40: The kernel's heap: asked for one page at a time, \<^verbatim>\<open>alloc_virt_pages\<close> hands out the pages of
  kernel memory from the top down without a gap, each mapped to a frame of its own that was
  free before, until the block table is full; its order, and with it the choice of the next
  page, is kept by every call.\<close>

theorem kernel_pages_descend:
  assumes "heap_ok st k bs f" and "k + length fls \<le> 340" and "length fls \<le> total_pages bs"
  shows "\<exists>rs st' bs'. alloc_each fls st = Some (map heap_page [k..<k + length fls], st') \<and>
    heap_ok st' (k + length fls) bs' f \<and> length rs = length fls \<and> distinct rs \<and>
    (\<forall>r \<in> set rs. in_use bs' r \<and> \<not> in_use bs r) \<and>
    (\<forall>j < length fls. lookup (phys st') (page_dir (spaces st Kernel_Space)) (heap_page (k + j)) =
       entry_for (rs ! j) (fls ! j))"
proof -
  obtain rs st' bs' where r: "alloc_each fls st = Some (map heap_page [k..<k + length fls], st')"
    "heap_ok st' (k + length fls) bs' f" "length rs = length fls" "distinct rs"
    "\<forall>r \<in> set rs. in_use bs' r \<and> \<not> in_use bs r"
    "\<forall>j < length fls. ram (phys st') f (page_index 12 (heap_page (k + j))) = entry_for (rs ! j) (fls ! j)"
    "page_dir (spaces st' Kernel_Space) = page_dir (spaces st Kernel_Space)"
    using heap_allocs [OF assms] by (elim exE conjE) (rule that)
  have "\<forall>j < length fls. lookup (phys st') (page_dir (spaces st Kernel_Space)) (heap_page (k + j)) = entry_for (rs ! j) (fls ! j)"
    using heap_lookup [OF r(2)] r(6,7) assms(2) by simp
  then show ?thesis using r(1-5) by blast
qed

section \<open>A concrete heap\<close>

text \<open>A directory at \<open>0x1000\<close> with the kernel's two tables, and 16 free pages.\<close>

definition demo_frames :: phys_mem where
  "demo_frames = \<lparr>ram = (\<lambda>b i. if b = 0x1000 then (if i = 1022 then 0x5003 else if i = 1023 then 0x6003 else 0)
       else if b = 0x10000 then (if i = 2 then 16 else 0x10000) else 0),
     temp_pte = 0, free_page_count = 16, free_ptr = 0x10000, phys_mutex = False\<rparr>"

definition demo_heap :: vm_state where
  "demo_heap = \<lparr>phys = demo_frames,
     spaces = (\<lambda>_. \<lparr>page_dir = 0x1000, as_start = KERNEL_MEMORY_START, as_end = KERNEL_MEMORY_END,
       block_table_size = 341, block_count = 1, blocks = KERNEL_MEMORY_START, as_mutex = False\<rparr>),
     entries = (\<lambda>_. \<lparr>vtype = VMB_RESERVED, vbase = KERNEL_MEMORY_START, vlength = 0x1000\<rparr>)\<rparr>"

lemma demo_frames_free: "free_list demo_frames [(0x10000, 16)]"
  by (simp add: demo_frames_def demo_simps)

lemma demo_heap_ok: "heap_ok demo_heap 0 [(0x10000, 16)] 0x5000"
  using demo_frames_free
  by (auto simp: heap_ok_def stacked_def demo_heap_def block_at_def table_at_def in_use_def free_pages_def pages_def
    aligned_def page_of_def present_def dir_entry_def demo_frames_def)

theorem kernel_pages_descend_witness:
  "\<exists>rs st'. alloc_each [3, 3, 0x103] demo_heap = Some ([0xFFBFF000, 0xFFBFE000, 0xFFBFD000], st') \<and> distinct rs \<and>
     lookup (phys st') 0x1000 0xFFBFD000 = entry_for (rs ! 2) 0x103"
proof -
  have l: "length [3, 3, 0x103 :: u32] = 3" by simp
  have d: "page_dir (spaces demo_heap Kernel_Space) = 0x1000" by (simp add: demo_heap_def)
  have m: "map heap_page [0..<3] = [0xFFBFF000, 0xFFBFE000, 0xFFBFD000]" by (simp add: heap_page_def upt_rec)
  have "0 + length [3, 3, 0x103 :: u32] \<le> 340" "length [3, 3, 0x103 :: u32] \<le> total_pages [(0x10000, 16)]" by simp_all
  from kernel_pages_descend [OF demo_heap_ok this, unfolded l d add_0 m] obtain rs st' where
    r: "alloc_each [3, 3, 0x103] demo_heap = Some ([0xFFBFF000, 0xFFBFE000, 0xFFBFD000], st')" "distinct rs"
    "\<forall>j < 3. lookup (phys st') 0x1000 (heap_page j) = entry_for (rs ! j) ([3, 3, 0x103] ! j)"
    by blast
  have "lookup (phys st') 0x1000 0xFFBFD000 = entry_for (rs ! 2) 0x103"
    using r(3) [rule_format, of 2] by (simp add: heap_page_def)
  then show ?thesis using r(1,2) by blast
qed

end
