(* ===== verification/Start_Up.thy ===== *)
theory Start_Up
  imports Multitasking Kernel_Heap
begin

text \<open>
  The multitasking of the kernel from its start: the four pages \<open>init_multitasking\<close> takes and the
  two lists it leaves, and the address space, process and thread that \<open>run_image\<close> adds to them.
  Both get their objects from kernel memory, one page after another.
\<close>

section \<open>Pages for objects\<close>

lemma heap_page_inj: "i \<le> 340 \<Longrightarrow> j \<le> 340 \<Longrightarrow> heap_page i = heap_page j \<Longrightarrow> i = j"
  using heap_slot_inj [of i j] by simp

lemma heap_page_nonzero: "k \<le> 340 \<Longrightarrow> heap_page k \<noteq> 0"
  using unat_heap_page [of k] by auto

text \<open>From \<open>v\<close> to \<open>m\<close>, kernel memory gave \<open>n\<close> more pages; no frame in use was written, but for its table.\<close>

definition took :: "vm_state \<Rightarrow> vm_state \<Rightarrow> nat \<Rightarrow> nat \<Rightarrow> block list \<Rightarrow> block list \<Rightarrow> u32 \<Rightarrow> bool" where
  "took v m k n bs bs' f \<longleftrightarrow> heap_ok v k bs f \<and> heap_ok m (k + n) bs' f \<and> free_pages bs' \<subseteq> free_pages bs \<and>
     total_pages bs = total_pages bs' + n \<and> (\<forall>a. in_use bs a \<and> a \<noteq> f \<longrightarrow> ram (phys m) a = ram (phys v) a) \<and>
     page_dir (spaces m Kernel_Space) = page_dir (spaces v Kernel_Space)"

lemma took_heap: "took v m k n bs bs' f \<Longrightarrow> heap_ok m (k + n) bs' f \<and> total_pages bs = total_pages bs' + n"
  by (simp add: took_def)

lemma took_trans:
  assumes "took u v k i bs bs' f" and "took v m (k + i) j bs' bs'' f"
  shows "took u m k (i + j) bs bs'' f"
  using assms in_use_mono [of bs _ bs'] unfolding took_def by (simp add: add.assoc) blast

lemma task_page:
  assumes h: "heap_ok (vm st) k bs f" and k: "k < 340" and n: "0 < total_pages bs"
  shows "\<exists>m bs'. task_alloc_virt Kernel_Space 0 1 flags st = Some (heap_page k, st\<lparr>vm := m\<rparr>) \<and>
    took (vm st) m k 1 bs bs' f \<and> (\<forall>sp. sp \<noteq> Kernel_Space \<longrightarrow> spaces m sp = spaces (vm st) sp)"
proof -
  obtain m bs' where m: "alloc_virt_pages Kernel_Space 0 (- 1) 1 flags (vm st) = Some (heap_page k, m)"
    "heap_ok m (k + 1) bs' f" "free_pages bs' \<subseteq> free_pages bs" "total_pages bs = total_pages bs' + 1"
    "\<forall>a. in_use bs a \<and> a \<noteq> f \<longrightarrow> ram (phys m) a = ram (ph st) a"
    "\<forall>sp. sp \<noteq> Kernel_Space \<longrightarrow> spaces m sp = spaces (vm st) sp"
    "page_dir (spaces m Kernel_Space) = page_dir (spaces (vm st) Kernel_Space)"
    using heap_alloc [OF h k n, of flags] by blast
  have "task_alloc_virt Kernel_Space 0 1 flags st = Some (heap_page k, st\<lparr>vm := m\<rparr>)"
    using m(1) by (simp add: task_alloc_virt_def)
  then show ?thesis using h m(2-7) by (auto simp: took_def)
qed

lemma heap_ok_space [simp]:
  "sp \<noteq> Kernel_Space \<Longrightarrow> heap_ok (v\<lparr>spaces := (spaces v)(sp := a)\<rparr>) k bs f = heap_ok v k bs f"
  by (simp add: heap_ok_def stacked_def Let_def block_at_def)

lemma took_space [simp]:
  "sp \<noteq> Kernel_Space \<Longrightarrow> took (v\<lparr>spaces := (spaces v)(sp := a)\<rparr>) m k n bs bs' f = took v m k n bs bs' f"
  "sp \<noteq> Kernel_Space \<Longrightarrow> took v (m\<lparr>spaces := (spaces m)(sp := a)\<rparr>) k n bs bs' f = took v m k n bs bs' f"
  by (simp_all add: took_def)

lemma heap_ok_use: "heap_ok v k bs f \<Longrightarrow> free_list (phys v) bs \<and> in_use bs f \<and> in_use bs (page_dir (spaces v Kernel_Space))"
  by (simp add: heap_ok_def table_at_def)

text \<open>An address space of its own, whose table of blocks is the next page.\<close>

abbreviation fresh_space :: "u32 \<Rightarrow> u32 \<Rightarrow> u32 \<Rightarrow> u32 \<Rightarrow> address_space \<Rightarrow> address_space" where
  "fresh_space dir lo hi t a \<equiv> a\<lparr>page_dir := dir, as_start := lo, as_end := hi, block_table_size := 341,
     blocks := t, block_count := 0\<rparr>"

lemma space_page:
  assumes h: "heap_ok (vm st) k bs f" and k: "k < 340" and n: "0 < total_pages bs" and sp: "sp \<noteq> Kernel_Space"
    and g: "g = (\<lambda>a. a\<lparr>page_dir := dir, as_start := lo, as_end := hi, block_table_size := 341\<rparr>)"
  shows "\<exists>m bs'. Option.bind (task_alloc_virt Kernel_Space 0 1 fl (set_space sp g st))
      (\<lambda>(t, st). Some (set_space sp (\<lambda>a. a\<lparr>blocks := t, block_count := 0\<rparr>) st)) = Some (st\<lparr>vm := m\<rparr>) \<and>
    took (vm st) m k 1 bs bs' f \<and> spaces m sp = fresh_space dir lo hi (heap_page k) (spaces (vm st) sp) \<and>
    (\<forall>s. s \<noteq> Kernel_Space \<and> s \<noteq> sp \<longrightarrow> spaces m s = spaces (vm st) s)"
proof -
  have "heap_ok (vm (set_space sp g st)) k bs f" using h sp by simp
  from task_page [OF this k n, of fl] obtain m bs' where
    m: "task_alloc_virt Kernel_Space 0 1 fl (set_space sp g st) = Some (heap_page k, (set_space sp g st)\<lparr>vm := m\<rparr>)"
    "took (vm (set_space sp g st)) m k 1 bs bs' f"
    "\<forall>s. s \<noteq> Kernel_Space \<longrightarrow> spaces m s = spaces (vm (set_space sp g st)) s" by blast
  let ?m = "upd_space sp (\<lambda>a. a\<lparr>blocks := heap_page k, block_count := 0\<rparr>) m"
  show ?thesis
    using m sp by (intro exI [of _ ?m] exI [of _ bs']) (simp add: g)
qed

lemma init_space_page:
  assumes "heap_ok (vm st) k bs f" and "k < 340" and "0 < total_pages bs" and "sp \<noteq> Kernel_Space"
  shows "\<exists>m bs'. init_kernel_address_space sp dir st = Some (st\<lparr>vm := m\<rparr>) \<and>
      took (vm st) m k 1 bs bs' f \<and>
      spaces m sp = fresh_space dir KERNEL_MEMORY_START KERNEL_MEMORY_END (heap_page k) (spaces (vm st) sp) \<and>
      (\<forall>s. s \<noteq> Kernel_Space \<and> s \<noteq> sp \<longrightarrow> spaces m s = spaces (vm st) s)"
    and "\<exists>m bs'. init_address_space sp dir st = Some (st\<lparr>vm := m\<rparr>) \<and>
      took (vm st) m k 1 bs bs' f \<and>
      spaces m sp = fresh_space dir USER_MEMORY_START USER_MEMORY_END (heap_page k) (spaces (vm st) sp) \<and>
      (\<forall>s. s \<noteq> Kernel_Space \<and> s \<noteq> sp \<longrightarrow> spaces m s = spaces (vm st) s)"
  using space_page [OF assms refl, where dir = dir and fl = "PAGE_PRESENT OR PAGE_WRITABLE OR PAGE_GLOBAL"]
  by (simp_all add: init_kernel_address_space_def init_address_space_def Let_def)

section \<open>Pages as list items\<close>

text \<open>
  \<^verbatim>\<open>list_append\<close> looks at the \<^verbatim>\<open>list\<close> of the item first, and the pages of kernel memory are not
  cleared: an item whose page holds something else there is left out of the list.
\<close>

abbreviation appended :: "list_store \<Rightarrow> u32 list \<Rightarrow> u32 \<Rightarrow> u32 list" where
  "appended s xs item \<equiv> (if item_list (items s item) = 0 then xs @ [item] else xs)"

lemma append_page:
  assumes h: "list_holds (rings st) l xs" and i: "item \<noteq> 0" "item \<notin> set xs"
  shows "\<exists>r. task_list_append l item st = Some (st\<lparr>rings := r\<rparr>) \<and> list_holds r l (appended (rings st) xs item) \<and>
    (\<forall>a. a \<notin> set xs \<longrightarrow> a \<noteq> item \<longrightarrow> items r a = items (rings st) a) \<and>
    (\<forall>l'. l' \<noteq> l \<longrightarrow> lists r l' = lists (rings st) l')"
proof (cases "item_list (items (rings st) item) = 0")
  case True
  from list_append_run [OF h i True] obtain r where "list_append l item (rings st) = Some r"
    "list_holds r l (xs @ [item])" "\<forall>a. a \<notin> set xs \<longrightarrow> a \<noteq> item \<longrightarrow> items r a = items (rings st) a"
    "\<forall>l'. l' \<noteq> l \<longrightarrow> lists r l' = lists (rings st) l'" by blast
  then show ?thesis using True by (intro exI [of _ r]) (simp add: task_list_append_def)
next
  case False
  then show ?thesis using h by (intro exI [of _ "rings st"]) (simp add: task_list_append_def list_append_def)
qed

text \<open>Appending to one of two disjoint lists.\<close>

lemma append_page_other:
  assumes h: "list_holds (rings st) l xs" "list_holds (rings st) l' ys" and i: "item \<noteq> 0" "item \<notin> set xs"
    and d: "l' \<noteq> l" "set ys \<inter> set xs = {}" "item \<notin> set ys"
  shows "\<exists>r. task_list_append l item st = Some (st\<lparr>rings := r\<rparr>) \<and> list_holds r l (appended (rings st) xs item) \<and>
    list_holds r l' ys \<and> (\<forall>a. a \<notin> set xs \<longrightarrow> a \<noteq> item \<longrightarrow> items r a = items (rings st) a)"
proof -
  obtain r where r: "task_list_append l item st = Some (st\<lparr>rings := r\<rparr>)" "list_holds r l (appended (rings st) xs item)"
    "\<forall>a. a \<notin> set xs \<longrightarrow> a \<noteq> item \<longrightarrow> items r a = items (rings st) a"
    "\<forall>l'. l' \<noteq> l \<longrightarrow> lists r l' = lists (rings st) l'" using append_page [OF h(1) i] by blast
  have "list_holds r l' ys = list_holds (rings st) l' ys" using r(3,4) d by (intro list_holds_cong) auto
  then show ?thesis using r(1-3) h(2) by blast
qed

section \<open>The start of multitasking\<close>

lemma empty_lists:
  "list_holds (list_init thread_list (list_init process_list s)) process_list []"
  "list_holds (list_init thread_list (list_init process_list s)) thread_list []"
  "items (list_init thread_list (list_init process_list s)) = items s"
  by (simp_all add: list_holds_def list_init_def process_list_def thread_list_def)

text \<open>
  \<open>started st k st'\<close>: what \<open>st\<close> has become by the start of multitasking, where the kernel's process is the
  page \<open>k\<close>.  The third page after it is its thread; the two between hold the block tables of the process and
  of the user's address space, both with the kernel's page directory.  Process and thread are current, the
  thread may run, and each is in its list if the \<^verbatim>\<open>list\<close> word of its page was null.
\<close>

definition started :: "task_state \<Rightarrow> nat \<Rightarrow> task_state \<Rightarrow> bool" where
  "started st k st' \<longleftrightarrow>
    list_holds (rings st') process_list (appended (rings st) [] (heap_page k)) \<and>
    list_holds (rings st') thread_list (appended (rings st) [] (heap_page (k + 3))) \<and>
    current_process st' = heap_page k \<and> kernel_process st' = heap_page k \<and>
    current_thread st' = heap_page (k + 3) \<and> kernel_thread st' = heap_page (k + 3) \<and>
    t_process (threads st' (heap_page (k + 3))) = heap_page k \<and> runnable st' (heap_page (k + 3)) \<and>
    p_name (processes st' (heap_page k)) = map (of_nat \<circ> of_char) ''kernel'' \<and>
    thread_count (processes st' (heap_page k)) = 1 \<and> multitasking_enabled st' \<and>
    blocks (spaces (vm st') (Space_At (heap_page k))) = heap_page (k + 1) \<and>
    blocks (spaces (vm st') User_Space) = heap_page (k + 2) \<and>
    (\<forall>sp \<in> {Space_At (heap_page k), User_Space}. page_dir (spaces (vm st') sp) = kernel_page_dir st) \<and>
    kernel_page_dir st' = kernel_page_dir st \<and>
    (\<forall>sp. sp \<notin> {Kernel_Space, User_Space, Space_At (heap_page k)} \<longrightarrow> spaces (vm st') sp = spaces (vm st) sp) \<and>
    (\<forall>a. a \<noteq> heap_page k \<longrightarrow> a \<noteq> heap_page (k + 3) \<longrightarrow> items (rings st') a = items (rings st) a)"

text \<open>The start of multitasking from its first page on.\<close>

lemma init_multitasking_from:
  assumes first: "alloc_virt_pages Kernel_Space 0 (- 1) 1 (PAGE_PRESENT OR PAGE_WRITABLE) (vm st) = Some (heap_page k, m1)"
    and h: "heap_ok m1 (k + 1) b1 f" and k: "k + 4 \<le> 340" and n: "3 \<le> total_pages b1"
    and others: "\<forall>sp. sp \<noteq> Kernel_Space \<longrightarrow> spaces m1 sp = spaces (vm st) sp"
  shows "\<exists>st' bs'. init_multitasking st = Some st' \<and> started st k st' \<and> took m1 (vm st') (k + 1) 3 b1 bs' f"
proof -
  let ?p = "heap_page k" and ?t = "heap_page (k + 3)" and ?R = "list_init thread_list (list_init process_list (rings st))"
  have ne: "?p \<noteq> 0" "?t \<noteq> 0" "?p \<noteq> ?t" using heap_page_nonzero heap_page_inj [of k "k + 3"] k by auto
  let ?s0 = "st\<lparr>rings := ?R\<rparr>"
  have 1: "task_alloc_virt Kernel_Space 0 1 (PAGE_PRESENT OR PAGE_WRITABLE) ?s0 = Some (?p, ?s0\<lparr>vm := m1\<rparr>)"
    using first by (simp add: task_alloc_virt_def)
  let ?s1 = "?s0\<lparr>vm := m1, kernel_process := ?p\<rparr>"
  obtain m2 b2 where 2: "init_kernel_address_space (Space_At ?p) (kernel_page_dir st) ?s1 = Some (?s1\<lparr>vm := m2\<rparr>)"
    "took m1 m2 (k + 1) 1 b1 b2 f" "spaces m2 (Space_At ?p) = fresh_space (kernel_page_dir st) KERNEL_MEMORY_START KERNEL_MEMORY_END (heap_page (k + 1)) (spaces m1 (Space_At ?p))"
    "\<forall>sp. sp \<noteq> Kernel_Space \<and> sp \<noteq> Space_At ?p \<longrightarrow> spaces m2 sp = spaces m1 sp"
    using init_space_page(1) [of ?s1 "k + 1" b1 f "Space_At ?p" "kernel_page_dir st"] h k n by (auto simp: took_def)
  let ?s2 = "?s1\<lparr>vm := m2\<rparr>"
  obtain m3 b3 where 3: "init_address_space User_Space (kernel_page_dir st) ?s2 = Some (?s2\<lparr>vm := m3\<rparr>)"
    "took m2 m3 (k + 2) 1 b2 b3 f" "\<forall>sp. sp \<noteq> Kernel_Space \<and> sp \<noteq> User_Space \<longrightarrow> spaces m3 sp = spaces m2 sp"
    "spaces m3 User_Space = fresh_space (kernel_page_dir st) USER_MEMORY_START USER_MEMORY_END (heap_page (k + 2)) (spaces m2 User_Space)"
    using init_space_page(2) [of ?s2 "k + 2" b2 f User_Space "kernel_page_dir st"] h 2(2) k n by (auto simp: took_def)
  let ?P = "\<lambda>x. x\<lparr>p_suspend := False, thread_count := 1, p_name := map (of_nat \<circ> of_char) ''kernel''\<rparr>"
  let ?s3 = "upd_process ?p ?P (?s2\<lparr>vm := m3\<rparr>)"
  obtain r1 where 4: "task_list_append process_list ?p ?s3 = Some (?s3\<lparr>rings := r1\<rparr>)"
    "list_holds r1 process_list (appended ?R [] ?p)" "list_holds r1 thread_list []" "\<forall>a. a \<noteq> ?p \<longrightarrow> items r1 a = items ?R a"
    using append_page_other [of ?s3 process_list "[]" thread_list "[]" ?p] ne empty_lists
    by (auto simp: process_list_def thread_list_def)
  let ?s4 = "?s3\<lparr>rings := r1\<rparr>"
  have "k + 2 + 1 = k + 3" by simp
  then have h3: "heap_ok m3 (k + 3) b3 f" "0 < total_pages b3"
    using took_heap [OF 3(2)] took_heap [OF 2(2)] n by (simp_all only:)
  obtain m4 b4 where 5: "task_alloc_virt Kernel_Space 0 1 (PAGE_PRESENT OR PAGE_WRITABLE) ?s4 = Some (?t, ?s4\<lparr>vm := m4\<rparr>)"
    "took m3 m4 (k + 3) 1 b3 b4 f" "\<forall>sp. sp \<noteq> Kernel_Space \<longrightarrow> spaces m4 sp = spaces m3 sp"
    using task_page [of ?s4 "k + 3" b3 f "PAGE_PRESENT OR PAGE_WRITABLE"] k h3 by auto
  let ?s5 = "upd_thread ?t (\<lambda>x. x\<lparr>t_process := ?p, t_suspend := False, stack_size := PAGE_SIZE\<rparr>) (?s4\<lparr>vm := m4, kernel_thread := ?t\<rparr>)"
  obtain r2 where 6: "task_list_append thread_list ?t ?s5 = Some (?s5\<lparr>rings := r2\<rparr>)"
    "list_holds r2 thread_list (appended ?R [] ?t)" "list_holds r2 process_list (appended ?R [] ?p)"
    "\<forall>a. a \<noteq> ?t \<longrightarrow> items r2 a = items r1 a"
    using append_page_other [of ?s5 thread_list "[]" process_list "appended ?R [] ?p" ?t] ne 4
    by (auto simp: process_list_def thread_list_def split: if_splits)
  let ?s6 = "?s5\<lparr>rings := r2, current_process := ?p, current_thread := ?t, multitasking_enabled := True\<rparr>"
  have "init_multitasking st = Some ?s6"
    using 1 2(1) 3(1) 4(1) 5(1) 6(1) by (simp add: init_multitasking_def Let_def)
  moreover have e: "k + 1 + 1 = k + 2" "k + 1 + 2 = k + 3" by simp_all
  have "took m1 m3 (k + 1) 2 b1 b3 f" using took_trans [OF 2(2), unfolded e(1), OF 3(2)] by (simp only: one_add_one)
  then have "took m1 (vm ?s6) (k + 1) 3 b1 b4 f"
    using took_trans [where k = "k + 1" and i = 2, unfolded e(2), OF _ 5(2)] by simp
  moreover have "started st k ?s6" unfolding started_def
    using 6(2-4) 4(4) others 2(3,4) 3(3,4) 5(3) by (simp add: runnable_def empty_lists)
  ultimately show ?thesis by blast
qed

lemma init_multitasking_run:
  assumes h: "heap_ok (vm st) k bs f" and k: "k + 4 \<le> 340" and n: "4 \<le> total_pages bs"
  shows "\<exists>st' bs'. init_multitasking st = Some st' \<and> started st k st' \<and> took (vm st) (vm st') k 4 bs bs' f"
proof -
  obtain m1 b1 where 1: "task_alloc_virt Kernel_Space 0 1 (PAGE_PRESENT OR PAGE_WRITABLE) st = Some (heap_page k, st\<lparr>vm := m1\<rparr>)"
    "took (vm st) m1 k 1 bs b1 f" "\<forall>sp. sp \<noteq> Kernel_Space \<longrightarrow> spaces m1 sp = spaces (vm st) sp"
    using task_page [of st k bs f "PAGE_PRESENT OR PAGE_WRITABLE"] h k n by auto
  then have "alloc_virt_pages Kernel_Space 0 (- 1) 1 (PAGE_PRESENT OR PAGE_WRITABLE) (vm st) = Some (heap_page k, m1)"
    by (auto simp: task_alloc_virt_def dest: arg_cong [of _ _ vm])
  moreover have "heap_ok m1 (k + 1) b1 f" "3 \<le> total_pages b1" using took_heap [OF 1(2)] n by simp_all
  ultimately obtain st' bs' where 2: "init_multitasking st = Some st'" "started st k st'" "took m1 (vm st') (k + 1) 3 b1 bs' f"
    using init_multitasking_from [OF _ _ k _ 1(3)] by blast
  have "took (vm st) (vm st') k 4 bs bs' f" using took_trans [OF 1(2) 2(3)] by simp
  then show ?thesis using 2(1,2) by blast
qed

text \<open>With four pages to be had, \<open>init_multitasking\<close> succeeds, and takes just these.\<close>

theorem init_multitasking_starts:
  assumes "heap_ok (vm st) k bs f" and "k + 4 \<le> 340" and "4 \<le> total_pages bs"
  shows "\<exists>st' bs'. init_multitasking st = Some st' \<and> started st k st' \<and> took (vm st) (vm st') k 4 bs bs' f"
  using init_multitasking_run [OF assms] .

section \<open>A stack\<close>

lemma heap_ok_insert:
  assumes h: "heap_ok v k bs f" and b: "blocks (spaces v sp) = heap_page j" "block_count (spaces v sp) = 0" "j \<le> 340"
    and sp: "sp \<noteq> Kernel_Space"
  shows "heap_ok (insert_block sp 0 b v) k bs f"
proof -
  have s: "blocks (spaces v Kernel_Space) = 0x80000000" "k \<le> 340" using h by (simp_all add: heap_ok_def stacked_def Let_def)
  have "entry_addr 0x80000000 i \<noteq> heap_page j" if "i \<le> 340" for i
  proof -
    have "unat (of_nat i :: u32) = i" using that by (intro unat_of_nat32) simp
    then have "unat (entry_addr 0x80000000 i) = 0x80000000 + i * 12"
      using that by (simp add: entry_addr_def unat_word_ariths)
    then show ?thesis using unat_heap_page [of j] b(3) that by auto
  qed
  then have "block_at (insert_block sp 0 b v) Kernel_Space i = block_at v Kernel_Space i" if "i \<le> k" for i
    using that s b sp by (auto simp: block_at_def insert_block_def put_block_def Let_def entry_addr_def)
  moreover have "spaces (insert_block sp 0 b v) Kernel_Space = spaces v Kernel_Space" "phys (insert_block sp 0 b v) = phys v"
    using sp by (simp_all add: insert_block_def put_block_def Let_def)
  ultimately show ?thesis using h by (simp add: heap_ok_def stacked_def Let_def)
qed

lemma heap_ok_phys:
  assumes "heap_ok v k bs f" and "free_list p bs'" and "free_pages bs' \<subseteq> free_pages bs"
    and "ram p (page_dir (spaces v Kernel_Space)) = ram (phys v) (page_dir (spaces v Kernel_Space))"
  shows "heap_ok (v\<lparr>phys := p\<rparr>) k bs' f"
  using assms in_use_mono [OF _ assms(3)]
  by (auto simp: heap_ok_def stacked_def Let_def block_at_phys table_at_def dir_entry_def)

lemma stack_page:
  assumes h: "heap_ok v k bs f" and n: "0 < total_pages bs" and sp: "sp \<noteq> Kernel_Space"
    and a: "spaces v sp = fresh_space dir USER_MEMORY_START USER_MEMORY_END (heap_page j) a" "\<not> as_mutex a" "j \<le> 340"
    and t: "table_at (phys v) bs dir 0 g" "g \<noteq> page_dir (spaces v Kernel_Space)"
  shows "\<exists>r m bs'. alloc_virt_pages sp 0x200000 (- 1) 1 flags v = Some (0x200000, m) \<and> heap_ok m k bs' f \<and>
    free_pages bs' \<subseteq> free_pages bs \<and> in_use bs' r \<and> \<not> in_use bs r \<and>
    ram (phys m) g = (ram (phys v) g)(512 := entry_for r flags) \<and>
    (\<forall>a. in_use bs a \<and> a \<noteq> g \<longrightarrow> ram (phys m) a = ram (phys v) a) \<and>
    (\<forall>s. s \<noteq> sp \<longrightarrow> spaces m s = spaces v s) \<and> page_dir (spaces m sp) = dir"
proof -
  have i: "page_index 22 0x200000 = 0" "page_index 12 0x200000 = 512"
    by (simp_all add: page_index_22 page_index_12 page_no_def)
  have c: "choose_vaddr sp 0x200000 1 v = (0x200000, 0)" "(0x200000 :: u32) \<noteq> 0"
    using a(1) by (simp_all add: choose_vaddr_def Let_def)
  have u: "\<not> as_mutex (spaces v sp)" "table_at (phys v) bs (page_dir (spaces v sp)) (page_index 22 0x200000) g"
    "block_count (spaces v sp) \<noteq> block_table_size (spaces v sp)" using a t(1) i by simp_all
  obtain r p bs' where r: "alloc_virt_pages sp 0x200000 (- 1) 1 flags v =
      Some (0x200000, insert_block sp 0 \<lparr>vtype = VMB_MEMORY, vbase = 0x200000, vlength = 0x1000\<rparr> (v\<lparr>phys := p\<rparr>))"
    "free_list p bs'" "free_pages bs' \<subseteq> free_pages bs" "in_use bs' r" "\<not> in_use bs r"
    "ram p g = (ram (phys v) g)(512 := entry_for r flags)" "\<forall>a. in_use bs a \<and> a \<noteq> g \<longrightarrow> ram p a = ram (phys v) a"
    using alloc_place [OF u(1) c u(2) n u(3), of flags] i by auto
  let ?m = "insert_block sp 0 \<lparr>vtype = VMB_MEMORY, vbase = 0x200000, vlength = 0x1000\<rparr> (v\<lparr>phys := p\<rparr>)"
  have "heap_ok (v\<lparr>phys := p\<rparr>) k bs' f"
    using heap_ok_use [OF h] r(7) t(2) by (intro heap_ok_phys [OF h r(2,3)]) simp
  then have "heap_ok ?m k bs' f" using a sp by (intro heap_ok_insert) simp_all
  moreover have "phys ?m = p" "\<forall>s. s \<noteq> sp \<longrightarrow> spaces ?m s = spaces v s" "page_dir (spaces ?m sp) = dir"
    using a(1) by (simp_all add: insert_block_def put_block_def Let_def)
  ultimately show ?thesis using r by (intro exI [of _ r] exI [of _ ?m] exI [of _ bs']) simp
qed

section \<open>The start of a program\<close>

lemma thread_filled:
  "x\<lparr>t_process := q, t_suspend := b, stack_size := n, stack_base := a, t_state := r\<rparr> =
   \<lparr>t_process = q, t_suspend = b, stack_base = a, stack_size = n, t_state = r\<rparr>"
  by (intro thread.equality) simp_all

lemma process_filled:
  "x\<lparr>p_suspend := b, thread_count := 0, p_name := n, thread_count := 1\<rparr> = \<lparr>p_suspend = b, thread_count = 1, p_name = n\<rparr>"
  by (intro process.equality) simp_all

text \<open>The first thread of a process \<open>q\<close> whose address space is new.\<close>

lemma first_thread:
  assumes h: "heap_ok (vm st) k bs f" and k: "k < 340" and n: "2 \<le> total_pages bs"
    and a: "spaces (vm st) (Space_At q) = fresh_space dir USER_MEMORY_START USER_MEMORY_END (heap_page j) a" "\<not> as_mutex a" "j \<le> 340"
    and t: "table_at (ph st) bs dir 0 g" "g \<noteq> page_dir (spaces (vm st) Kernel_Space)" "g \<noteq> f" "dir \<noteq> f"
    and l: "list_holds (rings st) thread_list ts" "list_holds (rings st) process_list ps" "set ps \<inter> set ts = {}"
      "heap_page k \<notin> set ts \<union> set ps"
  shows "\<exists>r st' bs'. create_thread q entry_point 1 False False st = Some (heap_page k, st') \<and> heap_ok (vm st') (k + 1) bs' f \<and>
    free_pages bs' \<subseteq> free_pages bs \<and> in_use bs' r \<and> \<not> in_use bs r \<and>
    ram (ph st') g = (ram (ph st) g)(512 := entry_for r 7) \<and>
    (\<forall>a. in_use bs a \<and> a \<noteq> f \<and> a \<noteq> g \<longrightarrow> ram (ph st') a = ram (ph st) a) \<and>
    page_dir (spaces (vm st') (Space_At q)) = dir \<and>
    list_holds (rings st') thread_list (appended (rings st) ts (heap_page k)) \<and> list_holds (rings st') process_list ps \<and>
    threads st' = (threads st)(heap_page k := \<lparr>t_process = q, t_suspend = False, stack_base = 0x200000, stack_size = 0x1000,
      t_state = first_state entry_point False 0x201000\<rparr>) \<and>
    processes st' = (processes st)(q := (processes st q)\<lparr>thread_count := thread_count (processes st q) + 1\<rparr>) \<and>
    current_thread st' = current_thread st \<and> multitasking_enabled st' = multitasking_enabled st"
proof -
  let ?t = "heap_page k"
  obtain m1 b1 where 1: "task_alloc_virt Kernel_Space 0 1 (PAGE_PRESENT OR PAGE_WRITABLE) st = Some (?t, st\<lparr>vm := m1\<rparr>)"
    "took (vm st) m1 k 1 bs b1 f" "\<forall>s. s \<noteq> Kernel_Space \<longrightarrow> spaces m1 s = spaces (vm st) s"
    using task_page [of st k bs f "PAGE_PRESENT OR PAGE_WRITABLE"] h k n by auto
  note w = 1(2) [unfolded took_def]
  have "table_at (phys m1) b1 dir 0 g"
    using t w in_use_mono [of bs _ b1] by (auto simp: table_at_def dir_entry_def dest!: heap_ok_use)
  with stack_page [where v = m1 and k = "k + 1" and bs = b1 and f = f and sp = "Space_At q" and dir = dir and j = j and a = a
      and g = g and flags = 7] obtain r m2 b2 where
    2: "alloc_virt_pages (Space_At q) 0x200000 (- 1) 1 7 m1 = Some (0x200000, m2)" "heap_ok m2 (k + 1) b2 f"
    "free_pages b2 \<subseteq> free_pages b1" "in_use b2 r" "\<not> in_use b1 r" "ram (phys m2) g = (ram (phys m1) g)(512 := entry_for r 7)"
    "\<forall>a. in_use b1 a \<and> a \<noteq> g \<longrightarrow> ram (phys m2) a = ram (phys m1) a" "page_dir (spaces m2 (Space_At q)) = dir"
    using w n a t 1(3) by auto
  let ?s1 = "upd_thread ?t (\<lambda>x. x\<lparr>t_process := q, t_suspend := False, stack_size := 0x1000\<rparr>) (st\<lparr>vm := m1\<rparr>)"
  let ?s2 = "upd_thread ?t (\<lambda>x. x\<lparr>stack_base := 0x200000, t_state := first_state entry_point False (0x200000 + stack_size x)\<rparr>)
    (?s1\<lparr>vm := m2\<rparr>)"
  obtain r' where 3: "task_list_append thread_list ?t ?s2 = Some (?s2\<lparr>rings := r'\<rparr>)"
    "list_holds r' thread_list (appended (rings st) ts ?t)" "list_holds r' process_list ps"
    using append_page_other [of ?s2 thread_list ts process_list ps ?t] l heap_page_nonzero [of k] k
    by (auto simp: process_list_def thread_list_def)
  let ?s3 = "upd_process q (\<lambda>p. p\<lparr>thread_count := thread_count p + 1\<rparr>) (?s2\<lparr>rings := r'\<rparr>)"
  have "create_thread q entry_point 1 False False st = Some (?t, ?s3)"
    using 1(1) 2(1) 3(1) by (simp add: create_thread_def Let_def) (simp add: task_alloc_virt_def)
  moreover have "\<forall>a. in_use bs a \<and> a \<noteq> f \<and> a \<noteq> g \<longrightarrow> ram (ph ?s3) a = ram (ph st) a"
    using w 2(7) in_use_mono [of bs _ b1] by auto
  moreover have "ram (phys m1) g = ram (ph st) g" "in_use bs g" using w t(1,3) by (auto simp: table_at_def)
  moreover have "\<not> in_use bs r" using 2(5) w in_use_mono by blast
  moreover have "free_pages b2 \<subseteq> free_pages bs" using 2(3) w by blast
  ultimately show ?thesis
    using 2 3(2,3) by (intro exI [of _ r] exI [of _ ?s3] exI [of _ b2]) (simp add: thread_filled)
qed

text \<open>Making page tables changes only physical memory.\<close>

definition only_phys :: "task_state \<Rightarrow> task_state \<Rightarrow> bool" where
  "only_phys st st' \<longleftrightarrow> (\<exists>m. st' = st\<lparr>vm := (vm st)\<lparr>phys := m\<rparr>\<rparr>)"

lemma only_phys_refl: "only_phys s s"
  unfolding only_phys_def by (rule exI [of _ "ph s"]) simp

lemma only_phys_trans: "only_phys s t \<Longrightarrow> only_phys t u \<Longrightarrow> only_phys s u"
  by (auto simp: only_phys_def)

lemma only_phys_into:
  "only_phys s st \<Longrightarrow> only_phys s (task_map a st)" "only_phys s st \<Longrightarrow> only_phys s (task_wr i v st)"
  "only_phys s st \<Longrightarrow> only_phys s (fill_entries n i v st)"
  "only_phys s st \<Longrightarrow> task_alloc_phys c st = Some (r, st') \<Longrightarrow> only_phys s st'"
proof -
  show m: "only_phys s st \<Longrightarrow> only_phys s (task_map a st)" for a st by (auto simp: only_phys_def task_map_def)
  show w: "only_phys s st \<Longrightarrow> only_phys s (task_wr i v st)" for i v st by (auto simp: only_phys_def task_wr_def)
  show "only_phys s st \<Longrightarrow> only_phys s (fill_entries n i v st)" by (induction n arbitrary: i v st) (simp_all add: w)
  show "only_phys s st \<Longrightarrow> task_alloc_phys c st = Some (r, st') \<Longrightarrow> only_phys s st'"
    by (auto simp: only_phys_def task_alloc_phys_def phys_alloc_def)
qed

lemma init_page_tables_only:
  assumes "init_page_tables start st = Some (dir, st')"
  shows "only_phys st st'"
proof -
  obtain f s1 t s2 s3 p s4 k l where 1: "task_alloc_phys 1 st = Some (f, s1)" "task_alloc_phys 1 s1 = Some (t, s2)"
    "task_alloc_phys 1 (task_map (kernel_page_dir s2) (task_map (kernel_page_dir s2) s2)) = Some (dir, s3)"
    "task_alloc_phys 1 (write_dir start dir f t k l s3) = Some (p, s4)" "st' = task_wr 1021 (p OR 3) (task_map t s4)"
    using assms by (auto simp: init_page_tables_eq Let_def split: bind_splits)
  have "only_phys st s2" using only_phys_into(4) [OF only_phys_into(4) [OF only_phys_refl 1(1)] 1(2)] .
  then have "only_phys st s3" using only_phys_into(4) [OF _ 1(3)] by (simp add: only_phys_into(1))
  then have "only_phys st (write_dir start dir f t k l s3)" by (simp add: write_dir_def only_phys_into(1-3))
  then have "only_phys st s4" using only_phys_into(4) [OF _ 1(4)] by simp
  then show ?thesis using 1(5) by (simp add: only_phys_into(1,2))
qed

lemma open_entry: "page_of g = g \<Longrightarrow> present (g OR 7) \<and> page_of (g OR 7) = g"
  by (simp add: page_of_def present_def bit.conj_disj_distrib2)

lemma through_first_table:
  assumes e: "ram s dir 0 = g OR 7" and p: "page_of dir = dir" "page_of g = g" and i: "i < 1024"
  shows "lookup s dir (of_nat i * 0x1000) = ram s g i"
proof -
  have "unat (of_nat i :: u32) = i" using i by (intro unat_of_nat32) simp
  then have "unat (of_nat i * 0x1000 :: u32) = i * 4096" using i by (simp add: unat_word_ariths)
  then have "page_index 22 (of_nat i * 0x1000) = 0" "page_index 12 (of_nat i * 0x1000) = i"
    using i by (simp_all add: page_index_22 page_index_12 page_no_def)
  then show ?thesis using e p(1) open_entry [OF p(2)] by (simp add: lookup_def dir_entry_def)
qed

text \<open>The page tables of a program, when the kernel's directory is in use.\<close>

lemma program_tables:
  assumes h: "heap_ok (vm st) k bs f" and n: "4 \<le> total_pages bs" and kd: "in_use bs (kernel_page_dir st)"
  shows "\<exists>dir g m bs'. init_page_tables start st = Some (dir, st\<lparr>vm := (vm st)\<lparr>phys := m\<rparr>\<rparr>) \<and>
    heap_ok ((vm st)\<lparr>phys := m\<rparr>) k bs' f \<and> free_pages bs' \<subseteq> free_pages bs \<and> total_pages bs = total_pages bs' + 4 \<and>
    in_use bs' dir \<and> in_use bs' g \<and> \<not> in_use bs dir \<and> \<not> in_use bs g \<and> g \<noteq> dir \<and> ram m dir 0 = g OR 7 \<and>
    (\<forall>i \<in> {1022, 1023}. ram m dir i = ram (ph st) (kernel_page_dir st) i) \<and>
    (\<forall>i < 1024. ram m g i = (if i < 256 then 7 + of_nat i * 0x1000 else (start OR 7) + of_nat (i - 256) * 0x1000)) \<and>
    (\<forall>a. in_use bs a \<longrightarrow> ram m a = ram (ph st) a)"
proof -
  from init_page_tables_run [OF conjunct1 [OF heap_ok_use [OF h]] n kd, of start] obtain dir g tt pp s1 b1 where
    1: "init_page_tables start st = Some (dir, s1)" "free_list (ph s1) b1" "free_pages b1 \<subseteq> free_pages bs"
    "total_pages bs = total_pages b1 + 4" "distinct [dir, g, tt, pp]" "\<forall>a \<in> {dir, g, tt, pp}. in_use b1 a \<and> \<not> in_use bs a"
    "\<forall>a. in_use bs a \<longrightarrow> ram (ph s1) a = ram (ph st) a" "ram (ph s1) dir 0 = g OR 7"
    "\<forall>i \<in> {1022, 1023}. ram (ph s1) dir i = ram (ph st) (kernel_page_dir st) i"
    "\<forall>i < 256. ram (ph s1) g i = 7 + of_nat i * 0x1000"
    "\<forall>i. 256 \<le> i \<and> i < 1024 \<longrightarrow> ram (ph s1) g i = (start OR 7) + of_nat (i - 256) * 0x1000"
    by (elim exE conjE) (rule that)
  obtain m where m: "s1 = st\<lparr>vm := (vm st)\<lparr>phys := m\<rparr>\<rparr>"
    using init_page_tables_only [OF 1(1)] by (auto simp: only_phys_def)
  have "heap_ok ((vm st)\<lparr>phys := m\<rparr>) k b1 f"
    using heap_ok_phys [OF h, of m b1] 1(2,3,7) m heap_ok_use [OF h] by simp
  then show ?thesis using 1 m by (intro exI [of _ dir] exI [of _ g] exI [of _ m] exI [of _ b1]) auto
qed

text \<open>The object of a new process and its address space.\<close>

lemma new_process:
  assumes h: "heap_ok (vm st) k bs f" and k: "k + 2 \<le> 340" and n: "2 \<le> total_pages bs"
  shows "\<exists>m m' bs'. task_alloc_virt Kernel_Space 0 1 (PAGE_PRESENT OR PAGE_WRITABLE) st = Some (heap_page k, st\<lparr>vm := m\<rparr>) \<and>
    init_address_space (Space_At (heap_page k)) dir (st\<lparr>vm := m\<rparr>) = Some (st\<lparr>vm := m'\<rparr>) \<and>
    took (vm st) m' k 2 bs bs' f \<and> spaces m' (Space_At (heap_page k)) =
      fresh_space dir USER_MEMORY_START USER_MEMORY_END (heap_page (k + 1)) (spaces (vm st) (Space_At (heap_page k)))"
proof -
  let ?p = "heap_page k"
  obtain m b1 where 1: "task_alloc_virt Kernel_Space 0 1 (PAGE_PRESENT OR PAGE_WRITABLE) st = Some (?p, st\<lparr>vm := m\<rparr>)"
    "took (vm st) m k 1 bs b1 f" "spaces m (Space_At ?p) = spaces (vm st) (Space_At ?p)"
    using task_page [OF h, of "PAGE_PRESENT OR PAGE_WRITABLE"] k n by auto
  have h1: "heap_ok (vm (st\<lparr>vm := m\<rparr>)) (k + 1) b1 f" "k + 1 < 340" "0 < total_pages b1"
    using took_heap [OF 1(2)] k n by simp_all
  obtain m' b2 where 2: "init_address_space (Space_At ?p) dir (st\<lparr>vm := m\<rparr>) = Some (st\<lparr>vm := m'\<rparr>)"
    "took m m' (k + 1) 1 b1 b2 f"
    "spaces m' (Space_At ?p) = fresh_space dir USER_MEMORY_START USER_MEMORY_END (heap_page (k + 1)) (spaces (vm st) (Space_At ?p))"
    using init_space_page(2) [OF h1, of "Space_At ?p" dir] 1(3) by auto
  have "took (vm st) m' k 2 bs b2 f" using took_trans [OF 1(2) 2(2)] by (simp only: one_add_one)
  then show ?thesis using 1(1) 2(1,3) by blast
qed

lemma run_image_run:
  assumes h: "heap_ok (vm st) k bs f" and k: "k + 3 \<le> 340" and n: "8 \<le> total_pages bs"
    and kd: "in_use bs (kernel_page_dir st)"
    and l: "list_holds (rings st) process_list ps" "list_holds (rings st) thread_list ts" "set ps \<inter> set ts = {}"
      "heap_page k \<notin> set ps \<union> set ts" "heap_page (k + 2) \<notin> set ps \<union> set ts"
    and mx: "\<not> as_mutex (spaces (vm st) (Space_At (heap_page k)))"
  shows "\<exists>dir r st' bs'. run_image start name st = Some st' \<and> heap_ok (vm st') (k + 3) bs' f \<and>
    list_holds (rings st') process_list (appended (rings st) ps (heap_page k)) \<and>
    list_holds (rings st') thread_list (appended (rings st) ts (heap_page (k + 2))) \<and>
    processes st' = (processes st)(heap_page k := \<lparr>p_suspend = False, thread_count = 1, p_name = take 255 name\<rparr>) \<and>
    threads st' = (threads st)(heap_page (k + 2) := \<lparr>t_process = heap_page k, t_suspend = False,
      stack_base = 0x200000, stack_size = 0x1000, t_state = first_state 0x100000 False 0x201000\<rparr>) \<and>
    page_dir (spaces (vm st') (Space_At (heap_page k))) = dir \<and>
    (\<forall>i < 1024. lookup (ph st') dir (of_nat i * 0x1000) =
      (if i = 512 then entry_for r 7 else if i < 256 then 7 + of_nat i * 0x1000
       else (start OR 7) + of_nat (i - 256) * 0x1000)) \<and>
    (\<forall>i \<in> {1022, 1023}. ram (ph st') dir i = ram (ph st) (kernel_page_dir st) i) \<and>
    (\<forall>a \<in> {dir, r}. in_use bs' a \<and> \<not> in_use bs a) \<and>
    current_thread st' = current_thread st \<and> multitasking_enabled st' = multitasking_enabled st \<and>
    (\<forall>a. in_use bs a \<and> a \<noteq> f \<longrightarrow> ram (ph st') a = ram (ph st) a) \<and> free_pages bs' \<subseteq> free_pages bs"
proof -
  let ?p = "heap_page k" and ?t = "heap_page (k + 2)"
  have ne: "?p \<noteq> 0" "?p \<noteq> ?t" using heap_page_nonzero [of k] heap_page_inj [of k "k + 2"] k by auto
  have "4 \<le> total_pages bs" using n by simp
  from program_tables [OF h this kd, of start] obtain dir g m1 b1 where
    1: "init_page_tables start st = Some (dir, st\<lparr>vm := (vm st)\<lparr>phys := m1\<rparr>\<rparr>)" "heap_ok ((vm st)\<lparr>phys := m1\<rparr>) k b1 f"
    "free_pages b1 \<subseteq> free_pages bs" "total_pages bs = total_pages b1 + 4" "in_use b1 dir" "in_use b1 g"
    "\<not> in_use bs dir" "\<not> in_use bs g" "g \<noteq> dir" "ram m1 dir 0 = g OR 7"
    "\<forall>i \<in> {1022, 1023}. ram m1 dir i = ram (ph st) (kernel_page_dir st) i"
    "\<forall>i < 1024. ram m1 g i = (if i < 256 then 7 + of_nat i * 0x1000 else (start OR 7) + of_nat (i - 256) * 0x1000)"
    "\<forall>a. in_use bs a \<longrightarrow> ram m1 a = ram (ph st) a"
    by (elim exE conjE) (rule that)
  let ?s1 = "st\<lparr>vm := (vm st)\<lparr>phys := m1\<rparr>\<rparr>"
  have u: "dir \<noteq> f" "g \<noteq> f" "g \<noteq> page_dir (spaces (vm st) Kernel_Space)"
    using 1(7,8) heap_ok_use [OF h] by auto
  obtain m2 m3 b3 where 2: "task_alloc_virt Kernel_Space 0 1 (PAGE_PRESENT OR PAGE_WRITABLE) ?s1 = Some (?p, ?s1\<lparr>vm := m2\<rparr>)"
    "init_address_space (Space_At ?p) dir (?s1\<lparr>vm := m2\<rparr>) = Some (?s1\<lparr>vm := m3\<rparr>)" "took (vm ?s1) m3 k 2 b1 b3 f"
    "spaces m3 (Space_At ?p) = fresh_space dir USER_MEMORY_START USER_MEMORY_END (heap_page (k + 1)) (spaces (vm st) (Space_At ?p))"
    using new_process [of ?s1 k b1 f dir] 1(2,4) k n by auto
  note w = 2(3) [unfolded took_def]
  let ?P = "\<lambda>x. x\<lparr>p_suspend := False, thread_count := 0, p_name := take 255 name\<rparr>"
  let ?s3 = "upd_process ?p ?P (?s1\<lparr>vm := m3\<rparr>)"
  have rs: "rings ?s3 = rings st" and dj: "set ts \<inter> set ps = {}" using l(3) by auto
  obtain r1 where 4: "task_list_append process_list ?p ?s3 = Some (?s3\<lparr>rings := r1\<rparr>)"
    "list_holds r1 process_list (appended (rings st) ps ?p)" "list_holds r1 thread_list ts" "items r1 ?t = items (rings st) ?t"
    using append_page_other [of ?s3 process_list ps thread_list ts ?p] l(1,2,4,5) dj ne rs
    by (auto simp: process_list_def thread_list_def)
  let ?s4 = "?s3\<lparr>rings := r1\<rparr>"
  have t: "table_at (phys m3) b3 dir 0 g" "g \<noteq> page_dir (spaces m3 Kernel_Space)"
    using w u 1(5,6,9,10) in_use_mono [of b1 _ b3] open_entry [of g] by (auto simp: table_at_def dir_entry_def dest: heap_ok_use)
  have n3: "heap_ok m3 (k + 2) b3 f" "k + 2 < 340" "2 \<le> total_pages b3" using took_heap [OF 2(3)] k n 1(4) by simp_all
  have d4: "appended (rings st) ps ?p = ps @ [?p] \<or> appended (rings st) ps ?p = ps" by simp
  have d5: "set (appended (rings st) ps ?p) \<inter> set ts = {}" "?t \<notin> set ts \<union> set (appended (rings st) ps ?p)"
    using d4 l(3-5) ne(2) by auto
  have e4: "vm ?s4 = m3" "rings ?s4 = r1" "threads ?s4 = threads st" "appended r1 ts ?t = appended (rings st) ts ?t" "k + 2 + 1 = k + 3"
    "current_thread ?s4 = current_thread st" "multitasking_enabled ?s4 = multitasking_enabled st"
    using 4(4) by simp_all
  have "k + 1 \<le> 340" using k by simp
  obtain r st' bs' where 5: "create_thread ?p 0x100000 1 False False ?s4 = Some (?t, st')" "heap_ok (vm st') (k + 3) bs' f"
    "free_pages bs' \<subseteq> free_pages b3" "in_use bs' r" "\<not> in_use b3 r" "ram (ph st') g = (ram (phys m3) g)(512 := entry_for r 7)"
    "\<forall>a. in_use b3 a \<and> a \<noteq> f \<and> a \<noteq> g \<longrightarrow> ram (ph st') a = ram (phys m3) a"
    "page_dir (spaces (vm st') (Space_At ?p)) = dir"
    "list_holds (rings st') thread_list (appended (rings st) ts ?t)"
    "list_holds (rings st') process_list (appended (rings st) ps ?p)"
    "threads st' = (threads st)(?t := \<lparr>t_process = ?p, t_suspend = False, stack_base = 0x200000, stack_size = 0x1000,
      t_state = first_state 0x100000 False 0x201000\<rparr>)"
    "processes st' = (processes ?s4)(?p := (processes ?s4 ?p)\<lparr>thread_count := thread_count (processes ?s4 ?p) + 1\<rparr>)"
    "current_thread st' = current_thread st" "multitasking_enabled st' = multitasking_enabled st"
    using first_thread [where st = ?s4 and k = "k + 2" and bs = b3 and f = f and q = ?p and dir = dir and j = "k + 1" and g = g
        and ts = ts and ps = "appended (rings st) ps ?p" and entry_point = "0x100000", unfolded e4, OF n3 2(4) mx \<open>k + 1 \<le> 340\<close> t u(2,1) 4(3,2) d5]
    by (elim exE conjE) (rule that)
  have "run_image start name st = Some st'"
    using 1(1) 2(1,2) 4(1) 5(1) by (simp add: run_image_def Let_def)
  moreover have "ram (ph st') dir = ram m1 dir" and g: "ram (ph st') g = (ram m1 g)(512 := entry_for r 7)"
    using 5(6,7) w u 1(5,6,9) in_use_mono [of b1 _ b3] by auto
  then have d: "ram (ph st') dir 0 = g OR 7" "\<forall>i \<in> {1022, 1023}. ram (ph st') dir i = ram (ph st) (kernel_page_dir st) i"
    using 1(10,11) by simp_all
  have "\<forall>i < 1024. lookup (ph st') dir (of_nat i * 0x1000) =
      (if i = 512 then entry_for r 7 else if i < 256 then 7 + of_nat i * 0x1000
       else (start OR 7) + of_nat (i - 256) * 0x1000)"
    using through_first_table [OF d(1) in_use_page [OF 1(5)] in_use_page [OF 1(6)]] g 1(12) by auto
  moreover have "processes st' = (processes st)(?p := \<lparr>p_suspend = False, thread_count = 1, p_name = take 255 name\<rparr>)"
    using 5(12) process_filled by simp
  moreover have fp: "in_use b3 dir" "free_pages b3 \<subseteq> free_pages bs"
    using 1(3) w in_use_mono [OF 1(5)] by auto
  then have "\<forall>a \<in> {dir, r}. in_use bs' a \<and> \<not> in_use bs a"
    using 1(7) 5(4,5) in_use_mono [OF _ 5(3)] in_use_mono [of bs r b3] by auto
  moreover have "ram (ph st') a = ram (ph st) a" if "in_use bs a" "a \<noteq> f" for a
  proof -
    have "a \<noteq> g" "in_use b1 a" using that 1(3,8) in_use_mono by auto
    then show ?thesis using that w 1(13) 5(7) in_use_mono [of b1 a b3] by auto
  qed
  then have "\<forall>a. in_use bs a \<and> a \<noteq> f \<longrightarrow> ram (ph st') a = ram (ph st) a" by blast
  moreover have "free_pages bs' \<subseteq> free_pages bs" using 5(3) fp(2) by blast
  ultimately show ?thesis
    using 5(2,8-11,13,14) d(2) by (intro exI [of _ dir] exI [of _ r] exI [of _ st'] exI [of _ bs'] conjI)
qed

text \<open>C39: with three pages of kernel memory and eight of physical memory to be had, \<open>run_image\<close> starts
  the program.  The process and its thread are new objects, put behind those in the lists if the
  \<^verbatim>\<open>list\<close> words of their pages are null, and able to run.  The thread's registers are those
  of its first entry at \<open>0x100000\<close>.  In the process's own page directory, the first megabyte is mapped to
  itself and the next three to the image, but for the page at \<open>0x200000\<close>: that is the thread's
  stack, in a fresh frame, in place of the image's page there.
  The upper two entries are the kernel's.  The mutex of the process's address space is in a page that is
  not cleared, and must happen to be free.\<close>

theorem run_image_starts:
  assumes h: "heap_ok (vm st) k bs f" and k: "k + 3 \<le> 340" and n: "8 \<le> total_pages bs"
    and kd: "in_use bs (kernel_page_dir st)"
    and l: "list_holds (rings st) process_list ps" "list_holds (rings st) thread_list ts" "set ps \<inter> set ts = {}"
      "heap_page k \<notin> set ps \<union> set ts" "heap_page (k + 2) \<notin> set ps \<union> set ts"
    and mx: "\<not> as_mutex (spaces (vm st) (Space_At (heap_page k)))"
  shows "\<exists>dir r st' bs'. run_image start name st = Some st' \<and> heap_ok (vm st') (k + 3) bs' f \<and>
    list_holds (rings st') process_list (appended (rings st) ps (heap_page k)) \<and>
    list_holds (rings st') thread_list (appended (rings st) ts (heap_page (k + 2))) \<and>
    processes st' = (processes st)(heap_page k := \<lparr>p_suspend = False, thread_count = 1, p_name = take 255 name\<rparr>) \<and>
    threads st' = (threads st)(heap_page (k + 2) := \<lparr>t_process = heap_page k, t_suspend = False,
      stack_base = 0x200000, stack_size = 0x1000, t_state = first_state 0x100000 False 0x201000\<rparr>) \<and>
    page_dir (spaces (vm st') (Space_At (heap_page k))) = dir \<and>
    (\<forall>i < 1024. lookup (ph st') dir (of_nat i * 0x1000) =
      (if i = 512 then entry_for r 7 else if i < 256 then 7 + of_nat i * 0x1000
       else (start OR 7) + of_nat (i - 256) * 0x1000)) \<and>
    (\<forall>i \<in> {1022, 1023}. ram (ph st') dir i = ram (ph st) (kernel_page_dir st) i) \<and>
    (\<forall>a \<in> {dir, r}. in_use bs' a \<and> \<not> in_use bs a)"
  using run_image_run [OF assms, of start name] by (elim exE conjE) ((rule exI)+, (rule conjI | assumption)+)

section \<open>From the start to the program\<close>

lemma next_of_two:
  assumes "list_holds s l [a, b]"
  shows "get_next s a = b" and "a \<noteq> b"
  using assms ring_nth_next [of "get_next s" "get_prev s" "[a, b]" 0] ring_distinct [of "get_next s" "get_prev s" "[a, b]"]
  by (auto simp: list_holds_def)

lemma switch_to_next:
  assumes on: "multitasking_enabled st" and nx: "get_next (rings st) (current_thread st) = b" "current_thread st \<noteq> b"
    and b: "runnable st b"
  shows "\<exists>st'. switch_task regs esp st = Some (t_state (threads st b), st') \<and> rings st' = rings st \<and>
    current_thread st' = b \<and> current_process st' = t_process (threads st b) \<and>
    threads st' = (threads st)(current_thread st := (threads st (current_thread st))\<lparr>t_state := regs\<rparr>) \<and>
    processes st' = processes st \<and> cr3 st' = page_dir (spaces (vm st) (Space_At (t_process (threads st b))))"
proof -
  let ?st = "upd_thread (current_thread st) (\<lambda>t. t\<lparr>t_state := regs\<rparr>) (st\<lparr>switch_mark := switch_mark st + 1\<rparr>)"
  have "runnable ?st b" using b nx(2) by (simp add: runnable_def)
  then have "next_thread ?st (current_thread st) = Some b"
    using nx(1) by (subst next_thread.simps) simp
  then show ?thesis using on nx(2) by (simp add: switch_task_def Let_def tss_set_stack_def)
qed

text \<open>
  \<open>enters start regs esp k q st\<close>: where the kernel's process is the page \<open>k\<close> and a program's is the page \<open>q\<close>, the
  next switch of tasks enters the program.  Both processes and both threads are in their
  lists.  The switch returns the registers of the program's first entry, keeps those of the kernel's
  thread, and selects a directory in which the program's addresses are its image.
\<close>

definition enters :: "u32 \<Rightarrow> registers \<Rightarrow> u32 \<Rightarrow> nat \<Rightarrow> nat \<Rightarrow> task_state \<Rightarrow> bool" where
  "enters start regs esp k q st \<longleftrightarrow> (\<exists>st'. switch_task regs esp st = Some (first_state 0x100000 False 0x201000, st') \<and>
    list_holds (rings st') process_list [heap_page k, heap_page q] \<and>
    list_holds (rings st') thread_list [heap_page (k + 3), heap_page (q + 2)] \<and>
    current_process st' = heap_page q \<and> current_thread st' = heap_page (q + 2) \<and>
    t_state (threads st' (heap_page (k + 3))) = regs \<and>
    (\<forall>i. 256 \<le> i \<and> i < 1024 \<and> i \<noteq> 512 \<longrightarrow>
      lookup (ph st) (cr3 st') (of_nat i * 0x1000) = (start OR 7) + of_nat (i - 256) * 0x1000))"

text \<open>A program started in \<open>st1\<close> is entered.\<close>

definition entered :: "u32 \<Rightarrow> u8 list \<Rightarrow> registers \<Rightarrow> u32 \<Rightarrow> nat \<Rightarrow> nat \<Rightarrow> task_state \<Rightarrow> bool" where
  "entered start name regs esp k q st1 \<longleftrightarrow> (\<exists>st2. run_image start name st1 = Some st2 \<and> enters start regs esp k q st2)"

lemma first_program:
  assumes h: "heap_ok (vm st1) q b1 f" and q: "k + 4 \<le> q" "q + 3 \<le> 340" and n: "8 \<le> total_pages b1"
    and kd: "in_use b1 (kernel_page_dir st1)"
    and l: "list_holds (rings st1) process_list [heap_page k]" "list_holds (rings st1) thread_list [heap_page (k + 3)]"
    and on: "current_thread st1 = heap_page (k + 3)" "multitasking_enabled st1"
    and clear: "item_list (items (rings st1) (heap_page q)) = 0" "item_list (items (rings st1) (heap_page (q + 2))) = 0"
      "\<not> as_mutex (spaces (vm st1) (Space_At (heap_page q)))"
  shows "\<exists>st2. run_image start name st1 = Some st2 \<and> enters start regs esp k q st2 \<and>
    (\<forall>a. in_use b1 a \<and> a \<noteq> f \<longrightarrow> ram (ph st2) a = ram (ph st1) a)"
proof -
  have ne: "heap_page i \<noteq> heap_page j" if "i \<le> 340" "j \<le> 340" "i \<noteq> j" for i j
    using heap_page_inj [OF that(1,2)] that(3) by blast
  have d: "set [heap_page k] \<inter> set [heap_page (k + 3)] = {}"
    "heap_page q \<notin> set [heap_page k] \<union> set [heap_page (k + 3)]"
    "heap_page (q + 2) \<notin> set [heap_page k] \<union> set [heap_page (k + 3)]"
    using ne [of k "k + 3"] ne [of q k] ne [of q "k + 3"] ne [of "q + 2" k] ne [of "q + 2" "k + 3"] q by auto
  from run_image_run [OF h q(2) n kd l d clear(3), of start name] obtain dir r st2 b2 where
    2: "run_image start name st1 = Some st2"
    "list_holds (rings st2) process_list (appended (rings st1) [heap_page k] (heap_page q))"
    "list_holds (rings st2) thread_list (appended (rings st1) [heap_page (k + 3)] (heap_page (q + 2)))"
    "processes st2 = (processes st1)(heap_page q := \<lparr>p_suspend = False, thread_count = 1, p_name = take 255 name\<rparr>)"
    "threads st2 = (threads st1)(heap_page (q + 2) := \<lparr>t_process = heap_page q, t_suspend = False,
      stack_base = 0x200000, stack_size = 0x1000, t_state = first_state 0x100000 False 0x201000\<rparr>)"
    "page_dir (spaces (vm st2) (Space_At (heap_page q))) = dir"
    "\<forall>i < 1024. lookup (ph st2) dir (of_nat i * 0x1000) =
      (if i = 512 then entry_for r 7 else if i < 256 then 7 + of_nat i * 0x1000
       else (start OR 7) + of_nat (i - 256) * 0x1000)"
    "current_thread st2 = current_thread st1" "multitasking_enabled st2 = multitasking_enabled st1"
    "\<forall>a. in_use b1 a \<and> a \<noteq> f \<longrightarrow> ram (ph st2) a = ram (ph st1) a"
    by (elim exE conjE) (rule that)
  have l2: "list_holds (rings st2) process_list [heap_page k, heap_page q]"
    "list_holds (rings st2) thread_list [heap_page (k + 3), heap_page (q + 2)]" using 2(2,3) clear by simp_all
  have "runnable st2 (heap_page (q + 2))" using 2(4,5) by (simp add: runnable_def)
  with switch_to_next [of st2 "heap_page (q + 2)" regs esp] obtain st3 where
    3: "switch_task regs esp st2 = Some (t_state (threads st2 (heap_page (q + 2))), st3)" "rings st3 = rings st2"
    "current_thread st3 = heap_page (q + 2)" "current_process st3 = t_process (threads st2 (heap_page (q + 2)))"
    "threads st3 = (threads st2)(heap_page (k + 3) := (threads st2 (heap_page (k + 3)))\<lparr>t_state := regs\<rparr>)"
    "cr3 st3 = page_dir (spaces (vm st2) (Space_At (t_process (threads st2 (heap_page (q + 2))))))"
    using on 2(8,9) next_of_two [OF l2(2)] by auto
  have "enters start regs esp k q st2"
    unfolding enters_def using 2(5-7) 3 l2 by (intro exI [of _ st3]) simp
  then show ?thesis using 2(1,10) by blast
qed

text \<open>The lists after the start, when the pages were clear.\<close>

lemma started_lists:
  assumes "started st k st1" and "\<forall>j \<in> {k, k + 3}. item_list (items (rings st) (heap_page j)) = 0"
  shows "list_holds (rings st1) process_list [heap_page k]" "list_holds (rings st1) thread_list [heap_page (k + 3)]"
    "current_thread st1 = heap_page (k + 3)" "multitasking_enabled st1" "kernel_page_dir st1 = kernel_page_dir st"
  using assms by (simp_all add: started_def)

lemma started_others:
  assumes "started st k st1" and "k + 4 \<le> q" and "q \<le> 340"
  shows "items (rings st1) (heap_page q) = items (rings st) (heap_page q)"
    "spaces (vm st1) (Space_At (heap_page q)) = spaces (vm st) (Space_At (heap_page q))"
proof -
  have "heap_page q \<noteq> heap_page k" "heap_page q \<noteq> heap_page (k + 3)"
    using heap_page_inj [of q k] heap_page_inj [of q "k + 3"] assms(2,3) by auto
  then show "items (rings st1) (heap_page q) = items (rings st) (heap_page q)"
    "spaces (vm st1) (Space_At (heap_page q)) = spaces (vm st) (Space_At (heap_page q))"
    using assms(1) by (simp_all add: started_def)
qed

text \<open>From the start of the kernel to the program.  When the pages the objects get are clear where it
  matters, starting multitasking and then a program leaves both processes and both threads in their
  lists, and the next switch of tasks enters the program: it returns the registers of its first
  entry, keeps those of the kernel's thread, and selects the directory in which the program's
  addresses are its image.\<close>

theorem program_entered:
  assumes h: "heap_ok (vm st) k bs f" and k: "k + 7 \<le> 340" and n: "12 \<le> total_pages bs"
    and kd: "in_use bs (kernel_page_dir st)"
    and clear: "\<forall>j \<in> {k, k + 3, k + 4, k + 6}. item_list (items (rings st) (heap_page j)) = 0"
      "\<not> as_mutex (spaces (vm st) (Space_At (heap_page (k + 4))))"
  shows "\<exists>st1. init_multitasking st = Some st1 \<and> started st k st1 \<and> entered start name regs esp k (k + 4) st1"
proof -
  have "k + 4 \<le> 340" "4 \<le> total_pages bs" using k n by simp_all
  from init_multitasking_run [OF h this] obtain st1 b1 where
    1: "init_multitasking st = Some st1" "started st k st1" "took (vm st) (vm st1) k 4 bs b1 f" by blast
  have h1: "heap_ok (vm st1) (k + 4) b1 f" "k + 4 \<le> k + 4" "k + 4 + 3 \<le> 340" "8 \<le> total_pages b1" "in_use b1 (kernel_page_dir st)"
    using 1(3) k n kd in_use_mono [of bs _ b1] by (simp_all add: took_def)
  have "\<forall>j \<in> {k, k + 3}. item_list (items (rings st) (heap_page j)) = 0" using clear(1) by simp
  note l = started_lists [OF 1(2) this]
  have c: "item_list (items (rings st1) (heap_page (k + 4))) = 0" "\<not> as_mutex (spaces (vm st1) (Space_At (heap_page (k + 4))))"
    using started_others [OF 1(2), of "k + 4"] clear k by simp_all
  have e: "k + 4 + 2 = k + 6" by simp
  have "item_list (items (rings st1) (heap_page (k + 6))) = 0"
    using started_others(1) [OF 1(2), of "k + 6"] clear(1) k by simp
  from first_program [OF h1(1-4) h1(5) [folded l(5)] l(1-4) c(1) this [folded e] c(2)]
  show ?thesis using 1(1,2) unfolding entered_def by blast
qed

section \<open>A concrete kernel\<close>

text \<open>Kernel memory with its table alone, and no page written yet.\<close>

definition demo_kernel :: task_state where
  "demo_kernel = \<lparr>vm = demo_heap,
     rings = \<lparr>items = (\<lambda>_. \<lparr>item_next = 0, item_prev = 0, item_list = 0\<rparr>),
       lists = (\<lambda>_. \<lparr>list_first = 0, list_count = 0, list_mutex = False\<rparr>)\<rparr>,
     processes = (\<lambda>_. \<lparr>p_suspend = True, thread_count = 0, p_name = []\<rparr>),
     threads = (\<lambda>t. \<lparr>t_process = 0, t_suspend = True, stack_base = 0, stack_size = 0, t_state = zero_registers\<rparr>),
     current_process = 0, current_thread = 0, kernel_process = 0, kernel_thread = 0,
     kernel_page_dir = 0x1000, multitasking_enabled = False, cr3 = 0x1000, switch_mark = 0\<rparr>"

lemma demo_kernel_fields:
  "heap_ok (vm demo_kernel) 0 [(0x10000, 16)] 0x5000" "in_use [(0x10000, 16)] (kernel_page_dir demo_kernel)"
  "item_list (items (rings demo_kernel) a) = 0" "\<not> as_mutex (spaces (vm demo_kernel) sp)"
  "list_holds (rings demo_kernel) l []"
  using demo_heap_ok by (simp_all add: demo_kernel_def demo_heap_def in_use_def free_pages_def pages_def aligned_def page_of_def
    list_holds_def)

theorem init_multitasking_starts_witness:
  "\<exists>st'. init_multitasking demo_kernel = Some st' \<and> list_holds (rings st') process_list [0xFFBFF000] \<and>
     list_holds (rings st') thread_list [0xFFBFC000] \<and> runnable st' 0xFFBFC000"
  using init_multitasking_starts [OF demo_kernel_fields(1)] demo_kernel_fields(3) by (auto simp: started_def heap_page_def)

theorem run_image_starts_witness:
  "\<exists>st'. run_image 0x400000 [116, 0x2E] demo_kernel = Some st' \<and> list_holds (rings st') process_list [0xFFBFF000] \<and>
     list_holds (rings st') thread_list [0xFFBFD000] \<and>
     t_state (threads st' 0xFFBFD000) = first_state 0x100000 False 0x201000"
  using run_image_starts [OF demo_kernel_fields(1) _ _ demo_kernel_fields(2,5,5), of "0x400000" "[116, 0x2E]"]
    demo_kernel_fields(3,4) by (auto simp: heap_page_def)

theorem program_entered_witness:
  "\<exists>st1 st2 st3. init_multitasking demo_kernel = Some st1 \<and> run_image 0x400000 [116, 0x2E] st1 = Some st2 \<and>
     switch_task zero_registers 0 st2 = Some (first_state 0x100000 False 0x201000, st3) \<and>
     lookup (ph st2) (cr3 st3) 0x100000 = 0x400007"
proof -
  have "\<forall>j \<in> {0, 0 + 3, 0 + 4, 0 + 6}. item_list (items (rings demo_kernel) (heap_page j)) = 0"
    using demo_kernel_fields(3) by simp
  from program_entered [OF demo_kernel_fields(1) _ _ demo_kernel_fields(2) this demo_kernel_fields(4),
    where start = "0x400000" and name = "[116, 0x2E]" and regs = zero_registers and esp = 0]
  obtain st1 st2 st3 where *: "init_multitasking demo_kernel = Some st1" "run_image 0x400000 [116, 0x2E] st1 = Some st2"
    "switch_task zero_registers 0 st2 = Some (first_state 0x100000 False 0x201000, st3)"
    "\<forall>i. 256 \<le> i \<and> i < 1024 \<and> i \<noteq> 512 \<longrightarrow>
      lookup (ph st2) (cr3 st3) (of_nat i * 0x1000) = (0x400000 OR 7) + of_nat (i - 256) * 0x1000"
    by (auto simp: entered_def enters_def)
  have "lookup (ph st2) (cr3 st3) 0x100000 = 0x400007" using *(4) [rule_format, of 256] by simp
  then show ?thesis using * by blast
qed

end
