(* ===== verification/Boot.thy ===== *)
theory Boot
  imports Start_Up
begin

text \<open>
  The kernel from the page tables of the boot loader on: the memory manager takes over the free memory of
  the memory map and the page directory, and kernel memory begins with the page of its own block
  table, the first page of its own after it, and a page for a frame of the caller's.
\<close>

section \<open>A page behind a new table\<close>

text \<open>Mapping a page whose page table is missing takes one frame for it.\<close>

lemma map_new_table:
  assumes ok: "paging_ok s dir bs" and i: "\<not> present (dir_entry s dir (page_index 22 v))" and n: "0 < total_pages bs"
  shows "\<exists>f p bs'. map_pages dir v r 1 flags s = Some (True, p) \<and> paging_ok p dir bs' \<and>
    free_pages bs' \<subseteq> free_pages bs \<and> total_pages bs = total_pages bs' + 1 \<and>
    table_at p bs' dir (page_index 22 v) f \<and> \<not> in_use bs f \<and>
    (\<forall>j. j \<noteq> page_index 22 v \<longrightarrow> dir_entry p dir j = dir_entry s dir j) \<and>
    (\<forall>a. in_use bs a \<and> a \<noteq> dir \<longrightarrow> ram p a = ram s a)"
proof -
  let ?i = "page_index 22 v"
  have d: "page_of dir = dir" "in_use bs dir" using ok by (auto simp: paging_ok_def)
  have "free_list (temp_map_page dir s) bs" using ok by (simp add: paging_ok_def)
  from alloc_frame [OF this n] obtain f u bs' where u: "alloc_phys_pages 1 (temp_map_page dir s) = Some (f, u)" "free_list u bs'"
    "free_pages bs' \<subseteq> free_pages bs" "\<forall>a. in_use bs a \<longrightarrow> ram u a = ram s a" "in_use bs' f" "\<not> in_use bs f"
    "total_pages bs = total_pages bs' + 1" by auto
  let ?m = "temp_wr ?i (f OR 7) (temp_map_page dir (temp_clear (temp_map_page f u)))"
  let ?p = "temp_wr (page_index 12 v) (entry_for r flags) (temp_map_page f ?m)"
  note t = table_write [OF ok u(2,3,4,5,6) index_less(1) i]
  have f: "f \<noteq> - 1" "f \<noteq> dir" "page_of f = f" using u(5,6) d by (auto simp: in_use_def aligned_def page_of_def)
  have "map_pages dir v r 1 flags s = Some (True, ?p)"
    using i u(1) f(1) by (simp add: map_pages_def map_walk_top map_walk_leaf Let_def entry_for_def)
  moreover have "temp_wr (page_index 12 v) (entry_for r flags) (temp_map_page (f OR 7) ?m) = ?p"
    using t(6) f(3) by (simp add: temp_map_page_def page_of_def)
  then have ok': "paging_ok ?p dir bs'"
    using leaf_write(1) [OF t(1) t(2) [symmetric] t(7), of "entry_for r flags"] by simp
  moreover have m: "ram ?p = (ram ?m)(f := (ram ?m f)(page_index 12 v := entry_for r flags))" using f(3) by simp
  moreover have "ram ?m dir = (ram u dir)(?i := f OR 7)" using d(1) f by simp
  then have de: "dir_entry ?p dir j = (if j = ?i then f OR 7 else dir_entry s dir j)" for j
    using m f(2) d u(4) by (simp add: dir_entry_def)
  moreover have "table_at ?p bs' dir ?i f"
    using ok' de [of ?i] t(6,7) f(2) u(5) in_use_mono [OF d(2) u(3)] by (simp add: table_at_def paging_ok_def)
  moreover have "ram ?p a = ram s a" if "in_use bs a" "a \<noteq> dir" for a
  proof -
    have "a \<noteq> f" using that u(6) by auto
    then show ?thesis using m t(4) [OF that] by simp
  qed
  ultimately show ?thesis using u(3,6,7) by (intro exI [of _ f] exI [of _ ?p] exI [of _ bs']) simp
qed

text \<open>Taking a frame leaves the tables as they are.\<close>

lemma alloc_paging_one:
  assumes ok: "paging_ok s dir bs" and n: "0 < total_pages bs"
  shows "\<exists>r t bs'. alloc_phys_pages 1 s = Some (r, t) \<and> paging_ok t dir bs' \<and> dir_entry t dir = dir_entry s dir \<and>
    total_pages bs = total_pages bs' + 1 \<and> free_pages bs' \<subseteq> free_pages bs \<and> in_use bs' r \<and> \<not> in_use bs r \<and>
    (\<forall>a. in_use bs a \<longrightarrow> ram t a = ram s a)"
proof -
  obtain r q b1 where q: "alloc_phys_pages 1 s = Some (r, q)" "free_list q b1" "free_pages b1 \<subseteq> free_pages bs"
    "\<forall>a. in_use bs a \<longrightarrow> ram q a = ram s a" "in_use b1 r" "\<not> in_use bs r" "total_pages bs = total_pages b1 + 1"
    using alloc_frame [OF paging_ok_list [OF ok] n] by blast
  have "page_of dir = dir" "in_use bs dir" using ok by (auto simp: paging_ok_def)
  then have de: "dir_entry q dir = dir_entry s dir" using q(4) by (simp add: dir_entry_def fun_eq_iff)
  have "paging_ok q dir b1" using ok q(2) in_use_mono [OF _ q(3)] unfolding paging_ok_def de by blast
  then show ?thesis using q de by blast
qed

section \<open>Kernel memory before its first page\<close>

text \<open>The table of kernel memory has only its own block, and the page table of the upper end is missing.\<close>

definition heap_new :: "vm_state \<Rightarrow> block list \<Rightarrow> bool" where
  "heap_new st bs \<longleftrightarrow> stacked st 0 \<and> paging_ok (phys st) (page_dir (spaces st Kernel_Space)) bs \<and>
     \<not> present (dir_entry (phys st) (page_dir (spaces st Kernel_Space)) 1022)"

lemma heap_first:
  assumes h: "heap_new st bs" and n: "2 \<le> total_pages bs"
  shows "\<exists>f m bs'. alloc_virt_pages Kernel_Space 0 (- 1) 1 flags st = Some (heap_page 0, m) \<and> heap_ok m 1 bs' f \<and>
    free_pages bs' \<subseteq> free_pages bs \<and> total_pages bs = total_pages bs' + 2 \<and>
    (\<forall>a. in_use bs a \<and> a \<noteq> page_dir (spaces st Kernel_Space) \<longrightarrow> ram (phys m) a = ram (phys st) a) \<and>
    (\<forall>sp. sp \<noteq> Kernel_Space \<longrightarrow> spaces m sp = spaces st sp) \<and>
    page_dir (spaces m Kernel_Space) = page_dir (spaces st Kernel_Space)"
proof -
  let ?dir = "page_dir (spaces st Kernel_Space)" and ?v = "heap_page 0"
  have s: "stacked st 0" and ok: "paging_ok (phys st) ?dir bs" and i: "\<not> present (dir_entry (phys st) ?dir 1022)"
    using h by (simp_all add: heap_new_def)
  have idx: "page_index 22 ?v = 1022" using heap_page_index [of 0] by simp
  have n0: "0 < total_pages bs" using n by simp
  from alloc_paging_one [OF ok n0] obtain r q b1 where q: "alloc_phys_pages 1 (phys st) = Some (r, q)" "paging_ok q ?dir b1"
    "dir_entry q ?dir = dir_entry (phys st) ?dir" "total_pages bs = total_pages b1 + 1" "free_pages b1 \<subseteq> free_pages bs" "in_use b1 r"
    "\<forall>a. in_use bs a \<longrightarrow> ram q a = ram (phys st) a" by blast
  have "\<not> present (dir_entry q ?dir (page_index 22 ?v))" "0 < total_pages b1" using i idx q(3,4) n by simp_all
  then obtain f p b2 where p: "map_pages ?dir ?v r 1 flags q = Some (True, p)" "free_pages b2 \<subseteq> free_pages b1"
    "total_pages b1 = total_pages b2 + 1" "table_at p b2 ?dir 1022 f" "\<forall>a. in_use b1 a \<and> a \<noteq> ?dir \<longrightarrow> ram p a = ram q a"
    using map_new_table [OF q(2), of ?v r flags] idx by auto
  let ?b = "\<lparr>vtype = VMB_MEMORY, vbase = ?v, vlength = 0x1000\<rparr>"
  let ?m = "insert_block Kernel_Space 0 ?b (st\<lparr>phys := p\<rparr>)"
  have unl: "\<not> as_mutex (spaces st Kernel_Space)" and bc: "block_count (spaces st Kernel_Space) \<noteq> block_table_size (spaces st Kernel_Space)"
    using s by (simp_all add: stacked_def Let_def)
  have r: "r \<noteq> - 1" and v: "?v \<noteq> 0" using q(6) by (auto simp: in_use_def aligned_def page_of_def)
  have "choose_vaddr Kernel_Space 0 1 st = (?v, 0)" using choose_heap [OF s] by simp
  then have "alloc_virt_pages Kernel_Space 0 (- 1) 1 flags st = Some (?v, unlock_space Kernel_Space
      (insert_block Kernel_Space 0 ?b ((upd_space Kernel_Space (\<lambda>a. a\<lparr>as_mutex := True\<rparr>) st)\<lparr>phys := p\<rparr>)))"
    using unl q(1) p(1) bc r v
    by (simp add: alloc_virt_pages_def alloc_virt_body_def lock_space_free phys_alloc_def phys_map_def grow_if_full_def)
  then have "alloc_virt_pages Kernel_Space 0 (- 1) 1 flags st = Some (?v, ?m)" unfolding unlock_insert [OF unl] .
  moreover have "stacked (st\<lparr>phys := p\<rparr>) 0" using s by (simp add: stacked_def Let_def block_at_phys)
  then have "stacked ?m 1" using stacked_insert [of "st\<lparr>phys := p\<rparr>" 0 ?b] by simp
  moreover have f: "phys ?m = p" "page_dir (spaces ?m Kernel_Space) = ?dir" "\<forall>sp. sp \<noteq> Kernel_Space \<longrightarrow> spaces ?m sp = spaces st sp"
    by (simp_all add: insert_block_def put_block_def Let_def)
  moreover have "ram p a = ram (phys st) a" if "in_use bs a" "a \<noteq> ?dir" for a
    using that q(7) p(5) in_use_mono [OF that(1) q(5)] by simp
  ultimately show ?thesis using p(2-4) q(4,5)
    by (intro exI [of _ f] exI [of _ ?m] exI [of _ b2]) (auto simp: heap_ok_def)
qed

text \<open>A page of kernel memory for a frame of the caller's, as the terminal asks for one.\<close>

lemma heap_given:
  assumes h: "heap_ok st k bs f" and k: "k < 340" and r: "r \<noteq> - 1"
  shows "\<exists>m. alloc_virt_pages Kernel_Space 0 r 1 flags st = Some (heap_page k, m) \<and> heap_ok m (k + 1) bs f \<and>
    ram (phys m) = (ram (phys st))(f := (ram (phys st) f)(page_index 12 (heap_page k) := entry_for r flags)) \<and>
    (\<forall>sp. sp \<noteq> Kernel_Space \<longrightarrow> spaces m sp = spaces st sp) \<and>
    page_dir (spaces m Kernel_Space) = page_dir (spaces st Kernel_Space)"
proof -
  let ?dir = "page_dir (spaces st Kernel_Space)" and ?v = "heap_page k"
  let ?b = "\<lparr>vtype = VMB_IO_MEMORY, vbase = ?v, vlength = 0x1000\<rparr>"
  have s: "stacked st k" and t: "table_at (phys st) bs ?dir 1022 f" using h by (simp_all add: heap_ok_def)
  have unl: "\<not> as_mutex (spaces st Kernel_Space)" using s by (simp add: stacked_def Let_def)
  from t obtain p where p: "map_pages ?dir ?v r 1 flags (phys st) = Some (True, p)" "free_list p bs"
    "ram p = (ram (phys st))(f := (ram (phys st) f)(page_index 12 ?v := entry_for r flags))"
    using map_in_table [of "phys st" bs ?dir ?v f r flags] heap_page_index [of k] k by auto
  let ?m = "insert_block Kernel_Space k ?b (st\<lparr>phys := p\<rparr>)"
  have "alloc_virt_pages Kernel_Space 0 r 1 flags st = Some (?v, unlock_space Kernel_Space
      (insert_block Kernel_Space k ?b ((upd_space Kernel_Space (\<lambda>a. a\<lparr>as_mutex := True\<rparr>) st)\<lparr>phys := p\<rparr>)))"
    using unl p(1) heap_room [OF s k] r choose_heap [OF s k] heap_page_nonzero [of k] k
    by (simp add: alloc_virt_pages_def alloc_virt_body_def lock_space_free phys_map_def grow_if_full_def)
  then have "alloc_virt_pages Kernel_Space 0 r 1 flags st = Some (?v, ?m)" unfolding unlock_insert [OF unl] .
  moreover have "stacked (st\<lparr>phys := p\<rparr>) k" using s by (simp add: stacked_def Let_def block_at_phys)
  then have "stacked ?m (k + 1)" using k by (intro stacked_insert) simp_all
  moreover have f: "phys ?m = p" "page_dir (spaces ?m Kernel_Space) = ?dir" "\<forall>sp. sp \<noteq> Kernel_Space \<longrightarrow> spaces ?m sp = spaces st sp"
    by (simp_all add: insert_block_def put_block_def Let_def)
  moreover have "table_at p bs ?dir 1022 f"
    using t p(2,3) by (auto simp: table_at_def dir_entry_def)
  ultimately show ?thesis using p(3) by (intro exI [of _ ?m]) (simp add: heap_ok_def)
qed

section \<open>The memory manager\<close>

text \<open>The page tables of the boot loader: the tables are in the first megabyte, that of the top four megabytes is
  there, those of the two ends of kernel memory are not.\<close>

definition boot_tables :: "phys_mem \<Rightarrow> u32 \<Rightarrow> bool" where
  "boot_tables s dir \<longleftrightarrow> paging_ok s dir [] \<and> present (dir_entry s dir 1023) \<and>
     (\<forall>i \<in> {512, 1022}. \<not> present (dir_entry s dir i)) \<and> unat dir < 0x100000 \<and>
     (\<forall>i < 1024. present (dir_entry s dir i) \<longrightarrow> unat (page_of (dir_entry s dir i)) < 0x100000)"

text \<open>A memory map with one region above the first megabyte, as a machine with up to three gigabytes has it.\<close>

definition usable :: "memory_map_entry \<Rightarrow> bool" where
  "usable e \<longleftrightarrow> map_type e = 1 \<and> 0x100000 \<le> map_base e"

definition one_region :: "(nat \<Rightarrow> memory_map_entry) \<Rightarrow> memory_map_entry \<Rightarrow> bool" where
  "one_region mm e \<longleftrightarrow> (\<exists>n j. j < n \<and> map_type (mm n) = 0 \<and> (\<forall>k < n. map_type (mm k) \<noteq> 0 \<and> (usable (mm k) \<longleftrightarrow> k = j)) \<and>
     mm j = e)"

definition first_frame :: "memory_map_entry \<Rightarrow> u32" where
  "first_frame e = ucast (map_base e)"

definition frames :: "memory_map_entry \<Rightarrow> u32" where
  "frames e = ucast (drop_bit 12 (map_length e))"

lemma add_memory_map_skip:
  assumes "\<forall>i. k \<le> i \<and> i < k + d \<longrightarrow> map_type (mm i) \<noteq> 0 \<and> \<not> usable (mm i)"
  shows "add_memory_map mm k s = add_memory_map mm (k + d) s"
  using assms
proof (induction d arbitrary: k)
  case (Suc d)
  have "add_memory_map mm k s = add_memory_map mm (k + 1) s"
    using Suc.prems by (subst add_memory_map.simps) (auto simp: usable_def)
  then show ?case using Suc.IH [of "k + 1"] Suc.prems by simp
qed simp

lemma add_one_region:
  assumes "one_region mm e" and "phys_free (first_frame e) (frames e) v = Some v'"
  shows "add_memory_map mm 0 (m, v) = Some (m + ucast (map_length e), v')"
proof -
  obtain n j where j: "j < n" "map_type (mm n) = 0" "\<forall>k < n. map_type (mm k) \<noteq> 0 \<and> (usable (mm k) \<longleftrightarrow> k = j)" "mm j = e"
    using assms(1) unfolding one_region_def by blast
  have "add_memory_map mm 0 (m, v) = add_memory_map mm j (m, v)"
    using add_memory_map_skip [of 0 j] j by simp
  also have "\<dots> = add_memory_map mm (j + 1) (m + ucast (map_length e), v')"
    using j assms(2) by (subst add_memory_map.simps) (auto simp: usable_def first_frame_def frames_def)
  also have "\<dots> = add_memory_map mm n (m + ucast (map_length e), v')"
    using add_memory_map_skip [of "j + 1" "n - (j + 1)"] j by simp
  also have "\<dots> = Some (m + ucast (map_length e), v')"
    using j(2) by (subst add_memory_map.simps) simp
  finally show ?thesis .
qed

lemma paging_ok_region:
  assumes b: "boot_tables s dir" and r: "range_ok base count" "0x100000 \<le> unat base"
    and t: "free_list t [(base, count)]" "\<forall>p. p \<noteq> base \<longrightarrow> ram t p = ram s p"
  shows "paging_ok t dir [(base, count)]" and "dir_entry t dir = dir_entry s dir"
proof -
  have low: "in_use [(base, count)] a" if "aligned a" "unat a < 0x100000" for a
  proof -
    have "unat a div 4096 < 0x100" "0x100 \<le> unat base div 4096" using that(2) r(2) by simp_all
    then show ?thesis using that(1) by (auto simp: in_use_def free_pages_def pages_def)
  qed
  have al: "aligned dir" "unat dir < 0x100000" using b by (auto simp: boot_tables_def paging_ok_def in_use_def)
  then have "dir \<noteq> base" using r(2) by auto
  then show de: "dir_entry t dir = dir_entry s dir"
    using t(2) al(1) by (simp add: dir_entry_def fun_eq_iff aligned_def)
  show "paging_ok t dir [(base, count)]"
    using b t(1) low al unfolding paging_ok_def boot_tables_def de
    by (auto simp: in_use_def [of "[]"] free_pages_def)
qed

lemma paging_ok_temp [simp]: "paging_ok (temp_map_page a s) dir bs = paging_ok s dir bs"
  "dir_entry (temp_map_page a s) dir = dir_entry s dir"
  by (auto simp: paging_ok_def dir_entry_def fun_eq_iff)

lemma remap_run:
  assumes ok: "paging_ok (phys v) dir bs" and e: "present (dir_entry (phys v) dir 1023)"
    and a: "0xFFC00000 \<le> a" "page_no a + unat n \<le> 2 ^ 20"
  shows "\<exists>p. remap_section dir a n flags v = Some (v\<lparr>phys := p\<rparr>) \<and> paging_ok p dir bs \<and>
    dir_entry p dir = dir_entry (phys v) dir"
proof -
  obtain u where u: "snd (get_page_info dir a (phys v)) = u" "paging_ok u dir bs" "dir_entry u dir = dir_entry (phys v) dir"
    using ok by (simp add: get_page_info_def Let_def)
  have "0xFFC00 \<le> page_no a" using a(1) by (simp add: page_no_def word_le_nat_alt)
  then have "page_index 22 w = 1023" if "page_no a \<le> page_no w" for w :: u32
  proof -
    have "1047552 \<le> page_no w" "page_no w < 1048576" using that \<open>0xFFC00 \<le> page_no a\<close> page_no_less [of w] by simp_all
    then show ?thesis unfolding page_index_22 by linarith
  qed
  then have "\<forall>w. page_no a \<le> page_no w \<and> page_no w < page_no a + unat n \<longrightarrow> present (dir_entry u dir (page_index 22 w))"
    using e u(3) by simp
  from map_present [OF u(2) a(2) this, of "fst (get_page_info dir a (phys v))" flags] obtain t where
    "map_pages_loop (unat n) dir a (fst (get_page_info dir a (phys v))) flags u = Some (True, t)" "paging_ok t dir bs"
    "dir_entry t dir = dir_entry (phys v) dir" using u(3) by auto
  then show ?thesis using u(1)
    by (intro exI [of _ t]) (simp add: remap_section_def phys_info_def phys_map_def map_pages_def Let_def split_def)
qed


text \<open>The sections of the kernel are in the top four megabytes, in order.\<close>

definition layout_ok :: "kernel_layout \<Rightarrow> bool" where
  "layout_ok lay \<longleftrightarrow> 0xFFC00000 \<le> KERNEL_CODE_BASE lay \<and> KERNEL_CODE_BASE lay \<le> KERNEL_DATA_BASE lay \<and>
     KERNEL_DATA_BASE lay \<le> KERNEL_END lay"

lemma section_pages: "a \<le> b \<Longrightarrow> page_no a + unat (drop_bit 12 (b - a)) \<le> 2 ^ 20"
proof -
  assume "a \<le> b"
  then have le: "unat a \<le> unat b" by (simp add: word_le_nat_alt)
  then have "unat (b - a) = unat b - unat a" using \<open>a \<le> b\<close> by (simp add: unat_sub)
  then have "unat (drop_bit 12 (b - a)) = (unat b - unat a) div 4096" by (simp add: drop_bit_eq_div unat_div)
  moreover have "unat a div 4096 + (unat b - unat a) div 4096 \<le> unat b div 4096"
    using le by (metis div_add1_eq le_add1 le_add_diff_inverse)
  ultimately show ?thesis using page_no_less [of b] by (simp add: page_no_def)
qed

lemma memory_manager_run:
  assumes b: "boot_tables (phys v) dir" and m: "one_region mm e" "range_ok (first_frame e) (frames e)" "0x100000 \<le> unat (first_frame e)"
    and n: "2 \<le> unat (frames e)" and lay: "layout_ok lay" and unl: "\<not> as_mutex (spaces v Kernel_Space)"
  shows "\<exists>v' bs. init_memory_manager lay dir mm v = Some (0x100000 + ucast (map_length e), v') \<and> heap_new v' bs \<and>
    unat (frames e) = total_pages bs + 2 \<and> page_dir (spaces v' Kernel_Space) = dir \<and>
    (\<forall>sp. sp \<noteq> Kernel_Space \<longrightarrow> spaces v' sp = spaces v sp)"
proof -
  let ?b0 = "[(first_frame e, frames e)]"
  have "free_list (phys v) []" using b by (simp add: boot_tables_def paging_ok_def)
  from free_phys_pages_first [OF this m(2)] obtain p1 where p1: "free_phys_pages (first_frame e) (frames e) (phys v) = Some p1"
    "free_list p1 ?b0" "\<forall>p. p \<noteq> first_frame e \<longrightarrow> ram p1 p = ram (phys v) p" by blast
  note ok1 = paging_ok_region [OF b m(2,3) p1(2,3)]
  have a: "add_memory_map mm 0 (0x100000, v) = Some (0x100000 + ucast (map_length e), v\<lparr>phys := p1\<rparr>)"
    using p1(1) by (intro add_one_region [OF m(1)]) (simp add: phys_free_def)
  have e1: "present (dir_entry p1 dir 1023)" using b ok1(2) by (simp add: boot_tables_def)
  let ?C = "KERNEL_CODE_BASE lay" and ?D = "KERNEL_DATA_BASE lay" and ?E = "KERNEL_END lay"
  have l: "0xFFC00000 \<le> ?C" "?C \<le> ?D" "?D \<le> ?E" "0xFFC00000 \<le> ?D" using lay by (auto simp: layout_ok_def)
  obtain p2 where p2: "remap_section dir ?C (drop_bit 12 (?D - ?C)) (PAGE_PRESENT OR 0x100) (v\<lparr>phys := p1\<rparr>) = Some (v\<lparr>phys := p2\<rparr>)"
    "paging_ok p2 dir ?b0" "dir_entry p2 dir = dir_entry p1 dir"
    using remap_run [of "v\<lparr>phys := p1\<rparr>" dir ?b0 ?C "drop_bit 12 (?D - ?C)"] ok1(1) e1 l section_pages [OF l(2)] by auto
  obtain p3 where p3: "remap_section dir ?D (drop_bit 12 (?E - ?D)) (PAGE_PRESENT OR PAGE_WRITABLE OR 0x100) (v\<lparr>phys := p2\<rparr>) = Some (v\<lparr>phys := p3\<rparr>)"
    "paging_ok p3 dir ?b0" "dir_entry p3 dir = dir_entry p1 dir"
    using remap_run [of "v\<lparr>phys := p2\<rparr>" dir ?b0 ?D "drop_bit 12 (?E - ?D)"] p2(2,3) e1 l section_pages [OF l(3)] by auto
  obtain p4 where p4: "remap_section dir 0xFFFFE000 1 (PAGE_PRESENT OR PAGE_WRITABLE OR 0x100) (v\<lparr>phys := p3\<rparr>) = Some (v\<lparr>phys := p4\<rparr>)"
    "paging_ok p4 dir ?b0" "dir_entry p4 dir = dir_entry p1 dir"
    using remap_run [of "v\<lparr>phys := p3\<rparr>" dir ?b0 "0xFFFFE000" 1] p3(2,3) e1 by (auto simp: page_no_def)
  have "0 < total_pages ?b0" using n by simp
  from alloc_paging_one [OF p4(2) this] obtain r p5 b1 where p5: "alloc_phys_pages 1 p4 = Some (r, p5)" "paging_ok p5 dir b1"
    "dir_entry p5 dir = dir_entry p4 dir" "total_pages ?b0 = total_pages b1 + 1" by blast
  have i: "page_index 22 0x80000000 = 512" by (simp add: page_index_22 page_no_def)
  have "\<not> present (dir_entry p5 dir (page_index 22 0x80000000))" "0 < total_pages b1"
    using b p5(3,4) p4(3) ok1(2) i n by (simp_all add: boot_tables_def)
  from map_new_table [OF p5(2) this, of r 3] obtain p6 b2 where p6: "map_pages dir 0x80000000 r 1 3 p5 = Some (True, p6)"
    "paging_ok p6 dir b2" "total_pages b1 = total_pages b2 + 1" "dir_entry p6 dir 1022 = dir_entry p5 dir 1022" using i by auto
  let ?v = "(upd_space Kernel_Space (\<lambda>a. a\<lparr>page_dir := dir, as_start := KERNEL_MEMORY_START, as_end := KERNEL_MEMORY_END,
    block_table_size := 341, blocks := KERNEL_MEMORY_START, block_count := 1\<rparr>) v)\<lparr>phys := p6\<rparr>"
  let ?w = "put_block Kernel_Space 0 \<lparr>vtype = VMB_RESERVED, vbase = KERNEL_MEMORY_START, vlength = PAGE_SIZE\<rparr> ?v"
  have "init_memory_manager lay dir mm v = Some (0x100000 + ucast (map_length e), ?w)"
    using a p2(1) p3(1) p4(1) p5(1) p6(1) by (simp add: init_memory_manager_def phys_alloc_def phys_map_def Let_def)
  moreover have "heap_new ?w b2"
    using unl p6(2,4) p5(3) p4(3) ok1(2) b
    by (simp add: heap_new_def stacked_def Let_def put_block_def block_at_def boot_tables_def)
  moreover have "unat (frames e) = total_pages b2 + 2" using p5(4) p6(3) by simp
  ultimately show ?thesis by (intro exI [of _ ?w] exI [of _ b2]) (simp add: put_block_def)
qed

end
