(* ===== verification/Shell.thy ===== *)
theory Shell
  imports Listfs
begin

text \<open>
  The kernel's main program and its shell, \<^verbatim>\<open>src/kernel/kernel.c\<close>: the order in which the components
  are started, the commands, and what they print.  The shell loop is run for a number of
  commands; a schedule says which scan codes arrive while a line is read.
\<close>

section \<open>Definitions\<close>

text \<open>\<^verbatim>\<open>printf\<close> with a string literal, and \<^verbatim>\<open>in_string\<close>.\<close>

definition print :: "machine \<Rightarrow> string \<Rightarrow> u32 list \<Rightarrow> machine_state \<Rightarrow> machine_state option" where
  "print mc fmt args st = map_option (\<lambda>t. st\<lparr>terminal := t\<rparr>) (printf (literal mc fmt) args (terminal st))"

type_synonym shell_state = "u8 list list \<times> machine_state"

definition read_line :: "u32 \<Rightarrow> u32 \<Rightarrow> shell_state \<Rightarrow> shell_state option" where
  "read_line buffer buffer_size s = do {
     (sched, kb, t) \<leftarrow> in_string buffer buffer_size (fst s) (keys (snd s)) (terminal (snd s));
     Some (sched, (snd s)\<lparr>keys := kb, terminal := t\<rparr>)
   }"

abbreviation newline :: string where "newline \<equiv> [CHR 0x0A]"

subsection \<open>Listing files\<close>

partial_function (option) show_files :: "machine \<Rightarrow> u32 \<Rightarrow> machine_state \<Rightarrow> machine_state option" where
  "show_files mc n st = do {
     (file_header, st) \<leftarrow> get_file_info_by mc n st;
     if file_header = 0 then Some st
     else do {
       st \<leftarrow> print mc (''name: %s'' @ newline) [file_header] st;
       st \<leftarrow> (if fh_flags (header_at st file_header) AND push_bit 1 1 \<noteq> 0 then print mc '' type: directory'' [] st
              else print mc ('' type: file'' @ newline) [] st);
       st \<leftarrow> (if fh_parent (header_at st file_header) = - 1 then print mc ('' directory: root'' @ newline) [] st
              else print mc ('' directory: not root'' @ newline) [] st);
       st \<leftarrow> print mc ('' size: %d bytes'' @ newline) [ucast (fh_size (header_at st file_header))] st;
       if fh_next (header_at st file_header) \<noteq> - 1 then do {
         st \<leftarrow> print mc newline [] st;
         show_files mc (ucast (fh_next (header_at st file_header))) st
       }
       else Some st
     }
   }"

subsection \<open>Commands\<close>

definition cmd_get_ticks :: "machine \<Rightarrow> machine_state \<Rightarrow> machine_state option" where
  "cmd_get_ticks mc st = print mc (newline @ ''ticks: %d'' @ newline) [get_tick_count st] st"

text \<open>The two loops of \<^verbatim>\<open>cmd_read_sect\<close>: \<open>n\<close> bytes from \<open>p\<close> on, and \<open>n\<close> quarters of the sector.\<close>

fun dump_bytes :: "nat \<Rightarrow> machine \<Rightarrow> u32 \<Rightarrow> machine_state \<Rightarrow> machine_state option" where
  "dump_bytes 0 mc p st = Some st"
| "dump_bytes (Suc n) mc p st = do {
     st \<leftarrow> print mc ''0x%x '' [ucast (memory_of st p)] st;
     dump_bytes n mc (p + 1) st
   }"

fun dump_quarters :: "nat \<Rightarrow> machine \<Rightarrow> u32 \<Rightarrow> shell_state \<Rightarrow> shell_state option" where
  "dump_quarters 0 mc p s = Some s"
| "dump_quarters (Suc n) mc p s = do {
     st \<leftarrow> dump_bytes 128 mc p (snd s);
     st \<leftarrow> print mc (newline @ ''Press any key to continue...'' @ newline) [] st;
     s \<leftarrow> read_line (pause_buffer mc) 1 (fst s, st);
     dump_quarters n mc (p + 128) s
   }"

definition cmd_read_sect :: "machine \<Rightarrow> shell_state \<Rightarrow> shell_state option" where
  "cmd_read_sect mc s = do {
     st \<leftarrow> print mc (newline @ ''Please type in the sector number [0 is default] > '') [] (snd s);
     (sched, st) \<leftarrow> read_line (number_buffer mc) 4 (fst s, st);
     sectornum \<leftarrow> atoi (memory_of st) (number_buffer mc);
     st \<leftarrow> print mc (newline @ ''Sector %d contents:'' @ newline @ newline) [sectornum] st;
     (sector, st) \<leftarrow> read_sector mc sectornum st;
     (sched, st) \<leftarrow> (if sector \<noteq> 0 then dump_quarters 4 mc sector (sched, st)
                    else map_option (Pair sched) (print mc (newline @ ''*** Error reading sector from disk'') [] st));
     map_option (Pair sched) (print mc (''Done.'' @ newline) [] st)
   }"

subsection \<open>The memory map\<close>

text \<open>An entry of the map in memory: 24 bytes, three doublewords long in base, length and type.\<close>

definition uint32_in :: "mem \<Rightarrow> u32 \<Rightarrow> u32" where
  "uint32_in m p = le_word (map (\<lambda>k. m (p + of_nat k)) [0..<4])"

definition entry_in :: "mem \<Rightarrow> u32 \<Rightarrow> memory_map_entry" where
  "entry_in m p = memory_map_entry.make (uint64_in m p) (uint64_in m (p + 8)) (uint32_in m (p + 16))"

definition is_last_memory_map_entry :: "memory_map_entry \<Rightarrow> bool" where
  "is_last_memory_map_entry e \<longleftrightarrow> map_length e = 0 \<and> map_length e = 0 \<and> map_length e = 0 \<and> map_length e = 0"

definition memory_types :: "string list" where
  "memory_types = [''Available'', ''Reserved'', ''ACPI Reclaim'', ''ACPI NVS Memory'']"

text \<open>The loop of \<^verbatim>\<open>display_memory_map\<close>; a type outside the array of names has no result.\<close>

partial_function (option) display_entries :: "machine \<Rightarrow> u32 \<Rightarrow> u32 \<Rightarrow> machine_state \<Rightarrow> machine_state option" where
  "display_entries mc p region_number st =
     (let e = entry_in (memory_of st) p
      in if is_last_memory_map_entry e then Some st
         else if length memory_types \<le> unat (map_type e - 1) then None
         else do {
           st \<leftarrow> print mc (''region %d: start - %u; length (bytes) - %u; type - %d (%s)'' @ newline)
                   [region_number, ucast (memory_map_entry.map_base e), ucast (map_length e), map_type e,
                    literal mc (memory_types ! unat (map_type e - 1))] st;
           display_entries mc (p + 24) (region_number + 1) st
         })"

definition display_memory_map :: "machine \<Rightarrow> u32 \<Rightarrow> machine_state \<Rightarrow> machine_state option" where
  "display_memory_map mc memory_map st = do {
     st \<leftarrow> display_entries mc memory_map 1 st;
     print mc newline [] st
   }"

subsection \<open>Processes\<close>

text \<open>The name is the member of \<^verbatim>\<open>Process\<close> at offset 48.\<close>

fun list_processes :: "nat \<Rightarrow> machine \<Rightarrow> u32 \<Rightarrow> machine_state \<Rightarrow> machine_state option" where
  "list_processes 0 mc process_item st = Some st"
| "list_processes (Suc n) mc process_item st = do {
     st \<leftarrow> print mc (''  process - %s'' @ newline) [process_item + 48] st;
     list_processes n mc (get_next (rings (tasks st)) process_item) st
   }"

definition show_process_list :: "machine \<Rightarrow> machine_state \<Rightarrow> machine_state option" where
  "show_process_list mc st =
     (let l = lists (rings (tasks st)) process_list
      in list_processes (unat (list_count l)) mc (list_first l) st)"

text \<open>The string at an address, as far as \<^verbatim>\<open>strncpy\<close> with 256 reads it.\<close>

definition name_in :: "mem \<Rightarrow> u32 \<Rightarrow> u8 list" where
  "name_in m p = takeWhile (\<lambda>c. c \<noteq> 0) (map (\<lambda>k. m (p + of_nat k)) [0..<255])"

definition on_tasks :: "(task_state \<Rightarrow> ('a \<times> task_state) option) \<Rightarrow> machine_state \<Rightarrow> ('a \<times> machine_state) option" where
  "on_tasks f st = map_option (\<lambda>(r, t). (r, st\<lparr>tasks := t\<rparr>)) (f (tasks st))"

text \<open>\<^verbatim>\<open>memcpy\<close> of \<open>n\<close> doublewords into the page at \<^verbatim>\<open>TEMP_PAGE\<close>.\<close>

definition copy_to_temp :: "nat \<Rightarrow> mem \<Rightarrow> u32 \<Rightarrow> task_state \<Rightarrow> task_state" where
  "copy_to_temp n m p t = fold (\<lambda>i. task_wr i (uint32_in m (p + of_nat (4 * i)))) [0..<n] t"

definition run_new_process :: "machine \<Rightarrow> u32 \<Rightarrow> u32 \<Rightarrow> machine_state \<Rightarrow> machine_state option" where
  "run_new_process mc n file_name st = do {
     st \<leftarrow> print mc (''%s starting...'' @ newline) [file_name] st;
     (file_data_sector_number, st) \<leftarrow> find_file mc n file_name st;
     let (dma_buffer, st) = alloc_dma_buffer st;
     (_, st) \<leftarrow> read_sector mc file_data_sector_number st;
     (proc_image_start, st) \<leftarrow> on_tasks (task_alloc_phys 1) st;
     let t = task_map proc_image_start (tasks st);
     let t = copy_to_temp (512 div 4) (memory_of st) dma_buffer t;
     t \<leftarrow> run_image proc_image_start (name_in (memory_of st) file_name) t;
     print mc (''%s have started.'' @ newline) [file_name] (st\<lparr>tasks := t\<rparr>)
   }"

subsection \<open>The main program\<close>

text \<open>
  What the boot loader leaves: the kernel's sections, the page directory, the interrupt stubs
  and the registers at the shell's \<^verbatim>\<open>int 0x30\<close>, of which EBX and EAX are set there.
\<close>

record boot_info =
  layout :: kernel_layout
  boot_cr3 :: u32
  irq_handlers :: "nat \<Rightarrow> u32"
  int_registers :: registers
  int_result :: u32

definition kernel_space_lines :: "machine \<Rightarrow> machine_state \<Rightarrow> machine_state option" where
  "kernel_space_lines mc st =
     (let v = vm (tasks st)
      in fold (\<lambda>i r. Option.bind r (\<lambda>st.
           let b = block_at (vm (tasks st)) Kernel_Space i;
               ty = (case vtype b of VMB_RESERVED \<Rightarrow> 0 | VMB_MEMORY \<Rightarrow> 1 | VMB_IO_MEMORY \<Rightarrow> 2)
           in print mc (''type = %d, base = 0x%x, length = 0x%x'' @ newline) [ty, vbase b, vlength b] st))
         [0..<unat (block_count (spaces v Kernel_Space))] (Some st))"

definition start_kernel :: "machine \<Rightarrow> boot_info \<Rightarrow> u8 \<Rightarrow> u32 \<Rightarrow> machine_state \<Rightarrow> machine_state option" where
  "start_kernel mc b boot_disk_id memory_map st = do {
     (memory_size, v) \<leftarrow> init_memory_manager (layout b) (boot_cr3 b)
        (\<lambda>k. entry_in (memory_of st) (memory_map + of_nat (24 * k))) (vm (tasks st));
     let st = st\<lparr>tasks := (tasks st)\<lparr>vm := v, kernel_page_dir := boot_cr3 b\<rparr>\<rparr>;
     k \<leftarrow> init_interrupts (irq_handlers b) (kernel_state.truncate st);
     let st = kernel_state.extend k (kernel_state.more st);
     t \<leftarrow> init_multitasking (tasks st);
     (v, tt) \<leftarrow> init_tty (vm t) (terminal st);
     let st = st\<lparr>tasks := t\<lparr>vm := v\<rparr>, terminal := tt\<rparr>;
     f \<leftarrow> init_floppy (board mc) (floppy.truncate st);
     let st = drive_acts mc f st;
     let st = st\<lparr>terminal := clear_screen (set_text_attr 63 (terminal st))\<rparr>;
     st \<leftarrow> print mc (''Welcome to C4 OS!'' @ newline @ newline) [] st;
     st \<leftarrow> print mc (''Boot disk id ------- %d'' @ newline) [ucast boot_disk_id] st;
     st \<leftarrow> print mc (''Memory map --------- 0x%x'' @ newline @ newline) [memory_map] st;
     st \<leftarrow> display_memory_map mc memory_map st;
     st \<leftarrow> print mc (''kernel_page_dir = 0x%x'' @ newline) [kernel_page_dir (tasks st)] st;
     st \<leftarrow> print mc (''memory_size = %d MB'' @ newline) [memory_size div 1024 div 1024] st;
     let (e, v) = phys_info (kernel_page_dir (tasks st)) 0xB8000 (vm (tasks st));
     st \<leftarrow> print mc (''get_page_info(kernel_page_dir, 0xB8000) = 0x%x'' @ newline @ newline) [e]
             (st\<lparr>tasks := (tasks st)\<lparr>vm := v\<rparr>\<rparr>);
     st \<leftarrow> kernel_space_lines mc st;
     print mc newline [] st
   }"

text \<open>One turn of the shell loop.\<close>

definition typed :: "machine \<Rightarrow> string \<Rightarrow> machine_state \<Rightarrow> bool option" where
  "typed mc word st = map_option (\<lambda>c. c = 0) (strcmp (memory_of st) (literal mc word) (line_buffer mc))"

definition shell_command :: "machine \<Rightarrow> boot_info \<Rightarrow> u32 \<Rightarrow> shell_state \<Rightarrow> shell_state option" where
  "shell_command mc b first s = do {
     t \<leftarrow> out_string (literal mc ''Command>'') (terminal (snd s));
     (sched, st) \<leftarrow> read_line (line_buffer mc) 256 (fst s, (snd s)\<lparr>terminal := t\<rparr>);
     c \<leftarrow> typed mc ''read'' st;
     if c then cmd_read_sect mc (sched, st)
     else map_option (Pair sched) (do {
       c \<leftarrow> typed mc ''ticks'' st;
       if c then cmd_get_ticks mc st
       else do {
         c \<leftarrow> typed mc ''ps'' st;
         if c then show_process_list mc st
         else do {
           c \<leftarrow> typed mc ''ls'' st;
           if c then show_files mc first st
           else do {
             (there, st) \<leftarrow> is_there_exe mc first (line_buffer mc) st;
             if there then run_new_process mc first (line_buffer mc) st
             else do {
               c \<leftarrow> typed mc ''test'' st;
               if c then do {
                 (_, k) \<leftarrow> irq_handler (board mc) (int_result b) 0 16
                   ((int_registers b)\<lparr>r_eax := 0, r_ebx := literal mc (''syscall test'' @ newline)\<rparr>)
                   (kernel_state.truncate st);
                 Some (kernel_state.extend k (kernel_state.more st))
               }
               else print mc (''You typed: %s'' @ newline) [line_buffer mc] st
             }
           }
         }
       }
     })
   }"

fun shell_commands :: "nat \<Rightarrow> machine \<Rightarrow> boot_info \<Rightarrow> u32 \<Rightarrow> shell_state \<Rightarrow> shell_state option" where
  "shell_commands 0 mc b first s = Some s"
| "shell_commands (Suc n) mc b first s =
     Option.bind (shell_command mc b first s) (shell_commands n mc b first)"

definition kernel_main ::
  "nat \<Rightarrow> machine \<Rightarrow> boot_info \<Rightarrow> u8 \<Rightarrow> u32 \<Rightarrow> u64 \<Rightarrow> shell_state \<Rightarrow> shell_state option" where
  "kernel_main n mc b boot_disk_id memory_map first_file_sector_number s = do {
     st \<leftarrow> start_kernel mc b boot_disk_id memory_map (snd s);
     shell_commands n mc b (ucast first_file_sector_number) (fst s, st)
   }"

section \<open>Printing\<close>

abbreviation chars :: "string \<Rightarrow> u8 list" where "chars s \<equiv> map of_char s"

text \<open>
  Memory that the shell's own work overwrites: the number buffer of \<^verbatim>\<open>printf\<close> and the DMA buffer.
  The literals \<open>L\<close> are strings elsewhere, and neither buffer is on the screen.
\<close>

definition busy :: "tty \<Rightarrow> u32 set" where
  "busy t = num_bytes t \<union> {x. \<not> off_buffer x}"

definition printable :: "machine \<Rightarrow> string set \<Rightarrow> tty \<Rightarrow> bool" where
  "printable mc L t \<longleftrightarrow> tty_ok t \<and> (\<forall>x \<in> busy t. off_screen t x) \<and> num_bytes t \<subseteq> Collect off_buffer \<and>
     (\<forall>s \<in> L. string_at (busy t) t (literal mc s) (chars s))"

lemma string_at_mono: "string_at B t a s \<Longrightarrow> A \<subseteq> B \<Longrightarrow> string_at A t a s"
  by (auto simp: string_at_def readable_def)

lemma wrote_same: "wrote B cs t t' \<Longrightarrow> num_bytes t' = num_bytes t \<and> busy t' = busy t \<and> off_screen t' = off_screen t"
  using same_ttyD(2) [of t t'] by (simp add: wrote_def same_tty_def num_bytes_def busy_def)

lemma printable_wrote: "printable mc L t \<Longrightarrow> wrote (busy t) cs t t' \<Longrightarrow> printable mc L t'"
  using wrote_same [of "busy t" cs t t'] string_at_wrote [of "busy t" cs t t']
  by (auto simp: printable_def) (simp add: wrote_def)

lemma renders_text: "37 \<notin> set f \<Longrightarrow> renders R g args out \<Longrightarrow> renders R (f @ g) args (f @ out)"
  by (induction f) (auto intro: renders.plain)

lemma renders_plain_text: "37 \<notin> set f \<Longrightarrow> renders R f args f"
  using renders_text [of f R "[]" args "[]"] renders.empty by simp

lemma renders_mono: "renders R f args out \<Longrightarrow> \<forall>a s. R a s \<longrightarrow> R' a s \<Longrightarrow> renders R' f args out"
  by (induction rule: renders.induct) (auto intro: renders.intros)

text \<open>From \<open>st\<close> to \<open>st'\<close> the text \<open>out\<close> was written on the terminal, and the driver may have worked.\<close>

definition displays :: "u8 list \<Rightarrow> machine_state \<Rightarrow> machine_state \<Rightarrow> bool" where
  "displays out st st' \<longleftrightarrow> wrote (busy (terminal st)) out (terminal st) (terminal st') \<and> tasks st' = tasks st \<and> keys st' = keys st"

lemma displays_trans: "displays a s t \<Longrightarrow> displays b t u \<Longrightarrow> displays (a @ b) s u"
  using wrote_same [of "busy (terminal s)" a "terminal s" "terminal t"] wrote_append by (auto simp: displays_def)

lemma displays_printable: "printable mc L (terminal st) \<Longrightarrow> displays out st st' \<Longrightarrow> printable mc L (terminal st')"
  using printable_wrote by (auto simp: displays_def)

text \<open>Printing leaves the driver alone.\<close>

definition same_driver :: "machine_state \<Rightarrow> machine_state \<Rightarrow> bool" where
  "same_driver st st' \<longleftrightarrow> (\<forall>n. ready n st' = ready n st) \<and> DMA_BUFFER st' = DMA_BUFFER st"

lemma same_driver_trans: "same_driver a b \<Longrightarrow> same_driver b c \<Longrightarrow> same_driver a c"
  by (simp add: same_driver_def)

lemma print_run:
  assumes p: "printable mc L (terminal st)" and l: "fmt \<in> L"
    and r: "renders (string_at (num_bytes (terminal st)) (terminal st)) (chars fmt) args out"
  shows "\<exists>st'. print mc fmt args st = Some st' \<and> displays out st st' \<and> same_driver st st' \<and>
    wrote (num_bytes (terminal st)) out (terminal st) (terminal st')"
proof -
  let ?t = "terminal st"
  have b: "num_bytes ?t \<subseteq> busy ?t" by (simp add: busy_def)
  have "string_at (num_bytes ?t) ?t (literal mc fmt) (chars fmt)"
    using p l by (intro string_at_mono [OF _ b]) (simp add: printable_def)
  moreover have "\<forall>x \<in> num_bytes ?t. off_screen ?t x" "tty_ok ?t" using p b by (auto simp: printable_def)
  ultimately obtain t where t: "printf (literal mc fmt) args ?t = Some t" "wrote (num_bytes ?t) out ?t t"
    using printf_run [OF r, of ?t "[]" "literal mc fmt"] by auto
  then show ?thesis using wrote_mono [OF t(2) b]
    by (auto simp: print_def displays_def same_driver_def ready_def)
qed

lemma print_text:
  assumes "printable mc L (terminal st)" and "fmt \<in> L" and "37 \<notin> set (chars fmt)"
  shows "\<exists>st'. print mc fmt args st = Some st' \<and> displays (chars fmt) st st' \<and> same_driver st st' \<and>
    wrote (num_bytes (terminal st)) (chars fmt) (terminal st) (terminal st')"
  using print_run [OF assms(1,2) renders_plain_text [OF assms(3)]] .

text \<open>A read into the buffer shows nothing.\<close>

lemma load_displays:
  assumes "printable mc L (terminal st)" and "loaded m st st'" and "kept (memory_of st) m"
  shows "displays [] st st'"
proof -
  let ?t = "terminal st"
  have "m x = tty_mem ?t x" if "x \<notin> busy ?t" for x using assms(3) that by (auto simp: kept_def busy_def)
  then have "wrote (busy ?t) [] ?t (?t\<lparr>tty_mem := m\<rparr>)"
    using assms(1) by (intro wrote_off_screen) (auto simp: printable_def)
  then show ?thesis using assms(2) by (simp add: displays_def loaded_def)
qed

section \<open>The list of files\<close>

lemma buffer_unchanged:
  assumes "printable mc L t" and "wrote (num_bytes t) out t t'" and "k < 512"
  shows "tty_mem t' (0x20000 + of_nat k) = tty_mem t (0x20000 + of_nat k)"
proof -
  have "\<not> off_buffer (0x20000 + of_nat k)"
    using assms(3) offset_of_nat [of k "0x20000 :: u32"] by (simp add: off_buffer_def)
  then have "0x20000 + of_nat k \<in> busy t" "0x20000 + of_nat k \<notin> num_bytes t"
    using assms(1) by (auto simp: busy_def printable_def)
  moreover from this(1) have "off_screen t (0x20000 + of_nat k)" using assms(1) by (simp add: printable_def)
  ultimately show ?thesis using assms(2) by (simp add: wrote_def)
qed

text \<open>One print of the listing: the header in the buffer stays.\<close>

lemma print_step:
  assumes p: "printable mc L (terminal st)" and l: "fmt \<in> L"
    and r: "renders (string_at (num_bytes (terminal st)) (terminal st)) (chars fmt) args out"
    and h: "header_at st 0x20000 = h"
  shows "\<exists>st'. print mc fmt args st = Some st' \<and> displays out st st' \<and> same_driver st st' \<and>
    header_at st' 0x20000 = h \<and> printable mc L (terminal st')"
proof -
  obtain st' where st': "print mc fmt args st = Some st'" "displays out st st'" "same_driver st st'"
    "wrote (num_bytes (terminal st)) out (terminal st) (terminal st')"
    using print_run [OF p l r] by blast
  have "header_at st' 0x20000 = header_at st 0x20000"
    unfolding file_header_in_def using buffer_unchanged [OF p st'(4)]
    by (intro arg_cong [where f = file_header_of] map_cong) auto
  then show ?thesis using st'(1-3) h displays_printable [OF p st'(2)] by blast
qed

text \<open>The lines of one file; the type of a directory is shown as \<open>file\<close>, as bit 1 of the flags is tested.\<close>

definition file_lines :: "listfs_file_header \<Rightarrow> u8 list" where
  "file_lines h = chars ''name: '' @ stored_name h @ [10] @
     (if fh_flags h AND 2 \<noteq> 0 then chars '' type: directory'' else chars '' type: file'' @ [10]) @
     (if fh_parent h = - 1 then chars '' directory: root'' @ [10] else chars '' directory: not root'' @ [10]) @
     chars '' size: '' @ num_str 10 (unat (ucast (fh_size h) :: u32)) @ chars '' bytes'' @ [10]"

fun listing :: "listfs_file_header list \<Rightarrow> u8 list" where
  "listing [] = []"
| "listing (h # hs) = file_lines h @ (if hs = [] then [] else [10] @ listing hs)"

definition listing_texts :: "string set" where
  "listing_texts = {''name: %s'' @ newline, '' type: directory'', '' type: file'' @ newline,
     '' directory: root'' @ newline, '' directory: not root'' @ newline, '' size: %d bytes'' @ newline, newline}"

lemma renders_name:
  "R a s \<Longrightarrow> renders R (chars (''name: %s'' @ newline)) [a] (chars ''name: '' @ s @ [10])"
proof -
  assume R: "R a s"
  have "chars (''name: %s'' @ newline) = chars ''name: '' @ 37 # 115 # [10]" by simp
  moreover have "37 \<notin> set (chars ''name: '')" by simp
  ultimately show ?thesis using R by (auto intro!: renders_text renders.str renders_plain_text simp del: list.map append_Cons)
qed

lemma renders_size:
  "renders R (chars ('' size: %d bytes'' @ newline)) [a] (chars '' size: '' @ num_str 10 (unat a) @ chars '' bytes'' @ [10])"
proof -
  have "chars ('' size: %d bytes'' @ newline) = chars '' size: '' @ 37 # 100 # (chars '' bytes'' @ [10])" by simp
  moreover have "37 \<notin> set (chars '' size: '')" "37 \<notin> set (chars '' bytes'' @ [10])" by simp_all
  moreover have "renders R (37 # 100 # (chars '' bytes'' @ [10])) [a]
      (num_str (unat (10 :: u8)) (unat a) @ chars '' bytes'' @ [10])"
    using calculation(3) by (intro renders.num renders_plain_text) (simp add: base_of_def)
  ultimately show ?thesis using renders_text [of "chars '' size: ''"] by (simp del: list.map)
qed

lemma lines_run:
  assumes p: "printable mc L (terminal st)" and l: "listing_texts \<subseteq> L" and h: "header_at st 0x20000 = h"
    and n: "string_at (num_bytes (terminal st)) (terminal st) 0x20000 (stored_name h)"
  shows "\<exists>a b c d. print mc (''name: %s'' @ newline) [0x20000] st = Some a \<and> header_at a 0x20000 = h \<and>
    (if fh_flags h AND 2 \<noteq> 0 then print mc '' type: directory'' [] a else print mc ('' type: file'' @ newline) [] a) = Some b \<and>
    header_at b 0x20000 = h \<and>
    (if fh_parent h = - 1 then print mc ('' directory: root'' @ newline) [] b
     else print mc ('' directory: not root'' @ newline) [] b) = Some c \<and> header_at c 0x20000 = h \<and>
    print mc ('' size: %d bytes'' @ newline) [ucast (fh_size h)] c = Some d \<and> header_at d 0x20000 = h \<and>
    displays (file_lines h) st d \<and> same_driver st d \<and> printable mc L (terminal d)"
proof -
  have L: "s \<in> L" if "s \<in> listing_texts" for s using l that by blast
  obtain a where a: "print mc (''name: %s'' @ newline) [0x20000] st = Some a" "header_at a 0x20000 = h"
    "displays (chars ''name: '' @ stored_name h @ [10]) st a" "same_driver st a" "printable mc L (terminal a)"
    using print_step [OF p L renders_name [of "string_at (num_bytes (terminal st)) (terminal st)", OF n] h]
    by (auto simp: listing_texts_def)
  define f where "f = (if fh_flags h AND 2 \<noteq> 0 then '' type: directory'' else '' type: file'' @ newline)"
  have f: "f \<in> L" "37 \<notin> set (chars f)" using L by (auto simp: f_def listing_texts_def)
  obtain b where b: "print mc f [] a = Some b" "header_at b 0x20000 = h" "displays (chars f) a b"
    "same_driver a b" "printable mc L (terminal b)"
    using print_step [OF a(5) f(1) renders_plain_text [OF f(2)] a(2)] by blast
  define g where "g = (if fh_parent h = - 1 then '' directory: root'' @ newline else '' directory: not root'' @ newline)"
  have g: "g \<in> L" "37 \<notin> set (chars g)" using L by (auto simp: g_def listing_texts_def)
  obtain c where c: "print mc g [] b = Some c" "header_at c 0x20000 = h" "displays (chars g) b c"
    "same_driver b c" "printable mc L (terminal c)"
    using print_step [OF b(5) g(1) renders_plain_text [OF g(2)] b(2)] by blast
  obtain d where d: "print mc ('' size: %d bytes'' @ newline) [ucast (fh_size h)] c = Some d" "header_at d 0x20000 = h"
    "displays (chars '' size: '' @ num_str 10 (unat (ucast (fh_size h) :: u32)) @ chars '' bytes'' @ [10]) c d"
    "same_driver c d" "printable mc L (terminal d)"
    using print_step [OF c(5) L renders_size [of _ "ucast (fh_size h)"] c(2)] by (auto simp: listing_texts_def)
  have "displays (file_lines h) st d"
    using displays_trans [OF displays_trans [OF displays_trans [OF a(3) b(3)] c(3)] d(3)]
    by (cases "fh_flags h AND 2 \<noteq> 0"; cases "fh_parent h = - 1") (simp_all add: file_lines_def f_def g_def)
  moreover have "same_driver st d" using a(4) b(4) c(4) d(4) same_driver_trans by blast
  moreover have "(if fh_flags h AND 2 \<noteq> 0 then print mc '' type: directory'' [] a
      else print mc ('' type: file'' @ newline) [] a) = Some b"
    using b(1) unfolding f_def by (cases "fh_flags h AND 2 \<noteq> 0") (simp_all only: if_True if_False simp_thms)
  moreover have "(if fh_parent h = - 1 then print mc ('' directory: root'' @ newline) [] b
      else print mc ('' directory: not root'' @ newline) [] b) = Some c"
    using c(1) unfolding g_def by (cases "fh_parent h = - 1") (simp_all only: if_True if_False simp_thms)
  ultimately show ?thesis using a(1,2) b(2) c(2) d(1,2,5) by blast
qed

lemma stored_name_in_buffer:
  assumes "printable mc L (terminal st)" and "memory_of st = load_sector img (unat i) 0x20000 m"
    and "file_header_at 512 img i = h" and "0 \<in> set (fh_name h)"
  shows "string_at (num_bytes (terminal st)) (terminal st) 0x20000 (stored_name h)"
proof -
  have "length (fh_name h) = 256" unfolding assms(3) [symmetric] by (simp add: file_header_at_def file_header_of_def)
  moreover have "length (stored_name h) \<le> length (fh_name h)" by (simp add: stored_name_def length_takeWhile_le)
  ultimately have l: "length (stored_name h) \<le> 256" by simp
  have "readable (num_bytes (terminal st)) (terminal st) (0x20000 + of_nat k)" if "k \<le> length (stored_name h)" for k
  proof -
    have "\<not> off_buffer (0x20000 + of_nat k)"
      using that l offset_of_nat [of k "0x20000 :: u32"] by (simp add: off_buffer_def)
    then show ?thesis using assms(1) by (auto simp: readable_def printable_def busy_def)
  qed
  then show ?thesis using name_loaded [OF assms(3,4)] by (simp add: string_at_def assms(2))
qed

lemma show_files_run:
  assumes hw: "responsive (board mc)" "follows (board mc)" and lim: "lim \<le> 2880" and l: "listing_texts \<subseteq> L"
  shows "headers_at lim (diskette mc) i hs \<Longrightarrow> hs \<noteq> [] \<Longrightarrow> \<forall>h \<in> set hs. 0 \<in> set (fh_name h) \<Longrightarrow>
    printable mc L (terminal st) \<Longrightarrow> ready (length hs) st \<Longrightarrow>
    \<exists>st'. show_files mc (ucast i) st = Some st' \<and> displays (listing hs) st st'"
proof (induction hs arbitrary: i st)
  case Nil
  then show ?case by simp
next
  case (Cons h hs)
  have h: "unat i < 2880" "file_header_at 512 (diskette mc) i = h" "headers_at lim (diskette mc) (fh_next h) hs"
    and nul: "0 \<in> set (fh_name h)" "\<forall>h \<in> set hs. 0 \<in> set (fh_name h)" and r: "ready (Suc (length hs)) st"
    using Cons.prems lim by auto
  let ?m = "load_sector (diskette mc) (unat i) 0x20000 (memory_of st)"
  obtain t where t: "get_file_info_by mc (ucast i) st = Some (0x20000, t)" "ready (length hs) t" "loaded ?m st t"
    using get_file_info_run [OF hw r h(1)] by (auto simp: read_into_def)
  have dt: "displays [] st t" using load_displays [OF Cons.prems(4) t(3) kept_load] .
  have m: "memory_of t = ?m" using t(3) by (simp add: loaded_def)
  have hd: "header_at t 0x20000 = h" unfolding m header_loaded h(2) ..
  have p: "printable mc L (terminal t)" using displays_printable [OF Cons.prems(4) dt] .
  obtain a b c d where
    a: "print mc (''name: %s'' @ newline) [0x20000] t = Some a" "header_at a 0x20000 = h" and
    b: "(if fh_flags h AND 2 \<noteq> 0 then print mc '' type: directory'' [] a else print mc ('' type: file'' @ newline) [] a) = Some b"
      "header_at b 0x20000 = h" and
    c: "(if fh_parent h = - 1 then print mc ('' directory: root'' @ newline) [] b
     else print mc ('' directory: not root'' @ newline) [] b) = Some c" "header_at c 0x20000 = h" and
    d: "print mc ('' size: %d bytes'' @ newline) [ucast (fh_size h)] c = Some d" "header_at d 0x20000 = h"
      "displays (file_lines h) t d" "same_driver t d" "printable mc L (terminal d)"
    using lines_run [OF p l hd stored_name_in_buffer [OF p m h(2) nul(1)]] by blast
  have e: "show_files mc (ucast i) st = (if fh_next h \<noteq> - 1
      then Option.bind (print mc newline [] d) (\<lambda>st. show_files mc (ucast (fh_next (header_at st 0x20000))) st) else Some d)"
    using t(1) a b c d by (subst show_files.simps) (simp add: hd)
  have d2: "displays (file_lines h) st d" using displays_trans [OF dt d(3)] by simp
  show ?case
  proof (cases hs)
    case Nil
    then show ?thesis using d2 h(3) e by simp
  next
    case (Cons h' hs')
    then have nx: "fh_next h \<noteq> - 1" using h(3) by simp
    have "newline \<in> L" "37 \<notin> set (chars newline)" using l by (auto simp: listing_texts_def)
    then obtain u where u: "print mc newline [] d = Some u" "header_at u 0x20000 = h" "displays (chars newline) d u"
      "same_driver d u" "printable mc L (terminal u)"
      using print_step [OF d(5) _ renders_plain_text d(2)] by blast
    have "ready (length hs) u" using t(2) d(4) u(4) by (simp add: same_driver_def)
    then obtain v where v: "show_files mc (ucast (fh_next h)) u = Some v" "displays (listing hs) u v"
      using Cons.IH [OF h(3) _ nul(2) u(5)] Cons by auto
    have "displays (listing (h # hs)) st v"
      using displays_trans [OF displays_trans [OF d2 u(3)] v(2)] Cons by simp
    then show ?thesis using e nx u(1,2) v(1) by simp
  qed
qed

text \<open>C35: \<^verbatim>\<open>ls\<close>: for a diskette with a chain of file headers \<^verbatim>\<open>show_files\<close> shows, header by header,
  the name, the type, whether the parent is the root, and the size modulo \<open>2 ^ 32\<close> in decimal.
  Every entry whose flags have bit 1 clear is shown as a file, so are the directories that
  \<^verbatim>\<open>make_listfs\<close> marks with flags 1.  Tasks and keyboard stay, and of memory only the screen, the buffer
  of \<^verbatim>\<open>printf\<close>'s numbers and the DMA buffer are written.\<close>

theorem show_files_lists:
  assumes "responsive (board mc)" and "follows (board mc)"
    and "headers_at 2880 (diskette mc) i hs" and "hs \<noteq> []" and "\<forall>h \<in> set hs. 0 \<in> set (fh_name h)"
    and "printable mc listing_texts (terminal st)" and "ready (length hs) st"
  shows "\<exists>st'. show_files mc (ucast i) st = Some st' \<and>
    screen_of (terminal st') =
      fold (term_put (W (terminal st)) (H (terminal st)) (text_attr (terminal st))) (listing hs) (screen_of (terminal st)) \<and>
    same_tty (terminal st) (terminal st') \<and> text_attr (terminal st') = text_attr (terminal st) \<and>
    tasks st' = tasks st \<and> keys st' = keys st \<and>
    (\<forall>x. off_screen (terminal st) x \<and> x \<notin> num_bytes (terminal st) \<and> off_buffer x \<longrightarrow> memory_of st' x = memory_of st x)"
  using show_files_run [OF assms(1,2) le_refl subset_refl assms(3-7)] by (auto simp: displays_def wrote_def busy_def)

section \<open>The list of processes\<close>

definition process_lines :: "(u32 \<Rightarrow> u8 list) \<Rightarrow> u32 list \<Rightarrow> u8 list" where
  "process_lines nm ps = concat (map (\<lambda>p. chars ''  process - '' @ nm p @ [10]) ps)"

lemma renders_process:
  "R a s \<Longrightarrow> renders R (chars (''  process - %s'' @ newline)) [a] (chars ''  process - '' @ s @ [10])"
proof -
  assume R: "R a s"
  have "chars (''  process - %s'' @ newline) = chars ''  process - '' @ 37 # 115 # [10]" by simp
  moreover have "37 \<notin> set (chars ''  process - '')" by simp
  ultimately show ?thesis using R by (auto intro!: renders_text renders.str renders_plain_text simp del: list.map append_Cons)
qed

lemma list_processes_run:
  assumes "linked (get_next (rings (tasks st))) ps e" and "printable mc L (terminal st)"
    and "''  process - %s'' @ newline \<in> L" and "\<forall>p \<in> set ps. string_at (busy (terminal st)) (terminal st) (p + 48) (nm p)"
    and "ps \<noteq> []"
  shows "\<exists>st'. list_processes (length ps) mc (hd ps) st = Some st' \<and> displays (process_lines nm ps) st st'"
  using assms
proof (induction ps arbitrary: st)
  case Nil
  then show ?case by simp
next
  case (Cons p ps)
  let ?t = "terminal st"
  have "num_bytes ?t \<subseteq> busy ?t" by (simp add: busy_def)
  then have "string_at (num_bytes ?t) ?t (p + 48) (nm p)"
    using string_at_mono [of "busy ?t" ?t "p + 48" "nm p"] Cons.prems(4) by simp
  from print_run [OF Cons.prems(2,3) renders_process [of "string_at (num_bytes ?t) ?t", OF this]] obtain u where
    u: "print mc (''  process - %s'' @ newline) [p + 48] st = Some u"
      "displays (chars ''  process - '' @ nm p @ [10]) st u"
    by blast
  have t: "tasks u = tasks st" and w: "wrote (busy ?t) (chars ''  process - '' @ nm p @ [10]) ?t (terminal u)"
    using u(2) by (simp_all add: displays_def)
  have pl: "process_lines nm (p # ps) = (chars ''  process - '' @ nm p @ [10]) @ process_lines nm ps"
    by (simp add: process_lines_def)
  show ?case
  proof (cases ps)
    case Nil
    then show ?thesis using u unfolding pl by (simp add: process_lines_def)
  next
    case (Cons q qs)
    have nx: "get_next (rings (tasks st)) p = hd ps" "linked (get_next (rings (tasks st))) ps e"
      using Cons.prems(1) Cons by (simp_all add: linked_Cons)
    have "\<forall>p \<in> set ps. string_at (busy (terminal u)) (terminal u) (p + 48) (nm p)"
      using Cons.prems(4) string_at_wrote [OF w] wrote_same [OF w] by simp
    then obtain v where v: "list_processes (length ps) mc (hd ps) u = Some v" "displays (process_lines nm ps) u v"
      using Cons.IH [of u] nx(2) t displays_printable [OF Cons.prems(2) u(2)] Cons.prems(3) Cons by auto
    have "displays (process_lines nm (p # ps)) st v" unfolding pl by (rule displays_trans [OF u(2) v(2)])
    then show ?thesis using u(1) v(1) t nx(1) by simp
  qed
qed

text \<open>\<^verbatim>\<open>ps\<close>: \<^verbatim>\<open>show_process_list\<close> shows one line for each process in the process list, in the order
  of the list, with the name in the process object.\<close>

theorem show_process_list_lists:
  assumes "list_holds (rings (tasks st)) process_list ps" and "length ps < 2 ^ 31"
    and "printable mc {''  process - %s'' @ newline} (terminal st)"
    and "\<forall>p \<in> set ps. string_at (busy (terminal st)) (terminal st) (p + 48) (nm p)"
  shows "\<exists>st'. show_process_list mc st = Some st' \<and>
    screen_of (terminal st') =
      fold (term_put (W (terminal st)) (H (terminal st)) (text_attr (terminal st)))
        (concat (map (\<lambda>p. chars ''  process - '' @ nm p @ [10]) ps)) (screen_of (terminal st))"
proof (cases "ps = []")
  case True
  then show ?thesis using assms(1) by (simp add: show_process_list_def list_holds_def Let_def)
next
  case False
  have n: "unat (list_count (lists (rings (tasks st)) process_list)) = length ps"
    and f: "list_first (lists (rings (tasks st)) process_list) = hd ps"
  proof -
    have "list_count (lists (rings (tasks st)) process_list) = of_nat (length ps)"
      using assms(1) by (simp add: list_holds_def)
    moreover have "unat (of_nat (length ps) :: u32) = length ps" using assms(2) by (intro unat_of_nat32) simp
    ultimately show "unat (list_count (lists (rings (tasks st)) process_list)) = length ps" by (simp only:)
    show "list_first (lists (rings (tasks st)) process_list) = hd ps" using assms(1) False by (simp add: list_holds_def)
  qed
  have "linked (get_next (rings (tasks st))) ps (hd ps)" using assms(1) by (simp add: list_holds_def ring_def)
  then obtain st' where "list_processes (length ps) mc (hd ps) st = Some st'" "displays (process_lines nm ps) st st'"
    using list_processes_run [OF _ assms(3) insertI1 assms(4) False] by blast
  then show ?thesis unfolding process_lines_def displays_def wrote_def show_process_list_def Let_def n f by blast
qed

section \<open>Starting a program\<close>

lemma copy_to_temp_result:
  "temp_pte (ph (copy_to_temp n m p t)) = temp_pte (ph t) \<and>
   ram (ph (copy_to_temp n m p t)) = (ram (ph t))(page_of (temp_pte (ph t)) :=
     (\<lambda>k. if k < n then uint32_in m (p + of_nat (4 * k)) else ram (ph t) (page_of (temp_pte (ph t))) k))"
proof (induction n)
  case 0
  then show ?case by (simp add: copy_to_temp_def fun_upd_idem)
next
  case (Suc n)
  have "copy_to_temp (Suc n) m p t = task_wr n (uint32_in m (p + of_nat (4 * n))) (copy_to_temp n m p t)"
    by (simp add: copy_to_temp_def)
  then show ?case using Suc by (auto simp: fun_eq_iff less_Suc_eq)
qed

lemma word_loaded:
  assumes "k < 128"
  shows "uint32_in (load_sector img n a m) (a + of_nat (4 * k)) = le_word (take 4 (drop (4 * k) (block 512 img n)))"
  using sector_bytes [of "4 * k" 4 img n a m] assms by (simp add: uint32_in_def)

lemma name_read:
  assumes "cstr m a s" and "length s < 255"
  shows "name_in m a = s"
proof -
  have c: "\<forall>i < length s. m (a + of_nat i) = s ! i" "m (a + of_nat (length s)) = 0" "0 \<notin> set s"
    using assms(1) by (simp_all add: cstr_nth)
  have "map (\<lambda>k. m (a + of_nat k)) [0..<255] = map (\<lambda>k. m (a + of_nat k)) [0..<length s] @
      map (\<lambda>k. m (a + of_nat k)) [length s..<255]"
    using assms(2) upt_add_eq_append [of 0 "length s" "255 - length s"] by (simp flip: map_append)
  also have "map (\<lambda>k. m (a + of_nat k)) [0..<length s] = s" using c(1) by (intro nth_equalityI) simp_all
  also have "[length s..<255] = length s # [Suc (length s)..<255]" using assms(2) by (simp add: upt_conv_Cons)
  finally have "map (\<lambda>k. m (a + of_nat k)) [0..<255] = s @ 0 # map (\<lambda>k. m (a + of_nat k)) [Suc (length s)..<255]"
    using c(2) by simp
  then show ?thesis using c(3) by (simp add: name_in_def takeWhile_append2) (subst takeWhile_append2, auto)
qed

lemma renders_named:
  "37 \<notin> set (chars f) \<Longrightarrow> R a s \<Longrightarrow> renders R (chars (''%s'' @ f)) [a] (s @ chars f)"
  by (auto intro!: renders.str renders_plain_text)

lemma string_safe: "string_at (busy t) t a s \<Longrightarrow> safe_string (tty_mem t) a s"
  by (auto simp: string_at_def safe_string_def readable_def busy_def)

text \<open>The work of \<^verbatim>\<open>run_new_process\<close> up to \<^verbatim>\<open>run_image\<close>, when \<open>start\<close> is the frame it gets.\<close>

lemma run_new_process_run:
  assumes hw: "responsive (board mc)" "follows (board mc)"
    and hs: "headers_at 2880 (diskette mc) i hs" "hs \<noteq> []" "\<forall>h \<in> set hs. 0 \<in> set (fh_name h)"
    and d: "data_listed (diskette mc) s hs" "unat (data_sector (diskette mc) s hs) < 2880"
    and p: "printable mc L (terminal st)" "''%s starting...'' @ newline \<in> L"
    and s: "string_at (busy (terminal st)) (terminal st) a s" "length s < 255"
    and r: "ready (length hs + 2) st" and al: "task_alloc_phys 1 (tasks st) = Some (start, t0)"
  shows "\<exists>st' m. displays (s @ chars '' starting...'' @ [10]) st st' \<and>
    memory_of st' = load_sector (diskette mc) (unat (data_sector (diskette mc) s hs)) 0x20000 m \<and>
    run_new_process mc (ucast i) a st = Option.bind (run_image start s (copy_to_temp 128 (memory_of st') 0x20000 (task_map start t0)))
      (\<lambda>t'. print mc (''%s have started.'' @ newline) [a] (st'\<lparr>tasks := t'\<rparr>))"
proof -
  let ?d = "data_sector (diskette mc) s hs" and ?t = "terminal st"
  have nb: "num_bytes ?t \<subseteq> busy ?t" by (simp add: busy_def)
  let ?f = "'' starting...'' @ newline"
  have "37 \<notin> set (chars ?f)" by simp
  moreover have "string_at (num_bytes ?t) ?t a s" by (rule string_at_mono [OF s(1) nb])
  ultimately have "renders (string_at (num_bytes ?t) ?t) (chars (''%s'' @ ?f)) [a] (s @ chars ?f)"
    by (rule renders_named)
  from print_run [OF p, of "[a]" "s @ chars ?f"] this
  obtain st1 where st1: "print mc (''%s starting...'' @ newline) [a] st = Some st1"
    "displays (s @ chars ?f) st st1" "same_driver st st1"
    unfolding append_Cons append_Nil by blast
  have w: "wrote (busy ?t) (s @ chars ?f) ?t (terminal st1)" using st1(2) by (simp add: displays_def)
  have p1: "printable mc L (terminal st1)" by (rule displays_printable [OF p(1) st1(2)])
  have ss: "safe_string (memory_of st1) a s"
    using string_safe [of "terminal st1" a s] string_at_wrote [OF w s(1)] wrote_same [OF w] by simp
  have r1: "ready (length hs + Suc 1) st1" using r st1(3) by (simp add: same_driver_def)
  obtain st2 m2 where st2: "find_file mc (ucast i) a st1 = Some (?d, st2)" "ready 1 st2" "loaded m2 st1 st2"
    "kept (memory_of st1) m2"
    using find_file_run [OF hw le_refl hs d(1) ss r1] by auto
  have d2: "displays [] st1 st2" by (rule load_displays [OF p1 st2(3,4)])
  define st3 where "st3 = on_floppy (flpydsk_set_dma 0x20000) st2"
  have st3: "DMA_BUFFER st3 = 0x20000" "ready (Suc 0) st3" "terminal st3 = terminal st2" "tasks st3 = tasks st2" "keys st3 = keys st2"
    using st2(2) by (simp_all add: st3_def flpydsk_set_dma_def)
  have p3: "printable mc L (terminal st3)" using displays_printable [OF p1 d2] st3(3) by simp
  then have d3: "displays [] st2 st3" using st3 by (simp add: displays_def printable_def)
  obtain st4 where st4: "read_sector mc ?d st3 = Some (0x20000, st4)"
    "loaded (load_sector (diskette mc) (unat ?d) 0x20000 (memory_of st3)) st3 st4"
    using read_run [OF hw st3(2), of ?d] st3(1) d(2) by auto
  have m4: "memory_of st4 = load_sector (diskette mc) (unat ?d) 0x20000 (memory_of st3)" using st4(2) by (simp add: loaded_def)
  have "displays [] st3 st4" by (rule load_displays [OF p3 st4(2) kept_load])
  then have d4: "displays (s @ chars ?f) st st4"
    using displays_trans [OF st1(2) displays_trans [OF d2 displays_trans [OF d3]]] by simp
  have "memory_of st3 = m2" using st2(3) st3(3) by (simp add: loaded_def)
  then have "safe_string (memory_of st4) a s" unfolding m4
    using ss st2(4) kept_load safe_string_kept by blast
  then have nm: "name_in (memory_of st4) a = s" using s(2) by (intro name_read) (simp_all add: safe_string_def)
  have "tasks st4 = tasks st" using d4 by (simp add: displays_def)
  then have "run_new_process mc (ucast i) a st = Option.bind (run_image start s (copy_to_temp 128 (memory_of st4) 0x20000 (task_map start t0)))
      (\<lambda>t'. print mc (''%s have started.'' @ newline) [a] ((st4\<lparr>tasks := t0\<rparr>)\<lparr>tasks := t'\<rparr>))"
    using st1(1) st2(1) st4(1) al by (simp add: run_new_process_def alloc_dma_buffer_def st3_def on_tasks_def nm)
  then show ?thesis using d4 m4 by (intro exI [of _ st4] exI [of _ "memory_of st3"]) simp
qed

text \<open>The words of the data sector in the program's frame.\<close>

lemma program_words:
  assumes "memory_of st = load_sector img n 0x20000 m" and "page_of start = start" and "k < 128"
  shows "ram (ph (copy_to_temp 128 (memory_of st) 0x20000 (task_map start t0))) start k = le_word (take 4 (drop (4 * k) (block 512 img n)))"
  using assms(2,3) copy_to_temp_result [of 128 "memory_of st" "0x20000" "task_map start t0"] word_loaded [OF assms(3), of img n "0x20000" m]
  by (simp add: assms(1))

section \<open>A concrete machine\<close>

text \<open>Literals in slots of 32 bytes from \<open>0x4000\<close> on.\<close>

definition slot_memory :: "string list \<Rightarrow> mem" where
  "slot_memory texts = (\<lambda>x. let k = unat (x - 0x4000); n = k div 32
     in if n < length texts \<and> k mod 32 < length (texts ! n) then of_char (texts ! n ! (k mod 32)) else 0)"

definition slot_of :: "string list \<Rightarrow> string \<Rightarrow> u32" where
  "slot_of texts s = 0x4000 + of_nat (32 * length (takeWhile (\<lambda>t. t \<noteq> s) texts))"

definition demo_terminal :: "string list \<Rightarrow> tty" where
  "demo_terminal texts = (demo_tty [])\<lparr>tty_mem := slot_memory texts\<rparr>"

lemma demo_terminal_simps [simp]:
  "tty_width (demo_terminal texts) = 80" "tty_height (demo_terminal texts) = 25" "cursor (demo_terminal texts) = 0"
  "tty_buffer (demo_terminal texts) = 0xB8000" "num_buffer (demo_terminal texts) = 0x5000"
  "text_attr (demo_terminal texts) = 7" "tty_mem (demo_terminal texts) = slot_memory texts"
  by (simp_all add: demo_terminal_def demo_tty_simps)

lemma below:
  assumes "unat (a :: u32) < unat c"
  shows "unat (a - c) = 2 ^ 32 + unat a - unat c"
  using assms by (simp add: unat_sub_if')

lemma above:
  assumes "unat (c :: u32) + unat (x - c) < 2 ^ 32"
  shows "unat x = unat c + unat (x - c)"
proof -
  have "x = of_nat (unat c + unat (x - c))" by (simp only: of_nat_add word_of_unat) simp
  then show ?thesis using unat_of_nat32 [OF assms] by (simp only:)
qed

lemma slot_readable:
  assumes "j < 0x1000"
  shows "readable (busy (demo_terminal texts)) (demo_terminal texts) (0x4000 + of_nat j)"
proof -
  let ?a = "0x4000 + of_nat j :: u32"
  have "?a = of_nat (0x4000 + j)" by simp
  moreover have "unat (of_nat (0x4000 + j) :: u32) = 0x4000 + j" using assms by (intro unat_of_nat32) simp
  ultimately have a: "unat ?a = 0x4000 + j" by (simp only:)
  have "unat (?a - 0x5000) = 2 ^ 32 + unat ?a - unat (0x5000 :: u32)" using assms by (intro below) (simp add: a)
  moreover have "unat (?a - 0x20000) = 2 ^ 32 + unat ?a - unat (0x20000 :: u32)" using assms by (intro below) (simp add: a)
  moreover have "unat (?a - 0xB8000) = 2 ^ 32 + unat ?a - unat (0xB8000 :: u32)" using assms by (intro below) (simp add: a)
  ultimately show ?thesis
    by (simp add: readable_def busy_def num_bytes_def off_buffer_def off_screen_def a)
qed

lemma slot_index:
  assumes "s \<in> set texts"
  shows "length (takeWhile (\<lambda>t. t \<noteq> s) texts) < length texts \<and> texts ! length (takeWhile (\<lambda>t. t \<noteq> s) texts) = s"
proof -
  have "length (takeWhile (\<lambda>t. t \<noteq> s) texts) < length texts"
    using assms by (induction texts) auto
  then show ?thesis using nth_length_takeWhile [of "\<lambda>t. t \<noteq> s" texts] by simp
qed

lemma slot_string:
  assumes s: "s \<in> set texts" "length s < 32" "0 \<notin> set (chars s)" and l: "length texts \<le> 64"
  shows "string_at (busy (demo_terminal texts)) (demo_terminal texts) (slot_of texts s) (chars s)"
proof -
  define n where "n = length (takeWhile (\<lambda>t. t \<noteq> s) texts)"
  have n: "n < length texts" "texts ! n = s" using slot_index [OF s(1)] by (simp_all add: n_def)
  have e: "slot_of texts s + of_nat k = 0x4000 + of_nat (32 * n + k)" for k
    by (simp add: slot_of_def n_def)
  have j: "32 * n + k < 0x1000" if "k < 32" for k using n(1) l that by simp
  have m: "slot_memory texts (slot_of texts s + of_nat k) = (if k < length s then of_char (s ! k) else 0)" if "k < 32" for k
  proof -
    have "unat (0x4000 + of_nat (32 * n + k) - 0x4000 :: u32) = 32 * n + k"
      by (rule offset_of_nat) (rule less_trans [OF j [OF that]], simp)
    moreover have "(32 * n + k) div 32 = n" "(32 * n + k) mod 32 = k" using that by simp_all
    ultimately show ?thesis unfolding e slot_memory_def Let_def using n by (simp only: simp_thms)
  qed
  have "cstr (slot_memory texts) (slot_of texts s) (chars s)"
    unfolding cstr_nth using m s(2,3) by simp
  moreover have "readable (busy (demo_terminal texts)) (demo_terminal texts) (slot_of texts s + of_nat k)"
    if "k \<le> length s" for k
    unfolding e using that s(2) by (intro slot_readable j) simp
  ultimately show ?thesis by (simp add: string_at_def)
qed

definition demo_shell :: "string list \<Rightarrow> machine_state" where
  "demo_shell texts = (demo_state [])\<lparr>terminal := demo_terminal texts\<rparr>"

definition demo_literals :: "string list \<Rightarrow> machine" where
  "demo_literals texts = demo_machine\<lparr>literal := slot_of texts\<rparr>"

lemma demo_shell_terminal [simp]: "terminal (demo_shell texts) = demo_terminal texts"
  by (simp add: demo_shell_def)

lemma demo_shell_ready: "n \<le> 1000 \<Longrightarrow> ready n (demo_shell texts)"
  by (simp add: demo_shell_def ready_def)

lemma demo_printable:
  assumes "\<forall>s \<in> set texts. length s < 32 \<and> 0 \<notin> set (chars s)" and "length texts \<le> 64"
  shows "printable (demo_literals texts) (set texts) (demo_terminal texts)"
proof -
  have n: "num_bytes (demo_terminal texts) = {x. unat (x - 0x5000) < 65}" by (simp add: num_bytes_def)
  have off: "off_buffer x \<and> off_screen (demo_terminal texts) x" if "unat (x - 0x5000) < 65" for x :: u32
  proof -
    have a: "unat x = 0x5000 + unat (x - 0x5000)" using above [of "0x5000" x] that by simp
    have "unat (x - 0x20000) = 2 ^ 32 + unat x - unat (0x20000 :: u32)" "unat (x - 0xB8000) = 2 ^ 32 + unat x - unat (0xB8000 :: u32)"
      using that a by (intro below, simp)+
    then show ?thesis using that a by (simp add: off_buffer_def off_screen_def)
  qed
  have scr: "off_screen (demo_terminal texts) x" if "\<not> off_buffer x" for x
  proof -
    have u: "unat (x - 0x20000) < 512" using that by (simp add: off_buffer_def)
    have a: "unat x = 0x20000 + unat (x - 0x20000)" using above [of "0x20000" x] u by simp
    have "unat (x - 0xB8000) = 2 ^ 32 + unat x - unat (0xB8000 :: u32)" using u a by (intro below) simp
    then show ?thesis using u a by (simp add: off_screen_def)
  qed
  have "tty_ok (demo_terminal texts)" by (simp add: tty_ok_def dims_ok_def)
  moreover have "string_at (busy (demo_terminal texts)) (demo_terminal texts) (slot_of texts s) (chars s)"
    if "s \<in> set texts" for s using assms that by (intro slot_string) auto
  moreover have "\<forall>x \<in> busy (demo_terminal texts). off_screen (demo_terminal texts) x"
    using off scr by (auto simp: busy_def n)
  moreover have "num_bytes (demo_terminal texts) \<subseteq> Collect off_buffer" using off by (auto simp: n)
  ultimately show ?thesis by (simp add: printable_def demo_literals_def)
qed

lemma demo_literals_ok: "responsive (board (demo_literals texts))" "follows (board (demo_literals texts))"
    "diskette (demo_literals texts) = demo_diskette" "literal (demo_literals texts) = slot_of texts"
  using demo_board_ok by (simp_all add: demo_literals_def demo_machine_def)

definition listing_list :: "string list" where
  "listing_list = [''name: %s'' @ newline, '' type: directory'', '' type: file'' @ newline,
     '' directory: root'' @ newline, '' directory: not root'' @ newline, '' size: %d bytes'' @ newline, newline]"

theorem show_files_lists_witness:
  "\<exists>st'. show_files (demo_literals listing_list) 2 (demo_shell listing_list) = Some st' \<and>
     screen_of (terminal st') = fold (term_put 80 25 7) (chars ''name: a'' @ [10] @ chars '' type: file'' @ [10] @
       chars '' directory: root'' @ [10] @ chars '' size: 2 bytes'' @ [10]) (screen_of (demo_terminal listing_list))"
proof -
  have p: "printable (demo_literals listing_list) listing_texts (terminal (demo_shell listing_list))"
    using demo_printable [of listing_list] by (simp add: listing_list_def listing_texts_def)
  have n: "num_str 10 2 = [50]" by (simp add: num_str.simps [of 10] digits_def)
  have nm: "stored_name demo_header = [97]" by (simp add: stored_name_def demo_header_def)
  have l: "listing [demo_header] = chars ''name: a'' @ [10] @ chars '' type: file'' @ [10] @
       chars '' directory: root'' @ [10] @ chars '' size: 2 bytes'' @ [10]"
    using n nm by (simp add: file_lines_def) (simp add: demo_header_def)
  have "0 \<in> set (fh_name demo_header)" by (simp add: demo_header_def)
  then obtain st' where "show_files (demo_literals listing_list) (ucast (2 :: u64)) (demo_shell listing_list) = Some st'"
    "screen_of (terminal st') = fold (term_put 80 25 7) (listing [demo_header]) (screen_of (demo_terminal listing_list))"
    using show_files_lists [of "demo_literals listing_list" 2 "[demo_header]" "demo_shell listing_list"] p
      demo_literals_ok [of listing_list] demo_headers demo_shell_ready [of 1] by auto
  then show ?thesis unfolding l by simp
qed

definition process_texts :: "string list" where
  "process_texts = [''  process - %s'' @ newline, ''kernel'']"

definition demo_processes :: machine_state where
  "demo_processes = (demo_shell process_texts)\<lparr>tasks := (demo_task {})\<lparr>rings :=
     \<lparr>items = (\<lambda>_. \<lparr>item_next = 0x3FF0, item_prev = 0x3FF0, item_list = process_list\<rparr>),
      lists = (\<lambda>_. \<lparr>list_first = 0x3FF0, list_count = 1, list_mutex = False\<rparr>)\<rparr>\<rparr>\<rparr>"

lemma demo_string:
  assumes "s \<in> set texts" "length s < 32" "0 \<notin> set (chars s)" "length texts \<le> 64"
    and "b = busy (demo_terminal texts)" and "cs = chars s" and "a = slot_of texts s"
  shows "string_at b (demo_terminal texts) a cs"
  using slot_string [OF assms(1-4)] assms(5-7) by simp

theorem show_process_list_lists_witness:
  "\<exists>st'. show_process_list (demo_literals process_texts) demo_processes = Some st' \<and>
     screen_of (terminal st') =
       fold (term_put 80 25 7) (chars ''  process - kernel'' @ [10]) (screen_of (demo_terminal process_texts))"
proof -
  have h: "list_holds (rings (tasks demo_processes)) process_list [0x3FF0]"
    by (simp add: demo_processes_def list_holds_def get_next_def get_prev_def)
  have t: "terminal demo_processes = demo_terminal process_texts" by (simp add: demo_processes_def)
  have p: "printable (demo_literals process_texts) {''  process - %s'' @ newline} (terminal demo_processes)"
    using demo_printable [of process_texts] by (simp add: process_texts_def t printable_def)
  have s: "string_at (busy (terminal demo_processes)) (terminal demo_processes) (0x3FF0 + 48) (chars ''kernel'')"
    unfolding t by (rule demo_string [of "''kernel''"]) (simp_all add: process_texts_def slot_of_def)
  show ?thesis
    using show_process_list_lists [OF h _ p, of "\<lambda>_. chars ''kernel''"] s by (auto simp: t)
qed

end
