(* ===== verification/Shell_Loop.thy ===== *)
theory Shell_Loop
  imports Shell
begin

text \<open>
  One turn of the shell: the line that is typed decides which command runs.  The components meet
  here: the keyboard's buffer, the terminal, the string routines, the file system on the
  diskette, the process list and the system call.
\<close>

section \<open>Reading a command\<close>

text \<open>The scan codes that arrive type the line \<open>w\<close>, as edited, into a buffer with \<open>room\<close> for it.\<close>

definition keys_type :: "keyboard \<Rightarrow> u8 list list \<Rightarrow> nat \<Rightarrow> u8 list \<Rightarrow> bool" where
  "keys_type kb sched room w \<longleftrightarrow>
     (\<exists>q. kb_holds kb q \<and> fits 15 q sched \<and> (\<forall>code \<in> set (polled 0 q sched). known code) \<and>
        edit room [] (Keyboard.typed (shift kb) (polled 0 q sched)) = Some w)"

text \<open>The shell's line buffer overlaps neither the screen nor another buffer nor a literal.\<close>

definition line_place :: "machine \<Rightarrow> string set \<Rightarrow> tty \<Rightarrow> bool" where
  "line_place mc L t \<longleftrightarrow> (\<forall>x \<in> buf_bytes (line_buffer mc) 256. readable (busy t) t x) \<and>
     (\<forall>s \<in> L. \<forall>k \<le> length s. literal mc s + of_nat k \<notin> buf_bytes (line_buffer mc) 256)"

text \<open>After the prompt, the line is in the buffer; only the terminal and the keyboard have changed.\<close>

definition line_read :: "machine \<Rightarrow> string set \<Rightarrow> u8 list \<Rightarrow> machine_state \<Rightarrow> machine_state \<Rightarrow> bool" where
  "line_read mc L w st st1 \<longleftrightarrow> st1 = st\<lparr>keys := keys st1, terminal := terminal st1\<rparr> \<and>
     printable mc L (terminal st1) \<and> string_at (busy (terminal st1)) (terminal st1) (line_buffer mc) w \<and>
     same_tty (terminal st) (terminal st1) \<and>
     (\<forall>x. readable (busy (terminal st)) (terminal st) x \<and> x \<notin> buf_bytes (line_buffer mc) 256 \<longrightarrow>
        memory_of st1 x = memory_of st x)"

lemma line_read_fields:
  assumes "line_read mc L w st st1"
  shows "tasks st1 = tasks st" "ready n st1 = ready n st" "pit_ticks st1 = pit_ticks st"
proof -
  have e: "st1 = st\<lparr>keys := keys st1, terminal := terminal st1\<rparr>" using assms by (simp add: line_read_def)
  show "tasks st1 = tasks st" "ready n st1 = ready n st" "pit_ticks st1 = pit_ticks st"
    by (subst e, simp add: ready_def)+
qed

lemma string_at_same:
  assumes "string_at B t a s" and "\<forall>k \<le> length s. tty_mem t' (a + of_nat k) = tty_mem t (a + of_nat k)"
    and "off_screen t' = off_screen t"
  shows "string_at B t' a s"
  using assms by (auto simp: string_at_def readable_def cstr_nth)

lemma line_read_string:
  assumes "line_read mc L w st st1" and "string_at (busy (terminal st)) (terminal st) a s"
    and "\<forall>k \<le> length s. a + of_nat k \<notin> buf_bytes (line_buffer mc) 256"
  shows "string_at (busy (terminal st1)) (terminal st1) a s"
proof -
  have t: "same_tty (terminal st) (terminal st1)" using assms(1) by (simp add: line_read_def)
  then have "busy (terminal st1) = busy (terminal st)" by (simp add: busy_def num_bytes_def same_tty_def)
  moreover have "memory_of st1 (a + of_nat k) = memory_of st (a + of_nat k)" if "k \<le> length s" for k
    using assms that by (simp add: line_read_def string_at_def)
  ultimately show ?thesis using string_at_same [OF assms(2)] same_ttyD(2) [OF t] by simp
qed

lemma prompt_run:
  assumes p: "printable mc L (terminal st)" and l: "''Command>'' \<in> L" and pl: "line_place mc L (terminal st)"
    and ks: "keys_type (keys st) sched 255 w"
  shows "\<exists>t sched' st1. out_string (literal mc ''Command>'') (terminal st) = Some t \<and>
    read_line (line_buffer mc) 256 (sched, st\<lparr>terminal := t\<rparr>) = Some (sched', st1) \<and> line_read mc L w st st1"
proof -
  let ?t = "terminal st" and ?buf = "line_buffer mc"
  obtain q where q: "kb_holds (keys st) q" "fits 15 q sched" "\<forall>code \<in> set (polled 0 q sched). known code"
    "edit 255 [] (Keyboard.typed (shift (keys st)) (polled 0 q sched)) = Some w"
    using ks by (auto simp: keys_type_def)
  have ok: "tty_ok ?t" "string_at (busy ?t) ?t (literal mc ''Command>'') (chars ''Command>'')"
    using p l by (auto simp: printable_def)
  obtain t where t: "out_string (literal mc ''Command>'') ?t = Some t" "wrote (busy ?t) (chars ''Command>'') ?t t"
    using out_string_wrote [OF ok] by blast
  have pt: "printable mc L t" by (rule printable_wrote [OF p t(2)])
  note same = wrote_same [OF t(2)]
  have buf: "readable (busy t) t x" if "x \<in> buf_bytes ?buf 256" for x
    using pl that same by (simp add: line_place_def readable_def)
  have inb: "?buf + of_nat k \<in> buf_bytes ?buf 256" if "k < 256" for k
    using that offset_of_nat [of k ?buf] by (simp add: buf_bytes_def)
  have "\<forall>k < unat (256 :: u32). off_screen t (?buf + of_nat k)"
    using buf inb by (simp add: readable_def)
  moreover have "tty_ok t" using pt by (simp add: printable_def)
  ultimately obtain sched' kb' u where u: "in_string ?buf 256 sched (keys st) t = Some (sched', kb', u)"
    "cstr (tty_mem u) ?buf w" "length w < 256" "tty_ok u" "same_tty t u"
    "\<forall>x. off_screen t x \<and> 256 \<le> unat (x - ?buf) \<longrightarrow> tty_mem u x = tty_mem t x"
    using in_string_line [OF q(1-3), of 256 w t ?buf] q(4) by auto
  have su: "busy u = busy t" "off_screen u = off_screen t" "num_bytes u = num_bytes t"
    using u(5) same_ttyD(2) [OF u(5)] by (simp_all add: busy_def num_bytes_def same_tty_def)
  have lit: "string_at (busy u) u (literal mc s) (chars s)" if s: "s \<in> L" for s
  proof -
    have st: "string_at (busy u) t (literal mc s) (chars s)" using pt s by (simp add: printable_def su)
    have "tty_mem u (literal mc s + of_nat k) = tty_mem t (literal mc s + of_nat k)" if "k \<le> length (chars s)" for k
    proof -
      have "literal mc s + of_nat k \<notin> buf_bytes ?buf 256" using pl s that by (simp add: line_place_def)
      then show ?thesis using u(6) st that by (auto simp: buf_bytes_def string_at_def readable_def)
    qed
    then show ?thesis using string_at_same [OF st] su by blast
  qed
  have "printable mc L u" using pt u(4) lit su by (auto simp: printable_def)
  moreover have "string_at (busy u) u ?buf w"
    using u(2,3) buf inb by (simp add: string_at_def readable_def su)
  moreover have "same_tty ?t u" using t(2) u(5) same_tty_trans by (auto simp: wrote_def)
  moreover have "tty_mem u x = tty_mem ?t x" if "readable (busy ?t) ?t x" "x \<notin> buf_bytes ?buf 256" for x
    using u(6) t(2) that same by (simp add: readable_def wrote_def buf_bytes_def)
  ultimately have "line_read mc L w st (st\<lparr>keys := kb', terminal := u\<rparr>)" by (simp add: line_read_def)
  moreover have "read_line ?buf 256 (sched, st\<lparr>terminal := t\<rparr>) = Some (sched', st\<lparr>keys := kb', terminal := u\<rparr>)"
    using u(1) by (simp add: read_line_def)
  ultimately show ?thesis using t(1) by blast
qed

lemma typed_run:
  assumes "printable mc L (terminal st)" and "s \<in> L" and "string_at (busy (terminal st)) (terminal st) (line_buffer mc) w"
  shows "typed mc s st = Some (w = chars s)"
proof -
  have "cstr (memory_of st) (literal mc s) (chars s)" "cstr (memory_of st) (line_buffer mc) w"
    using assms by (auto simp: printable_def string_at_def)
  from strcmp_zero_iff [OF this] show ?thesis by (auto simp: typed_def)
qed

section \<open>Dispatch\<close>

abbreviation shell_words :: "string set" where
  "shell_words \<equiv> {''Command>'', ''read'', ''ticks'', ''ps'', ''ls'', ''test''}"

text \<open>The registers at the shell's own system call.\<close>

definition syscall_test :: "machine \<Rightarrow> boot_info \<Rightarrow> machine_state \<Rightarrow> machine_state option" where
  "syscall_test mc b st = do {
     (_, k) \<leftarrow> irq_handler (board mc) (int_result b) 0 16
       ((int_registers b)\<lparr>r_eax := 0, r_ebx := literal mc (''syscall test'' @ newline)\<rparr>) (kernel_state.truncate st);
     Some (kernel_state.extend k (kernel_state.more st))
   }"

text \<open>The diskette holds the chain of headers \<open>hs\<close> from \<open>i\<close> on, and a list for the file \<open>w\<close>, if it is there.\<close>

definition directory :: "machine \<Rightarrow> u64 \<Rightarrow> listfs_file_header list \<Rightarrow> u8 list \<Rightarrow> bool" where
  "directory mc i hs w \<longleftrightarrow> responsive (board mc) \<and> follows (board mc) \<and> headers_at 2880 (diskette mc) i hs \<and>
     hs \<noteq> [] \<and> (\<forall>h \<in> set hs. 0 \<in> set (fh_name h)) \<and> data_listed (diskette mc) w hs"

lemma lookup_run:
  assumes d: "directory mc i hs w" and p: "printable mc L (terminal st)"
    and s: "string_at (busy (terminal st)) (terminal st) a w" and r: "ready (length hs + Suc n) st"
  shows "\<exists>st'. is_there_exe mc (ucast i) a st = Some (data_sector (diskette mc) w hs \<noteq> - 1, st') \<and>
    ready n st' \<and> displays [] st st'"
proof -
  have dd: "responsive (board mc)" "follows (board mc)" "headers_at 2880 (diskette mc) i hs" "hs \<noteq> []"
    "\<forall>h \<in> set hs. 0 \<in> set (fh_name h)" "data_listed (diskette mc) w hs"
    using d by (simp_all add: directory_def)
  from find_file_run [OF dd(1,2) le_refl dd(3-6) string_safe [OF s] r] obtain st' m where
    "find_file mc (ucast i) a st = Some (data_sector (diskette mc) w hs, st')" "ready n st'" "loaded m st st'"
    "kept (memory_of st) m" by blast
  then show ?thesis using load_displays [OF p] by (auto simp: is_there_exe_def)
qed

lemma shell_run:
  assumes d: "directory mc i hs w" and p: "printable mc L (terminal st)" and L: "shell_words \<subseteq> L"
    and pl: "line_place mc L (terminal st)" and ks: "keys_type (keys st) sched 255 w"
    and r: "ready (length hs + Suc n) st"
  shows "\<exists>sched' st1 st2. line_read mc L w st st1 \<and> displays [] st1 st2 \<and> ready n st2 \<and>
    shell_command mc b (ucast i) (sched, st) =
      (if w = chars ''read'' then cmd_read_sect mc (sched', st1)
       else map_option (Pair sched')
         (if w = chars ''ticks'' then cmd_get_ticks mc st1
          else if w = chars ''ps'' then show_process_list mc st1
          else if w = chars ''ls'' then show_files mc (ucast i) st1
          else if data_sector (diskette mc) w hs \<noteq> - 1 then run_new_process mc (ucast i) (line_buffer mc) st2
          else if w = chars ''test'' then syscall_test mc b st2
          else print mc (''You typed: %s'' @ newline) [line_buffer mc] st2))"
proof -
  obtain t sched' st1 where o: "out_string (literal mc ''Command>'') (terminal st) = Some t"
    "read_line (line_buffer mc) 256 (sched, st\<lparr>terminal := t\<rparr>) = Some (sched', st1)" and lr: "line_read mc L w st st1"
    using prompt_run [OF p _ pl ks] L by blast
  have p1: "printable mc L (terminal st1)" and s1: "string_at (busy (terminal st1)) (terminal st1) (line_buffer mc) w"
    using lr by (simp_all add: line_read_def)
  have "ready (length hs + Suc n) st1" using r line_read_fields(2) [OF lr] by simp
  then obtain st2 where l: "is_there_exe mc (ucast i) (line_buffer mc) st1 = Some (data_sector (diskette mc) w hs \<noteq> - 1, st2)"
    "ready n st2" "displays [] st1 st2"
    using lookup_run [OF d p1 s1] by blast
  have w2: "wrote (busy (terminal st1)) [] (terminal st1) (terminal st2)" using l(3) by (simp add: displays_def)
  have p2: "printable mc L (terminal st2)" by (rule printable_wrote [OF p1 w2])
  have s2: "string_at (busy (terminal st2)) (terminal st2) (line_buffer mc) w"
    using string_at_wrote [OF w2 s1] wrote_same [OF w2] by simp
  have ty: "typed mc s st1 = Some (w = chars s)" "typed mc s st2 = Some (w = chars s)" if "s \<in> shell_words" for s
    using typed_run [OF p1 _ s1] typed_run [OF p2 _ s2] L that by blast+
  have "shell_command mc b (ucast i) (sched, st) =
      (if w = chars ''read'' then cmd_read_sect mc (sched', st1)
       else map_option (Pair sched')
         (if w = chars ''ticks'' then cmd_get_ticks mc st1
          else if w = chars ''ps'' then show_process_list mc st1
          else if w = chars ''ls'' then show_files mc (ucast i) st1
          else if data_sector (diskette mc) w hs \<noteq> - 1 then run_new_process mc (ucast i) (line_buffer mc) st2
          else if w = chars ''test'' then syscall_test mc b st2
          else print mc (''You typed: %s'' @ newline) [line_buffer mc] st2))"
    unfolding shell_command_def syscall_test_def using o l(1) ty by simp
  then show ?thesis using lr l(2,3) by blast
qed

section \<open>What the shell answers\<close>

definition shell_texts :: "string set" where
  "shell_texts = shell_words \<union> listing_texts \<union> {newline @ ''ticks: %d'' @ newline, ''  process - %s'' @ newline,
     ''syscall test'' @ newline, ''You typed: %s'' @ newline, ''%s starting...'' @ newline}"

text \<open>
  The answer to a line that is neither \<open>read\<close>, which asks for more keys, nor the name of a
  program: the ticks, the processes with their lines \<open>ps\<close>, the files, the text of the system
  call, or the line itself.
\<close>

definition answer :: "listfs_file_header list \<Rightarrow> u8 list \<Rightarrow> u32 \<Rightarrow> u8 list \<Rightarrow> u8 list" where
  "answer hs ps ticks w =
     (if w = chars ''ticks'' then 10 # chars ''ticks: '' @ num_str 10 (unat ticks) @ [10]
      else if w = chars ''ps'' then ps
      else if w = chars ''ls'' then listing hs
      else if w = chars ''test'' then chars ''syscall test'' @ [10]
      else chars ''You typed: '' @ w @ [10])"

text \<open>The names of the processes \<open>ps\<close> lie outside every buffer.\<close>

definition processes :: "machine \<Rightarrow> machine_state \<Rightarrow> u32 list \<Rightarrow> (u32 \<Rightarrow> u8 list) \<Rightarrow> bool" where
  "processes mc st ps nm \<longleftrightarrow> list_holds (rings (tasks st)) process_list ps \<and> length ps < 2 ^ 31 \<and>
     (\<forall>p \<in> set ps. string_at (busy (terminal st)) (terminal st) (p + 48) (nm p) \<and>
        (\<forall>k \<le> length (nm p). p + 48 + of_nat k \<notin> buf_bytes (line_buffer mc) 256))"

lemma renders_number:
  assumes "37 \<notin> set (chars f)" and "37 \<notin> set (chars g)"
  shows "renders R (chars (f @ ''%d'' @ g)) [a] (chars f @ num_str 10 (unat a) @ chars g)"
proof -
  have "renders R (37 # 100 # chars g) [a] (num_str (unat (10 :: u8)) (unat a) @ chars g)"
    using assms(2) by (intro renders.num renders_plain_text) (simp_all add: base_of_def)
  then show ?thesis using renders_text [OF assms(1)] by simp
qed

lemma renders_quoted:
  assumes "37 \<notin> set (chars f)" and "37 \<notin> set (chars g)" and "R a s"
  shows "renders R (chars (f @ ''%s'' @ g)) [a] (chars f @ s @ chars g)"
proof -
  have "renders R (37 # 115 # chars g) [a] (s @ chars g)"
    using assms(2,3) by (intro renders.str renders_plain_text)
  then show ?thesis using renders_text [OF assms(1)] by simp
qed

lemma displays_screen:
  "displays out st st' \<Longrightarrow> screen_of (terminal st') =
     fold (term_put (W (terminal st)) (H (terminal st)) (text_attr (terminal st))) out (screen_of (terminal st))"
  by (simp add: displays_def wrote_def)

lemma ticks_run:
  assumes "printable mc L (terminal st)" and "newline @ ''ticks: %d'' @ newline \<in> L"
  shows "\<exists>st'. cmd_get_ticks mc st = Some st' \<and>
    displays (10 # chars ''ticks: '' @ num_str 10 (unat (pit_ticks st)) @ [10]) st st'"
proof -
  have "renders R (chars (newline @ ''ticks: %d'' @ newline)) [a] (10 # chars ''ticks: '' @ num_str 10 (unat a) @ [10])" for R a
    using renders_number [of "newline @ ''ticks: ''" newline R a] by simp
  from print_run [OF assms this] show ?thesis unfolding cmd_get_ticks_def get_tick_count_def by blast
qed

lemma typed_back_run:
  assumes p: "printable mc L (terminal st)" and l: "''You typed: %s'' @ newline \<in> L"
    and s: "string_at (busy (terminal st)) (terminal st) a w"
  shows "\<exists>st'. print mc (''You typed: %s'' @ newline) [a] st = Some st' \<and> displays (chars ''You typed: '' @ w @ [10]) st st'"
proof -
  let ?t = "terminal st"
  have "string_at (num_bytes ?t) ?t a w" using s by (rule string_at_mono) (simp add: busy_def)
  then have "renders (string_at (num_bytes ?t) ?t) (chars (''You typed: %s'' @ newline)) [a] (chars ''You typed: '' @ w @ [10])"
    using renders_quoted [of "''You typed: ''" newline _ a w] by simp
  from print_run [OF p l this] show ?thesis by blast
qed

lemma kernel_state_fields [simp]:
  "terminal (kernel_state.truncate st) = terminal (st :: machine_state)"
  "kernel_state.extend ((kernel_state.truncate st)\<lparr>terminal := t\<rparr>) (kernel_state.more st) = (st :: machine_state)\<lparr>terminal := t\<rparr>"
  by (cases st; simp add: kernel_state.defs)+

lemma syscall_run:
  assumes p: "printable mc L (terminal st)" and l: "''syscall test'' @ newline \<in> L"
  shows "\<exists>st'. syscall_test mc b st = Some st' \<and> displays (chars ''syscall test'' @ [10]) st st'"
proof -
  let ?t = "terminal st" and ?f = "''syscall test'' @ newline" and ?r = "int_registers b"
  have b: "num_bytes ?t \<subseteq> busy ?t" by (simp add: busy_def)
  have "string_at (num_bytes ?t) ?t (literal mc ?f) (chars ?f)"
    using p l unfolding printable_def by (intro string_at_mono [OF _ b]) blast
  moreover have "\<forall>x \<in> num_bytes ?t. off_screen ?t x" "tty_ok ?t" using p b by (auto simp: printable_def)
  moreover have "renders (string_at (num_bytes ?t) ?t) (chars ?f) [r_ecx ?r, r_edx ?r, r_esi ?r, r_edi ?r] (chars ?f)"
    by (rule renders_plain_text) simp
  ultimately obtain t where t: "printf (literal mc ?f) [r_ecx ?r, r_edx ?r, r_esi ?r, r_edi ?r] ?t = Some t"
    "wrote (num_bytes ?t) (chars ?f) ?t t"
    using printf_run [of ?t "chars ?f" _ "chars ?f" ?t "[]" "literal mc ?f"] by auto
  have "syscall_test mc b st = Some (st\<lparr>terminal := t\<rparr>)"
    using t(1) by (simp add: syscall_test_def irq_handler_def syscall_handler_def)
  then show ?thesis using wrote_mono [OF t(2) b] by (simp add: displays_def)
qed

lemma ps_run:
  assumes lr: "line_read mc shell_texts w st st1" and ps: "processes mc st ps nm"
  shows "\<exists>st'. show_process_list mc st1 = Some st' \<and> screen_of (terminal st') =
    fold (term_put (W (terminal st1)) (H (terminal st1)) (text_attr (terminal st1))) (process_lines nm ps) (screen_of (terminal st1))"
proof -
  have "list_holds (rings (tasks st1)) process_list ps" "length ps < 2 ^ 31"
    using ps line_read_fields(1) [OF lr] by (simp_all add: processes_def)
  moreover have "printable mc {''  process - %s'' @ newline} (terminal st1)"
    using lr by (simp add: line_read_def printable_def shell_texts_def)
  moreover have "\<forall>p \<in> set ps. string_at (busy (terminal st1)) (terminal st1) (p + 48) (nm p)"
    using ps line_read_string [OF lr] by (simp add: processes_def)
  ultimately show ?thesis unfolding process_lines_def by (rule show_process_list_lists)
qed

lemma ls_run:
  assumes d: "directory mc i hs w" and p: "printable mc shell_texts (terminal st)" and r: "ready (length hs) st"
  shows "\<exists>st'. show_files mc (ucast i) st = Some st' \<and> displays (listing hs) st st'"
proof -
  have "responsive (board mc)" "follows (board mc)" "headers_at 2880 (diskette mc) i hs" "hs \<noteq> []"
    "\<forall>h \<in> set hs. 0 \<in> set (fh_name h)" "listing_texts \<subseteq> shell_texts"
    using d by (auto simp: directory_def shell_texts_def)
  then show ?thesis using show_files_run [OF _ _ le_refl] p r by blast
qed

text \<open>C37: The shell answers: typing a line, as edited, that is a command or no file's name leaves it in
  the shell's buffer, and the shell then shows what the command says: the ticks, the processes in
  their order, the files of the diskette, the text of the system call, and the line itself
  where it is no command.\<close>

theorem shell_answers:
  assumes d: "directory mc i hs w" and p: "printable mc shell_texts (terminal st)"
    and pl: "line_place mc shell_texts (terminal st)" and ks: "keys_type (keys st) sched 255 w"
    and r: "ready (length hs + 1) st" and ps: "processes mc st ps nm"
    and w: "w \<noteq> chars ''read''" "w \<notin> {chars ''ticks'', chars ''ps'', chars ''ls''} \<longrightarrow> data_sector (diskette mc) w hs = - 1"
  shows "\<exists>sched' st1 st'. line_read mc shell_texts w st st1 \<and>
    shell_command mc b (ucast i) (sched, st) = Some (sched', st') \<and>
    screen_of (terminal st') = fold (term_put (W (terminal st1)) (H (terminal st1)) (text_attr (terminal st1)))
      (answer hs (process_lines nm ps) (pit_ticks st) w) (screen_of (terminal st1))"
proof -
  have r': "ready (length hs + Suc 0) st" using r by simp
  have L: "shell_words \<subseteq> shell_texts" "listing_texts \<subseteq> shell_texts" by (auto simp: shell_texts_def)
  obtain sched' st1 st2 where lr: "line_read mc shell_texts w st st1" and d2: "displays [] st1 st2" and
    run: "shell_command mc b (ucast i) (sched, st) =
      (if w = chars ''read'' then cmd_read_sect mc (sched', st1)
       else map_option (Pair sched')
         (if w = chars ''ticks'' then cmd_get_ticks mc st1
          else if w = chars ''ps'' then show_process_list mc st1
          else if w = chars ''ls'' then show_files mc (ucast i) st1
          else if data_sector (diskette mc) w hs \<noteq> - 1 then run_new_process mc (ucast i) (line_buffer mc) st2
          else if w = chars ''test'' then syscall_test mc b st2
          else print mc (''You typed: %s'' @ newline) [line_buffer mc] st2))"
    using shell_run [OF d p L(1) pl ks r'] by blast
  have p1: "printable mc shell_texts (terminal st1)" and s1: "string_at (busy (terminal st1)) (terminal st1) (line_buffer mc) w"
    using lr by (simp_all add: line_read_def)
  have w2: "wrote (busy (terminal st1)) [] (terminal st1) (terminal st2)" using d2 by (simp add: displays_def)
  have p2: "printable mc shell_texts (terminal st2)" by (rule printable_wrote [OF p1 w2])
  have s2: "string_at (busy (terminal st2)) (terminal st2) (line_buffer mc) w"
    using string_at_wrote [OF w2 s1] wrote_same [OF w2] by simp
  let ?shows = "\<lambda>out. \<lambda>st'. screen_of (terminal st') =
    fold (term_put (W (terminal st1)) (H (terminal st1)) (text_attr (terminal st1))) out (screen_of (terminal st1))"
  consider "w = chars ''ticks''" | "w = chars ''ps''" | "w = chars ''ls''"
    | "w = chars ''test''" "data_sector (diskette mc) w hs = - 1"
    | "w \<notin> {chars ''ticks'', chars ''ps'', chars ''ls'', chars ''test''}" "data_sector (diskette mc) w hs = - 1"
    using w(2) by blast
  then have "\<exists>st'. shell_command mc b (ucast i) (sched, st) = Some (sched', st') \<and>
      ?shows (answer hs (process_lines nm ps) (pit_ticks st) w) st'"
  proof cases
    case 1
    obtain st' where "cmd_get_ticks mc st1 = Some st'"
      "displays (10 # chars ''ticks: '' @ num_str 10 (unat (pit_ticks st1)) @ [10]) st1 st'"
      using ticks_run [OF p1] by (auto simp: shell_texts_def)
    then show ?thesis using run 1 displays_screen line_read_fields(3) [OF lr] by (simp add: answer_def)
  next
    case 2
    obtain st' where "show_process_list mc st1 = Some st'" "?shows (process_lines nm ps) st'"
      using ps_run [OF lr ps] by blast
    then show ?thesis using run 2 by (simp add: answer_def)
  next
    case 3
    have "ready (length hs) st1" using r line_read_fields(2) [OF lr] by (simp add: ready_def)
    then obtain st' where "show_files mc (ucast i) st1 = Some st'" "displays (listing hs) st1 st'"
      using ls_run [OF d p1] by blast
    then show ?thesis using run 3 displays_screen by (simp add: answer_def)
  next
    case 4
    obtain st' where s: "syscall_test mc b st2 = Some st'" "displays (chars ''syscall test'' @ [10]) st2 st'"
      using syscall_run [OF p2] by (auto simp: shell_texts_def)
    then show ?thesis using run 4 displays_screen [OF displays_trans [OF d2 s(2)]] by (simp add: answer_def)
  next
    case 5
    obtain st' where s: "print mc (''You typed: %s'' @ newline) [line_buffer mc] st2 = Some st'"
      "displays (chars ''You typed: '' @ w @ [10]) st2 st'"
      using typed_back_run [OF p2 _ s2] by (auto simp: shell_texts_def)
    then show ?thesis using run 5 w(1) displays_screen [OF displays_trans [OF d2 s(2)]] by (simp add: answer_def)
  qed
  then show ?thesis using lr by blast
qed


section \<open>A concrete shell\<close>

definition shell_list :: "string list" where
  "shell_list = [''Command>'', ''read'', ''ticks'', ''ps'', ''ls'', ''test'', newline @ ''ticks: %d'' @ newline,
     ''  process - %s'' @ newline, ''syscall test'' @ newline, ''You typed: %s'' @ newline, ''%s starting...'' @ newline]
     @ listing_list"

definition demo_prompt :: machine_state where
  "demo_prompt = (demo_shell shell_list)\<lparr>tasks := (demo_task {})\<lparr>rings :=
     \<lparr>items = (\<lambda>_. \<lparr>item_next = 0, item_prev = 0, item_list = 0\<rparr>),
      lists = (\<lambda>_. \<lparr>list_first = 0, list_count = 0, list_mutex = False\<rparr>)\<rparr>\<rparr>\<rparr>"

definition demo_console :: machine where
  "demo_console = (demo_literals shell_list)\<lparr>line_buffer := 0x4C00\<rparr>"

lemma demo_prompt_simps [simp]: "terminal demo_prompt = demo_terminal shell_list" "keys demo_prompt = demo_keys"
    "pit_ticks demo_prompt = 0" "ready n demo_prompt = ready n (demo_shell shell_list)"
  by (simp_all add: demo_prompt_def demo_shell_def demo_state_def demo_kernel_def kernel_state.defs ready_def)

lemma shell_list_length: "length shell_list = 18" and shell_list_short: "\<forall>s \<in> set shell_list. length s < 32 \<and> 0 \<notin> set (chars s)"
  by (simp_all add: shell_list_def listing_list_def)

lemma shell_list_set: "set shell_list = shell_texts"
proof -
  have "set ([a, b, c, d, e, f, g, h, i, j, k] @ xs) = {a, b, c, d, e, f} \<union> set xs \<union> {g, h, i, j, k}"
    for a b c d e f g h i j k :: string and xs by auto
  moreover have "set listing_list = listing_texts" by (simp only: listing_list_def listing_texts_def list.set)
  ultimately show ?thesis by (simp only: shell_list_def shell_texts_def)
qed

lemma demo_console_printable: "printable demo_console shell_texts (demo_terminal shell_list)"
  using demo_printable [OF shell_list_short] shell_list_length
  by (simp add: shell_list_set printable_def demo_console_def)

lemma demo_console_place: "line_place demo_console shell_texts (demo_terminal shell_list)"
proof -
  have "readable (busy (demo_terminal shell_list)) (demo_terminal shell_list) x" if "x \<in> buf_bytes 0x4C00 256" for x
  proof -
    have u: "unat (x - 0x4C00) < 256" using that by (simp add: buf_bytes_def)
    then have "unat x = 0x4C00 + unat (x - 0x4C00)" using above [of "0x4C00" x] by simp
    then have "x = of_nat (0x4C00 + unat (x - 0x4C00))" by (metis word_of_unat)
    also have "\<dots> = 0x4000 + of_nat (0xC00 + unat (x - 0x4C00))" by simp
    finally show ?thesis using slot_readable [of "0xC00 + unat (x - 0x4C00)" shell_list] u by simp
  qed
  moreover have "slot_of shell_list s + of_nat k \<notin> buf_bytes 0x4C00 256" if "s \<in> shell_texts" "k \<le> length s" for s k
  proof -
    define n where "n = length (takeWhile (\<lambda>t. t \<noteq> s) shell_list)"
    have "n < 18" "k < 32"
      using slot_index [of s shell_list] that shell_list_set shell_list_length shell_list_short by (auto simp: n_def)
    then have j: "32 * n + k < 0x240" by simp
    have e: "slot_of shell_list s + of_nat k = of_nat (0x4000 + (32 * n + k))" by (simp add: slot_of_def n_def)
    have a: "unat (of_nat (0x4000 + (32 * n + k)) :: u32) = 0x4000 + (32 * n + k)" using j by (intro unat_of_nat32) simp
    then have "unat (of_nat (0x4000 + (32 * n + k)) - 0x4C00 :: u32) = 2 ^ 32 + (0x4000 + (32 * n + k)) - unat (0x4C00 :: u32)"
      using j by (subst below) simp_all
    then show ?thesis unfolding e buf_bytes_def using j by simp
  qed
  ultimately show ?thesis by (simp add: line_place_def demo_console_def demo_literals_ok)
qed

lemma ls_typed: "keys_type demo_keys [[0x26], [0x1F], [0x1C], []] 255 (chars ''ls'')"
proof -
  have p: "polled 0 [] [[0x26], [0x1F], [0x1C], [] :: u8 list] = [0x26, 0x1F, 0x1C, 0]" by simp
  have ty: "Keyboard.typed (shift demo_keys) [0x26, 0x1F, 0x1C, 0] = [108, 115, 10]"
    by (simp add: demo_keys_def note_shift_def press_def scancode_def scancodes_def scancodes_shifted_def)
  have "\<forall>code \<in> set [0x26, 0x1F, 0x1C, 0]. known code" by (simp add: known_def press_def)
  then show ?thesis unfolding keys_type_def p using demo_keys_empty ty by (intro exI [of _ "[]"]) (simp add: p)
qed

text \<open>\<open>l\<close>, \<open>s\<close> and Enter: the shell lists the file of the diskette.\<close>

theorem shell_answers_witness:
  "\<forall>b. \<exists>sched' (st1 :: machine_state) st'. shell_command demo_console b 2 ([[0x26], [0x1F], [0x1C], []], demo_prompt) = Some (sched', st') \<and>
     screen_of (terminal st') = fold (term_put 80 25 (text_attr (terminal st1))) (listing [demo_header]) (screen_of (terminal st1))"
proof
  fix b :: boot_info
  let ?s = "[[0x26], [0x1F], [0x1C], []] :: u8 list list" and ?w = "chars ''ls''"
  have ks: "keys_type (keys demo_prompt) ?s 255 ?w" unfolding demo_prompt_simps by (rule ls_typed)
  have "stored_name demo_header = [97]" by (simp add: stored_name_def demo_header_def)
  then have d: "directory demo_console 2 [demo_header] ?w"
    using demo_headers demo_literals_ok [of shell_list]
    by (simp add: directory_def data_listed_def demo_console_def) (simp add: demo_header_def)
  have ps: "processes demo_console demo_prompt [] (\<lambda>_. [])"
    by (simp add: processes_def demo_prompt_def list_holds_def)
  have pr: "printable demo_console shell_texts (terminal demo_prompt)" "line_place demo_console shell_texts (terminal demo_prompt)"
    using demo_console_printable demo_console_place by simp_all
  have "ready (length [demo_header] + 1) demo_prompt" using demo_shell_ready by simp
  from shell_answers [OF d pr ks this ps, of b] obtain sched' st1 st' where
    r: "line_read demo_console shell_texts ?w demo_prompt st1"
    "shell_command demo_console b (ucast (2 :: u64)) (?s, demo_prompt) = Some (sched', st')"
    "screen_of (terminal st') = fold (term_put (W (terminal st1)) (H (terminal st1)) (text_attr (terminal st1)))
      (answer [demo_header] (process_lines (\<lambda>_. []) []) (pit_ticks demo_prompt) ?w) (screen_of (terminal st1))"
    by auto
  have u: "W (terminal st1) = 80" "H (terminal st1) = 25"
    using r(1) by (simp_all add: line_read_def same_tty_def)
  have a: "answer [demo_header] (process_lines (\<lambda>_. []) []) (pit_ticks demo_prompt) ?w = listing [demo_header]"
    by (simp add: answer_def)
  have i: "ucast (2 :: u64) = (2 :: u32)" by simp
  show "\<exists>sched' (st1 :: machine_state) st'. shell_command demo_console b 2 (?s, demo_prompt) = Some (sched', st') \<and>
      screen_of (terminal st') = fold (term_put 80 25 (text_attr (terminal st1))) (listing [demo_header]) (screen_of (terminal st1))"
    using r(2,3) unfolding u a i by blast
qed

end
