(* ===== verification/Greeting.thy ===== *)
theory Greeting
  imports Boot Shell_Loop
begin

text \<open>
  What the kernel shows at its start: formats as pieces of text and numbers, the lines of the memory map and of
  the table of kernel memory, the greeting around them, and the cleared screen.
\<close>

section \<open>Lines of text\<close>

text \<open>A format as a list of pieces: a text, the letter of a directive, its argument and what it shows.\<close>

definition piece_ok :: "(u32 \<Rightarrow> u8 list \<Rightarrow> bool) \<Rightarrow> u8 list \<times> u8 \<times> u32 \<times> u8 list \<Rightarrow> bool" where
  "piece_ok R p = (case p of (f, c, a, s) \<Rightarrow> 37 \<notin> set f \<and>
     (c = 115 \<and> R a s \<or> (\<exists>b. base_of c = Some b \<and> s = num_str (unat b) (unat a))))"

lemma renders_pieces:
  assumes "list_all (piece_ok R) ps" and "37 \<notin> set t"
  shows "renders R (concat (map (\<lambda>(f, c, a, s). f @ [37, c]) ps) @ t) (map (\<lambda>(f, c, a, s). a) ps)
    (concat (map (\<lambda>(f, c, a, s). f @ s) ps) @ t)"
  using assms(1)
proof (induction ps)
  case Nil
  then show ?case using renders_plain_text [OF assms(2)] by simp
next
  case (Cons p ps)
  obtain f c a s where p: "p = (f, c, a, s)" by (cases p)
  have "piece_ok R (f, c, a, s)" and ps: "list_all (piece_ok R) ps" using Cons.prems p by simp_all
  then have f: "37 \<notin> set f" and c: "c = 115 \<and> R a s \<or> (\<exists>b. base_of c = Some b \<and> s = num_str (unat b) (unat a))"
    by (simp_all add: piece_ok_def)
  have "renders R (37 # c # concat (map (\<lambda>(f, c, a, s). f @ [37, c]) ps) @ t) (a # map (\<lambda>(f, c, a, s). a) ps)
      (s @ concat (map (\<lambda>(f, c, a, s). f @ s) ps) @ t)"
    using c
  proof
    assume "c = 115 \<and> R a s"
    then show ?thesis using renders.str [OF _ Cons.IH [OF ps], of a s] by (simp only:)
  next
    assume "\<exists>b. base_of c = Some b \<and> s = num_str (unat b) (unat a)"
    then obtain b where b: "base_of c = Some b" "s = num_str (unat b) (unat a)" by blast
    show ?thesis unfolding b(2) by (rule renders.num [OF b(1) Cons.IH [OF ps]])
  qed
  from renders_text [OF f this] show ?case
    by (simp only: p list.map concat.simps prod.case append.assoc append_Cons append_Nil)
qed

text \<open>The interrupt table and what the ports were told are the same.\<close>

definition same_set_up :: "machine_state \<Rightarrow> machine_state \<Rightarrow> bool" where
  "same_set_up st st' \<longleftrightarrow> io_log st' = io_log st \<and> idt st' = idt st \<and> idt_base st' = idt_base st \<and> idt_limit st' = idt_limit st"

lemma print_set_up: "print mc fmt args st = Some st' \<Longrightarrow> same_set_up st st'"
  by (auto simp: print_def same_set_up_def)

text \<open>From \<open>st\<close> to \<open>st'\<close> the text \<open>out\<close> is shown, and the kernel can go on showing text.\<close>

definition prints :: "machine \<Rightarrow> string set \<Rightarrow> u8 list \<Rightarrow> machine_state \<Rightarrow> machine_state \<Rightarrow> bool" where
  "prints mc L out st st' \<longleftrightarrow> displays out st st' \<and> same_driver st st' \<and> printable mc L (terminal st') \<and> same_set_up st st'"

lemma prints_trans: "prints mc L a s t \<Longrightarrow> prints mc L b t u \<Longrightarrow> prints mc L (a @ b) s u"
  using displays_trans same_driver_trans by (auto simp: prints_def same_set_up_def)

lemma prints_refl: "printable mc L (terminal st) \<Longrightarrow> prints mc L [] st st"
  by (simp add: prints_def displays_def same_driver_def printable_def same_set_up_def)

lemma print_prints:
  assumes "printable mc L (terminal st)" and "fmt \<in> L"
    and "renders (string_at (num_bytes (terminal st)) (terminal st)) (chars fmt) args out"
  shows "\<exists>st'. print mc fmt args st = Some st' \<and> prints mc L out st st'"
  using print_run [OF assms] displays_printable [OF assms(1)] print_set_up unfolding prints_def by blast

subsection \<open>The memory map\<close>

abbreviation num10 :: "u32 \<Rightarrow> u8 list" where "num10 a \<equiv> num_str 10 (unat a)"
abbreviation num16 :: "u32 \<Rightarrow> u8 list" where "num16 a \<equiv> num_str 16 (unat a)"

definition region_format :: string where
  "region_format = ''region %d: start - %u; length (bytes) - %u; type - %d (%s)'' @ newline"

definition region_line :: "u32 \<Rightarrow> memory_map_entry \<Rightarrow> u8 list" where
  "region_line n e = chars ''region '' @ num10 n @ chars '': start - '' @ num10 (ucast (memory_map_entry.map_base e)) @
     chars ''; length (bytes) - '' @ num10 (ucast (map_length e)) @ chars ''; type - '' @ num10 (map_type e) @
     chars '' ('' @ chars (memory_types ! unat (map_type e - 1)) @ chars '')'' @ [10]"

fun region_lines :: "u32 \<Rightarrow> memory_map_entry list \<Rightarrow> u8 list" where
  "region_lines n [] = []"
| "region_lines n (e # es) = region_line n e @ region_lines (n + 1) es"

lemma renders_region:
  assumes "R a (chars (memory_types ! unat (map_type e - 1)))"
  shows "renders R (chars region_format) [n, ucast (memory_map_entry.map_base e), ucast (map_length e), map_type e, a] (region_line n e)"
proof -
  let ?ps = "[(chars ''region '', 100, n, num10 n), (chars '': start - '', 117, ucast (memory_map_entry.map_base e), num10 (ucast (memory_map_entry.map_base e))),
    (chars ''; length (bytes) - '', 117, ucast (map_length e), num10 (ucast (map_length e))),
    (chars ''; type - '', 100, map_type e, num10 (map_type e)), (chars '' ('', 115, a, chars (memory_types ! unat (map_type e - 1)))]"
  have "list_all (piece_ok R) ?ps" using assms by (simp add: piece_ok_def base_of_def)
  from renders_pieces [OF this, of "chars '')'' @ [10]"] show ?thesis
    by (simp add: region_format_def region_line_def)
qed

text \<open>The map \<open>es\<close> in memory at \<open>p\<close>, outside every buffer and the screen.\<close>

definition map_at :: "machine_state \<Rightarrow> u32 \<Rightarrow> memory_map_entry list \<Rightarrow> bool" where
  "map_at st p es \<longleftrightarrow> (\<forall>k < length es. entry_in (memory_of st) (p + of_nat (24 * k)) = es ! k) \<and>
     (\<forall>i < 24 * length es. readable (busy (terminal st)) (terminal st) (p + of_nat i))"

lemma entry_in_cong: "(\<And>i. i < 24 \<Longrightarrow> m' (p + of_nat i) = m (p + of_nat i)) \<Longrightarrow> entry_in m' p = entry_in m p"
proof -
  assume m: "\<And>i. i < 24 \<Longrightarrow> m' (p + of_nat i) = m (p + of_nat i)"
  have "m' (p + 8 + of_nat k) = m (p + 8 + of_nat k)" if "k < 8" for k using m [of "8 + k"] that by (simp add: add.assoc)
  moreover have "m' (p + 16 + of_nat k) = m (p + 16 + of_nat k)" if "k < 4" for k
    using m [of "16 + k"] that by (simp add: add.assoc)
  ultimately show ?thesis using m unfolding entry_in_def uint64_in_def uint32_in_def
    by (intro arg_cong3 [where f = memory_map_entry.make] arg_cong [where f = le_word] map_cong) auto
qed

lemma map_at_displays:
  assumes "displays out st st'" and "map_at st p es"
  shows "map_at st' p es"
proof -
  have w: "wrote (busy (terminal st)) out (terminal st) (terminal st')" using assms(1) by (simp add: displays_def)
  have r: "readable (busy (terminal st')) (terminal st') = readable (busy (terminal st)) (terminal st)"
    using readable_wrote [OF w] wrote_same [OF w] by simp
  have m: "memory_of st' x = memory_of st x" if "readable (busy (terminal st)) (terminal st) x" for x
    using w that by (simp add: wrote_def readable_def)
  have "entry_in (memory_of st') (p + of_nat (24 * k)) = entry_in (memory_of st) (p + of_nat (24 * k))" if "k < length es" for k
  proof (rule entry_in_cong)
    fix i :: nat assume "i < 24"
    then have "24 * k + i < 24 * length es" using that by simp
    then have "readable (busy (terminal st)) (terminal st) (p + of_nat (24 * k + i))" using assms(2) unfolding map_at_def by blast
    from m [OF this] show "memory_of st' (p + of_nat (24 * k) + of_nat i) = memory_of st (p + of_nat (24 * k) + of_nat i)"
      by (simp add: add.assoc)
  qed
  then show ?thesis using assms(2) r by (simp add: map_at_def)
qed

lemma map_at_Cons: "map_at st p (e # es) \<longleftrightarrow> entry_in (memory_of st) p = e \<and>
    (\<forall>i < 24. readable (busy (terminal st)) (terminal st) (p + of_nat i)) \<and> map_at st (p + 24) es"
proof
  assume m: "map_at st p (e # es)"
  have "entry_in (memory_of st) (p + 24 + of_nat (24 * k)) = es ! k" if "k < length es" for k
    using m [unfolded map_at_def, THEN conjunct1, rule_format, of "Suc k"] that by (simp add: add.assoc algebra_simps)
  moreover have "readable (busy (terminal st)) (terminal st) (p + 24 + of_nat i)" if "i < 24 * length es" for i
    using m [unfolded map_at_def, THEN conjunct2, rule_format, of "24 + i"] that by (simp add: add.assoc)
  moreover have "entry_in (memory_of st) p = e" using m [unfolded map_at_def, THEN conjunct1, rule_format, of 0] by simp
  ultimately show "entry_in (memory_of st) p = e \<and>
    (\<forall>i < 24. readable (busy (terminal st)) (terminal st) (p + of_nat i)) \<and> map_at st (p + 24) es"
    using m by (simp add: map_at_def)
next
  assume m: "entry_in (memory_of st) p = e \<and>
    (\<forall>i < 24. readable (busy (terminal st)) (terminal st) (p + of_nat i)) \<and> map_at st (p + 24) es"
  note m' = m [THEN conjunct2, THEN conjunct2, unfolded map_at_def]
  have "entry_in (memory_of st) (p + of_nat (24 * k)) = (e # es) ! k" if "k < length (e # es)" for k
  proof (cases k)
    case (Suc j)
    then show ?thesis using m' that by (simp add: add.assoc)
  qed (use m in simp)
  moreover have "readable (busy (terminal st)) (terminal st) (p + of_nat i)" if "i < 24 * length (e # es)" for i
  proof (cases "i < 24")
    case False
    then obtain j where "i = 24 + j" using le_Suc_ex [of 24 i] by auto
    then show ?thesis using m' [THEN conjunct2, rule_format, of j] that by (simp add: add.assoc)
  qed (use m in simp)
  ultimately show "map_at st p (e # es)" by (simp add: map_at_def)
qed

lemma display_entries_run:
  assumes "printable mc L (terminal st)" and "map_at st p (es @ [z])"
    and "\<forall>e \<in> set es. map_length e \<noteq> 0 \<and> unat (map_type e - 1) < 4" and "map_length z = 0"
    and L: "region_format \<in> L" "set memory_types \<subseteq> L"
  shows "\<exists>st'. display_entries mc p n st = Some st' \<and> prints mc L (region_lines n es) st st'"
  using assms(1-3)
proof (induction es arbitrary: p n st)
  case Nil
  then have "entry_in (memory_of st) p = z" by (simp add: map_at_Cons)
  then have "display_entries mc p n st = Some st"
    using assms(4) by (subst display_entries.simps) (simp add: is_last_memory_map_entry_def)
  then show ?case using prints_refl [OF Nil.prems(1)] by simp
next
  case (Cons e es)
  have e: "entry_in (memory_of st) p = e" "map_length e \<noteq> 0" "unat (map_type e - 1) < 4" and m: "map_at st (p + 24) (es @ [z])"
    using Cons.prems(2,3) by (simp_all add: map_at_Cons)
  let ?t = "terminal st" and ?ty = "memory_types ! unat (map_type e - 1)"
  have "?ty \<in> L" using L(2) e(3) nth_mem [of "unat (map_type e - 1)" memory_types] by (auto simp: memory_types_def)
  then have "string_at (num_bytes ?t) ?t (literal mc ?ty) (chars ?ty)"
    using Cons.prems(1) string_at_mono [of "busy ?t" ?t "literal mc ?ty" "chars ?ty" "num_bytes ?t"]
    by (auto simp: printable_def busy_def)
  then have "renders (string_at (num_bytes ?t) ?t) (chars region_format) [n, ucast (memory_map_entry.map_base e),
      ucast (map_length e), map_type e, literal mc ?ty] (region_line n e)" by (rule renders_region)
  from print_prints [OF Cons.prems(1) L(1) this] obtain st1 where
    1: "print mc region_format [n, ucast (memory_map_entry.map_base e), ucast (map_length e), map_type e, literal mc ?ty] st = Some st1"
    "prints mc L (region_line n e) st st1" by blast
  have "displays (region_line n e) st st1" using 1(2) by (simp add: prints_def)
  then have "map_at st1 (p + 24) (es @ [z])" by (rule map_at_displays [OF _ m])
  moreover have "printable mc L (terminal st1)" "\<forall>e \<in> set es. map_length e \<noteq> 0 \<and> unat (map_type e - 1) < 4"
    using 1(2) Cons.prems(3) by (simp_all add: prints_def)
  ultimately obtain st2 where 2: "display_entries mc (p + 24) (n + 1) st1 = Some st2" "prints mc L (region_lines (n + 1) es) st1 st2"
    using Cons.IH by blast
  have "length memory_types = 4" by (simp add: memory_types_def)
  then have "display_entries mc p n st = Some st2"
    using 1(1) 2(1) e by (subst display_entries.simps) (simp add: is_last_memory_map_entry_def Let_def region_format_def)
  then show ?case using prints_trans [OF 1(2) 2(2)] by simp
qed

subsection \<open>The table of kernel memory\<close>

definition type_code :: "vmb_type \<Rightarrow> u32" where
  "type_code t = (case t of VMB_RESERVED \<Rightarrow> 0 | VMB_MEMORY \<Rightarrow> 1 | VMB_IO_MEMORY \<Rightarrow> 2)"

definition block_format :: string where
  "block_format = ''type = %d, base = 0x%x, length = 0x%x'' @ newline"

definition block_line :: "vmb \<Rightarrow> u8 list" where
  "block_line b = chars ''type = '' @ num10 (type_code (vtype b)) @ chars '', base = 0x'' @ num16 (vbase b) @
     chars '', length = 0x'' @ num16 (vlength b) @ [10]"

definition block_lines :: "vm_state \<Rightarrow> nat list \<Rightarrow> u8 list" where
  "block_lines v is = concat (map (\<lambda>i. block_line (block_at v Kernel_Space i)) is)"

lemma renders_block: "renders R (chars block_format) [type_code (vtype b), vbase b, vlength b] (block_line b)"
proof -
  let ?ps = "[(chars ''type = '', 100, type_code (vtype b), num10 (type_code (vtype b))), (chars '', base = 0x'', 120, vbase b, num16 (vbase b)),
    (chars '', length = 0x'', 120, vlength b, num16 (vlength b))]"
  have "list_all (piece_ok R) ?ps" by (simp add: piece_ok_def base_of_def)
  from renders_pieces [OF this, of "[10]"] show ?thesis by (simp add: block_format_def block_line_def)
qed

lemma kernel_space_lines_run:
  assumes p: "printable mc L (terminal st)" and l: "block_format \<in> L"
  shows "\<exists>st'. kernel_space_lines mc st = Some st' \<and>
    prints mc L (block_lines (vm (tasks st)) [0..<unat (block_count (spaces (vm (tasks st)) Kernel_Space))]) st st'"
proof -
  let ?f = "\<lambda>i r. Option.bind r (\<lambda>st. print mc block_format [type_code (vtype (block_at (vm (tasks st)) Kernel_Space i)),
    vbase (block_at (vm (tasks st)) Kernel_Space i), vlength (block_at (vm (tasks st)) Kernel_Space i)] st)"
  have "\<exists>st'. fold ?f is (Some s) = Some st' \<and> prints mc L (block_lines (vm (tasks s)) is) s st'"
    if "printable mc L (terminal s)" for "is" s
    using that
  proof (induction "is" arbitrary: s)
    case Nil
    then show ?case using prints_refl by (simp add: block_lines_def)
  next
    case (Cons i js)
    obtain t where t: "?f i (Some s) = Some t" "prints mc L (block_line (block_at (vm (tasks s)) Kernel_Space i)) s t"
      using print_prints [OF Cons.prems l renders_block] by auto
    then have pt: "printable mc L (terminal t)" and tt: "tasks t = tasks s" by (simp_all add: prints_def displays_def)
    from Cons.IH [OF pt] obtain u where u: "fold ?f js (Some t) = Some u" "prints mc L (block_lines (vm (tasks s)) js) t u"
      unfolding tt by blast
    have "fold ?f (i # js) (Some s) = Some u" unfolding fold_Cons comp_apply t(1) by (rule u(1))
    moreover have "block_lines (vm (tasks s)) (i # js) = block_line (block_at (vm (tasks s)) Kernel_Space i) @ block_lines (vm (tasks s)) js"
      by (simp only: block_lines_def list.map concat.simps)
    ultimately show ?case using prints_trans [OF t(2) u(2)] by metis
  qed
  from this [OF p] show ?thesis unfolding kernel_space_lines_def Let_def type_code_def block_format_def .
qed

subsection \<open>The greeting\<close>

text \<open>What is shown before the entry of the screen's page is read, and from there on.\<close>

definition greeting :: "u8 \<Rightarrow> u32 \<Rightarrow> memory_map_entry list \<Rightarrow> u32 \<Rightarrow> u32 \<Rightarrow> u8 list" where
  "greeting disk p es dir n = chars ''Welcome to C4 OS!'' @ [10, 10] @
     chars ''Boot disk id ------- '' @ num10 (ucast disk) @ [10] @ chars ''Memory map --------- 0x'' @ num16 p @ [10, 10] @
     region_lines 1 es @ [10] @ chars ''kernel_page_dir = 0x'' @ num16 dir @ [10] @
     chars ''memory_size = '' @ num10 (n div 1024 div 1024) @ chars '' MB'' @ [10]"

definition kernel_memory :: "u32 \<Rightarrow> vm_state \<Rightarrow> u8 list" where
  "kernel_memory dir v = chars ''get_page_info(kernel_page_dir, 0xB8000) = 0x'' @ num16 (fst (get_page_info dir 0xB8000 (phys v))) @ [10, 10] @
     block_lines v [0..<unat (block_count (spaces v Kernel_Space))] @ [10]"

definition start_texts :: "string set" where
  "start_texts = {''Welcome to C4 OS!'' @ newline @ newline, ''Boot disk id ------- %d'' @ newline,
     ''Memory map --------- 0x%x'' @ newline @ newline, region_format, newline, ''kernel_page_dir = 0x%x'' @ newline,
     ''memory_size = %d MB'' @ newline, ''get_page_info(kernel_page_dir, 0xB8000) = 0x%x'' @ newline @ newline, block_format}
     \<union> set memory_types"

lemma print_number:
  assumes p: "printable mc L (terminal st)" and l: "f @ ''%'' @ [c] @ g \<in> L" and f: "37 \<notin> set (chars f)" "37 \<notin> set (chars g)"
    and c: "base_of (of_char c) = Some b"
  shows "\<exists>st'. print mc (f @ ''%'' @ [c] @ g) [a] st = Some st' \<and>
    prints mc L (chars f @ num_str (unat b) (unat a) @ chars g) st st'"
proof -
  let ?ps = "[(chars f, of_char c, a, num_str (unat b) (unat a))]"
  have "list_all (piece_ok R) ?ps" for R using f(1) c by (simp add: piece_ok_def)
  from renders_pieces [OF this f(2)]
  have "renders R (chars (f @ ''%'' @ [c] @ g)) [a] (chars f @ num_str (unat b) (unat a) @ chars g)" for R by simp
  from print_prints [OF p l this] show ?thesis by blast
qed

lemma print_plain:
  assumes "printable mc L (terminal st)" and "f \<in> L" and "37 \<notin> set (chars f)"
  shows "\<exists>st'. print mc f [] st = Some st' \<and> prints mc L (chars f) st st'"
  using print_prints [OF assms(1,2) renders_plain_text [OF assms(3)]] .

text \<open>The two parts of the code that shows it.\<close>

definition greet :: "machine \<Rightarrow> u8 \<Rightarrow> u32 \<Rightarrow> u32 \<Rightarrow> machine_state \<Rightarrow> machine_state option" where
  "greet mc disk a n st = do {
     st \<leftarrow> print mc (''Welcome to C4 OS!'' @ newline @ newline) [] st;
     st \<leftarrow> print mc (''Boot disk id ------- %d'' @ newline) [ucast disk] st;
     st \<leftarrow> print mc (''Memory map --------- 0x%x'' @ newline @ newline) [a] st;
     st \<leftarrow> display_memory_map mc a st;
     st \<leftarrow> print mc (''kernel_page_dir = 0x%x'' @ newline) [kernel_page_dir (tasks st)] st;
     print mc (''memory_size = %d MB'' @ newline) [n div 1024 div 1024] st
   }"

definition show_memory :: "machine \<Rightarrow> machine_state \<Rightarrow> machine_state option" where
  "show_memory mc st =
    (let (e, v) = phys_info (kernel_page_dir (tasks st)) 0xB8000 (vm (tasks st)) in do {
       st \<leftarrow> print mc (''get_page_info(kernel_page_dir, 0xB8000) = 0x%x'' @ newline @ newline) [e] (st\<lparr>tasks := (tasks st)\<lparr>vm := v\<rparr>\<rparr>);
       st \<leftarrow> kernel_space_lines mc st;
       print mc newline [] st
     })"

lemma greeting_run:
  assumes p: "printable mc L (terminal st)" and l: "start_texts \<subseteq> L" and m: "map_at st a (es @ [z])"
    and es: "\<forall>e \<in> set es. map_length e \<noteq> 0 \<and> unat (map_type e - 1) < 4" and z: "map_length z = 0"
  shows "\<exists>st'. greet mc disk a n st = Some st' \<and> prints mc L (greeting disk a es (kernel_page_dir (tasks st)) n) st st'"
proof -
  have L: "''Welcome to C4 OS!'' @ newline @ newline \<in> L" "''Boot disk id ------- '' @ ''%'' @ [CHR ''d''] @ newline \<in> L"
    "''Memory map --------- 0x'' @ ''%'' @ [CHR ''x''] @ newline @ newline \<in> L" "region_format \<in> L" "newline \<in> L"
    "''kernel_page_dir = 0x'' @ ''%'' @ [CHR ''x''] @ newline \<in> L" "''memory_size = '' @ ''%'' @ [CHR ''d''] @ '' MB'' @ newline \<in> L"
    "set memory_types \<subseteq> L" using l by (simp_all add: start_texts_def)
  have b: "base_of (of_char CHR ''d'') = Some 10" "base_of (of_char CHR ''x'') = Some 16" by (simp_all add: base_of_def)
  obtain s1 where 1: "print mc (''Welcome to C4 OS!'' @ newline @ newline) [] st = Some s1"
    "prints mc L (chars (''Welcome to C4 OS!'' @ newline @ newline)) st s1" using print_plain [OF p L(1)] by auto
  have p1: "printable mc L (terminal s1)" using 1(2) by (simp add: prints_def)
  obtain s2 where 2: "print mc (''Boot disk id ------- '' @ ''%'' @ [CHR ''d''] @ newline) [ucast disk] s1 = Some s2"
    "prints mc L (chars ''Boot disk id ------- '' @ num_str (unat (10 :: u8)) (unat (ucast disk :: u32)) @ chars newline) s1 s2"
    using print_number [OF p1 L(2) _ _ b(1)] by auto
  have p2: "printable mc L (terminal s2)" using 2(2) by (simp add: prints_def)
  obtain s3 where 3: "print mc (''Memory map --------- 0x'' @ ''%'' @ [CHR ''x''] @ newline @ newline) [a] s2 = Some s3"
    "prints mc L (chars ''Memory map --------- 0x'' @ num_str (unat (16 :: u8)) (unat a) @ chars (newline @ newline)) s2 s3"
    using print_number [OF p2 L(3) _ _ b(2)] by auto
  have p3: "printable mc L (terminal s3)" using 3(2) by (simp add: prints_def)
  note to3 = prints_trans [OF 1(2) prints_trans [OF 2(2) 3(2)]]
  then have "map_at s3 a (es @ [z])" using map_at_displays [OF _ m] by (auto simp: prints_def)
  from display_entries_run [OF p3 this es z L(4,8)] obtain s4 where
    4: "display_entries mc a 1 s3 = Some s4" "prints mc L (region_lines 1 es) s3 s4" by blast
  have p4: "printable mc L (terminal s4)" using 4(2) by (simp add: prints_def)
  obtain s5 where 5: "print mc newline [] s4 = Some s5" "prints mc L (chars newline) s4 s5" using print_plain [OF p4 L(5)] by auto
  have p5: "printable mc L (terminal s5)" using 5(2) by (simp add: prints_def)
  note to5 = prints_trans [OF to3 prints_trans [OF 4(2) 5(2)]]
  then have d: "kernel_page_dir (tasks s5) = kernel_page_dir (tasks st)" by (simp add: prints_def displays_def)
  obtain s6 where 6: "print mc (''kernel_page_dir = 0x'' @ ''%'' @ [CHR ''x''] @ newline) [kernel_page_dir (tasks st)] s5 = Some s6"
    "prints mc L (chars ''kernel_page_dir = 0x'' @ num_str (unat (16 :: u8)) (unat (kernel_page_dir (tasks st))) @ chars newline) s5 s6"
    using print_number [OF p5 L(6) _ _ b(2)] by auto
  have p6: "printable mc L (terminal s6)" using 6(2) by (simp add: prints_def)
  obtain s7 where 7: "print mc (''memory_size = '' @ ''%'' @ [CHR ''d''] @ '' MB'' @ newline) [n div 1024 div 1024] s6 = Some s7"
    "prints mc L (chars ''memory_size = '' @ num_str (unat (10 :: u8)) (unat (n div 1024 div 1024)) @ chars ('' MB'' @ newline)) s6 s7"
    using print_number [OF p6 L(7) _ _ b(1)] by auto
  have "prints mc L (greeting disk a es (kernel_page_dir (tasks st)) n) st s7"
    using prints_trans [OF to5 prints_trans [OF 6(2) 7(2)]] by (simp add: greeting_def)
  then show ?thesis using 1(1) 2(1) 3(1) 4(1) 5(1) 6(1) 7(1) d by (intro exI [of _ s7]) (simp add: greet_def display_memory_map_def)
qed

text \<open>Reading an entry moves the window at \<^verbatim>\<open>TEMP_PAGE\<close> only.\<close>

lemma page_info_again: "get_page_info d a (snd (get_page_info d a s)) = get_page_info d a s"
  by (simp add: get_page_info_def Let_def)

lemma page_info_heap:
  assumes "heap_ok v k bs f"
  shows "heap_ok (v\<lparr>phys := snd (get_page_info d a (phys v))\<rparr>) k bs f"
proof -
  have "free_list (phys v) bs" using heap_ok_use [OF assms] by simp
  then have "free_list (snd (get_page_info d a (phys v))) bs" "ram (snd (get_page_info d a (phys v))) = ram (phys v)"
    by (simp_all add: get_page_info_def Let_def)
  then show ?thesis by (intro heap_ok_phys [OF assms]) simp_all
qed

lemma kernel_memory_run:
  assumes p: "printable mc L (terminal st)" and l: "start_texts \<subseteq> L" and d: "kernel_page_dir (tasks st) = d"
  shows "\<exists>st'. show_memory mc st = Some st' \<and> vm (tasks st') = (vm (tasks st))\<lparr>phys := snd (get_page_info d 0xB8000 (phys (vm (tasks st))))\<rparr> \<and>
     prints mc L (kernel_memory d (vm (tasks st'))) (st\<lparr>tasks := (tasks st)\<lparr>vm := vm (tasks st')\<rparr>\<rparr>) st'"
proof -
  have L: "''get_page_info(kernel_page_dir, 0xB8000) = 0x'' @ ''%'' @ [CHR ''x''] @ newline @ newline \<in> L" "block_format \<in> L" "newline \<in> L"
    using l by (simp_all add: start_texts_def)
  have b: "base_of (of_char CHR ''x'') = Some 16" by (simp add: base_of_def)
  obtain e q where e: "get_page_info d 0xB8000 (phys (vm (tasks st))) = (e, q)" by fastforce
  let ?v = "(vm (tasks st))\<lparr>phys := q\<rparr>"
  let ?s = "st\<lparr>tasks := (tasks st)\<lparr>vm := ?v\<rparr>\<rparr>"
  have again: "fst (get_page_info d 0xB8000 q) = e" using page_info_again [of d "0xB8000" "phys (vm (tasks st))"] e by simp
  have ps: "printable mc L (terminal ?s)" using p by simp
  obtain s1 where 1: "print mc (''get_page_info(kernel_page_dir, 0xB8000) = 0x'' @ ''%'' @ [CHR ''x''] @ newline @ newline) [e] ?s = Some s1"
    "prints mc L (chars ''get_page_info(kernel_page_dir, 0xB8000) = 0x'' @ num_str (unat (16 :: u8)) (unat e) @ chars (newline @ newline)) ?s s1"
    using print_number [OF ps L(1) _ _ b] by auto
  have p1: "printable mc L (terminal s1)" and t1: "vm (tasks s1) = ?v" using 1(2) by (simp_all add: prints_def displays_def)
  from kernel_space_lines_run [OF p1 L(2)] obtain s2 where 2: "kernel_space_lines mc s1 = Some s2"
    "prints mc L (block_lines ?v [0..<unat (block_count (spaces ?v Kernel_Space))]) s1 s2" unfolding t1 by blast
  have p2: "printable mc L (terminal s2)" using 2(2) by (simp add: prints_def)
  obtain s3 where 3: "print mc newline [] s2 = Some s3" "prints mc L (chars newline) s2 s3" using print_plain [OF p2 L(3)] by auto
  have k: "prints mc L (kernel_memory d ?v) ?s s3"
    using prints_trans [OF 1(2) prints_trans [OF 2(2) 3(2)]] again by (simp add: kernel_memory_def)
  then have "vm (tasks s3) = ?v" by (simp add: prints_def displays_def)
  then show ?thesis using 1(1) 2(1) 3(1) k e d by (intro exI [of _ s3]) (simp add: show_memory_def phys_info_def)
qed

subsection \<open>The cleared screen\<close>

definition blank_screen :: "nat \<Rightarrow> u8 \<Rightarrow> screen" where
  "blank_screen n attr = (replicate n (32, attr), 0)"

lemma clear_screen_blank:
  assumes d: "dims_ok st"
  shows "screen_of (clear_screen st) = blank_screen (W st * H st) (text_attr st)"
proof -
  let ?n = "tty_width st * tty_height st"
  define t where "t = st\<lparr>tty_mem := memset_word (tty_buffer st) (blank_cell (text_attr st)) ?n (tty_mem st)\<rparr>"
  have c: "clear_screen st = move_cursor 0 t" by (simp add: clear_screen_def t_def Let_def)
  have dt: "dims_ok t" using d by (simp add: t_def dims_ok_def)
  note z = dims_size [OF d]
  have e: "even (unat ?n)" "2 * unat ?n < 2 ^ 32" using d z(5) unfolding z(1) by (simp_all add: dims_ok_def)
  have m: "tty_mem t (tty_buffer t + of_nat k) = (if even k then 32 else text_attr st)" if "k < 2 * (W st * H st)" for k
  proof -
    have "k < 2 ^ 32" using that e(2) unfolding z(1) by linarith
    then have "unat (tty_buffer st + of_nat k - tty_buffer st) = k" by (rule offset_of_nat)
    then show ?thesis using memset_blank [OF e, of "tty_buffer st" "text_attr st" "tty_mem st"] that unfolding z(1) by (simp add: t_def)
  qed
  have "cell_at t i = (32, text_attr st)" if "i < W st * H st" for i
    using m [of "2 * i"] m [of "2 * i + 1"] that by (simp add: cell_at_def)
  then have "fst (screen_of t) = replicate (W st * H st) (32, text_attr st)"
    by (intro nth_equalityI) (simp_all add: screen_of_def t_def)
  moreover have "0 < W st * H st" using d by (simp add: dims_ok_def)
  ultimately show ?thesis unfolding c move_cursor_screen [OF dt]
    by (simp add: blank_screen_def term_move_def t_def)
qed

text \<open>The screen set to an attribute and cleared.\<close>

lemma clear_run:
  fixes c :: u8
  assumes p: "printable mc L t"
  defines "t' \<equiv> clear_screen (set_text_attr c t)"
  shows "printable mc L t'" "screen_of t' = blank_screen (W t * H t) c" "text_attr t' = c" "W t' = W t" "H t' = H t"
    and "busy t' = busy t" "off_screen t' = off_screen t" "\<And>x. off_screen t x \<Longrightarrow> tty_mem t' x = tty_mem t x"
    and "same_tty t t'"
proof -
  let ?s = "set_text_attr c t"
  have d: "dims_ok ?s" using p by (simp add: printable_def tty_ok_def dims_ok_def set_text_attr_def)
  show s: "same_tty t t'"
    using clear_screen_ok(2) [OF d] by (simp add: t'_def same_tty_def set_text_attr_def)
  show o: "off_screen t' = off_screen t" by (rule same_ttyD(2) [OF s])
  show b: "busy t' = busy t" "W t' = W t" "H t' = H t" using s by (simp_all add: same_tty_def busy_def num_bytes_def)
  have os: "off_screen ?s = off_screen t" by (simp add: off_screen_def set_text_attr_def fun_eq_iff)
  show m: "tty_mem t' x = tty_mem t x" if "off_screen t x" for x
    using clear_screen_ok(3) [OF d, of x] that unfolding os by (simp add: t'_def set_text_attr_def)
  show "screen_of t' = blank_screen (W t * H t) c"
    unfolding t'_def clear_screen_blank [OF d] by (simp add: set_text_attr_def)
  show "text_attr t' = c" by (simp add: t'_def clear_screen_def set_text_attr_def Let_def)
  have "string_at (busy t') t' a s" if "string_at (busy t) t a s" for a s
    using that unfolding b by (rule string_at_same) (use that in \<open>simp_all add: o m string_at_def readable_def\<close>)
  moreover have "tty_ok t'" unfolding t'_def by (rule clear_screen_ok(1) [OF d])
  moreover have "num_bytes t' = num_bytes t" using s by (simp add: same_tty_def num_bytes_def)
  ultimately show "printable mc L t'" using p unfolding printable_def o b(1) by simp
qed

text \<open>The map in memory is as it was.\<close>

lemma map_at_clear:
  assumes "map_at st p es" and "off_screen (terminal st') = off_screen (terminal st)" and "busy (terminal st') = busy (terminal st)"
    and "\<And>x. off_screen (terminal st) x \<Longrightarrow> memory_of st' x = memory_of st x"
  shows "map_at st' p es"
proof -
  have "entry_in (memory_of st') (p + of_nat (24 * k)) = entry_in (memory_of st) (p + of_nat (24 * k))" if "k < length es" for k
  proof (rule entry_in_cong)
    fix i :: nat assume "i < 24"
    then have "24 * k + i < 24 * length es" using that by simp
    then have "off_screen (terminal st) (p + of_nat (24 * k + i))" using assms(1) unfolding map_at_def readable_def by blast
    from assms(4) [OF this] show "memory_of st' (p + of_nat (24 * k) + of_nat i) = memory_of st (p + of_nat (24 * k) + of_nat i)"
      by (simp add: add.assoc)
  qed
  then show ?thesis using assms(1-3) by (simp add: map_at_def readable_def)
qed

end
