(* ===== verification/Kernel_Start.thy ===== *)
theory Kernel_Start
  imports Greeting
begin

text \<open>
  The start of the kernel as a whole, \<^verbatim>\<open>kernel_main\<close> up to its loop: memory, interrupts, multitasking, the
  terminal and the drive, one after the other on the machine the boot loader leaves, and the screen of
  greetings, with the memory map and the table of kernel memory.
\<close>

section \<open>The drive\<close>

text \<open>Told the driver's timings and then to recalibrate, and asked for its interrupt status, the controller
  reports cylinder 0.\<close>

definition recalibrates :: "hardware \<Rightarrow> bool" where
  "recalibrates hw \<longleftrightarrow> (\<forall>log ws d. writes_to {0x3f5} log = ws @ commands [3, 0x30, 32, 7, d] \<longrightarrow> says_cylinder hw log 0)"

lemma calibrate_step:
  assumes hw: "responsive hw" "recalibrates hw" and irq: "\<not> irq_received st" and d: "current_drive st < 4"
    and t: "unat (pit_ticks st) + 40 < 2 ^ 32" and ws: "filter (\<lambda>w. fst w = 0x3f5) (told st) = ws @ commands [3, 0x30, 32]"
  shows "\<exists>st'. flpydsk_calibrate hw (current_drive st) st = Some (0, st') \<and>
    step_to ([(0x3f2, motor_on (current_drive st))] @ commands [7, current_drive st, 8] @ [(0x3f2, 4)]) 40 st st'"
proof -
  let ?d = "current_drive st"
  obtain a where a: "flpydsk_control_motor hw True st = Some a" "step_to [(0x3f2, motor_on ?d)] 20 st a"
    using motor_step [OF hw(1) d, of True] t by auto
  define b where "b = fold (flpydsk_send_command hw) [7, ?d] a"
  have b: "step_to (commands [7, ?d]) 0 a b" unfolding b_def by (rule sends_step [OF hw(1)])
  obtain e where e: "flpydsk_wait_irq hw b = Some e" "step_to [] 0 b e"
    using wait_step [OF hw(1), of b] step_irq [OF step_trans [OF a(2) b]] irq by auto
  have "writes_to {0x3f5} (io_log e) = ws @ commands [3, 0x30, 32, 7, ?d]"
    using step_told [OF step_trans [OF a(2) step_trans [OF b e(2)]]] ws unfolding writes_to_fifo told_def [symmetric]
    by (simp add: commands_def)
  then have "says_cylinder hw (io_log e) 0" using hw(2) unfolding recalibrates_def by blast
  then obtain st0 f where f: "flpydsk_check_int hw e = (st0, 0, f)" "step_to (commands [8]) 0 e f"
    using check_int_step [OF hw(1), of e 0] by auto
  have s: "step_to ([(0x3f2, motor_on ?d)] @ commands [7, ?d] @ [] @ commands [8]) 20 st f"
    using step_trans [OF a(2) step_trans [OF b step_trans [OF e(2) f(2)]]] by simp
  then have g0: "current_drive f < 4" "unat (pit_ticks f) + 20 < 2 ^ 32" using d t by (auto simp: step_to_def)
  obtain g where g: "flpydsk_control_motor hw False f = Some g" "step_to [(0x3f2, 4)] 20 f g"
    using motor_step [OF hw(1) g0, of False] by auto
  have "\<not> 4 \<le> ?d" using d by (simp add: not_le)
  then have "flpydsk_calibrate hw ?d st = calibrate_loop 10 hw ?d a"
    using a(1) by (simp add: flpydsk_calibrate_def)
  also have "\<dots> = Some (0, g)"
    using e(1) f(1) g(1) by (simp add: numeral_eq_Suc b_def)
  finally show ?thesis using step_trans [OF s g(2)] by (auto simp: commands_append)
qed

text \<open>What the start of the driver tells the devices.\<close>

definition start_session :: "(u16 \<times> u8) list" where
  "start_session = reset_commands @ commands [3, 0x30, 32] @ [(0x3f2, motor_on 0)] @ commands [7, 0, 8] @ [(0x3f2, 4)]"

lemma init_floppy_run:
  assumes hw: "responsive hw" "recalibrates hw" and irq: "\<not> irq_received st" and t: "unat (pit_ticks st) + 40 < 2 ^ 32"
  shows "\<exists>f es. init_floppy hw st = Some f \<and> io_log f = io_log st @ es \<and> writes_to device_ports es = start_session \<and>
    current_drive f = 0 \<and> DMA_BUFFER f = 0x20000 \<and> \<not> irq_received f \<and> unat (pit_ticks f) = unat (pit_ticks st) + 40"
proof -
  define s0 where "s0 = flpydsk_set_working_drive 0 st"
  have s0: "current_drive s0 = 0" "io_log s0 = io_log st" "irq_received s0 = irq_received st" "pit_ticks s0 = pit_ticks st"
    by (simp_all add: s0_def flpydsk_set_working_drive_def)
  obtain a where a: "flpydsk_reset hw s0 = Some a" "step_to reset_commands 0 s0 a"
    using reset_step [OF hw(1), of s0] s0(3) irq by auto
  define b where "b = flpydsk_write_ccr 0 a"
  have b: "step_to [] 0 a b" by (simp add: b_def flpydsk_write_ccr_def outb_def step_to_def device_ports_def)
  define c where "c = flpydsk_drive_data hw 3 16 240 True b"
  have "c = fold (flpydsk_send_command hw) [3, 0x30, 32] b" by (simp add: c_def flpydsk_drive_data_def Let_def)
  then have c: "step_to (commands [3, 0x30, 32]) 0 b c" using sends_step [OF hw(1), of "[3, 0x30, 32]" b] by simp
  note abc = step_trans [OF a(2) step_trans [OF b c]]
  then have c0: "\<not> irq_received c" "current_drive c < 4" "unat (pit_ticks c) + 40 < 2 ^ 32" "current_drive c = 0"
    using s0 irq t by (auto simp: step_to_def)
  have "filter (\<lambda>w. fst w = 0x3f5) (told c) = filter (\<lambda>w. fst w = 0x3f5) (told b) @ commands [3, 0x30, 32]"
    using step_told [OF c] by (simp add: commands_def)
  note c0' = c0(1-3) this
  obtain d where d: "flpydsk_calibrate hw (current_drive c) c = Some (0, d)"
    "step_to ([(0x3f2, motor_on 0)] @ commands [7, 0, 8] @ [(0x3f2, 4)]) 40 c d"
    using calibrate_step [OF hw c0'] c0(4) by auto
  have "init_floppy hw st = Some (flpydsk_set_dma 0x20000 d)"
    using a(1) d(1) by (simp add: init_floppy_def flpydsk_install_def Let_def s0_def b_def c_def)
  moreover have "step_to start_session 40 s0 d"
    using step_trans [OF abc d(2)] by (simp add: start_session_def)
  ultimately show ?thesis
    using s0 irq t by (auto simp: step_to_def flpydsk_set_dma_def)
qed

lemma start_devices: "fold (device_write img) start_session (d, m) = (d\<lparr>fifo := []\<rparr>, m)"
  by (simp add: start_session_def reset_commands_def commands_def device_write_def command_length_def)

lemma on_floppy_rest [simp]:
  "idt (on_floppy f st) = idt st" "idt_base (on_floppy f st) = idt_base st" "idt_limit (on_floppy f st) = idt_limit st"
  "io_log (on_floppy f st) = io_log (f (floppy.truncate st))"
  by (cases st; cases "f (floppy.truncate st)"; simp add: on_floppy_def floppy.defs)+

lemma init_drive_run:
  assumes hw: "responsive (board mc)" "recalibrates (board mc)" and irq: "\<not> irq_received st"
    and t: "unat (pit_ticks st) + 40 * Suc n < 2 ^ 32"
  shows "\<exists>f. init_floppy (board mc) (floppy.truncate st) = Some f \<and> terminal (drive_acts mc f st) = terminal st \<and>
    tasks (drive_acts mc f st) = tasks st \<and> keys (drive_acts mc f st) = keys st \<and>
    ready n (drive_acts mc f st) \<and> DMA_BUFFER (drive_acts mc f st) = 0x20000 \<and>
    idt (drive_acts mc f st) = idt st \<and> idt_base (drive_acts mc f st) = idt_base st \<and> idt_limit (drive_acts mc f st) = idt_limit st \<and>
    (\<exists>es. io_log (drive_acts mc f st) = io_log st @ es \<and> writes_to device_ports es = start_session)"
proof -
  obtain f es where f: "init_floppy (board mc) (floppy.truncate st) = Some f" "io_log f = io_log st @ es"
    "writes_to device_ports es = start_session" "current_drive f = 0" "DMA_BUFFER f = 0x20000" "\<not> irq_received f"
    "unat (pit_ticks f) = unat (pit_ticks st) + 40"
    using init_floppy_run [OF hw, of "floppy.truncate st"] irq t by auto
  have "drive_acts mc f st = (on_floppy (\<lambda>_. f) st)\<lparr>devices := (devices st)\<lparr>fifo := []\<rparr>\<rparr>"
    using start_devices [of "diskette mc" "devices st" "memory_of st"] f(2,3)
    by (simp add: drive_acts_def device_step_fold)
  then show ?thesis using f t by (simp add: ready_def)
qed

section \<open>From the memory manager to the terminal\<close>

text \<open>The interrupts are set up: the table is the first page of kernel memory, with its gates.\<close>

definition interrupts_up :: "(nat \<Rightarrow> u32) \<Rightarrow> 'a kernel_state_scheme \<Rightarrow> bool" where
  "interrupts_up hs st \<longleftrightarrow> gates_set hs (idt st) \<and> idt_base st = heap_page 0 \<and> idt_limit st = 256 * 8"


text \<open>Kernel memory after the start: the pages 0 of the interrupt table, 1 to 4 of multitasking and 5 of the
  terminal, over the frames of the region \<open>e\<close>.\<close>

lemma core_run:
  assumes b: "boot_tables (ph (tasks k)) dir" and m: "one_region mm e" "range_ok (first_frame e) (frames e)" "0x100000 \<le> unat (first_frame e)"
    and n: "8 \<le> unat (frames e)" and lay: "layout_ok lay" and unl: "\<not> as_mutex (spaces (vm (tasks k)) Kernel_Space)"
  shows "\<exists>v ki t w bs f. init_memory_manager lay dir mm (vm (tasks k)) = Some (0x100000 + ucast (map_length e), v) \<and>
    init_interrupts hs (k\<lparr>tasks := (tasks k)\<lparr>vm := v, kernel_page_dir := dir\<rparr>\<rparr>) = Some ki \<and>
    init_multitasking (tasks ki) = Some t \<and>
    alloc_virt_pages Kernel_Space 0 0xB8000 1 (PAGE_PRESENT OR PAGE_WRITABLE) (vm t) = Some (heap_page 5, w) \<and>
    heap_ok w 6 bs f \<and> unat (frames e) = total_pages bs + 8 \<and> page_dir (spaces w Kernel_Space) = dir \<and>
    (\<forall>sp. sp \<noteq> Kernel_Space \<longrightarrow> spaces w sp = spaces (vm t) sp) \<and> started (tasks ki) 1 t \<and>
    rings (tasks ki) = rings (tasks k) \<and> kernel_page_dir (tasks ki) = dir \<and>
    (\<forall>sp. sp \<noteq> Kernel_Space \<longrightarrow> spaces (vm (tasks ki)) sp = spaces (vm (tasks k)) sp) \<and>
    terminal ki = terminal k \<and> keys ki = keys k \<and> irq_received ki = irq_received k \<and> pit_ticks ki = pit_ticks k \<and>
    interrupts_up hs ki \<and> (\<exists>es. io_log ki = io_log k @ es \<and> writes_to device_ports es = pic_writes)"
proof -
  have "2 \<le> unat (frames e)" using n by simp
  from memory_manager_run [OF b m this lay unl] obtain v b1 where
    1: "init_memory_manager lay dir mm (vm (tasks k)) = Some (0x100000 + ucast (map_length e), v)" "heap_new v b1"
    "unat (frames e) = total_pages b1 + 2" "page_dir (spaces v Kernel_Space) = dir"
    "\<forall>sp. sp \<noteq> Kernel_Space \<longrightarrow> spaces v sp = spaces (vm (tasks k)) sp" by blast
  have "2 \<le> total_pages b1" using 1(3) n by simp
  from heap_first [OF 1(2) this, of "PAGE_PRESENT OR PAGE_WRITABLE OR PAGE_GLOBAL"] obtain f v2 b2 where
    2: "alloc_virt_pages Kernel_Space 0 (- 1) 1 (PAGE_PRESENT OR PAGE_WRITABLE OR PAGE_GLOBAL) v = Some (heap_page 0, v2)"
    "heap_ok v2 1 b2 f" "total_pages b1 = total_pages b2 + 2" "\<forall>sp. sp \<noteq> Kernel_Space \<longrightarrow> spaces v2 sp = spaces v sp"
    "page_dir (spaces v2 Kernel_Space) = page_dir (spaces v Kernel_Space)" by blast
  let ?k = "k\<lparr>tasks := (tasks k)\<lparr>vm := v, kernel_page_dir := dir\<rparr>\<rparr>"
  have "task_alloc_virt Kernel_Space 0 1 (PAGE_PRESENT OR PAGE_WRITABLE OR PAGE_GLOBAL) (tasks ?k) = Some (heap_page 0, (tasks ?k)\<lparr>vm := v2\<rparr>)"
    using 2(1) by (simp add: task_alloc_virt_def)
  from init_interrupts_run [OF this, of hs] obtain d es where
    i: "init_interrupts hs ?k = Some (?k\<lparr>tasks := (tasks ?k)\<lparr>vm := v2\<rparr>, io_log := io_log ?k @ es, idt := d, idt_limit := 256 * 8,
      idt_base := heap_page 0, irq_base := 0x20, irq_count := 16\<rparr>)" "writes_to device_ports es = pic_writes" "gates_set hs d" by blast
  then obtain ki where
    3: "init_interrupts hs ?k = Some ki" "tasks ki = (tasks ?k)\<lparr>vm := v2\<rparr>" "terminal ki = terminal ?k" "keys ki = keys ?k"
    "irq_received ki = irq_received ?k" "pit_ticks ki = pit_ticks ?k" "interrupts_up hs ki"
    "\<exists>es. io_log ki = io_log ?k @ es \<and> writes_to device_ports es = pic_writes" by (simp add: interrupts_up_def)
  have "heap_ok (vm (tasks ki)) 1 b2 f" "(1 :: nat) + 4 \<le> 340" "4 \<le> total_pages b2" using 3(2) 2(2,3) 1(3) n by simp_all
  from init_multitasking_run [OF this] obtain t b3 where
    4: "init_multitasking (tasks ki) = Some t" "started (tasks ki) 1 t" "took (vm (tasks ki)) (vm t) 1 4 b2 b3 f" by blast
  have h: "heap_ok (vm t) 5 b3 f" "(5 :: nat) < 340" "(0xB8000 :: u32) \<noteq> - 1" using took_heap [OF 4(3)] by simp_all
  from heap_given [OF h, of "PAGE_PRESENT OR PAGE_WRITABLE"] obtain w where
    5: "alloc_virt_pages Kernel_Space 0 0xB8000 1 (PAGE_PRESENT OR PAGE_WRITABLE) (vm t) = Some (heap_page 5, w)"
    "heap_ok w (5 + 1) b3 f" "\<forall>sp. sp \<noteq> Kernel_Space \<longrightarrow> spaces w sp = spaces (vm t) sp"
    "page_dir (spaces w Kernel_Space) = page_dir (spaces (vm t) Kernel_Space)" by blast
  have "page_dir (spaces w Kernel_Space) = dir"
    using 5(4) 4(3) 3(2) 2(5) 1(4) by (simp add: took_def)
  moreover have "unat (frames e) = total_pages b3 + 8" using 1(3) 2(3) 4(3) by (simp add: took_def)
  ultimately show ?thesis
    using 1(1,5) 2(4) 3 4(1,2) 5(1-3)
    by (intro exI [of _ v] exI [of _ ki] exI [of _ t] exI [of _ w] exI [of _ b3] exI [of _ f]) simp
qed

section \<open>The start of the kernel\<close>

text \<open>The memory map in memory: its entries \<open>es\<close>, of which \<open>e\<close> is the usable one, and the entry that ends it.\<close>

definition memory_map_ok :: "memory_map_entry list \<Rightarrow> memory_map_entry \<Rightarrow> memory_map_entry \<Rightarrow> bool" where
  "memory_map_ok es e z \<longleftrightarrow> filter usable es = [e] \<and>
     (\<forall>x \<in> set es. map_length x \<noteq> 0 \<and> 1 \<le> unat (map_type x) \<and> unat (map_type x) \<le> 4) \<and>
     map_type z = 0 \<and> map_length z = 0 \<and> range_ok (first_frame e) (frames e) \<and> 0x100000 \<le> unat (first_frame e)"

lemma memory_map_region:
  assumes m: "memory_map_ok es e z" and a: "map_at st p (es @ [z])"
  shows "one_region (\<lambda>k. entry_in (memory_of st) (p + of_nat (24 * k))) e"
proof -
  obtain us vs where es: "es = us @ e # vs" "\<forall>u \<in> set us. \<not> usable u" "usable e" "filter usable vs = []"
    using m by (auto simp: memory_map_ok_def filter_eq_Cons_iff)
  have v: "\<forall>u \<in> set vs. \<not> usable u" using es(4) by (simp add: filter_empty_conv)
  let ?mm = "\<lambda>k. entry_in (memory_of st) (p + of_nat (24 * k))"
  have mm: "?mm k = (es @ [z]) ! k" if "k \<le> length es" for k using a that by (simp add: map_at_def)
  have u: "usable (es ! k) \<longleftrightarrow> k = length us" if "k < length es" for k
    using es(2,3) v that unfolding es(1) by (auto simp: nth_append nth_Cons split: nat.splits)
  have "map_type (?mm k) \<noteq> 0 \<and> (usable (?mm k) \<longleftrightarrow> k = length us)" if "k < length es" for k
  proof -
    have "es ! k \<in> set es" using that by simp
    then have "1 \<le> unat (map_type (es ! k))" using m by (simp add: memory_map_ok_def)
    then have "map_type (es ! k) \<noteq> 0" by (metis unat_0 not_one_le_zero)
    then show ?thesis using mm [of k] u that by (simp add: nth_append)
  qed
  moreover have "map_type (?mm (length es)) = 0" using m mm [of "length es"] by (simp add: memory_map_ok_def)
  moreover have "?mm (length us) = e" using mm [of "length us"] by (simp add: es(1) nth_append)
  ultimately show ?thesis unfolding one_region_def
    by (intro exI [of _ "length es"] exI [of _ "length us"]) (simp add: es(1))
qed

lemma type_index: "1 \<le> unat (t :: u32) \<Longrightarrow> unat t \<le> 4 \<Longrightarrow> unat (t - 1) < 4"
  by (simp add: unat_sub word_le_nat_alt)

text \<open>The terminal as \<^verbatim>\<open>init_tty\<close> sets it up.\<close>

definition boot_terminal :: "tty \<Rightarrow> tty" where
  "boot_terminal t = t\<lparr>tty_buffer := heap_page 5, tty_width := ucast (load16 0x44A (tty_mem t)), tty_height := 25,
     tty_io_port := load16 0x463 (tty_mem t), cursor := 0, text_attr := 7\<rparr>"

text \<open>The kernel after its start: its pages and frames, its process and its thread, and the drive.\<close>

definition kernel_up :: "nat \<Rightarrow> u32 \<Rightarrow> memory_map_entry \<Rightarrow> machine_state \<Rightarrow> bool" where
  "kernel_up n dir e st \<longleftrightarrow> (\<exists>bs f. heap_ok (vm (tasks st)) 6 bs f \<and> unat (frames e) = total_pages bs + 8) \<and>
     page_dir (spaces (vm (tasks st)) Kernel_Space) = dir \<and> kernel_page_dir (tasks st) = dir \<and>
     list_holds (rings (tasks st)) process_list [heap_page 1] \<and> list_holds (rings (tasks st)) thread_list [heap_page 4] \<and>
     current_thread (tasks st) = heap_page 4 \<and> multitasking_enabled (tasks st) \<and> ready n st \<and> DMA_BUFFER st = 0x20000"

text \<open>What the boot loader leaves for \<open>start_kernel\<close>.\<close>

definition bootable :: "nat \<Rightarrow> machine \<Rightarrow> boot_info \<Rightarrow> memory_map_entry \<Rightarrow> machine_state \<Rightarrow> bool" where
  "bootable n mc b e st \<longleftrightarrow> boot_tables (ph (tasks st)) (boot_cr3 b) \<and> layout_ok (layout b) \<and> 8 \<le> unat (frames e) \<and>
     \<not> as_mutex (spaces (vm (tasks st)) Kernel_Space) \<and>
     (\<forall>j \<in> {1, 4}. item_list (items (rings (tasks st)) (heap_page j)) = 0) \<and>
     responsive (board mc) \<and> recalibrates (board mc) \<and> \<not> irq_received st \<and> unat (pit_ticks st) + 40 * Suc n < 2 ^ 32"

lemma truncate_tasks [simp]:
  "kernel_state.truncate (st\<lparr>tasks := t\<rparr>) = (kernel_state.truncate st)\<lparr>tasks := t\<rparr>"
  "tasks (kernel_state.truncate st) = tasks st" "keys (kernel_state.truncate st) = keys st"
  "irq_received (kernel_state.truncate st) = irq_received st" "pit_ticks (kernel_state.truncate st) = pit_ticks st"
  "tasks (kernel_state.extend k m) = tasks k" "terminal (kernel_state.extend k m) = terminal k"
  "keys (kernel_state.extend k m) = keys k" "irq_received (kernel_state.extend k m) = irq_received k"
  "pit_ticks (kernel_state.extend k m) = pit_ticks k" "io_log (kernel_state.truncate st) = io_log st"
  "io_log (kernel_state.extend k m) = io_log k" "interrupts_up hs (kernel_state.extend k m) = interrupts_up hs k"
  by (cases st; cases k; simp add: kernel_state.defs interrupts_up_def)+

lemma start_kernel_parts:
  "start_kernel mc b disk p st = do {
     (n, v) \<leftarrow> init_memory_manager (layout b) (boot_cr3 b) (\<lambda>k. entry_in (memory_of st) (p + of_nat (24 * k))) (vm (tasks st));
     k \<leftarrow> init_interrupts (irq_handlers b) ((kernel_state.truncate st)\<lparr>tasks := (tasks st)\<lparr>vm := v, kernel_page_dir := boot_cr3 b\<rparr>\<rparr>);
     t \<leftarrow> init_multitasking (tasks k);
     (v, tt) \<leftarrow> init_tty (vm t) (terminal k);
     let st = (kernel_state.extend k (kernel_state.more st))\<lparr>tasks := t\<lparr>vm := v\<rparr>, terminal := tt\<rparr>;
     f \<leftarrow> init_floppy (board mc) (floppy.truncate st);
     let st = drive_acts mc f st;
     st \<leftarrow> greet mc disk p n (st\<lparr>terminal := clear_screen (set_text_attr 63 (terminal st))\<rparr>);
     show_memory mc st
   }"
proof -
  have m: "kernel_state.more (st\<lparr>tasks := t\<rparr>) = kernel_state.more st" for t by (cases st) simp
  show ?thesis
    unfolding start_kernel_def greet_def show_memory_def Let_def Option.bind_assoc truncate_tasks m
    by (simp only: split_def Option.bind_assoc)
qed

text \<open>What is on the screen after the start.\<close>

definition start_screen :: "u8 \<Rightarrow> u32 \<Rightarrow> memory_map_entry list \<Rightarrow> memory_map_entry \<Rightarrow> u32 \<Rightarrow> nat \<Rightarrow> vm_state \<Rightarrow> screen" where
  "start_screen disk p es e dir w v = fold (term_put w 25 63)
     (greeting disk p es dir (0x100000 + ucast (map_length e)) @ kernel_memory dir v) (blank_screen (w * 25) 63)"

lemma started_vm:
  assumes "started st k t" and "\<forall>sp. sp \<noteq> Kernel_Space \<longrightarrow> spaces v sp = spaces (vm t) sp"
  shows "started st k (t\<lparr>vm := v\<rparr>)"
proof -
  have "runnable (t\<lparr>vm := v\<rparr>) x = runnable t x" for x by (simp add: runnable_def)
  then show ?thesis using assms by (simp add: started_def)
qed

lemma show_run:
  assumes p: "printable mc L (terminal st)" and l: "start_texts \<subseteq> L" and a: "map_at st p (es @ [z])" and m: "memory_map_ok es e z"
    and d: "kernel_page_dir (tasks st) = d"
  shows "\<exists>st'. Option.bind (greet mc disk p n st) (show_memory mc) = Some st' \<and> keys st' = keys st \<and> same_driver st st' \<and> same_set_up st st' \<and>
    tasks st' = (tasks st)\<lparr>vm := (vm (tasks st))\<lparr>phys := snd (get_page_info d 0xB8000 (ph (tasks st)))\<rparr>\<rparr> \<and>
    printable mc L (terminal st') \<and>
    wrote (busy (terminal st)) (greeting disk p es d n @ kernel_memory d (vm (tasks st'))) (terminal st) (terminal st')"
proof -
  have "\<forall>x \<in> set es. map_length x \<noteq> 0 \<and> unat (map_type x - 1) < 4" "map_length z = 0"
    using m type_index by (auto simp: memory_map_ok_def)
  from greeting_run [OF p l a this, of disk n] d obtain s1 where
    1: "greet mc disk p n st = Some s1" "prints mc L (greeting disk p es d n) st s1" by blast
  have s1: "printable mc L (terminal s1)" "tasks s1 = tasks st" "keys s1 = keys st" "same_driver st s1" "same_set_up st s1"
    and w1: "wrote (busy (terminal st)) (greeting disk p es d n) (terminal st) (terminal s1)"
    using 1(2) by (simp_all add: prints_def displays_def)
  from kernel_memory_run [OF s1(1) l, of d] s1(2) d obtain s2 where 2: "show_memory mc s1 = Some s2"
    "vm (tasks s2) = (vm (tasks st))\<lparr>phys := snd (get_page_info d 0xB8000 (ph (tasks st)))\<rparr>"
    "prints mc L (kernel_memory d (vm (tasks s2))) (s1\<lparr>tasks := (tasks s1)\<lparr>vm := vm (tasks s2)\<rparr>\<rparr>) s2" by auto
  have s2: "printable mc L (terminal s2)" "tasks s2 = (tasks st)\<lparr>vm := vm (tasks s2)\<rparr>" "keys s2 = keys st" "same_driver s1 s2" "same_set_up s1 s2"
    using 2(3) s1(2,3) by (simp_all add: prints_def displays_def same_driver_def ready_def same_set_up_def)
  have "wrote (busy (terminal st)) (kernel_memory d (vm (tasks s2))) (terminal s1) (terminal s2)"
    using 2(3) wrote_same [OF w1] by (simp add: prints_def displays_def)
  from wrote_append [OF w1 this] show ?thesis
    using 1(1) 2(1) s2 [unfolded 2(2)] 2(2) same_driver_trans [OF s1(4) s2(4)] s1(5)
    by (intro exI [of _ s2]) (simp add: same_set_up_def)
qed

text \<open>The start up to the cleared screen.\<close>

lemma quiet_run:
  assumes b: "bootable n mc b e st" and m: "memory_map_ok es e z"
    and t0: "t0 = boot_terminal (terminal st)" and a: "map_at (st\<lparr>terminal := t0\<rparr>) p (es @ [z])"
  shows "\<exists>s st1 t w bs f. start_kernel mc b disk p st = Option.bind (greet mc disk p (0x100000 + ucast (map_length e)) s) (show_memory mc) \<and>
    terminal s = clear_screen (set_text_attr 63 t0) \<and> keys s = keys st \<and> ready n s \<and> DMA_BUFFER s = 0x20000 \<and>
    tasks s = t\<lparr>vm := w\<rparr> \<and> started st1 1 t \<and> (\<forall>sp. sp \<noteq> Kernel_Space \<longrightarrow> spaces w sp = spaces (vm t) sp) \<and>
    heap_ok w 6 bs f \<and> unat (frames e) = total_pages bs + 8 \<and> page_dir (spaces w Kernel_Space) = boot_cr3 b \<and>
    rings st1 = rings (tasks st) \<and> kernel_page_dir st1 = boot_cr3 b \<and>
    (\<forall>sp. sp \<noteq> Kernel_Space \<longrightarrow> spaces (vm st1) sp = spaces (vm (tasks st)) sp) \<and>
    interrupts_up (irq_handlers b) s \<and> (\<exists>es. io_log s = io_log st @ es \<and> writes_to device_ports es = pic_writes @ start_session)"
proof -
  let ?dir = "boot_cr3 b" and ?k = "kernel_state.truncate st"
  have "one_region (\<lambda>k. entry_in (memory_of (st\<lparr>terminal := t0\<rparr>)) (p + of_nat (24 * k))) e" by (rule memory_map_region [OF m a])
  then have r: "one_region (\<lambda>k. entry_in (memory_of st) (p + of_nat (24 * k))) e" by (simp add: t0 boot_terminal_def)
  have b': "boot_tables (ph (tasks ?k)) ?dir" "range_ok (first_frame e) (frames e)" "0x100000 \<le> unat (first_frame e)"
    "8 \<le> unat (frames e)" "layout_ok (layout b)" "\<not> as_mutex (spaces (vm (tasks ?k)) Kernel_Space)"
    using b m by (simp_all add: bootable_def memory_map_ok_def)
  from core_run [OF b'(1) r b'(2-6), of "irq_handlers b"] obtain v ki t w bs f where
    1: "init_memory_manager (layout b) ?dir (\<lambda>k. entry_in (memory_of st) (p + of_nat (24 * k))) (vm (tasks ?k)) =
      Some (0x100000 + ucast (map_length e), v)"
    "init_interrupts (irq_handlers b) (?k\<lparr>tasks := (tasks ?k)\<lparr>vm := v, kernel_page_dir := ?dir\<rparr>\<rparr>) = Some ki"
    "init_multitasking (tasks ki) = Some t"
    "alloc_virt_pages Kernel_Space 0 0xB8000 1 (PAGE_PRESENT OR PAGE_WRITABLE) (vm t) = Some (heap_page 5, w)"
    "heap_ok w 6 bs f" "unat (frames e) = total_pages bs + 8" "page_dir (spaces w Kernel_Space) = ?dir"
    "\<forall>sp. sp \<noteq> Kernel_Space \<longrightarrow> spaces w sp = spaces (vm t) sp" "started (tasks ki) 1 t" "rings (tasks ki) = rings (tasks ?k)"
    "kernel_page_dir (tasks ki) = ?dir" "\<forall>sp. sp \<noteq> Kernel_Space \<longrightarrow> spaces (vm (tasks ki)) sp = spaces (vm (tasks ?k)) sp"
    "terminal ki = terminal ?k" "keys ki = keys ?k" "irq_received ki = irq_received ?k" "pit_ticks ki = pit_ticks ?k"
    "interrupts_up (irq_handlers b) ki" "\<exists>es. io_log ki = io_log ?k @ es \<and> writes_to device_ports es = pic_writes"
    by (elim exE conjE) (rule that, (assumption | intro exI conjI)+)
  have tty: "init_tty (vm t) (terminal ki) = Some (w, t0)"
    using 1(4,13) by (simp add: init_tty_def t0 boot_terminal_def)
  define s1 where "s1 = (kernel_state.extend ki (kernel_state.more st))\<lparr>tasks := t\<lparr>vm := w\<rparr>, terminal := t0\<rparr>"
  have "\<not> irq_received s1" "unat (pit_ticks s1) + 40 * Suc n < 2 ^ 32" "responsive (board mc)" "recalibrates (board mc)"
    using b 1(15,16) by (simp_all add: s1_def bootable_def)
  from init_drive_run [OF this(3,4,1,2)] obtain fl where 2: "init_floppy (board mc) (floppy.truncate s1) = Some fl"
    "terminal (drive_acts mc fl s1) = t0" "tasks (drive_acts mc fl s1) = t\<lparr>vm := w\<rparr>" "keys (drive_acts mc fl s1) = keys st"
    "ready n (drive_acts mc fl s1)" "DMA_BUFFER (drive_acts mc fl s1) = 0x20000"
    "idt (drive_acts mc fl s1) = idt s1" "idt_base (drive_acts mc fl s1) = idt_base s1" "idt_limit (drive_acts mc fl s1) = idt_limit s1"
    "\<exists>es. io_log (drive_acts mc fl s1) = io_log s1 @ es \<and> writes_to device_ports es = start_session" using 1(14) by (auto simp: s1_def)
  define s where "s = (drive_acts mc fl s1)\<lparr>terminal := clear_screen (set_text_attr 63 t0)\<rparr>"
  have "start_kernel mc b disk p st = Option.bind (greet mc disk p (0x100000 + ucast (map_length e)) s) (show_memory mc)"
    using 1(1-3) tty 2(1,2) unfolding start_kernel_parts by (simp add: s1_def s_def Let_def)
  moreover have "terminal s = clear_screen (set_text_attr 63 t0)" "tasks s = t\<lparr>vm := w\<rparr>" "keys s = keys st"
    "ready n s" "DMA_BUFFER s = 0x20000" using 2 by (simp_all add: s_def ready_def)
  moreover have "interrupts_up (irq_handlers b) (kernel_state.extend ki (kernel_state.more st))" using 1(17) by simp
  then have "interrupts_up (irq_handlers b) s1" by (simp add: s1_def interrupts_up_def)
  then have "interrupts_up (irq_handlers b) s" using 2(7-9) by (simp add: s_def interrupts_up_def)
  moreover have "\<exists>es. io_log s = io_log st @ es \<and> writes_to device_ports es = pic_writes @ start_session"
  proof -
    obtain es fs where "io_log ki = io_log st @ es" "writes_to device_ports es = pic_writes"
      "io_log (drive_acts mc fl s1) = io_log s1 @ fs" "writes_to device_ports fs = start_session" using 1(18) 2(10) by auto
    then show ?thesis by (intro exI [of _ "es @ fs"]) (simp add: s_def s1_def)
  qed
  ultimately show ?thesis using 1(5-9,11) 1(10,12) [unfolded truncate_tasks] by blast
qed

lemma start_run:
  assumes b: "bootable n mc b e st" and m: "memory_map_ok es e z"
    and t0: "t0 = boot_terminal (terminal st)" and a: "map_at (st\<lparr>terminal := t0\<rparr>) p (es @ [z])"
    and pr: "printable mc L t0" and l: "start_texts \<subseteq> L"
  shows "\<exists>st' st1. start_kernel mc b disk p st = Some st' \<and> kernel_up n (boot_cr3 b) e st' \<and> printable mc L (terminal st') \<and>
    screen_of (terminal st') = start_screen disk p es e (boot_cr3 b) (W t0) (vm (tasks st')) \<and> keys st' = keys st \<and>
    same_tty t0 (terminal st') \<and> started st1 1 (tasks st') \<and> rings st1 = rings (tasks st) \<and>
    (\<forall>sp. sp \<noteq> Kernel_Space \<longrightarrow> spaces (vm st1) sp = spaces (vm (tasks st)) sp) \<and>
    interrupts_up (irq_handlers b) st' \<and> (\<exists>es. io_log st' = io_log st @ es \<and> writes_to device_ports es = pic_writes @ start_session)"
proof -
  let ?dir = "boot_cr3 b" and ?n = "0x100000 + ucast (map_length e)"
  from quiet_run [OF b m t0 a, of disk] obtain s st1 t w bs f where
    1: "start_kernel mc b disk p st = Option.bind (greet mc disk p ?n s) (show_memory mc)"
    "terminal s = clear_screen (set_text_attr 63 t0)" "keys s = keys st" "ready n s" "DMA_BUFFER s = 0x20000"
    "tasks s = t\<lparr>vm := w\<rparr>" "started st1 1 t" "\<forall>sp. sp \<noteq> Kernel_Space \<longrightarrow> spaces w sp = spaces (vm t) sp"
    "heap_ok w 6 bs f" "unat (frames e) = total_pages bs + 8" "page_dir (spaces w Kernel_Space) = ?dir"
    "rings st1 = rings (tasks st)" "kernel_page_dir st1 = ?dir"
    "\<forall>sp. sp \<noteq> Kernel_Space \<longrightarrow> spaces (vm st1) sp = spaces (vm (tasks st)) sp" "interrupts_up (irq_handlers b) s"
    "\<exists>es. io_log s = io_log st @ es \<and> writes_to device_ports es = pic_writes @ start_session"
    by (elim exE conjE) (rule that, (assumption | intro exI conjI)+)
  note cl = clear_run [OF pr, where c = 63]
  have "map_at s p (es @ [z])" using cl by (intro map_at_clear [OF a]) (simp_all add: 1(2))
  moreover have "printable mc L (terminal s)" using cl(1) 1(2) by simp
  moreover have "kernel_page_dir (tasks s) = ?dir" using 1(6,7,13) by (simp add: started_def)
  ultimately obtain s4 where 4: "Option.bind (greet mc disk p ?n s) (show_memory mc) = Some s4" "keys s4 = keys s" "same_driver s s4"
    "tasks s4 = t\<lparr>vm := w\<lparr>phys := snd (get_page_info ?dir 0xB8000 (phys w))\<rparr>\<rparr>" "printable mc L (terminal s4)"
    "wrote (busy (terminal s)) (greeting disk p es ?dir ?n @ kernel_memory ?dir (vm (tasks s4))) (terminal s) (terminal s4)" "same_set_up s s4"
    using show_run [of mc L s p es z e ?dir disk ?n] l m 1(6) by auto
  have "\<forall>sp. sp \<noteq> Kernel_Space \<longrightarrow> spaces (vm (tasks s4)) sp = spaces (vm t) sp" using 1(8) 4(4) by simp
  from started_vm [OF 1(7) this] have st4: "started st1 1 (tasks s4)" using 4(4) by simp
  have h4: "heap_ok (vm (tasks s4)) 6 bs f" "page_dir (spaces (vm (tasks s4)) Kernel_Space) = ?dir"
    using page_info_heap [OF 1(9)] 1(11) 4(4) by simp_all
  have "\<forall>j \<in> {1, 1 + 3}. item_list (items (rings st1) (heap_page j)) = 0" using b 1(12) by (simp add: bootable_def)
  from started_lists [OF st4 this] have "kernel_up n ?dir e s4"
    using h4 1(4,5,10,13) 4(3) by (auto simp: kernel_up_def same_driver_def)
  moreover have "screen_of (terminal s4) = start_screen disk p es e ?dir (W t0) (vm (tasks s4))"
  proof -
    have "screen_of (terminal s4) = fold (term_put (W (terminal s)) (H (terminal s)) (text_attr (terminal s)))
      (greeting disk p es ?dir ?n @ kernel_memory ?dir (vm (tasks s4))) (screen_of (terminal s))" using 4(6) by (simp only: wrote_def)
    moreover have "H t0 = 25" by (simp add: t0 boot_terminal_def)
    ultimately show ?thesis using cl(2-5) unfolding 1(2) start_screen_def by simp
  qed
  moreover have "same_tty t0 (terminal s4)"
    using same_tty_trans [OF cl(9)] 4(6) unfolding 1(2) wrote_def by blast
  moreover have "interrupts_up (irq_handlers b) s4" "\<exists>es. io_log s4 = io_log st @ es \<and> writes_to device_ports es = pic_writes @ start_session"
    using 1(15,16) 4(7) by (simp_all add: same_set_up_def interrupts_up_def)
  ultimately show ?thesis using 1(1,3,12,14) 4(1,2,5) st4
    by (intro exI [of _ s4] exI [of _ st1] conjI) simp_all
qed


section \<open>Room for a program\<close>

text \<open>\<open>program_room n st\<close>: the kernel runs with its process and thread, \<open>n\<close> frames are free, and the pages that the objects of a
  program get are clear where it matters.\<close>

definition program_room :: "nat \<Rightarrow> task_state \<Rightarrow> bool" where
  "program_room n st \<longleftrightarrow> (\<exists>bs f. heap_ok (vm st) 6 bs f \<and> n \<le> total_pages bs \<and> in_use bs (kernel_page_dir st)) \<and>
     list_holds (rings st) process_list [heap_page 1] \<and> list_holds (rings st) thread_list [heap_page 4] \<and>
     current_thread st = heap_page 4 \<and> multitasking_enabled st \<and>
     (\<forall>j \<in> {6, 8}. item_list (items (rings st) (heap_page j)) = 0) \<and> \<not> as_mutex (spaces (vm st) (Space_At (heap_page 6)))"

lemma start_room:
  assumes b: "bootable n mc b e st" and m: "memory_map_ok es e z" and t: "t0 = boot_terminal (terminal st)"
    and a: "map_at (st\<lparr>terminal := t0\<rparr>) p (es @ [z])" and pr: "printable mc L t0" and l: "start_texts \<subseteq> L"
    and n: "r + 8 \<le> unat (frames e)" and clear: "\<forall>j \<in> {6, 8}. item_list (items (rings (tasks st)) (heap_page j)) = 0"
      "\<not> as_mutex (spaces (vm (tasks st)) (Space_At (heap_page 6)))"
  shows "\<exists>st'. start_kernel mc b disk p st = Some st' \<and> program_room r (tasks st') \<and> printable mc L (terminal st') \<and>
    same_tty t0 (terminal st') \<and> keys st' = keys st \<and> ready n st'"
proof -
  from start_run [OF b m t a pr l] obtain st' st1 where
    1: "start_kernel mc b disk p st = Some st'" "kernel_up n (boot_cr3 b) e st'" "started st1 1 (tasks st')" "rings st1 = rings (tasks st)"
    "\<forall>sp. sp \<noteq> Kernel_Space \<longrightarrow> spaces (vm st1) sp = spaces (vm (tasks st)) sp" "printable mc L (terminal st')"
    "same_tty t0 (terminal st')" "keys st' = keys st" by blast
  obtain bs f where h: "heap_ok (vm (tasks st')) 6 bs f" "unat (frames e) = total_pages bs + 8"
    "page_dir (spaces (vm (tasks st')) Kernel_Space) = kernel_page_dir (tasks st')" using 1(2) by (auto simp: kernel_up_def)
  have "\<exists>bs f. heap_ok (vm (tasks st')) 6 bs f \<and> r \<le> total_pages bs \<and> in_use bs (kernel_page_dir (tasks st'))"
    using n h heap_ok_use [OF h(1)] by (intro exI [of _ bs] exI [of _ f]) simp
  then have "program_room r (tasks st')"
    using 1(2) started_others [OF 1(3), of 6] started_others [OF 1(3), of 8] clear 1(4,5) by (simp add: program_room_def kernel_up_def)
  then show ?thesis using 1(1,2,6-8) by (auto simp: kernel_up_def)
qed

text \<open>From the boot loader to a program: when sixteen frames are usable and the pages that the objects get are clear
  where it matters, a program that is started in the kernel as \<open>start_kernel\<close> leaves it is entered at the next switch
  of tasks.\<close>

theorem kernel_enters_program:
  assumes b: "bootable n mc b e st" and m: "memory_map_ok es e z" and t: "t0 = boot_terminal (terminal st)"
    and a: "map_at (st\<lparr>terminal := t0\<rparr>) p (es @ [z])" and pr: "printable mc L t0" and l: "start_texts \<subseteq> L"
    and n: "16 \<le> unat (frames e)" and clear: "\<forall>j \<in> {6, 8}. item_list (items (rings (tasks st)) (heap_page j)) = 0"
      "\<not> as_mutex (spaces (vm (tasks st)) (Space_At (heap_page 6)))"
  shows "\<exists>st'. start_kernel mc b disk p st = Some st' \<and> entered start name regs esp 1 6 (tasks st')"
proof -
  have "8 + 8 \<le> unat (frames e)" using n by simp
  from start_room [OF b m t a pr l this clear] obtain st' where
    1: "start_kernel mc b disk p st = Some st'" "program_room 8 (tasks st')" by blast
  then obtain bs f where h: "heap_ok (vm (tasks st')) 6 bs f" "1 + 4 \<le> (6 :: nat)" "6 + 3 \<le> (340 :: nat)" "8 \<le> total_pages bs"
    "in_use bs (kernel_page_dir (tasks st'))" by (auto simp: program_room_def)
  have l: "list_holds (rings (tasks st')) process_list [heap_page 1]" "list_holds (rings (tasks st')) thread_list [heap_page (1 + 3)]"
    "current_thread (tasks st') = heap_page (1 + 3)" "multitasking_enabled (tasks st')"
    "item_list (items (rings (tasks st')) (heap_page 6)) = 0" "item_list (items (rings (tasks st')) (heap_page (6 + 2))) = 0"
    "\<not> as_mutex (spaces (vm (tasks st')) (Space_At (heap_page 6)))" using 1(2) by (simp_all add: program_room_def)
  from first_program [OF h l] 1(1) show ?thesis unfolding entered_def by blast
qed

text \<open>C38: From the boot loader to the files of the diskette: \<open>kernel_main\<close> starts the kernel, shows its greeting, takes
  the line that is typed, here the command for the files, and shows the diskette's.\<close>

theorem kernel_main_lists:
  assumes b: "bootable (length hs + 1) mc b e st" and m: "memory_map_ok es e z" and t: "t0 = boot_terminal (terminal st)"
    and a: "map_at (st\<lparr>terminal := t0\<rparr>) p (es @ [z])" and pr: "printable mc L t0" and l: "start_texts \<union> shell_texts \<subseteq> L"
    and d: "directory mc i hs (chars ''ls'')" and pl: "line_place mc L t0" and ks: "keys_type (keys st) sched 255 (chars ''ls'')"
  shows "\<exists>st0 sched' st1 st'. start_kernel mc b disk p st = Some st0 \<and>
    screen_of (terminal st0) = start_screen disk p es e (boot_cr3 b) (W t0) (vm (tasks st0)) \<and>
    line_read mc L (chars ''ls'') st0 st1 \<and> kernel_main 1 mc b disk p i (sched, st) = Some (sched', st') \<and>
    screen_of (terminal st') = fold (term_put (W t0) 25 (text_attr (terminal st1))) (listing hs) (screen_of (terminal st1))"
proof -
  have l': "start_texts \<subseteq> L" "shell_words \<subseteq> L" "shell_texts \<subseteq> L" using l by (auto simp: shell_texts_def)
  from start_run [OF b m t a pr l'(1)] obtain st0 where
    1: "start_kernel mc b disk p st = Some st0" "kernel_up (length hs + 1) (boot_cr3 b) e st0" "printable mc L (terminal st0)"
    "screen_of (terminal st0) = start_screen disk p es e (boot_cr3 b) (W t0) (vm (tasks st0))" "keys st0 = keys st"
    "same_tty t0 (terminal st0)" by blast
  have o: "off_screen (terminal st0) = off_screen t0" "busy (terminal st0) = busy t0"
    using same_ttyD(2) [OF 1(6)] 1(6) by (simp_all add: same_tty_def busy_def num_bytes_def)
  have pl': "line_place mc L (terminal st0)" using pl by (simp add: line_place_def readable_def o)
  have r: "ready (length hs + Suc 0) st0" and ks': "keys_type (keys st0) sched 255 (chars ''ls'')"
    using 1(2,5) ks by (simp_all add: kernel_up_def)
  obtain sched' st1 where 2: "line_read mc L (chars ''ls'') st0 st1"
    "shell_command mc b (ucast i) (sched, st0) = map_option (Pair sched') (show_files mc (ucast i) st1)"
    using shell_run [OF d 1(3) l'(2) pl' ks' r, of b] by auto
  have "printable mc shell_texts (terminal st1)" using 2(1) l'(3) by (auto simp: line_read_def printable_def)
  moreover have "ready (length hs) st1" using line_read_fields(2) [OF 2(1)] r by (simp add: ready_def)
  ultimately obtain st' where 3: "show_files mc (ucast i) st1 = Some st'" "displays (listing hs) st1 st'"
    using ls_run [OF d] by blast
  have "W (terminal st1) = W t0" "H (terminal st1) = 25"
    using 2(1) 1(6) t by (simp_all add: line_read_def same_tty_def boot_terminal_def)
  then have "screen_of (terminal st') = fold (term_put (W t0) 25 (text_attr (terminal st1))) (listing hs) (screen_of (terminal st1))"
    using displays_screen [OF 3(2)] by simp
  moreover have "kernel_main 1 mc b disk p i (sched, st) = Some (sched', st')"
    using 1(1) 2(2) 3(1) by (simp add: kernel_main_def)
  ultimately show ?thesis using 1(1,4) 2(1) by blast
qed

section \<open>A machine with two megabytes\<close>

definition demo_entries :: "memory_map_entry list" where
  "demo_entries = [memory_map_entry.make 0 0x9FC00 1, memory_map_entry.make 0x100000 0x100000 1]"

abbreviation demo_usable :: memory_map_entry where "demo_usable \<equiv> demo_entries ! 1"
abbreviation demo_end :: memory_map_entry where "demo_end \<equiv> memory_map_entry.make 0 0 0"

lemma demo_entries_ok: "memory_map_ok demo_entries demo_usable demo_end"
  by (simp add: memory_map_ok_def demo_entries_def memory_map_entry.defs usable_def first_frame_def frames_def range_ok_def aligned_def page_of_def
    drop_bit_eq_div)

text \<open>What is shown when a program starts.\<close>

definition run_texts :: "string set" where
  "run_texts = {''%s starting...'' @ newline, ''%s have started.'' @ newline}"

definition start_list :: "string list" where
  "start_list = [''Welcome to C4 OS!'' @ newline @ newline, ''Boot disk id ------- %d'' @ newline,
     ''Memory map --------- 0x%x'' @ newline @ newline, region_format, ''kernel_page_dir = 0x%x'' @ newline,
     ''memory_size = %d MB'' @ newline, ''get_page_info(kernel_page_dir, 0xB8000) = 0x%x'' @ newline @ newline, block_format]
     @ memory_types @ shell_list @ [''%s have started.'' @ newline]"

text \<open>The width of the screen at \<open>0x44A\<close>, the texts from \<open>0x4000\<close> on and the memory map at \<open>0x6000\<close>.\<close>

definition start_memory :: mem where
  "start_memory = (\<lambda>x. let k = unat x; n = (k - 0x4000) div 64
     in if 0x4000 \<le> k \<and> k < 0x5000 then
          (if n < length start_list \<and> (k - 0x4000) mod 64 < length (start_list ! n) then of_char (start_list ! n ! ((k - 0x4000) mod 64)) else 0)
        else if k = 0x44A then 80 else if k = 0x6009 then 0xFC else if k = 0x600A then 9 else if k \<in> {0x6010, 0x6028} then 1
        else if k \<in> {0x601A, 0x6022} then 0x10 else 0)"

definition start_literal :: "string \<Rightarrow> u32" where
  "start_literal s = of_nat (0x4000 + 64 * length (takeWhile (\<lambda>t. t \<noteq> s) start_list))"

definition start_board :: hardware where
  "start_board = \<lparr>port_value = (\<lambda>log port. if port = 0x3F4 then 0x80
       else let bs = rev (map snd (writes_to {0x3f5} log)) @ [0, 0, 0, 0] in if bs ! 2 = 7 \<and> bs ! 3 = 32 then 0 else bs ! 1),
     raises_irq = (\<lambda>log. True), timer_ticks = (\<lambda>log k. 1)\<rparr>"

lemma start_board_ok: "responsive start_board" "follows start_board" "recalibrates start_board"
  by (simp_all add: responsive_def follows_def reports_def recalibrates_def commands_def says_cylinder_def start_board_def)

definition start_machine :: machine where
  "start_machine = demo_machine\<lparr>board := start_board, literal := start_literal, line_buffer := 0x4C00\<rparr>"

definition start_info :: boot_info where
  "start_info = \<lparr>layout = \<lparr>KERNEL_CODE_BASE = 0xFFC00000, KERNEL_DATA_BASE = 0xFFC08000, KERNEL_END = 0xFFC0F000\<rparr>,
     boot_cr3 = 0x1000, irq_handlers = (\<lambda>_. 0), int_registers = zero_registers, int_result = 0\<rparr>"

definition start_frames :: phys_mem where
  "start_frames = \<lparr>ram = (\<lambda>b i. if b = 0x1000 then (if i = 0 then 0x2007 else if i = 1023 then 0x3007 else 0) else 0),
     temp_pte = 0, free_page_count = 0, free_ptr = - 1, phys_mutex = False\<rparr>"

definition start_state :: machine_state where
  "start_state = (demo_state [])\<lparr>tasks := Start_Up.demo_kernel\<lparr>vm := demo_heap\<lparr>phys := start_frames\<rparr>\<rparr>,
     terminal := (demo_tty [])\<lparr>tty_mem := start_memory\<rparr>\<rparr>"

definition start_tty :: tty where
  "start_tty = boot_terminal (terminal start_state)"

lemma start_tty_simps [simp]:
  "tty_width start_tty = 80" "tty_height start_tty = 25" "cursor start_tty = 0" "tty_buffer start_tty = 0xFFBFA000"
  "num_buffer start_tty = 0x5000" "tty_mem start_tty = start_memory"
  by (simp_all add: start_tty_def boot_terminal_def start_state_def demo_tty_simps heap_page_def load16_def start_memory_def Let_def)

lemma start_tables: "boot_tables start_frames 0x1000"
proof -
  have "dir_entry start_frames 0x1000 i = (if i = 0 then 0x2007 else if i = 1023 then 0x3007 else 0)" for i
    by (simp add: dir_entry_def start_frames_def page_of_def)
  then show ?thesis
    by (auto simp: boot_tables_def paging_ok_def free_list_def chain_of_def in_use_def free_pages_def aligned_def
      page_of_def present_def ring_def start_frames_def)
qed

lemma start_bootable: "n \<le> 1000 \<Longrightarrow> bootable n start_machine start_info demo_usable start_state"
proof -
  assume "n \<le> 1000"
  then show ?thesis
    using start_tables start_board_ok demo_kernel_fields(3,4)
    by (simp add: bootable_def start_state_def start_info_def start_machine_def layout_ok_def demo_entries_def memory_map_entry.defs frames_def drop_bit_eq_div
      demo_heap_def)
qed

lemma start_busy: "x \<in> busy start_tty \<longleftrightarrow> unat (x - 0x5000) < 65 \<or> unat (x - 0x20000) < 512"
  by (auto simp: busy_def num_bytes_def off_buffer_def)

lemma low_off_screen: "unat (x :: u32) < 0x80000 \<Longrightarrow> off_screen start_tty x"
  using below [of x "0xFFBFA000"] by (simp add: off_screen_def)

lemma low_readable:
  assumes "k < 0x5000 \<or> 0x6000 \<le> k \<and> k < 0x20000"
  shows "readable (busy start_tty) start_tty (of_nat k)"
proof -
  have u: "unat (of_nat k :: u32) = k" using assms by (intro unat_of_nat32) auto
  have "\<not> unat (of_nat k - 0x5000 :: u32) < 65"
    using below [of "of_nat k" "0x5000"] above [of "0x5000" "of_nat k"] u assms by auto
  moreover have "\<not> unat (of_nat k - 0x20000 :: u32) < 512"
    using below [of "of_nat k" "0x20000"] u assms by auto
  moreover have "off_screen start_tty (of_nat k)" using u assms by (intro low_off_screen) auto
  ultimately show ?thesis by (simp add: readable_def start_busy)
qed

lemma start_list_short: "length start_list = 31" "\<forall>s \<in> set start_list. length s < 64 \<and> 0 \<notin> set (chars s)"
  using shell_list_short by (auto simp: start_list_def shell_list_length memory_types_def region_format_def block_format_def)

lemma start_slot:
  assumes "s \<in> set start_list"
  shows "\<exists>n < 31. start_literal s = of_nat (0x4000 + 64 * n) \<and> start_list ! n = s"
  using slot_index [OF assms] start_list_short(1) unfolding start_literal_def by metis

lemma start_string:
  assumes s: "s \<in> set start_list"
  shows "string_at (busy start_tty) start_tty (start_literal s) (chars s)"
proof -
  obtain n where n: "n < 31" "start_literal s = of_nat (0x4000 + 64 * n)" "start_list ! n = s" using start_slot [OF s] by blast
  have l: "length s < 64" "0 \<notin> set (chars s)" using s start_list_short(2) by auto
  have e: "start_literal s + of_nat k = of_nat (0x4000 + (64 * n + k))" for k unfolding n(2) of_nat_add by (simp only: add.assoc)
  have m: "start_memory (start_literal s + of_nat k) = (if k < length s then of_char (s ! k) else 0)" if "k < 64" for k
  proof -
    have "unat (of_nat (0x4000 + (64 * n + k)) :: u32) = 0x4000 + (64 * n + k)" using that n(1) by (intro unat_of_nat32) simp
    moreover have "(64 * n + k) div 64 = n" "(64 * n + k) mod 64 = k" using that by simp_all
    ultimately show ?thesis unfolding e start_memory_def Let_def using that n by (simp add: start_list_short(1))
  qed
  have "cstr start_memory (start_literal s) (chars s)" unfolding cstr_nth using m l by simp
  moreover have "readable (busy start_tty) start_tty (start_literal s + of_nat k)" if "k \<le> length s" for k
    unfolding e using that l(1) n(1) by (intro low_readable) simp
  ultimately show ?thesis by (simp add: string_at_def)
qed

abbreviation kernel_texts :: "string set" where
  "kernel_texts \<equiv> start_texts \<union> shell_texts \<union> run_texts"

lemma start_list_set: "set start_list = kernel_texts"
proof -
  have "newline \<in> shell_texts" "''%s starting...'' @ newline \<in> shell_texts" by (simp_all add: shell_texts_def listing_texts_def)
  then show ?thesis unfolding start_list_def start_texts_def run_texts_def set_append shell_list_set by auto
qed

lemma start_printable: "printable start_machine kernel_texts start_tty"
proof -
  have u: "unat x = 0x5000 + unat (x - 0x5000)" if "unat (x - 0x5000) < 65" for x :: u32 using above [of "0x5000" x] that by simp
  have v: "unat x = 0x20000 + unat (x - 0x20000)" if "unat (x - 0x20000) < 512" for x :: u32 using above [of "0x20000" x] that by simp
  have "unat x < 0x80000" if "x \<in> busy start_tty" for x
    using u [of x] v [of x] that unfolding start_busy by linarith
  then have "\<forall>x \<in> busy start_tty. off_screen start_tty x" by (simp add: low_off_screen)
  moreover have "off_buffer x" if "unat (x - 0x5000) < 65" for x :: u32
    using u [OF that] that below [of x "0x20000"] by (simp add: off_buffer_def)
  then have "num_bytes start_tty \<subseteq> Collect off_buffer" by (auto simp: num_bytes_def)
  moreover have "tty_ok start_tty" by (simp add: tty_ok_def dims_ok_def)
  moreover have "\<forall>s \<in> kernel_texts. string_at (busy start_tty) start_tty (literal start_machine s) (chars s)"
    using start_string unfolding start_list_set by (simp add: start_machine_def)
  ultimately show ?thesis by (simp add: printable_def)
qed

lemma start_memory_map:
  "0x6000 \<le> unat x \<Longrightarrow> start_memory x = (if unat x = 0x6009 then 0xFC else if unat x = 0x600A then 9
     else if unat x = 0x6010 \<or> unat x = 0x6028 then 1 else if unat x = 0x601A \<or> unat x = 0x6022 then 0x10 else 0)"
  by (simp add: start_memory_def Let_def)

lemma start_entries: "entry_in start_memory 0x6000 = demo_entries ! 0" "entry_in start_memory 0x6018 = demo_entries ! 1"
  "entry_in start_memory 0x6030 = demo_end"
proof -
  have u: "[0..<8] = [0, 1, 2, 3, 4, 5, 6, 7]" "[0..<4] = [0, 1, 2, 3]" by (simp_all add: upt_rec)
  show "entry_in start_memory 0x6000 = demo_entries ! 0" "entry_in start_memory 0x6018 = demo_entries ! 1"
    "entry_in start_memory 0x6030 = demo_end"
    by (simp_all add: entry_in_def uint64_in_def uint32_in_def u start_memory_map demo_entries_def)
qed

lemma start_map: "map_at (start_state\<lparr>terminal := start_tty\<rparr>) 0x6000 (demo_entries @ [demo_end])"
proof -
  have "readable (busy start_tty) start_tty (0x6000 + of_nat i)" if "i < 72" for i
    using low_readable [of "0x6000 + i"] that by simp
  moreover note start_entries
  ultimately show ?thesis
    by (simp add: map_at_def demo_entries_def All_less_Suc numeral_eq_Suc)
qed

lemma start_place: "line_place start_machine kernel_texts start_tty"
proof -
  have "readable (busy start_tty) start_tty x" if "x \<in> buf_bytes 0x4C00 256" for x
  proof -
    have "unat (x - 0x4C00) < 256" using that by (simp add: buf_bytes_def)
    then have "unat x < 0x5000" using above [of "0x4C00" x] by simp
    then show ?thesis using low_readable [of "unat x"] by simp
  qed
  moreover have "start_literal s + of_nat k \<notin> buf_bytes 0x4C00 256" if s: "s \<in> kernel_texts" "k \<le> length s" for s k
  proof -
    have "s \<in> set start_list" using s(1) unfolding start_list_set .
    then obtain n where n: "n < 31" "start_literal s = of_nat (0x4000 + 64 * n)" "k < 64"
      using start_slot start_list_short(2) s(2) by fastforce
    have e: "start_literal s + of_nat k = of_nat (0x4000 + (64 * n + k))" unfolding n(2) of_nat_add by (simp only: add.assoc)
    have u: "unat (of_nat (0x4000 + (64 * n + k)) :: u32) = 0x4000 + (64 * n + k)" using n by (intro unat_of_nat32) simp
    then have "unat (of_nat (0x4000 + (64 * n + k)) - 0x4C00 :: u32) = 2 ^ 32 + (0x4000 + (64 * n + k)) - unat (0x4C00 :: u32)"
      using n by (subst below) simp_all
    then show ?thesis unfolding e buf_bytes_def using n by simp
  qed
  ultimately show ?thesis by (simp add: line_place_def start_machine_def)
qed


theorem kernel_enters_program_witness:
  "\<exists>st'. start_kernel start_machine start_info 0 0x6000 start_state = Some st' \<and>
     entered 0x180000 [116, 0x2E] zero_registers 0 1 6 (tasks st')"
proof -
  have "16 \<le> unat (frames demo_usable)" by (simp add: demo_entries_def memory_map_entry.defs frames_def drop_bit_eq_div)
  moreover have "\<forall>j \<in> {6, 8}. item_list (items (rings (tasks start_state)) (heap_page j)) = 0"
    "\<not> as_mutex (spaces (vm (tasks start_state)) (Space_At (heap_page 6)))"
    using demo_kernel_fields(3,4) by (simp_all add: start_state_def demo_heap_def)
  ultimately show ?thesis
    using kernel_enters_program [OF start_bootable [of 2] demo_entries_ok start_tty_def start_map start_printable, of 0]
    by (simp add: le_supI1)
qed

theorem kernel_main_lists_witness:
  "\<exists>sched' st1 st'. kernel_main 1 start_machine start_info 0 0x6000 2 ([[0x26], [0x1F], [0x1C], []], start_state) = Some (sched', st') \<and>
     screen_of (terminal st') = fold (term_put 80 25 (text_attr (terminal (st1 :: machine_state)))) (listing [demo_header]) (screen_of (terminal st1))"
proof -
  let ?s = "[[0x26], [0x1F], [0x1C], []] :: u8 list list" and ?w = "chars ''ls''"
  have k: "keys start_state = demo_keys" by (simp add: start_state_def demo_state_def Interrupts.demo_kernel_def kernel_state.defs)
  have ks: "keys_type (keys start_state) ?s 255 ?w"
    unfolding k by (rule ls_typed)
  have "stored_name demo_header = [97]" by (simp add: stored_name_def demo_header_def)
  then have d: "directory start_machine 2 [demo_header] ?w"
    using demo_headers start_board_ok
    by (simp add: directory_def data_listed_def start_machine_def demo_machine_def) (simp add: demo_header_def)
  have "bootable (length [demo_header] + 1) start_machine start_info demo_usable start_state" by (rule start_bootable) simp
  from kernel_main_lists [OF this demo_entries_ok start_tty_def start_map start_printable Un_upper1 d start_place ks, of 0]
  show ?thesis by simp blast
qed

end
