(* ===== verification/Kernel_Run.thy ===== *)
theory Kernel_Run
  imports Kernel_Start
begin

text \<open>
  From the boot loader into a program: the kernel starts, the name of a file is typed at its prompt, the
  program is loaded from the diskette and started, and the next switch of tasks enters it.
\<close>

section \<open>The frame of a program\<close>

lemma copy_to_temp_Suc:
  "copy_to_temp (Suc n) m p t = task_wr n (uint32_in m (p + of_nat (4 * n))) (copy_to_temp n m p t)"
  by (simp add: copy_to_temp_def)

lemma copy_only: "only_phys s t \<Longrightarrow> only_phys s (copy_to_temp n m p t)"
  by (induction n) (simp add: copy_to_temp_def, simp only: copy_to_temp_Suc only_phys_into)

lemma copy_ptrs: "free_ptr (ph (copy_to_temp n m p t)) = free_ptr (ph t) \<and>
    free_page_count (ph (copy_to_temp n m p t)) = free_page_count (ph t) \<and> phys_mutex (ph (copy_to_temp n m p t)) = phys_mutex (ph t)"
  by (induction n) (simp add: copy_to_temp_def, simp only: copy_to_temp_Suc task_ptrs)

text \<open>Taking a frame and filling it leaves kernel memory as it is.\<close>

lemma program_frame:
  assumes h: "heap_ok (vm st) k bs f" and n: "0 < total_pages bs"
  shows "\<exists>start t0 bs'. task_alloc_phys 1 st = Some (start, t0) \<and> in_use bs' start \<and> \<not> in_use bs start \<and>
    total_pages bs = total_pages bs' + 1 \<and> free_pages bs' \<subseteq> free_pages bs \<and>
    (\<forall>n m p. only_phys st (copy_to_temp n m p (task_map start t0)) \<and> heap_ok (vm (copy_to_temp n m p (task_map start t0))) k bs' f \<and>
       (\<forall>a. in_use bs a \<longrightarrow> ram (ph (copy_to_temp n m p (task_map start t0))) a = ram (ph st) a))"
proof -
  note u = heap_ok_use [OF h]
  obtain start t0 bs' where t: "task_alloc_phys 1 st = Some (start, t0)" "free_list (ph t0) bs'" "free_pages bs' \<subseteq> free_pages bs"
    "\<forall>a. in_use bs a \<longrightarrow> ram (ph t0) a = ram (ph st) a" "in_use bs' start" "\<not> in_use bs start" "total_pages bs = total_pages bs' + 1"
    using task_alloc_frame [OF conjunct1 [OF u] n] by blast
  have "only_phys st (copy_to_temp n m p (task_map start t0)) \<and> heap_ok (vm (copy_to_temp n m p (task_map start t0))) k bs' f \<and>
      (\<forall>a. in_use bs a \<longrightarrow> ram (ph (copy_to_temp n m p (task_map start t0))) a = ram (ph st) a)" for n m p
  proof -
    let ?t = "copy_to_temp n m p (task_map start t0)"
    have o: "only_phys st ?t" by (rule copy_only [OF only_phys_into(1) [OF only_phys_into(4) [OF only_phys_refl t(1)]]])
    then obtain q where q: "?t = st\<lparr>vm := (vm st)\<lparr>phys := q\<rparr>\<rparr>" by (auto simp: only_phys_def)
    have r: "ram (ph ?t) a = ram (ph t0) a" if "a \<noteq> start" for a
      using that copy_to_temp_result [of n m p "task_map start t0"] in_use_page [OF t(5)] by (simp add: task_map_def)
    have "free_list (ph ?t) bs'"
      by (rule free_list_in_use [OF t(2,5)]) (simp_all add: r copy_ptrs)
    moreover have d: "in_use bs (page_dir (spaces (vm st) Kernel_Space))" using u by simp
    then have "page_dir (spaces (vm st) Kernel_Space) \<noteq> start" using t(6) by blast
    with d have "ram (ph ?t) (page_dir (spaces (vm st) Kernel_Space)) = ram (ph st) (page_dir (spaces (vm st) Kernel_Space))"
      using r t(4) by simp
    ultimately have "heap_ok ((vm st)\<lparr>phys := q\<rparr>) k bs' f" using q by (intro heap_ok_phys [OF h _ t(3)]) simp_all
    moreover have "ram (ph ?t) a = ram (ph st) a" if "in_use bs a" for a
    proof -
      have "a \<noteq> start" using that t(6) by blast
      then show ?thesis using r t(4) that by simp
    qed
    ultimately show ?thesis using o q by simp
  qed
  then show ?thesis using t by blast
qed

section \<open>The command\<close>

lemma load_program:
  assumes "program_room 9 st"
  shows "\<exists>start t0. task_alloc_phys 1 st = Some (start, t0) \<and> page_of start = start \<and>
    (\<forall>n m p. \<exists>t'. run_image start name (copy_to_temp n m p (task_map start t0)) = Some t' \<and> enters start regs esp 1 6 t' \<and>
       ram (ph t') start = ram (ph (copy_to_temp n m p (task_map start t0))) start)"
proof -
  obtain bs f where h: "heap_ok (vm st) 6 bs f" "9 \<le> total_pages bs" "in_use bs (kernel_page_dir st)"
    using assms by (auto simp: program_room_def)
  have "0 < total_pages bs" using h(2) by simp
  from program_frame [OF h(1) this] obtain start t0 bs' where
    t: "task_alloc_phys 1 st = Some (start, t0)" "in_use bs' start" "\<not> in_use bs start" "total_pages bs = total_pages bs' + 1"
    "free_pages bs' \<subseteq> free_pages bs"
    "\<forall>n m p. only_phys st (copy_to_temp n m p (task_map start t0)) \<and> heap_ok (vm (copy_to_temp n m p (task_map start t0))) 6 bs' f" by blast
  have "start \<noteq> f" using t(3) heap_ok_use [OF h(1)] by auto
  moreover have "\<exists>t'. run_image start name (copy_to_temp n m p (task_map start t0)) = Some t' \<and> enters start regs esp 1 6 t' \<and>
     (\<forall>a. in_use bs' a \<and> a \<noteq> f \<longrightarrow> ram (ph t') a = ram (ph (copy_to_temp n m p (task_map start t0))) a)" for n m p
  proof -
    let ?t = "copy_to_temp n m p (task_map start t0)"
    obtain q where q: "?t = st\<lparr>vm := (vm st)\<lparr>phys := q\<rparr>\<rparr>" using t(6) unfolding only_phys_def by blast
    have h': "heap_ok (vm ?t) 6 bs' f" "1 + 4 \<le> (6 :: nat)" "6 + 3 \<le> (340 :: nat)" "8 \<le> total_pages bs'" using t(4,6) h(2) by simp_all
    have f: "in_use bs' (kernel_page_dir ?t)" "list_holds (rings ?t) process_list [heap_page 1]"
      "list_holds (rings ?t) thread_list [heap_page (1 + 3)]" "current_thread ?t = heap_page (1 + 3)" "multitasking_enabled ?t"
      "item_list (items (rings ?t) (heap_page 6)) = 0" "item_list (items (rings ?t) (heap_page (6 + 2))) = 0"
      "\<not> as_mutex (spaces (vm ?t) (Space_At (heap_page 6)))"
      using assms in_use_mono [OF h(3) t(5)] unfolding q program_room_def by simp_all
    from first_program [OF h' f, of start name regs esp] show ?thesis .
  qed
  ultimately show ?thesis using t(1,2) in_use_page [OF t(2)] by blast
qed

text \<open>The sector \<open>n\<close> of the diskette is in the frame \<open>a\<close>, from its start on; for a program it is
  \<^const>\<open>data_sector\<close>, the last one its block list names.\<close>

definition sector_in_frame :: "(nat \<Rightarrow> u8) \<Rightarrow> nat \<Rightarrow> phys_mem \<Rightarrow> u32 \<Rightarrow> bool" where
  "sector_in_frame img n p a \<longleftrightarrow> (\<forall>k < 128. ram p a k = le_word (take 4 (drop (4 * k) (block 512 img n))))"

text \<open>The command around \<^verbatim>\<open>run_image\<close>: what holds of the tasks after it holds after the command, and the frame
  has the sector that was read.\<close>

lemma run_around:
  assumes d: "directory mc i hs w" and ds: "unat (data_sector (diskette mc) w hs) < 2880"
    and p: "printable mc L (terminal st)" and l: "run_texts \<subseteq> L"
    and s: "string_at (busy (terminal st)) (terminal st) a w" "length w < 255" and r: "ready (length hs + 2) st"
    and al: "task_alloc_phys 1 (tasks st) = Some (start, t0)" "page_of start = start"
    and im: "\<forall>n m p. \<exists>t'. run_image start w (copy_to_temp n m p (task_map start t0)) = Some t' \<and> Q t' \<and>
       ram (ph t') start = ram (ph (copy_to_temp n m p (task_map start t0))) start"
  shows "\<exists>st'. run_new_process mc (ucast i) a st = Some st' \<and> Q (tasks st') \<and>
    sector_in_frame (diskette mc) (unat (data_sector (diskette mc) w hs)) (ph (tasks st')) start \<and> keys st' = keys st \<and>
    wrote (busy (terminal st)) (w @ chars '' starting...'' @ [10] @ w @ chars '' have started.'' @ [10]) (terminal st) (terminal st')"
proof -
  have L: "''%s starting...'' @ newline \<in> L" "''%s have started.'' @ newline \<in> L" using l by (simp_all add: run_texts_def)
  have d': "responsive (board mc)" "follows (board mc)" "headers_at 2880 (diskette mc) i hs" "hs \<noteq> []"
    "\<forall>h \<in> set hs. 0 \<in> set (fh_name h)" "data_listed (diskette mc) w hs" using d by (simp_all add: directory_def)
  from run_new_process_run [OF d' ds p L(1) s r al(1)] obtain s1 m where
    2: "displays (w @ chars '' starting...'' @ [10]) st s1"
    "memory_of s1 = load_sector (diskette mc) (unat (data_sector (diskette mc) w hs)) 0x20000 m"
    "run_new_process mc (ucast i) a st = Option.bind (run_image start w (copy_to_temp 128 (memory_of s1) 0x20000 (task_map start t0)))
      (\<lambda>t'. print mc (''%s have started.'' @ newline) [a] (s1\<lparr>tasks := t'\<rparr>))" by blast
  obtain t' where 3: "run_image start w (copy_to_temp 128 (memory_of s1) 0x20000 (task_map start t0)) = Some t'" "Q t'"
    "ram (ph t') start = ram (ph (copy_to_temp 128 (memory_of s1) 0x20000 (task_map start t0))) start" using im by blast
  have w1: "wrote (busy (terminal st)) (w @ chars '' starting...'' @ [10]) (terminal st) (terminal s1)" using 2(1) by (simp add: displays_def)
  have p1: "printable mc L (terminal (s1\<lparr>tasks := t'\<rparr>))" using displays_printable [OF p 2(1)] by simp
  have "string_at (busy (terminal s1)) (terminal s1) a w" using string_at_wrote [OF w1 s(1)] wrote_same [OF w1] by simp
  then have "string_at (num_bytes (terminal s1)) (terminal s1) a w" by (rule string_at_mono) (simp add: busy_def)
  then have "renders (string_at (num_bytes (terminal s1)) (terminal s1)) (chars (''%s'' @ '' have started.'' @ newline)) [a]
      (w @ chars ('' have started.'' @ newline))" by (intro renders_named) simp_all
  with print_run [OF p1 L(2), of "[a]" "w @ chars ('' have started.'' @ newline)"] obtain s2 where
    4: "print mc (''%s have started.'' @ newline) [a] (s1\<lparr>tasks := t'\<rparr>) = Some s2"
    "displays (w @ chars ('' have started.'' @ newline)) (s1\<lparr>tasks := t'\<rparr>) s2" by auto
  have t2: "tasks s2 = t'" "keys s2 = keys st" using 4(2) 2(1) by (simp_all add: displays_def)
  have "wrote (busy (terminal st)) (w @ chars '' have started.'' @ [10]) (terminal s1) (terminal s2)"
    using 4(2) wrote_same [OF w1] by (simp add: displays_def)
  from wrote_append [OF w1 this]
  have "wrote (busy (terminal st)) (w @ chars '' starting...'' @ [10] @ w @ chars '' have started.'' @ [10]) (terminal st) (terminal s2)" by simp
  moreover have "sector_in_frame (diskette mc) (unat (data_sector (diskette mc) w hs)) (ph t') start"
    unfolding sector_in_frame_def 3(3) using program_words [OF 2(2) al(2)] by blast
  moreover have "run_new_process mc (ucast i) a st = Some s2" using 2(3) 3(1) 4(1) by simp
  ultimately show ?thesis using 3(2) t2 by blast
qed

lemma run_command:
  assumes d: "directory mc i hs w" and ds: "unat (data_sector (diskette mc) w hs) < 2880"
    and p: "printable mc L (terminal st)" and l: "run_texts \<subseteq> L"
    and s: "string_at (busy (terminal st)) (terminal st) a w" "length w < 255"
    and r: "ready (length hs + 2) st" and room: "program_room 9 (tasks st)"
  shows "\<exists>start st'. run_new_process mc (ucast i) a st = Some st' \<and> enters start regs esp 1 6 (tasks st') \<and>
    sector_in_frame (diskette mc) (unat (data_sector (diskette mc) w hs)) (ph (tasks st')) start \<and>
    wrote (busy (terminal st)) (w @ chars '' starting...'' @ [10] @ w @ chars '' have started.'' @ [10]) (terminal st) (terminal st')"
proof -
  from load_program [OF room, of w regs esp] obtain start t0 where
    1: "task_alloc_phys 1 (tasks st) = Some (start, t0)" "page_of start = start"
    "\<forall>n m p. \<exists>t'. run_image start w (copy_to_temp n m p (task_map start t0)) = Some t' \<and> enters start regs esp 1 6 t' \<and>
       ram (ph t') start = ram (ph (copy_to_temp n m p (task_map start t0))) start" by blast
  show ?thesis using run_around [OF d ds p l s r 1] by blast
qed

section \<open>The program as made\<close>





section \<open>From the boot loader into the program\<close>

text \<open>C2: From the boot loader into a program: the kernel starts, the name of a file of the diskette is typed at its
  prompt, and the shell says that the program starts and has started.  The next switch of tasks then
  enters the program at \<open>0x100000\<close>, where its page directory has the frame that holds, from its start
  on, the last listed sector of the file's data: a file of at most 512 bytes as a whole, and of a longer one
  only its end, as no other sector is loaded.\<close>

theorem kernel_main_runs:
  assumes b: "bootable (2 * length hs + 3) mc b e st" and m: "memory_map_ok es e z" and t: "t0 = boot_terminal (terminal st)"
    and a: "map_at (st\<lparr>terminal := t0\<rparr>) p (es @ [z])" and pr: "printable mc L t0" and l: "start_texts \<union> shell_texts \<union> run_texts \<subseteq> L"
    and d: "directory mc i hs w" and pl: "line_place mc L t0" and ks: "keys_type (keys st) sched 255 w"
    and w: "w \<notin> {chars ''read'', chars ''ticks'', chars ''ps'', chars ''ls''}" "length w < 255"
    and ds: "data_sector (diskette mc) w hs \<noteq> - 1" "unat (data_sector (diskette mc) w hs) < 2880"
    and n: "17 \<le> unat (frames e)" and clear: "\<forall>j \<in> {6, 8}. item_list (items (rings (tasks st)) (heap_page j)) = 0"
      "\<not> as_mutex (spaces (vm (tasks st)) (Space_At (heap_page 6)))"
  shows "\<exists>st0 sched' st1 start st'. start_kernel mc b disk p st = Some st0 \<and> line_read mc L w st0 st1 \<and>
    kernel_main 1 mc b disk p i (sched, st) = Some (sched', st') \<and> enters start regs esp 1 6 (tasks st') \<and>
    sector_in_frame (diskette mc) (unat (data_sector (diskette mc) w hs)) (ph (tasks st')) start \<and>
    screen_of (terminal st') = fold (term_put (W t0) 25 (text_attr (terminal st1)))
      (w @ chars '' starting...'' @ [10] @ w @ chars '' have started.'' @ [10]) (screen_of (terminal st1))"
proof -
  have l': "start_texts \<subseteq> L" "shell_words \<subseteq> L" "run_texts \<subseteq> L" using l by (auto simp: shell_texts_def)
  have "9 + 8 \<le> unat (frames e)" using n by simp
  from start_room [OF b m t a pr l'(1) this clear] obtain st0 where
    1: "start_kernel mc b disk p st = Some st0" "program_room 9 (tasks st0)" "printable mc L (terminal st0)" "same_tty t0 (terminal st0)"
    "keys st0 = keys st" "ready (2 * length hs + 3) st0" by blast
  have o: "off_screen (terminal st0) = off_screen t0" "busy (terminal st0) = busy t0"
    using same_ttyD(2) [OF 1(4)] 1(4) by (simp_all add: same_tty_def busy_def num_bytes_def)
  have pl': "line_place mc L (terminal st0)" using pl by (simp add: line_place_def readable_def o)
  have "2 * length hs + 3 = length hs + Suc (length hs + 2)" by simp
  with 1(6) have r: "ready (length hs + Suc (length hs + 2)) st0" by (simp only:)
  have ks': "keys_type (keys st0) sched 255 w" unfolding 1(5) by (rule ks)
  obtain sched' st1 st2 where 2: "line_read mc L w st0 st1" "displays [] st1 st2" "ready (length hs + 2) st2"
    "shell_command mc b (ucast i) (sched, st0) = map_option (Pair sched') (run_new_process mc (ucast i) (line_buffer mc) st2)"
    using shell_run [OF d 1(3) l'(2) pl' ks' r, of b] w(1) ds(1) by auto
  have p1: "printable mc L (terminal st1)" "string_at (busy (terminal st1)) (terminal st1) (line_buffer mc) w"
    and w2: "wrote (busy (terminal st1)) [] (terminal st1) (terminal st2)" using 2(1,2) by (simp_all add: line_read_def displays_def)
  have p2: "printable mc L (terminal st2)" by (rule displays_printable [OF p1(1) 2(2)])
  have s2: "string_at (busy (terminal st2)) (terminal st2) (line_buffer mc) w" using string_at_wrote [OF w2 p1(2)] wrote_same [OF w2] by simp
  have "tasks st2 = tasks st0" using 2(2) line_read_fields(1) [OF 2(1)] by (simp add: displays_def)
  then have room: "program_room 9 (tasks st2)" using 1(2) by simp
  from run_command [OF d ds(2) p2 l'(3) s2 w(2) 2(3) room, of regs esp] obtain start st' where
    3: "run_new_process mc (ucast i) (line_buffer mc) st2 = Some st'" "enters start regs esp 1 6 (tasks st')"
    "sector_in_frame (diskette mc) (unat (data_sector (diskette mc) w hs)) (ph (tasks st')) start"
    "wrote (busy (terminal st2)) (w @ chars '' starting...'' @ [10] @ w @ chars '' have started.'' @ [10]) (terminal st2) (terminal st')" by blast
  have "wrote (busy (terminal st1)) ([] @ w @ chars '' starting...'' @ [10] @ w @ chars '' have started.'' @ [10]) (terminal st1) (terminal st')"
    using wrote_append [OF w2] 3(4) wrote_same [OF w2] by simp
  moreover have "W (terminal st1) = W t0" "H (terminal st1) = 25"
    using 2(1) 1(4) t by (simp_all add: line_read_def same_tty_def boot_terminal_def)
  ultimately have "screen_of (terminal st') = fold (term_put (W t0) 25 (text_attr (terminal st1)))
      (w @ chars '' starting...'' @ [10] @ w @ chars '' have started.'' @ [10]) (screen_of (terminal st1))" by (simp add: wrote_def)
  moreover have "kernel_main 1 mc b disk p i (sched, st) = Some (sched', st')"
    using 1(1) 2(4) 3(1) by (simp add: kernel_main_def)
  ultimately show ?thesis using 1(1) 2(1) 3(2,3) by blast
qed

section \<open>A program on the diskette\<close>

lemma a_typed: "keys_type demo_keys [[0x1E], [0x1C], []] 255 [97]"
proof -
  have p: "polled 0 [] [[0x1E], [0x1C], [] :: u8 list] = [0x1E, 0x1C, 0]" by simp
  have ty: "Keyboard.typed (shift demo_keys) [0x1E, 0x1C, 0] = [97, 10]"
    by (simp add: demo_keys_def note_shift_def press_def scancode_def scancodes_def scancodes_shifted_def)
  have "\<forall>code \<in> set [0x1E, 0x1C, 0]. known code" by (simp add: known_def press_def)
  then show ?thesis unfolding keys_type_def p using demo_keys_empty ty by (intro exI [of _ "[]"]) (simp add: p)
qed

lemma start_clear:
  "item_list (items (rings (tasks start_state)) a) = 0" "\<not> as_mutex (spaces (vm (tasks start_state)) sp)"
  using demo_kernel_fields(3,4) by (simp_all add: start_state_def demo_heap_def)

lemma demo_directory:
  "data_sector demo_diskette [97] [demo_header] = 4" "data_listed demo_diskette [97] [demo_header]" "0 \<in> set (fh_name demo_header)"
  "take 4 (drop (4 * 0) (block 512 demo_diskette 4)) = [104, 105, 0, 0]"
proof -
  have n: "stored_name demo_header = [97]" by (simp add: stored_name_def demo_header_def)
  have k: "last_block (4 # replicate 63 (- 1)) = 4" by (simp add: last_block_def takeWhile_replicate)
  have d: "fh_data demo_header = 3" by (simp add: demo_header_def)
  show "0 \<in> set (fh_name demo_header)" by (simp add: demo_header_def)
  show "data_listed demo_diskette [97] [demo_header]" "data_sector demo_diskette [97] [demo_header] = 4"
    using n k d by (simp_all add: data_listed_def data_sector_def demo_list)
  show "take 4 (drop (4 * 0) (block 512 demo_diskette 4)) = [104, 105, 0, 0]"
    by (simp add: demo_block demo_sector_def) (simp add: numeral_eq_Suc)
qed

text \<open>\<open>a\<close> and Enter: the file \<open>a\<close>, whose data begin with \<open>hi\<close> in sector 4, is run.\<close>

theorem kernel_main_runs_witness:
  "\<exists>sched' start st'. kernel_main 1 start_machine start_info 0 0x6000 2 ([[0x1E], [0x1C], []], start_state) = Some (sched', st') \<and>
     enters start zero_registers 0 1 6 (tasks st') \<and> ram (ph (tasks st')) start 0 = le_word [104, 105, 0, 0]"
proof -
  let ?h = "[demo_header]" and ?mc = start_machine
  have dk: "diskette ?mc = demo_diskette" by (simp add: start_machine_def demo_machine_def)
  have l: "data_listed (diskette ?mc) [97] ?h" "data_sector (diskette ?mc) [97] ?h = 4" "\<forall>h \<in> set ?h. 0 \<in> set (fh_name h)"
    using demo_directory by (simp_all add: dk)
  then have d: "directory ?mc 2 ?h [97]"
    using demo_headers start_board_ok by (simp add: directory_def dk) (simp add: start_machine_def)
  have ks: "keys_type (keys start_state) [[0x1E], [0x1C], []] 255 [97]"
    using a_typed by (simp add: start_state_def demo_state_def Interrupts.demo_kernel_def kernel_state.defs)
  have b: "bootable (2 * length ?h + 3) ?mc start_info demo_usable start_state" by (rule start_bootable) simp
  have f: "17 \<le> unat (frames demo_usable)" by (simp add: demo_entries_def memory_map_entry.defs frames_def drop_bit_eq_div)
  have w: "[97] \<notin> {chars ''read'', chars ''ticks'', chars ''ps'', chars ''ls''}" "length [97 :: u8] < 255"
    "data_sector (diskette ?mc) [97] ?h \<noteq> - 1" "unat (data_sector (diskette ?mc) [97] ?h) < 2880" by (simp_all add: l(2))
  have c: "\<forall>j \<in> {6, 8}. item_list (items (rings (tasks start_state)) (heap_page j)) = 0" by (simp add: start_clear)
  from kernel_main_runs [OF b demo_entries_ok start_tty_def start_map start_printable subset_refl d start_place ks w f c start_clear(2),
    of 0 zero_registers 0] obtain sched' start st' where
    r: "kernel_main 1 ?mc start_info 0 0x6000 2 ([[0x1E], [0x1C], []], start_state) = Some (sched', st')"
    "enters start zero_registers 0 1 6 (tasks st')" "sector_in_frame (diskette ?mc) (unat (data_sector (diskette ?mc) [97] ?h)) (ph (tasks st')) start"
    by blast
  have "ram (ph (tasks st')) start 0 = le_word [104, 105, 0, 0]"
    using r(3) [unfolded sector_in_frame_def, rule_format, of 0] demo_directory(4) by (simp add: l(2) [unfolded dk] dk)
  then show ?thesis using r(1,2) by blast
qed




end
